(* ===== verification/Pithy_Prelude.thy ===== *)
theory Pithy_Prelude
  imports Main
begin

text \<open>
  What every component shares: JavaScript numbers as far as the code tests them, results that
  are an error or a value, lookups in tables kept as lists of rows, and the scheme by which a
  property of one operation becomes a property of every run of operations.
\<close>

section \<open>Collections of facts\<close>

named_theorems wf_intros
  \<open>introduction rules for the well-formedness invariants of the components\<close>
named_theorems op_defs
  \<open>definitions of the operations, unfolded by the functional lemmas\<close>

section \<open>Identifiers and numbers of the source\<close>

type_synonym user_id = string
type_synonym currency = string
type_synonym ref = string
type_synonym millis = int

text \<open>
  A JavaScript number that the code tests with \<open>Number.isInteger\<close>: an integer, or anything for
  which that test is false (a fraction, an infinity, not-a-number).
\<close>

datatype jsnum = JSInt int | JSNonInt

section \<open>Numbers in refs\<close>

text \<open>A number as a template literal prints it.\<close>

definition digit_char :: "nat \<Rightarrow> char" where
  "digit_char d = ''0123456789'' ! d"

fun decimal :: "nat \<Rightarrow> string" where
  "decimal n = (if n < 10 then [digit_char n] else decimal (n div 10) @ [digit_char (n mod 10)])"

declare decimal.simps [simp del]

lemma less_ten_cases:
  "d < (10::nat) \<Longrightarrow> d = 0 \<or> d = 1 \<or> d = 2 \<or> d = 3 \<or> d = 4 \<or> d = 5 \<or> d = 6 \<or> d = 7 \<or> d = 8 \<or> d = 9"
  by arith

lemma digit_char_inj: "a < 10 \<Longrightarrow> b < 10 \<Longrightarrow> digit_char a = digit_char b \<Longrightarrow> a = b"
  by (drule less_ten_cases, drule less_ten_cases) (auto simp: digit_char_def)

lemma digit_char_set: "d < 10 \<Longrightarrow> digit_char d \<in> set ''0123456789''"
  by (drule less_ten_cases) (auto simp: digit_char_def)

lemma decimal_nonempty [simp]: "decimal n \<noteq> []" "[] \<noteq> decimal n"
  by (subst decimal.simps, simp)+

lemma decimal_digits: "set (decimal n) \<subseteq> set ''0123456789''"
proof (induction n rule: decimal.induct)
  case (1 n)
  then show ?case
    using digit_char_set [of n] digit_char_set [of "n mod 10"]
    by (subst decimal.simps) (auto split: if_splits)
qed

lemma decimal_inj: "decimal a = decimal b \<Longrightarrow> a = b"
proof (induction a arbitrary: b rule: decimal.induct)
  case (1 a)
  show ?case
  proof (cases "a < 10")
    case True
    then show ?thesis
      using 1(2) digit_char_inj [of a b]
      by (simp add: decimal.simps [of a] decimal.simps [of b] split: if_splits)
  next
    case False
    with 1(2) have b: "\<not> b < 10"
      and eq: "decimal (a div 10) = decimal (b div 10)" "digit_char (a mod 10) = digit_char (b mod 10)"
      by (simp_all add: decimal.simps [of a] decimal.simps [of b] split: if_splits)
    from digit_char_inj [OF _ _ eq(2)] have "a mod 10 = b mod 10" by simp
    with 1(1) [OF False eq(1)] show ?thesis by (metis div_mult_mod_eq)
  qed
qed

text \<open>A run of digits as \<open>Number\<close> reads it.\<close>

definition is_digit :: "char \<Rightarrow> bool" where
  "is_digit c \<longleftrightarrow> c \<in> set ''0123456789''"

definition digit_value :: "char \<Rightarrow> nat" where
  "digit_value c = of_char c - 48"

definition digits_value :: "string \<Rightarrow> nat" where
  "digits_value cs = foldl (\<lambda>n c. 10 * n + digit_value c) 0 cs"

lemma digit_value_char: "d < 10 \<Longrightarrow> digit_value (digit_char d) = d"
  by (drule less_ten_cases) (auto simp: digit_char_def digit_value_def)

lemma digits_value_snoc [simp]: "digits_value (cs @ [c]) = 10 * digits_value cs + digit_value c"
  by (simp add: digits_value_def)

lemma digits_value_decimal [simp]: "digits_value (decimal n) = n"
proof (induction n rule: decimal.induct)
  case (1 n)
  show ?case
  proof (cases "n < 10")
    case True
    then show ?thesis by (simp add: decimal.simps [of n] digits_value_def digit_value_char)
  next
    case False
    then have "decimal n = decimal (n div 10) @ [digit_char (n mod 10)]" by (subst decimal.simps) simp
    with 1 [OF False] show ?thesis by (simp add: digit_value_char)
  qed
qed

lemma digit_value_less: "is_digit c \<Longrightarrow> digit_value c < 10"
  by (auto simp: is_digit_def digit_value_def)

lemma digits_value_bound: "list_all is_digit cs \<Longrightarrow> digits_value cs < 10 ^ length cs"
proof (induction cs rule: rev_induct)
  case (snoc c cs)
  then show ?case using digit_value_less [of c] by simp
qed (simp add: digits_value_def)

lemma decimal_is_digits: "list_all is_digit (decimal n)"
  using decimal_digits [of n] unfolding list_all_iff is_digit_def by blast

lemma decimal_length: "n < 10 ^ k \<Longrightarrow> 0 < k \<Longrightarrow> length (decimal n) \<le> k"
proof (induction n arbitrary: k rule: decimal.induct)
  case (1 n)
  show ?case
  proof (cases "n < 10")
    case True
    then have "length (decimal n) = 1" by (subst decimal.simps) simp
    with 1(3) show ?thesis by simp
  next
    case False
    with 1(2,3) obtain j where k: "k = Suc j" "0 < j" by (cases k; cases "k - 1") auto
    from 1(2) k(1) have "n div 10 < 10 ^ j" by (simp add: div_less_iff_less_mult mult.commute)
    from 1(1) [OF False this k(2)] have "length (decimal (n div 10)) \<le> j" .
    moreover from False have "decimal n = decimal (n div 10) @ [digit_char (n mod 10)]" by (subst decimal.simps) simp
    ultimately show ?thesis using k(1) by simp
  qed
qed

section \<open>Optional values\<close>

definition optional :: "('a \<Rightarrow> bool) \<Rightarrow> 'a option \<Rightarrow> bool" where
  "optional P v = (case v of None \<Rightarrow> True | Some x \<Rightarrow> P x)"

lemma optional_simps [simp]: "optional P None" "optional P (Some x) = P x"
  by (simp_all add: optional_def)

text \<open>\<open>value ?? fallback\<close>.\<close>

definition or_else :: "'a \<Rightarrow> 'a option \<Rightarrow> 'a" where
  "or_else d v = (case v of None \<Rightarrow> d | Some x \<Rightarrow> x)"

lemma or_else_simps [simp]: "or_else x None = x" "or_else x (Some y) = y"
  by (simp_all add: or_else_def)

section \<open>Prefixes, sets and extremes\<close>

definition starts_with :: "string \<Rightarrow> string \<Rightarrow> bool" where
  "starts_with s p \<longleftrightarrow> take (length p) s = p"

lemma starts_with_trans: "starts_with s p \<Longrightarrow> starts_with p q \<Longrightarrow> starts_with s q"
  unfolding starts_with_def by (metis length_take min.cobounded1 min_absorb1 take_take)

lemma starts_with_length: "starts_with s p \<Longrightarrow> length p \<le> length s"
  unfolding starts_with_def by (metis length_take min.cobounded1)

lemma starts_with_append [simp]: "starts_with (p @ s) p"
  by (simp add: starts_with_def)

lemma starts_with_obtain: "starts_with s p \<Longrightarrow> \<exists>rest. s = p @ rest"
  unfolding starts_with_def by (metis append_take_drop_id)

text \<open>A set lists each member once, where it was first added.\<close>

definition firsts :: "'a list \<Rightarrow> 'a list" where
  "firsts xs = rev (remdups (rev xs))"

lemma firsts_set [simp]: "set (firsts xs) = set xs"
  by (simp add: firsts_def)

lemma firsts_distinct [simp]: "distinct (firsts xs)"
  by (simp add: firsts_def)

text \<open>\<open>MIN\<close> and \<open>MAX\<close> over rows, null over none.\<close>

definition least_of :: "'a::linorder list \<Rightarrow> 'a option" where
  "least_of xs = (case xs of [] \<Rightarrow> None | x # rest \<Rightarrow> Some (foldl min x rest))"

definition greatest_of :: "'a::linorder list \<Rightarrow> 'a option" where
  "greatest_of xs = (case xs of [] \<Rightarrow> None | x # rest \<Rightarrow> Some (foldl max x rest))"

lemma foldl_min: "foldl min (x::'a::linorder) xs \<in> insert x (set xs) \<and> (\<forall>y\<in>insert x (set xs). foldl min x xs \<le> y)"
proof (induction xs arbitrary: x)
  case (Cons a xs)
  from Cons [of "min x a"] show ?case by (auto simp: min_def split: if_splits)
qed simp

lemma foldl_max: "foldl max (x::'a::linorder) xs \<in> insert x (set xs) \<and> (\<forall>y\<in>insert x (set xs). y \<le> foldl max x xs)"
proof (induction xs arbitrary: x)
  case (Cons a xs)
  from Cons [of "max x a"] show ?case by (auto simp: max_def split: if_splits)
qed simp

lemma least_of_some: "least_of xs = Some m \<Longrightarrow> m \<in> set xs \<and> (\<forall>y\<in>set xs. m \<le> y)"
  using foldl_min by (auto simp: least_of_def split: list.splits)

lemma greatest_of_some: "greatest_of xs = Some m \<Longrightarrow> m \<in> set xs \<and> (\<forall>y\<in>set xs. y \<le> m)"
  using foldl_max by (auto simp: greatest_of_def split: list.splits)

lemma least_of_none [simp]: "least_of xs = None \<longleftrightarrow> xs = []"
  by (simp add: least_of_def split: list.splits)

lemma greatest_of_none [simp]: "greatest_of xs = None \<longleftrightarrow> xs = []"
  by (simp add: greatest_of_def split: list.splits)

section \<open>Errors as values\<close>

text \<open>
  A call that may throw is a sum: \<open>Inl\<close> is the error thrown, \<open>Inr\<close> the value returned.
  \<open>and_then\<close> is the statement sequence: the first throw ends it.
\<close>

definition and_then :: "'e + 'a \<Rightarrow> ('a \<Rightarrow> 'e + 'b) \<Rightarrow> 'e + 'b" where
  "and_then r f = (case r of Inl e \<Rightarrow> Inl e | Inr x \<Rightarrow> f x)"

lemma and_then_Inl [simp]: "and_then (Inl e) f = Inl e"
  by (simp add: and_then_def)

lemma and_then_Inr [simp]: "and_then (Inr x) f = f x"
  by (simp add: and_then_def)

lemma and_then_eq_Inr: "and_then r f = Inr y \<longleftrightarrow> (\<exists>x. r = Inr x \<and> f x = Inr y)"
  by (cases r) simp_all

lemma and_then_eq_Inl: "and_then r f = Inl e \<longleftrightarrow> r = Inl e \<or> (\<exists>x. r = Inr x \<and> f x = Inl e)"
  by (cases r) simp_all

text \<open>\<open>guard e b\<close> is the code's \<open>if (!b) throw e\<close>.\<close>

definition guard :: "'e \<Rightarrow> bool \<Rightarrow> 'e + unit" where
  "guard e b = (if b then Inr () else Inl e)"

lemma guard_eq_Inr [simp]: "guard e b = Inr u \<longleftrightarrow> b"
  by (simp add: guard_def)

lemma guard_True [simp]: "guard e True = Inr ()"
  by (simp add: guard_def)

lemma guard_False [simp]: "guard e False = Inl e"
  by (simp add: guard_def)

section \<open>Handlers over a world\<close>

text \<open>
  An asynchronous handler reads and writes durable stores and may throw at any step, leaving what
  it already wrote. It is a function of the world to an answer or an error, beside the world as it
  leaves it. \<open>seq\<close> is one \<open>await\<close> after another.
\<close>

type_synonym ('w, 'e, 'a) proc = "'w \<Rightarrow> ('e + 'a) \<times> 'w"

definition give :: "'a \<Rightarrow> ('w, 'e, 'a) proc" where
  "give x = (\<lambda>w. (Inr x, w))"

definition raise :: "'e \<Rightarrow> ('w, 'e, 'a) proc" where
  "raise e = (\<lambda>w. (Inl e, w))"

definition seq :: "('w, 'e, 'a) proc \<Rightarrow> ('a \<Rightarrow> ('w, 'e, 'b) proc) \<Rightarrow> ('w, 'e, 'b) proc" where
  "seq m f = (\<lambda>w. case m w of (Inl e, w') \<Rightarrow> (Inl e, w') | (Inr x, w') \<Rightarrow> f x w')"

definition demand :: "'e \<Rightarrow> bool \<Rightarrow> ('w, 'e, unit) proc" where
  "demand e b = (if b then give () else raise e)"

definition look :: "('w \<Rightarrow> 'a) \<Rightarrow> ('w, 'e, 'a) proc" where
  "look f = (\<lambda>w. (Inr (f w), w))"

definition store :: "('w \<Rightarrow> 'w) \<Rightarrow> ('w, 'e, unit) proc" where
  "store f = (\<lambda>w. (Inr (), f w))"

lemmas proc_defs = give_def raise_def seq_def demand_def look_def store_def

text \<open>
  What must hold of a world for a handler run on it to answer in \<open>Q\<close> or throw in \<open>E\<close>, computed
  from the end of the handler to its start.
\<close>

definition wp ::
  "('w, 'e, 'a) proc \<Rightarrow> ('a \<Rightarrow> 'w \<Rightarrow> bool) \<Rightarrow> ('e \<Rightarrow> 'w \<Rightarrow> bool) \<Rightarrow> 'w \<Rightarrow> bool" where
  "wp m Q E w = (case m w of (Inl e, w') \<Rightarrow> E e w' | (Inr x, w') \<Rightarrow> Q x w')"

lemma wp_value [simp]:
  "wp (give x) Q E w = Q x w"
  "wp (raise e) Q E w = E e w"
  "wp (look f) Qf E w = Qf (f w) w"
  by (simp_all add: wp_def proc_defs)

lemma wp_seq [simp]: "wp (seq m f) Q E w = wp m (\<lambda>x. wp (f x) Q E) E w"
  by (simp add: wp_def seq_def split: prod.splits sum.splits)

lemma wp_unit [simp]:
  "wp (demand e b) Q E w = (if b then Q () w else E e w)"
  "wp (store f) Q E w = Q () (f w)"
  by (simp_all add: wp_def proc_defs)

lemma wp_if [simp]: "wp (if b then m else n) Q E w = (if b then wp m Q E w else wp n Q E w)"
  by simp

lemma wp_option [simp]:
  "wp (case x of None \<Rightarrow> m | Some y \<Rightarrow> f y) Q E w
     = (case x of None \<Rightarrow> wp m Q E w | Some y \<Rightarrow> wp (f y) Q E w)"
  by (cases x) simp_all

lemma wp_mono:
  "wp m Q E w \<Longrightarrow> (\<And>x w'. Q x w' \<Longrightarrow> Q' x w') \<Longrightarrow> (\<And>e w'. E e w' \<Longrightarrow> E' e w') \<Longrightarrow> wp m Q' E' w"
  by (auto simp: wp_def split: prod.splits sum.splits)

lemma wp_snd: "wp m (\<lambda>_. P) (\<lambda>_. P) w \<longleftrightarrow> P (snd (m w))"
  by (auto simp: wp_def split: prod.splits sum.splits)

section \<open>Tables as lists of rows\<close>

lemma find_in_set: "find P xs = Some x \<Longrightarrow> x \<in> set xs \<and> P x"
  by (induction xs) (auto split: if_splits)

lemma find_none_iff: "find P xs = None \<longleftrightarrow> (\<forall>x\<in>set xs. \<not> P x)"
  by (induction xs) auto

text \<open>A row read by its unique key is the only row with that key.\<close>

lemma find_unique_key:
  "distinct (map key xs) \<Longrightarrow> x \<in> set xs \<Longrightarrow> find (\<lambda>y. key y = key x) xs = Some x"
  by (induction xs) (auto simp: rev_image_eqI)

lemma find_append:
  "find P (xs @ ys) = (case find P xs of None \<Rightarrow> find P ys | Some x \<Rightarrow> Some x)"
  by (induction xs) auto

text \<open>
  A total over a table changes only by the row that an update by key rewrites: the shape of
  every \<open>UPDATE \<dots> WHERE key = k\<close>.
\<close>

lemma sum_list_update_key:
  fixes f :: "'r \<Rightarrow> int"
  assumes "distinct (map key rows)" and "r \<in> set rows"
  shows "sum_list (map (\<lambda>x. if key x = key r then g x else f x) rows)
       = sum_list (map f rows) - f r + g r"
  using assms
proof (induction rows)
  case Nil
  then show ?case by simp
next
  case (Cons a rows)
  show ?case
  proof (cases "key a = key r")
    case True
    with Cons.prems have [simp]: "a = r" by (auto simp: rev_image_eqI)
    have "map (\<lambda>x. if key x = key r then g x else f x) rows = map f rows"
      using Cons.prems(1) by (auto simp: rev_image_eqI)
    then have "sum_list (map (\<lambda>x. if key x = key r then g x else f x) rows) = sum_list (map f rows)"
      by (simp only:)
    then show ?thesis by simp
  next
    case False
    with Cons show ?thesis by auto
  qed
qed

section \<open>Runs of operations\<close>

text \<open>
  The state after a list of operations, an operation that throws leaving the state it met.
  Every component's operations are run this way: a Durable Object that serializes its calls, a
  database that runs one batch at a time.
\<close>

definition keep_on_error :: "'s \<Rightarrow> 'e + 's \<Rightarrow> 's" where
  "keep_on_error s r = (case r of Inl _ \<Rightarrow> s | Inr s' \<Rightarrow> s')"

lemma keep_on_error_simps [simp]:
  "keep_on_error s (Inl e) = s" "keep_on_error s (Inr s') = s'"
  by (simp_all add: keep_on_error_def)

text \<open>
  The contract of a component with an invariant: each operation that returns keeps it. What
  the component's clients get is that every run keeps it, and that what one operation never
  undoes, no run undoes.
\<close>

locale invariant_system =
  fixes step :: "'s \<Rightarrow> 'op \<Rightarrow> 'e + 's"
    and inv :: "'s \<Rightarrow> bool"
  assumes step_inv: "inv s \<Longrightarrow> step s op = Inr s' \<Longrightarrow> inv s'"
begin

definition run :: "'s \<Rightarrow> 'op list \<Rightarrow> 's" where
  "run s ops = foldl (\<lambda>s op. keep_on_error s (step s op)) s ops"

lemma run_simps [simp]:
  "run s [] = s"
  "run s (op # ops) = run (keep_on_error s (step s op)) ops"
  by (simp_all add: run_def)

lemma keep_inv: "inv s \<Longrightarrow> inv (keep_on_error s (step s op))"
  by (cases "step s op") (auto intro: step_inv)

lemma run_inv: "inv s \<Longrightarrow> inv (run s ops)"
  by (induction ops arbitrary: s) (auto intro: keep_inv)

lemma run_stable:
  assumes stable: "\<And>s op s'. inv s \<Longrightarrow> P s \<Longrightarrow> step s op = Inr s' \<Longrightarrow> P s'"
  shows "inv s \<Longrightarrow> P s \<Longrightarrow> P (run s ops)"
proof (induction ops arbitrary: s)
  case Nil
  then show ?case by simp
next
  case (Cons op ops)
  have "P (keep_on_error s (step s op))"
    using Cons.prems stable by (cases "step s op") auto
  with Cons keep_inv show ?case by simp
qed

end

end
