(* ===== verification/Ledger.thy ===== *)
theory Ledger
  imports Pithy_Prelude
begin

text \<open>
  The per-user balance of \<open>packages/ledger/src/ledger.ts\<close>: the three tables the migration
  creates with their constraints, the statements the operations are built from, the atomic
  batch, and every operation of \<open>openLedger\<close> and \<open>openLedgerWrites\<close>.
\<close>

section \<open>The tables\<close>

text \<open>\<open>data/transaction.ts\<close>, \<open>data/hold.ts\<close>, \<open>data/account.ts\<close>.\<close>

datatype transaction_kind =
  Credit | Debit | Hold | Release | Capture | Transfer_in | Transfer_out

record ledger_transaction =
  txn_ref :: ref
  txn_user :: user_id
  txn_currency :: currency
  txn_kind :: transaction_kind
  txn_amount :: int
  txn_related :: "ref option"
  txn_memo :: "string option"
  txn_created :: millis

datatype hold_state = Open | Released | Captured

record ledger_hold =
  hold_ref :: ref
  hold_user :: user_id
  hold_currency :: currency
  hold_amount :: int
  hold_status :: hold_state
  hold_created :: millis
  hold_resolved :: "millis option"

type_synonym account_key = "user_id \<times> currency"

record ledger_account =
  acc_balance :: int
  acc_held :: int
  acc_created :: millis
  acc_updated :: millis

text \<open>
  The accounts table is keyed by its unique \<open>(userId, currency)\<close>; the entry log and the holds
  are lists of rows in the order of their autoincrement ids.
\<close>

record ledger_db =
  accounts :: "account_key \<Rightarrow> ledger_account option"
  entries :: "ledger_transaction list"
  holds :: "ledger_hold list"

definition empty_ledger :: ledger_db where
  "empty_ledger = \<lparr>accounts = (\<lambda>_. None), entries = [], holds = []\<rparr>"

abbreviation hold_key :: "ledger_hold \<Rightarrow> account_key" where
  "hold_key h \<equiv> (hold_user h, hold_currency h)"

abbreviation txn_key :: "ledger_transaction \<Rightarrow> account_key" where
  "txn_key t \<equiv> (txn_user t, txn_currency t)"

section \<open>Statements and the batch\<close>

text \<open>What aborts a statement: a unique index, or the account's CHECK.\<close>

datatype violation = UNIQUE | CHECK

definition solvent_row :: "ledger_account \<Rightarrow> bool" where
  "solvent_row a \<longleftrightarrow> 0 \<le> acc_balance a \<and> 0 \<le> acc_held a \<and> acc_held a \<le> acc_balance a"

datatype stmt =
    Ensure_account user_id currency millis
  | Insert_entry ledger_transaction
  | Insert_hold ledger_hold
  | Resolve_hold ref hold_state millis
  | Adjust user_id currency int int millis

definition new_account :: "millis \<Rightarrow> ledger_account" where
  "new_account at = \<lparr>acc_balance = 0, acc_held = 0, acc_created = at, acc_updated = at\<rparr>"

definition adjust_row :: "int \<Rightarrow> int \<Rightarrow> millis \<Rightarrow> ledger_account \<Rightarrow> ledger_account" where
  "adjust_row db dh at a =
     a\<lparr>acc_balance := acc_balance a + db, acc_held := acc_held a + dh, acc_updated := at\<rparr>"

definition resolve_row :: "hold_state \<Rightarrow> millis \<Rightarrow> ledger_hold \<Rightarrow> ledger_hold" where
  "resolve_row st at h = h\<lparr>hold_status := st, hold_resolved := Some at\<rparr>"

definition resolve_if_open :: "ref \<Rightarrow> hold_state \<Rightarrow> millis \<Rightarrow> ledger_hold \<Rightarrow> ledger_hold" where
  "resolve_if_open r st at h =
     (if hold_ref h = r \<and> hold_status h = Open then resolve_row st at h else h)"

fun exec_stmt :: "ledger_db \<Rightarrow> stmt \<Rightarrow> violation + ledger_db" where
  "exec_stmt s (Ensure_account u c at) =
     (case accounts s (u, c) of
        Some _ \<Rightarrow> Inr s
      | None \<Rightarrow> Inr (s\<lparr>accounts := (accounts s)((u, c) \<mapsto> new_account at)\<rparr>))"
| "exec_stmt s (Insert_entry t) =
     (if txn_ref t \<in> txn_ref ` set (entries s) then Inl UNIQUE
      else Inr (s\<lparr>entries := entries s @ [t]\<rparr>))"
| "exec_stmt s (Insert_hold h) =
     (if hold_ref h \<in> hold_ref ` set (holds s) then Inl UNIQUE
      else Inr (s\<lparr>holds := holds s @ [h]\<rparr>))"
| "exec_stmt s (Resolve_hold r st at) =
     Inr (s\<lparr>holds := map (resolve_if_open r st at) (holds s)\<rparr>)"
| "exec_stmt s (Adjust u c db dh at) =
     (case accounts s (u, c) of
        None \<Rightarrow> Inr s
      | Some a \<Rightarrow>
          (let a' = adjust_row db dh at a
           in if solvent_row a' then Inr (s\<lparr>accounts := (accounts s)((u, c) \<mapsto> a')\<rparr>)
              else Inl CHECK))"

text \<open>\<open>DB.batch\<close>: the statements in order, in one transaction that the first violation aborts.\<close>

fun d1_batch :: "ledger_db \<Rightarrow> stmt list \<Rightarrow> violation + ledger_db" where
  "d1_batch s [] = Inr s"
| "d1_batch s (q # qs) = and_then (exec_stmt s q) (\<lambda>s'. d1_batch s' qs)"

section \<open>Reads\<close>

record balance_view =
  bal_balance :: int
  bal_held :: int
  bal_available :: int

definition to_balance :: "int \<Rightarrow> int \<Rightarrow> balance_view" where
  "to_balance b h = \<lparr>bal_balance = b, bal_held = h, bal_available = b - h\<rparr>"

definition read_balance :: "ledger_db \<Rightarrow> user_id \<Rightarrow> currency \<Rightarrow> balance_view" where
  "read_balance s u c =
     (case accounts s (u, c) of
        Some a \<Rightarrow> to_balance (acc_balance a) (acc_held a)
      | None \<Rightarrow> to_balance 0 0)"

definition find_entry :: "ledger_db \<Rightarrow> ref \<Rightarrow> ledger_transaction option" where
  "find_entry s r = find (\<lambda>t. txn_ref t = r) (entries s)"

definition find_hold :: "ledger_db \<Rightarrow> ref \<Rightarrow> ledger_hold option" where
  "find_hold s r = find (\<lambda>h. hold_ref h = r) (holds s)"

text \<open>An account's recent entries, newest first.\<close>

definition transactions :: "ledger_db \<Rightarrow> user_id \<Rightarrow> currency \<Rightarrow> nat \<Rightarrow> ledger_transaction list" where
  "transactions s u c limit =
     take limit (rev (filter (\<lambda>t. txn_user t = u \<and> txn_currency t = c) (entries s)))"

section \<open>Errors and the run of one batch\<close>

datatype ledger_error =
    Invalid_amount
  | Insufficient_funds "(int \<times> int \<times> int) option"  \<comment> \<open>amount, available, shortfall\<close>
  | Hold_not_found
  | Hold_not_open
  | Entry_not_found
  | Entry_not_reversible transaction_kind "ref option"
  | Ref_conflict ref
  | D1_violation violation

text \<open>What a client is answered: the error's code and its HTTP status (\<open>error/errors.ts\<close>).\<close>

fun ledger_code :: "ledger_error \<Rightarrow> string \<times> nat" where
  "ledger_code Hold_not_found = (''ledger/hold_not_found'', 404)"
| "ledger_code (Insufficient_funds _) = (''ledger/insufficient_funds'', 409)"
| "ledger_code Hold_not_open = (''ledger/hold_not_open'', 409)"
| "ledger_code Invalid_amount = (''ledger/invalid_amount'', 400)"
| "ledger_code Entry_not_found = (''ledger/entry_not_found'', 404)"
| "ledger_code (Entry_not_reversible _ _) = (''ledger/entry_not_reversible'', 409)"
| "ledger_code (Ref_conflict _) = (''ledger/ref_conflict'', 409)"
| "ledger_code (D1_violation _) = (''core/internal'', 500)"

record write_outcome =
  applied :: bool
  before :: balance_view
  after :: balance_view

fun assert_amount :: "jsnum \<Rightarrow> ledger_error + int" where
  "assert_amount (JSInt n) = (if n \<le> 0 then Inl Invalid_amount else Inr n)"
| "assert_amount JSNonInt = Inl Invalid_amount"

definition shortfall :: "int \<Rightarrow> balance_view \<Rightarrow> ledger_error" where
  "shortfall amount current =
     Insufficient_funds
       (Some (amount, bal_available current, max (amount - bal_available current) 0))"

text \<open>
  \<open>run\<close>: a UNIQUE abort is a replay, a CHECK abort is refused through \<open>insufficient\<close> where the
  operation has one, and the account is read inside the batch that committed.
\<close>

definition run ::
  "ledger_db \<Rightarrow> stmt list \<Rightarrow> account_key \<Rightarrow> int \<Rightarrow> int
     \<Rightarrow> (balance_view \<Rightarrow> ledger_error) option \<Rightarrow> ledger_error + (write_outcome \<times> ledger_db)" where
  "run s stmts k db dh insufficient =
     (case d1_batch s stmts of
        Inl UNIQUE \<Rightarrow>
          (let current = read_balance s (fst k) (snd k)
           in Inr (\<lparr>applied = False, before = current, after = current\<rparr>, s))
      | Inl CHECK \<Rightarrow>
          (case insufficient of
             Some refuse \<Rightarrow> Inl (refuse (read_balance s (fst k) (snd k)))
           | None \<Rightarrow> Inl (D1_violation CHECK))
      | Inr s' \<Rightarrow>
          (let now = read_balance s' (fst k) (snd k);
               was = to_balance (bal_balance now - db) (bal_held now - dh)
           in Inr (\<lparr>applied = True, before = was, after = now\<rparr>, s')))"

text \<open>The checks made after a UNIQUE abort, before it is answered as a replay.\<close>

definition assert_own_derived :: "ledger_db \<Rightarrow> ref \<Rightarrow> ref \<Rightarrow> account_key \<Rightarrow> ledger_error + unit" where
  "assert_own_derived s derived owner k =
     (case find_entry s derived of
        Some t \<Rightarrow> guard (Ref_conflict derived) (txn_related t = Some owner \<and> txn_key t = k)
      | None \<Rightarrow> Inl (Ref_conflict derived))"

definition assert_same_entry ::
  "ledger_db \<Rightarrow> ref \<Rightarrow> account_key \<Rightarrow> transaction_kind \<Rightarrow> int \<Rightarrow> ledger_error + unit" where
  "assert_same_entry s r k kd amount =
     (case find_entry s r of
        Some t \<Rightarrow> guard (Ref_conflict r) (txn_key t = k \<and> txn_kind t = kd \<and> txn_amount t = amount)
      | None \<Rightarrow> Inl (Ref_conflict r))"

definition if_replayed ::
  "(ledger_db \<Rightarrow> ledger_error + unit) \<Rightarrow> write_outcome \<times> ledger_db
     \<Rightarrow> ledger_error + (write_outcome \<times> ledger_db)" where
  "if_replayed check out =
     (if applied (fst out) then Inr out
      else and_then (check (snd out)) (\<lambda>_. Inr out))"

section \<open>The statements of each operation\<close>

definition entry ::
  "ref \<Rightarrow> user_id \<Rightarrow> currency \<Rightarrow> transaction_kind \<Rightarrow> int \<Rightarrow> ref option \<Rightarrow> string option
     \<Rightarrow> millis \<Rightarrow> ledger_transaction" where
  "entry r u c kd amount related memo at =
     \<lparr>txn_ref = r, txn_user = u, txn_currency = c, txn_kind = kd, txn_amount = amount,
      txn_related = related, txn_memo = memo, txn_created = at\<rparr>"

definition reverse_ref :: "ref \<Rightarrow> ref" where "reverse_ref r = r @ '':reverse''"
definition resolve_ref :: "ref \<Rightarrow> ref" where "resolve_ref r = r @ '':resolve''"
definition out_ref :: "ref \<Rightarrow> ref" where "out_ref r = r @ '':out''"
definition in_ref :: "ref \<Rightarrow> ref" where "in_ref r = r @ '':in''"

definition credit_stmts ::
  "user_id \<Rightarrow> currency \<Rightarrow> int \<Rightarrow> ref \<Rightarrow> string option \<Rightarrow> millis \<Rightarrow> stmt list" where
  "credit_stmts u c n r memo at =
     [Ensure_account u c at, Insert_entry (entry r u c Credit n None memo at), Adjust u c n 0 at]"

definition debit_stmts ::
  "user_id \<Rightarrow> currency \<Rightarrow> int \<Rightarrow> ref \<Rightarrow> string option \<Rightarrow> millis \<Rightarrow> stmt list" where
  "debit_stmts u c n r memo at =
     [Ensure_account u c at, Insert_entry (entry r u c Debit n None memo at), Adjust u c (- n) 0 at]"

definition opposite :: "transaction_kind \<Rightarrow> transaction_kind" where
  "opposite kd = (if kd = Credit then Debit else Credit)"

definition reverse_delta :: "ledger_transaction \<Rightarrow> int" where
  "reverse_delta t = (if opposite (txn_kind t) = Credit then txn_amount t else - txn_amount t)"

definition reverse_stmts :: "ledger_transaction \<Rightarrow> string option \<Rightarrow> millis \<Rightarrow> stmt list" where
  "reverse_stmts t memo at =
     [Insert_entry (entry (reverse_ref (txn_ref t)) (txn_user t) (txn_currency t)
        (opposite (txn_kind t)) (txn_amount t) (Some (txn_ref t)) memo at),
      Adjust (txn_user t) (txn_currency t) (reverse_delta t) 0 at]"

definition transfer_stmts ::
  "user_id \<Rightarrow> user_id \<Rightarrow> currency \<Rightarrow> int \<Rightarrow> ref \<Rightarrow> string option \<Rightarrow> millis \<Rightarrow> stmt list" where
  "transfer_stmts src dst c n r memo at =
     [Ensure_account src c at, Ensure_account dst c at,
      Insert_entry (entry (out_ref r) src c Transfer_out n (Some (in_ref r)) memo at),
      Insert_entry (entry (in_ref r) dst c Transfer_in n (Some (out_ref r)) memo at),
      Adjust src c (- n) 0 at, Adjust dst c n 0 at]"

definition new_hold :: "ref \<Rightarrow> user_id \<Rightarrow> currency \<Rightarrow> int \<Rightarrow> millis \<Rightarrow> ledger_hold" where
  "new_hold r u c n at =
     \<lparr>hold_ref = r, hold_user = u, hold_currency = c, hold_amount = n, hold_status = Open,
      hold_created = at, hold_resolved = None\<rparr>"

definition hold_stmts :: "user_id \<Rightarrow> currency \<Rightarrow> int \<Rightarrow> ref \<Rightarrow> millis \<Rightarrow> stmt list" where
  "hold_stmts u c n r at =
     [Ensure_account u c at, Insert_entry (entry r u c Hold n None None at),
      Insert_hold (new_hold r u c n at), Adjust u c 0 n at]"

definition release_stmts :: "ledger_hold \<Rightarrow> string option \<Rightarrow> millis \<Rightarrow> stmt list" where
  "release_stmts h memo at =
     [Insert_entry (entry (resolve_ref (hold_ref h)) (hold_user h) (hold_currency h) Release
        (hold_amount h) (Some (hold_ref h)) memo at),
      Resolve_hold (hold_ref h) Released at,
      Adjust (hold_user h) (hold_currency h) 0 (- hold_amount h) at]"

definition capture_stmts :: "ledger_hold \<Rightarrow> int \<Rightarrow> string option \<Rightarrow> millis \<Rightarrow> stmt list" where
  "capture_stmts h n memo at =
     [Insert_entry (entry (resolve_ref (hold_ref h)) (hold_user h) (hold_currency h) Capture
        n (Some (hold_ref h)) memo at),
      Resolve_hold (hold_ref h) Captured at,
      Adjust (hold_user h) (hold_currency h) (- n) (- hold_amount h) at]"

section \<open>The writes shared by both surfaces\<close>

definition on_account :: "account_key \<Rightarrow> account_key option \<Rightarrow> bool" where
  "on_account row account = (case account of None \<Rightarrow> True | Some k \<Rightarrow> row = k)"

definition writes_credit ::
  "ledger_db \<Rightarrow> user_id \<Rightarrow> currency \<Rightarrow> jsnum \<Rightarrow> ref \<Rightarrow> string option \<Rightarrow> millis
     \<Rightarrow> ledger_error + (write_outcome \<times> ledger_db)" where
  "writes_credit s u c amount r memo at =
     and_then (assert_amount amount) (\<lambda>n. run s (credit_stmts u c n r memo at) (u, c) n 0 None)"

definition writes_debit ::
  "ledger_db \<Rightarrow> user_id \<Rightarrow> currency \<Rightarrow> jsnum \<Rightarrow> ref \<Rightarrow> string option \<Rightarrow> millis
     \<Rightarrow> ledger_error + (write_outcome \<times> ledger_db)" where
  "writes_debit s u c amount r memo at =
     and_then (assert_amount amount)
       (\<lambda>n. run s (debit_stmts u c n r memo at) (u, c) (- n) 0 (Some (shortfall n)))"

text \<open>The entry a reversal acts on, or the refusal.\<close>

definition reversible ::
  "ledger_db \<Rightarrow> ref \<Rightarrow> account_key option \<Rightarrow> ledger_error + ledger_transaction" where
  "reversible s r account =
     (case find_entry s r of
        None \<Rightarrow> Inl Entry_not_found
      | Some t \<Rightarrow>
          if \<not> on_account (txn_key t) account then Inl Entry_not_found
          else if txn_kind t \<noteq> Credit \<and> txn_kind t \<noteq> Debit
            then Inl (Entry_not_reversible (txn_kind t) None)
          else (case txn_related t of
                  Some q \<Rightarrow> Inl (Entry_not_reversible (txn_kind t) (Some q))
                | None \<Rightarrow> Inr t))"

definition writes_reverse ::
  "ledger_db \<Rightarrow> ref \<Rightarrow> account_key option \<Rightarrow> string option \<Rightarrow> millis
     \<Rightarrow> ledger_error + ((write_outcome \<times> ledger_db) \<times> ledger_transaction)" where
  "writes_reverse s r account memo at =
     and_then (reversible s r account) (\<lambda>t.
       and_then
         (run s (reverse_stmts t memo at) (txn_key t) (reverse_delta t) 0
            (Some (shortfall (txn_amount t))))
         (\<lambda>out. and_then
            (if_replayed (\<lambda>s'. assert_own_derived s' (reverse_ref r) r (txn_key t)) out)
            (\<lambda>out. Inr (out, t))))"

definition release_hold ::
  "ledger_db \<Rightarrow> ledger_hold \<Rightarrow> string option \<Rightarrow> millis
     \<Rightarrow> ledger_error + (write_outcome \<times> ledger_db)" where
  "release_hold s h memo at =
     and_then (run s (release_stmts h memo at) (hold_key h) 0 (- hold_amount h) None)
       (if_replayed
          (\<lambda>s'. assert_own_derived s' (resolve_ref (hold_ref h)) (hold_ref h) (hold_key h)))"

definition writes_release ::
  "ledger_db \<Rightarrow> ref \<Rightarrow> account_key option \<Rightarrow> string option \<Rightarrow> millis
     \<Rightarrow> ledger_error + ((write_outcome \<times> ledger_db) \<times> ledger_hold)" where
  "writes_release s r account memo at =
     (case find_hold s r of
        None \<Rightarrow> Inl Hold_not_found
      | Some h \<Rightarrow>
          if \<not> on_account (hold_key h) account then Inl Hold_not_found
          else if hold_status h = Captured then Inl Hold_not_open
          else if hold_status h = Released then
            (let current = read_balance s (hold_user h) (hold_currency h)
             in Inr ((\<lparr>applied = False, before = current, after = current\<rparr>, s), h))
          else and_then (release_hold s h memo at) (\<lambda>out.
            if \<not> applied (fst out)
               \<and> map_option hold_status (find_hold (snd out) r) = Some Captured
            then Inl Hold_not_open else Inr (out, h)))"

section \<open>\<open>openLedgerWrites\<close>: the management writes\<close>

definition managed_credit ::
  "ledger_db \<Rightarrow> user_id \<Rightarrow> currency \<Rightarrow> jsnum \<Rightarrow> ref \<Rightarrow> string option \<Rightarrow> millis
     \<Rightarrow> ledger_error + (write_outcome \<times> ledger_db)" where
  "managed_credit s u c amount r memo at =
     and_then (writes_credit s u c amount r memo at)
       (if_replayed (\<lambda>s'. and_then (assert_amount amount)
          (\<lambda>n. assert_same_entry s' r (u, c) Credit n)))"

definition managed_debit ::
  "ledger_db \<Rightarrow> user_id \<Rightarrow> currency \<Rightarrow> jsnum \<Rightarrow> ref \<Rightarrow> string option \<Rightarrow> millis
     \<Rightarrow> ledger_error + (write_outcome \<times> ledger_db)" where
  "managed_debit s u c amount r memo at =
     and_then (writes_debit s u c amount r memo at)
       (if_replayed (\<lambda>s'. and_then (assert_amount amount)
          (\<lambda>n. assert_same_entry s' r (u, c) Debit n)))"

section \<open>\<open>openLedger\<close>: the in-process surface\<close>

definition answer_after ::
  "ledger_error + (write_outcome \<times> ledger_db) \<Rightarrow> ledger_error + (balance_view \<times> ledger_db)" where
  "answer_after r = and_then r (\<lambda>out. Inr (after (fst out), snd out))"

definition ledger_credit ::
  "ledger_db \<Rightarrow> user_id \<Rightarrow> currency \<Rightarrow> jsnum \<Rightarrow> ref \<Rightarrow> string option \<Rightarrow> millis
     \<Rightarrow> ledger_error + (balance_view \<times> ledger_db)" where
  "ledger_credit s u c amount r memo at = answer_after (writes_credit s u c amount r memo at)"

definition ledger_debit ::
  "ledger_db \<Rightarrow> user_id \<Rightarrow> currency \<Rightarrow> jsnum \<Rightarrow> ref \<Rightarrow> string option \<Rightarrow> millis
     \<Rightarrow> ledger_error + (balance_view \<times> ledger_db)" where
  "ledger_debit s u c amount r memo at = answer_after (writes_debit s u c amount r memo at)"

definition ledger_reverse ::
  "ledger_db \<Rightarrow> ref \<Rightarrow> string option \<Rightarrow> millis \<Rightarrow> ledger_error + (balance_view \<times> ledger_db)" where
  "ledger_reverse s r memo at =
     answer_after (and_then (writes_reverse s r None memo at) (\<lambda>p. Inr (fst p)))"

definition ledger_transfer ::
  "ledger_db \<Rightarrow> user_id \<Rightarrow> user_id \<Rightarrow> currency \<Rightarrow> jsnum \<Rightarrow> ref \<Rightarrow> string option \<Rightarrow> millis
     \<Rightarrow> ledger_error + ledger_db" where
  "ledger_transfer s src dst c amount r memo at =
     and_then (assert_amount amount) (\<lambda>n.
       (case d1_batch s (transfer_stmts src dst c n r memo at) of
          Inl UNIQUE \<Rightarrow> Inr s
        | Inl CHECK \<Rightarrow> Inl (Insufficient_funds None)
        | Inr s' \<Rightarrow> Inr s'))"

definition place_hold ::
  "ledger_db \<Rightarrow> user_id \<Rightarrow> currency \<Rightarrow> jsnum \<Rightarrow> ref \<Rightarrow> millis
     \<Rightarrow> ledger_error + (balance_view \<times> ledger_db)" where
  "place_hold s u c amount r at =
     and_then (assert_amount amount) (\<lambda>n.
       answer_after (run s (hold_stmts u c n r at) (u, c) 0 n
         (Some (\<lambda>_. Insufficient_funds None))))"

definition require_open_hold :: "ledger_db \<Rightarrow> ref \<Rightarrow> ledger_error + ledger_hold" where
  "require_open_hold s r =
     (case find_hold s r of
        None \<Rightarrow> Inl Hold_not_found
      | Some h \<Rightarrow> if hold_status h \<noteq> Open then Inl Hold_not_open else Inr h)"

definition ledger_release ::
  "ledger_db \<Rightarrow> ref \<Rightarrow> string option \<Rightarrow> millis \<Rightarrow> ledger_error + (balance_view \<times> ledger_db)" where
  "ledger_release s r memo at =
     and_then (require_open_hold s r) (\<lambda>h. answer_after (release_hold s h memo at))"

fun captured_amount :: "ledger_hold \<Rightarrow> jsnum option \<Rightarrow> ledger_error + int" where
  "captured_amount h None = Inr (hold_amount h)"
| "captured_amount h (Some (JSInt n)) =
     (if n < 0 \<or> n > hold_amount h then Inl Invalid_amount else Inr n)"
| "captured_amount h (Some JSNonInt) = Inl Invalid_amount"

definition capture_hold ::
  "ledger_db \<Rightarrow> ledger_hold \<Rightarrow> int \<Rightarrow> string option \<Rightarrow> millis
     \<Rightarrow> ledger_error + (write_outcome \<times> ledger_db)" where
  "capture_hold s h n memo at =
     and_then (run s (capture_stmts h n memo at) (hold_key h) (- n) (- hold_amount h) None)
       (if_replayed
          (\<lambda>s'. assert_own_derived s' (resolve_ref (hold_ref h)) (hold_ref h) (hold_key h)))"

definition ledger_capture ::
  "ledger_db \<Rightarrow> ref \<Rightarrow> jsnum option \<Rightarrow> string option \<Rightarrow> millis
     \<Rightarrow> ledger_error + (balance_view \<times> ledger_db)" where
  "ledger_capture s r amount memo at =
     and_then (require_open_hold s r) (\<lambda>h.
       and_then (captured_amount h amount) (\<lambda>n. answer_after (capture_hold s h n memo at)))"

end
