(* ===== verification/Ledger_Invariant.thy ===== *)
theory Ledger_Invariant
  imports Ledger
begin

text \<open>
  What the ledger keeps true of its tables, and that every batch an operation can send keeps it,
  whatever other batches committed between the operation's reads and its own commit.
\<close>

declare exec_stmt.simps [simp del]

lemma entry_simps [simp]:
  "txn_ref (entry r u c kd n rel memo at) = r" "txn_user (entry r u c kd n rel memo at) = u"
  "txn_currency (entry r u c kd n rel memo at) = c" "txn_kind (entry r u c kd n rel memo at) = kd"
  "txn_amount (entry r u c kd n rel memo at) = n" "txn_related (entry r u c kd n rel memo at) = rel"
  by (simp_all add: entry_def)

lemma new_hold_simps [simp]:
  "hold_ref (new_hold r u c n at) = r" "hold_user (new_hold r u c n at) = u"
  "hold_currency (new_hold r u c n at) = c" "hold_amount (new_hold r u c n at) = n"
  "hold_status (new_hold r u c n at) = Open"
  by (simp_all add: new_hold_def)

section \<open>The invariant\<close>

text \<open>The signed change an entry stands for.\<close>

definition net_effect :: "ledger_transaction \<Rightarrow> int" where
  "net_effect t =
     (case txn_kind t of
        Credit \<Rightarrow> txn_amount t | Transfer_in \<Rightarrow> txn_amount t
      | Debit \<Rightarrow> - txn_amount t | Transfer_out \<Rightarrow> - txn_amount t | Capture \<Rightarrow> - txn_amount t
      | Hold \<Rightarrow> 0 | Release \<Rightarrow> 0)"

definition entry_total :: "ledger_db \<Rightarrow> account_key \<Rightarrow> int" where
  "entry_total s k = sum_list (map (\<lambda>t. if txn_key t = k then net_effect t else 0) (entries s))"

definition open_part :: "account_key \<Rightarrow> ledger_hold \<Rightarrow> int" where
  "open_part k h = (if hold_key h = k \<and> hold_status h = Open then hold_amount h else 0)"

definition held_total :: "ledger_db \<Rightarrow> account_key \<Rightarrow> int" where
  "held_total s k = sum_list (map (open_part k) (holds s))"

definition balance_of :: "ledger_db \<Rightarrow> account_key \<Rightarrow> int" where
  "balance_of s k = (case accounts s k of None \<Rightarrow> 0 | Some a \<Rightarrow> acc_balance a)"

definition held_of :: "ledger_db \<Rightarrow> account_key \<Rightarrow> int" where
  "held_of s k = (case accounts s k of None \<Rightarrow> 0 | Some a \<Rightarrow> acc_held a)"

definition resolved_by :: "ledger_transaction \<Rightarrow> ledger_hold \<Rightarrow> bool" where
  "resolved_by t h \<longleftrightarrow> txn_ref t = resolve_ref (hold_ref h) \<and> txn_related t = Some (hold_ref h)
     \<and> txn_key t = hold_key h
     \<and> txn_kind t = (if hold_status h = Captured then Capture else Release)"

definition placed_by :: "ledger_transaction \<Rightarrow> ledger_hold \<Rightarrow> bool" where
  "placed_by t h \<longleftrightarrow> txn_ref t = hold_ref h \<and> txn_key t = hold_key h \<and> txn_kind t = Hold
     \<and> txn_amount t = hold_amount h"

definition hold_ok :: "ledger_db \<Rightarrow> ledger_hold \<Rightarrow> bool" where
  "hold_ok s h \<longleftrightarrow> 0 < hold_amount h \<and> accounts s (hold_key h) \<noteq> None
     \<and> (\<exists>t\<in>set (entries s). placed_by t h)
     \<and> (hold_status h \<noteq> Open \<longrightarrow> (\<exists>t\<in>set (entries s). resolved_by t h))"

text \<open>The ref an entry that answers another one is written under, by its kind.\<close>

fun derived_from :: "transaction_kind \<Rightarrow> ref \<Rightarrow> ref \<Rightarrow> bool" where
  "derived_from Credit r q \<longleftrightarrow> r = reverse_ref q"
| "derived_from Debit r q \<longleftrightarrow> r = reverse_ref q"
| "derived_from Release r q \<longleftrightarrow> r = resolve_ref q"
| "derived_from Capture r q \<longleftrightarrow> r = resolve_ref q"
| "derived_from Transfer_out r q \<longleftrightarrow> (\<exists>x\<in>{take (length r - 4) r}. r = out_ref x \<and> q = in_ref x)"
| "derived_from Transfer_in r q \<longleftrightarrow> (\<exists>x\<in>{take (length r - 3) r}. r = in_ref x \<and> q = out_ref x)"
| "derived_from Hold r q \<longleftrightarrow> False"

lemma derived_from_intros [simp]:
  "derived_from Credit (reverse_ref r) r" "derived_from Debit (reverse_ref r) r"
  "derived_from Release (resolve_ref r) r" "derived_from Capture (resolve_ref r) r"
  "derived_from Transfer_out (out_ref r) (in_ref r)" "derived_from Transfer_in (in_ref r) (out_ref r)"
  by (simp_all add: out_ref_def in_ref_def)

declare derived_from.simps [simp del]

definition entry_ok :: "ledger_db \<Rightarrow> ledger_transaction \<Rightarrow> bool" where
  "entry_ok s t \<longleftrightarrow> accounts s (txn_key t) \<noteq> None \<and> 0 \<le> txn_amount t
     \<and> (txn_kind t \<noteq> Capture \<longrightarrow> 0 < txn_amount t)
     \<and> (\<forall>q. txn_related t = Some q \<longrightarrow> derived_from (txn_kind t) (txn_ref t) q)
     \<and> (txn_kind t = Release \<or> txn_kind t = Capture \<longrightarrow>
          (\<exists>h\<in>set (holds s). hold_status h \<noteq> Open \<and> resolved_by t h))"

definition ledger_ok :: "ledger_db \<Rightarrow> bool" where
  "ledger_ok s \<longleftrightarrow>
     distinct (map txn_ref (entries s)) \<and> distinct (map hold_ref (holds s))
     \<and> (\<forall>k a. accounts s k = Some a \<longrightarrow> solvent_row a)
     \<and> (\<forall>k. balance_of s k = entry_total s k) \<and> (\<forall>k. held_of s k = held_total s k)
     \<and> (\<forall>h\<in>set (holds s). hold_ok s h) \<and> (\<forall>t\<in>set (entries s). entry_ok s t)"

lemma ledger_okD:
  assumes "ledger_ok s"
  shows "distinct (map txn_ref (entries s))" "distinct (map hold_ref (holds s))"
    "accounts s k = Some a \<Longrightarrow> solvent_row a"
    "balance_of s k = entry_total s k" "held_of s k = held_total s k"
    "h \<in> set (holds s) \<Longrightarrow> hold_ok s h" "t \<in> set (entries s) \<Longrightarrow> entry_ok s t"
  using assms unfolding ledger_ok_def by blast+

lemma ledger_ok_empty [wf_intros]: "ledger_ok empty_ledger"
  by (simp add: ledger_ok_def empty_ledger_def balance_of_def held_of_def entry_total_def held_total_def)

lemma hold_ok_mono:
  assumes "hold_ok s h" "set (entries s) \<subseteq> set (entries s')"
    "\<And>k. accounts s k \<noteq> None \<Longrightarrow> accounts s' k \<noteq> None"
  shows "hold_ok s' h"
  using assms unfolding hold_ok_def by blast

lemma entry_ok_mono:
  assumes "entry_ok s t" "\<And>h. h \<in> set (holds s) \<Longrightarrow> hold_status h \<noteq> Open \<Longrightarrow> h \<in> set (holds s')"
    "\<And>k. accounts s k \<noteq> None \<Longrightarrow> accounts s' k \<noteq> None"
  shows "entry_ok s' t"
  using assms unfolding entry_ok_def by blast

section \<open>One movement\<close>

text \<open>
  The common shape of every operation once its account exists: one entry appended, one account
  row moved by that entry, and the holds rewritten so that what is open moves with the row.
\<close>

lemma movement_ok:
  assumes ok: "ledger_ok s" and acc: "accounts s k = Some a"
    and fresh: "txn_ref t \<notin> txn_ref ` set (entries s)"
    and t: "txn_key t = k" "net_effect t = db"
    and solvent: "solvent_row (adjust_row db dh at a)"
    and s': "s' = s\<lparr>accounts := (accounts s)(k \<mapsto> adjust_row db dh at a),
                   entries := entries s @ [t], holds := hs\<rparr>"
    and total: "\<And>k'. sum_list (map (open_part k') hs) = held_total s k' + (if k' = k then dh else 0)"
    and dist: "distinct (map hold_ref hs)"
    and each: "\<And>h. h \<in> set hs \<Longrightarrow> hold_ok s' h"
    and new: "entry_ok s' t"
    and kept: "\<And>h. h \<in> set (holds s) \<Longrightarrow> hold_status h \<noteq> Open \<Longrightarrow> h \<in> set hs"
  shows "ledger_ok s'"
proof -
  have bal: "balance_of s' k' = entry_total s' k'" for k'
    using ledger_okD(4) [OF ok, of k'] acc t
    by (auto simp: s' balance_of_def entry_total_def adjust_row_def)
  have held: "held_of s' k' = held_total s' k'" for k'
    using ledger_okD(5) [OF ok, of k'] acc total [of k']
    by (auto simp: s' held_of_def held_total_def adjust_row_def)
  have "entry_ok s' e" if "e \<in> set (entries s)" for e
    by (rule entry_ok_mono [OF ledger_okD(7) [OF ok that]]) (use kept in \<open>auto simp: s'\<close>)
  then have "\<forall>e\<in>set (entries s'). entry_ok s' e"
    using new by (auto simp: s')
  moreover have "\<forall>k' a'. accounts s' k' = Some a' \<longrightarrow> solvent_row a'"
    using ledger_okD(3) [OF ok] solvent by (simp add: s')
  moreover have "distinct (map txn_ref (entries s'))"
    using ledger_okD(1) [OF ok] fresh by (simp add: s')
  ultimately show ?thesis
    using bal held each dist by (simp add: ledger_ok_def s')
qed

lemma entry_movement_ok:
  assumes "ledger_ok s" and "accounts s k = Some a"
    and "txn_ref t \<notin> txn_ref ` set (entries s)"
    and "txn_key t = k" "net_effect t = db"
    and t: "0 < txn_amount t" "txn_kind t \<notin> {Release, Capture}"
      "\<And>q. txn_related t = Some q \<Longrightarrow> derived_from (txn_kind t) (txn_ref t) q"
    and "solvent_row (adjust_row db 0 at a)"
    and s': "s' = s\<lparr>accounts := (accounts s)(k \<mapsto> adjust_row db 0 at a), entries := entries s @ [t]\<rparr>"
  shows "ledger_ok s'"
proof (rule movement_ok [where hs = "holds s"])
  show "s' = s\<lparr>accounts := (accounts s)(k \<mapsto> adjust_row db 0 at a), entries := entries s @ [t],
    holds := holds s\<rparr>" by (simp add: s')
  show "hold_ok s' h" if "h \<in> set (holds s)" for h
    by (rule hold_ok_mono [OF ledger_okD(6) [OF assms(1) that]]) (auto simp: s')
  show "entry_ok s' t"
    using t assms(4) by (auto simp: entry_ok_def s')
qed (use assms ledger_okD(2) [OF assms(1)] in \<open>auto simp: held_total_def\<close>)

lemma ensure_ok:
  assumes "ledger_ok s" and "exec_stmt s (Ensure_account u c at) = Inr s'"
  shows "ledger_ok s'" "accounts s' (u, c) \<noteq> None" "entries s' = entries s" "holds s' = holds s"
    "\<And>k. accounts s k \<noteq> None \<Longrightarrow> accounts s' k = accounts s k"
proof -
  have ent: "entries s' = entries s" and hol: "holds s' = holds s"
    and some: "accounts s' (u, c) \<noteq> None"
    and keep: "\<And>k. accounts s k \<noteq> None \<Longrightarrow> accounts s' k = accounts s k"
    using assms(2) by (auto simp: exec_stmt.simps split: option.splits)
  have b: "balance_of s' k = balance_of s k" "held_of s' k = held_of s k" for k
    using assms(2)
    by (auto simp: exec_stmt.simps balance_of_def held_of_def new_account_def
        split: option.splits if_splits)
  have "solvent_row a" if "accounts s' k = Some a" for k a
    using that assms(2) ledger_okD(3) [OF assms(1), of k a]
    by (auto simp: exec_stmt.simps solvent_row_def new_account_def split: option.splits if_splits)
  moreover have "hold_ok s' h" if "h \<in> set (holds s)" for h
    using hold_ok_mono [OF ledger_okD(6) [OF assms(1) that], of s'] ent keep by auto
  moreover have "entry_ok s' t" if "t \<in> set (entries s)" for t
    using entry_ok_mono [OF ledger_okD(7) [OF assms(1) that], of s'] hol keep by auto
  ultimately show "ledger_ok s'"
    using assms(1) ent hol b by (simp add: ledger_ok_def entry_total_def held_total_def)
qed (use assms(2) in \<open>auto simp: exec_stmt.simps split: option.splits\<close>)

section \<open>Planned batches\<close>

text \<open>
  The batches an operation can send when its reads were made at \<open>s\<close>. A release or a capture
  carries the hold it read, a reversal the entry it read.
\<close>

inductive planned :: "ledger_db \<Rightarrow> stmt list \<Rightarrow> bool" for s where
  credit: "0 < n \<Longrightarrow> planned s (credit_stmts u c n r memo at)"
| debit: "0 < n \<Longrightarrow> planned s (debit_stmts u c n r memo at)"
| reverse: "t \<in> set (entries s) \<Longrightarrow> txn_kind t = Credit \<or> txn_kind t = Debit \<Longrightarrow>
    planned s (reverse_stmts t memo at)"
| transfer: "0 < n \<Longrightarrow> planned s (transfer_stmts src dst c n r memo at)"
| hold: "0 < n \<Longrightarrow> planned s (hold_stmts u c n r at)"
| release: "h \<in> set (holds s) \<Longrightarrow> planned s (release_stmts h memo at)"
| capture: "h \<in> set (holds s) \<Longrightarrow> 0 \<le> n \<Longrightarrow> n \<le> hold_amount h \<Longrightarrow>
    planned s (capture_stmts h n memo at)"

text \<open>What a later state keeps of an earlier one: every entry as it was, every hold under its ref.\<close>

definition extends :: "ledger_db \<Rightarrow> ledger_db \<Rightarrow> bool" where
  "extends s s' \<longleftrightarrow>
     (\<exists>new. entries s' = entries s @ new)
     \<and> (\<forall>h\<in>set (holds s). \<exists>h'\<in>set (holds s').
          hold_ref h' = hold_ref h \<and> hold_key h' = hold_key h \<and> hold_amount h' = hold_amount h
          \<and> (hold_status h \<noteq> Open \<longrightarrow> h' = h))"

lemma extends_refl [simp]: "extends s s"
  by (auto simp: extends_def)

lemma extends_trans:
  assumes "extends s s'" "extends s' s''" shows "extends s s''"
proof -
  have "\<exists>new. entries s'' = entries s @ new"
    using assms unfolding extends_def by (metis append.assoc)
  moreover have "\<exists>h''\<in>set (holds s''). hold_ref h'' = hold_ref h \<and> hold_key h'' = hold_key h
      \<and> hold_amount h'' = hold_amount h \<and> (hold_status h \<noteq> Open \<longrightarrow> h'' = h)"
    if "h \<in> set (holds s)" for h
    using assms that unfolding extends_def by (metis (no_types, lifting))
  ultimately show ?thesis by (simp add: extends_def)
qed

lemma release_stmts_cong:
  "hold_ref h' = hold_ref h \<Longrightarrow> hold_key h' = hold_key h \<Longrightarrow> hold_amount h' = hold_amount h \<Longrightarrow>
     release_stmts h' memo at = release_stmts h memo at"
  by (simp add: release_stmts_def)

lemma capture_stmts_cong:
  "hold_ref h' = hold_ref h \<Longrightarrow> hold_key h' = hold_key h \<Longrightarrow> hold_amount h' = hold_amount h \<Longrightarrow>
     capture_stmts h' n memo at = capture_stmts h n memo at"
  by (simp add: capture_stmts_def)

text \<open>A batch planned on an earlier read is a batch planned now: the reads cannot go stale.\<close>

lemma planned_extends:
  assumes "planned s q" and "extends s s'"
  shows "planned s' q"
  using assms(1)
proof cases
  case (release h memo at)
  then obtain h' where "h' \<in> set (holds s')" "release_stmts h' memo at = release_stmts h memo at"
    using assms(2) unfolding extends_def by (metis release_stmts_cong)
  with release show ?thesis by (metis planned.release)
next
  case (capture h n memo at)
  then obtain h' where "h' \<in> set (holds s')" "hold_amount h' = hold_amount h"
      "capture_stmts h' n memo at = capture_stmts h n memo at"
    using assms(2) unfolding extends_def by (metis capture_stmts_cong)
  with capture show ?thesis by (metis planned.capture)
next
  case (reverse t memo at)
  then have "t \<in> set (entries s')" using assms(2) by (auto simp: extends_def)
  with reverse show ?thesis by (auto intro: planned.reverse)
qed (auto intro: planned.intros)

section \<open>A batch that commits\<close>

text \<open>A committed adjustment of an existing account, and a committed insert of an entry.\<close>

lemma adjust_InrD:
  "exec_stmt s (Adjust u c db dh at) = Inr s' \<Longrightarrow> accounts s (u, c) = Some a \<Longrightarrow>
     solvent_row (adjust_row db dh at a)
     \<and> s' = s\<lparr>accounts := (accounts s)((u, c) \<mapsto> adjust_row db dh at a)\<rparr>"
  by (auto simp: exec_stmt.simps Let_def split: if_splits)

lemma batch_InrE:
  assumes "d1_batch s (q # qs) = Inr s'"
  obtains s1 where "exec_stmt s q = Inr s1" "d1_batch s1 qs = Inr s'"
  using assms by (auto simp: and_then_eq_Inr)

lemma insert_InrD:
  "exec_stmt s (Insert_entry t) = Inr s' \<Longrightarrow>
     txn_ref t \<notin> txn_ref ` set (entries s) \<and> s' = s\<lparr>entries := entries s @ [t]\<rparr>"
  by (auto simp: exec_stmt.simps split: if_splits)

lemma entry_then_adjust_ok:
  assumes ok: "ledger_ok s" and acc: "accounts s (u, c) \<noteq> None"
    and run: "d1_batch s [Insert_entry t, Adjust u c db 0 at] = Inr s'"
    and t: "txn_key t = (u, c)" "net_effect t = db" "0 < txn_amount t"
      "txn_kind t \<notin> {Release, Capture}"
      "\<And>q. txn_related t = Some q \<Longrightarrow> derived_from (txn_kind t) (txn_ref t) q"
  shows "ledger_ok s'" "extends s s'"
proof -
  from acc obtain a where a: "accounts s (u, c) = Some a" by auto
  let ?s1 = "s\<lparr>entries := entries s @ [t]\<rparr>"
  from run have fresh: "txn_ref t \<notin> txn_ref ` set (entries s)"
    and adj: "exec_stmt ?s1 (Adjust u c db 0 at) = Inr s'"
    by (auto elim!: batch_InrE dest!: insert_InrD simp: and_then_eq_Inr)
  from adjust_InrD [OF adj] a have sol: "solvent_row (adjust_row db 0 at a)"
    and s': "s' = ?s1\<lparr>accounts := (accounts s)((u, c) \<mapsto> adjust_row db 0 at a)\<rparr>"
    by auto
  show "ledger_ok s'"
    by (rule entry_movement_ok [OF ok a fresh t(1,2,3,4) _ sol]) (use t(5) s' in simp_all)
  show "extends s s'" by (auto simp: extends_def s')
qed

lemma ensure_extends: "exec_stmt s (Ensure_account u c at) = Inr s' \<Longrightarrow> extends s s'"
  by (auto simp: extends_def exec_stmt.simps split: option.splits)

lemma credit_debit_ok:
  assumes ok: "ledger_ok s"
    and run: "d1_batch s [Ensure_account u c at, Insert_entry t, Adjust u c db 0 at] = Inr s'"
    and t: "txn_key t = (u, c)" "net_effect t = db" "0 < txn_amount t"
      "txn_kind t \<notin> {Release, Capture}"
      "\<And>q. txn_related t = Some q \<Longrightarrow> derived_from (txn_kind t) (txn_ref t) q"
  shows "ledger_ok s'" "extends s s'"
proof -
  from run obtain s1 where s1: "exec_stmt s (Ensure_account u c at) = Inr s1"
    and rest: "d1_batch s1 [Insert_entry t, Adjust u c db 0 at] = Inr s'"
    by (rule batch_InrE)
  note e = ensure_ok [OF ok s1]
  note both = entry_then_adjust_ok [OF e(1,2) rest t]
  show "ledger_ok s'" by (rule both(1))
  show "extends s s'"
    using ensure_extends [OF s1] both(2) extends_trans by blast
qed

lemma transfer_ok:
  assumes ok: "ledger_ok s" and n: "0 < n"
    and run: "d1_batch s (transfer_stmts src dst c n r memo at) = Inr s'"
  shows "ledger_ok s'" "extends s s'"
proof -
  let ?o = "entry (out_ref r) src c Transfer_out n (Some (in_ref r)) memo at"
  let ?i = "entry (in_ref r) dst c Transfer_in n (Some (out_ref r)) memo at"
  from run obtain s1 where s1: "exec_stmt s (Ensure_account src c at) = Inr s1"
    and r1: "d1_batch s1 [Ensure_account dst c at, Insert_entry ?o, Insert_entry ?i,
       Adjust src c (- n) 0 at, Adjust dst c n 0 at] = Inr s'"
    unfolding transfer_stmts_def by (rule batch_InrE)
  from r1 obtain s2 where s2: "exec_stmt s1 (Ensure_account dst c at) = Inr s2"
    and r2: "d1_batch s2 [Insert_entry ?o, Insert_entry ?i,
       Adjust src c (- n) 0 at, Adjust dst c n 0 at] = Inr s'"
    by (rule batch_InrE)
  note e1 = ensure_ok [OF ok s1]
  note e2 = ensure_ok [OF e1(1) s2]
  let ?s3 = "s2\<lparr>entries := entries s2 @ [?o]\<rparr>"
  let ?s4 = "?s3\<lparr>entries := entries ?s3 @ [?i]\<rparr>"
  from r2 have fo: "txn_ref ?o \<notin> txn_ref ` set (entries s2)"
    and fi: "txn_ref ?i \<notin> txn_ref ` set (entries ?s3)"
    and r4: "d1_batch ?s4 [Adjust src c (- n) 0 at, Adjust dst c n 0 at] = Inr s'"
    by (auto elim!: batch_InrE dest!: insert_InrD simp: and_then_eq_Inr)
  obtain a where a: "accounts s2 (src, c) = Some a"
    using e1(2) e2(5) by fastforce
  from r4 obtain s5 where s5: "exec_stmt ?s4 (Adjust src c (- n) 0 at) = Inr s5"
    and s6: "exec_stmt s5 (Adjust dst c n 0 at) = Inr s'"
    by (auto elim!: batch_InrE simp: and_then_eq_Inr)
  note d5 = adjust_InrD [OF s5, of a, simplified, OF a]
  let ?t3 = "?s3\<lparr>accounts := (accounts s2)((src, c) \<mapsto> adjust_row (- n) 0 at a)\<rparr>"
  have t3: "ledger_ok ?t3"
    by (rule entry_movement_ok [OF e2(1) a fo, where at = at and db = "- n"])
      (use n d5 in \<open>simp_all add: net_effect_def\<close>)
  have "accounts ?t3 (dst, c) \<noteq> None" using e2(2) by auto
  then obtain b where b: "accounts ?t3 (dst, c) = Some b" by auto
  have s5': "s5 = ?s4\<lparr>accounts := accounts ?t3\<rparr>" using d5 by simp
  note d6 = adjust_InrD [OF s6, of b, unfolded s5', simplified, OF b [simplified]]
  show "ledger_ok s'"
    by (rule entry_movement_ok [OF t3 b, where t = ?i and at = at and db = n])
      (use n d6 fi in \<open>simp_all add: net_effect_def\<close>)
  have "extends s2 s'" using d6 by (auto simp: extends_def)
  then show "extends s s'"
    using ensure_extends [OF s1] ensure_extends [OF s2] extends_trans by blast
qed

lemma hold_stmts_ok:
  assumes ok: "ledger_ok s" and n: "0 < n"
    and run: "d1_batch s (hold_stmts u c n r at) = Inr s'"
  shows "ledger_ok s'" "extends s s'"
proof -
  let ?t = "entry r u c Hold n None None at" and ?h = "new_hold r u c n at"
  from run obtain s1 where s1: "exec_stmt s (Ensure_account u c at) = Inr s1"
    and r1: "d1_batch s1 [Insert_entry ?t, Insert_hold ?h, Adjust u c 0 n at] = Inr s'"
    unfolding hold_stmts_def by (rule batch_InrE)
  note e = ensure_ok [OF ok s1]
  obtain a where a: "accounts s1 (u, c) = Some a" using e(2) by auto
  let ?s3 = "s1\<lparr>entries := entries s1 @ [?t], holds := holds s1 @ [?h]\<rparr>"
  from r1 have ft: "txn_ref ?t \<notin> txn_ref ` set (entries s1)"
    and fh: "hold_ref ?h \<notin> hold_ref ` set (holds s1)"
    and s4: "exec_stmt ?s3 (Adjust u c 0 n at) = Inr s'"
    by (auto elim!: batch_InrE dest!: insert_InrD
        simp: and_then_eq_Inr exec_stmt.simps(3) split: if_splits)
  note d = adjust_InrD [OF s4, of a, simplified, OF a]
  show "ledger_ok s'"
  proof (rule movement_ok [OF e(1) a ft, where hs = "holds s1 @ [?h]" and at = at and db = 0 and dh = n])
    show "distinct (map hold_ref (holds s1 @ [?h]))"
      using ledger_okD(2) [OF e(1)] fh by simp
    show "sum_list (map (open_part k') (holds s1 @ [?h])) = held_total s1 k' + (if k' = (u, c) then n else 0)" for k'
      by (simp add: held_total_def open_part_def)
    show "entry_ok s' ?t" using n d by (simp add: entry_ok_def)
    show "hold_ok s' h" if "h \<in> set (holds s1 @ [?h])" for h
    proof (cases "h = ?h")
      case True
      with n d show ?thesis by (simp add: hold_ok_def placed_by_def)
    next
      case False
      with that have "hold_ok s1 h" using ledger_okD(6) [OF e(1)] by simp
      then show ?thesis by (rule hold_ok_mono) (use d in auto)
    qed
  qed (use n d in \<open>simp_all add: net_effect_def\<close>)
  have "extends s1 s'" using d by (auto simp: extends_def)
  then show "extends s s'" using ensure_extends [OF s1] extends_trans by blast
qed

text \<open>
  Resolving a hold: where it was still open, the batch takes exactly its amount off the
  reservation; where it was already resolved, its \<open>:resolve\<close> entry makes the batch abort.
\<close>

lemma resolve_if_open_simps [simp]:
  "hold_ref (resolve_if_open r st at h) = hold_ref h"
  "hold_user (resolve_if_open r st at h) = hold_user h"
  "hold_currency (resolve_if_open r st at h) = hold_currency h"
  "hold_amount (resolve_if_open r st at h) = hold_amount h"
  "hold_status h \<noteq> Open \<Longrightarrow> resolve_if_open r st at h = h"
  by (simp_all add: resolve_if_open_def resolve_row_def)

lemma resolve_total:
  assumes "distinct (map hold_ref hs)" "h \<in> set hs" "hold_status h = Open" "st \<noteq> Open"
  shows "sum_list (map (open_part k) (map (resolve_if_open (hold_ref h) st at) hs))
       = sum_list (map (open_part k) hs) + (if k = hold_key h then - hold_amount h else 0)"
proof -
  have "open_part k \<circ> resolve_if_open (hold_ref h) st at
      = (\<lambda>x. if hold_ref x = hold_ref h then 0 else open_part k x)"
    using assms(4) by (auto simp: open_part_def resolve_if_open_def resolve_row_def)
  then have "sum_list (map (open_part k) (map (resolve_if_open (hold_ref h) st at) hs))
      = sum_list (map (\<lambda>x. if hold_ref x = hold_ref h then 0 else open_part k x) hs)"
    by (simp only: map_map)
  also have "\<dots> = sum_list (map (open_part k) hs) - open_part k h"
    using sum_list_update_key [OF assms(1,2), of "\<lambda>_. 0" "open_part k"] by simp
  also have "\<dots> = sum_list (map (open_part k) hs) + (if k = hold_key h then - hold_amount h else 0)"
    using assms(3) by (auto simp: open_part_def)
  finally show ?thesis .
qed

lemma resolve_ok:
  assumes ok: "ledger_ok s" and h: "h \<in> set (holds s)"
    and t: "txn_ref t = resolve_ref (hold_ref h)" "txn_related t = Some (hold_ref h)"
      "txn_key t = hold_key h" "txn_kind t = (if st = Captured then Capture else Release)"
      "net_effect t = db" "0 \<le> txn_amount t" "st = Released \<longrightarrow> 0 < txn_amount t"
    and st: "st \<noteq> Open"
    and run: "d1_batch s [Insert_entry t, Resolve_hold (hold_ref h) st at,
                Adjust (hold_user h) (hold_currency h) db (- hold_amount h) at] = Inr s'"
  shows "ledger_ok s'" "extends s s'" "hold_status h = Open"
proof -
  let ?f = "resolve_if_open (hold_ref h) st at"
  let ?hs = "map ?f (holds s)"
  note dist = ledger_okD(2) [OF ok]
  from ledger_okD(6) [OF ok h] have hk: "hold_ok s h" .
  then obtain a where a: "accounts s (hold_key h) = Some a" by (auto simp: hold_ok_def)
  let ?s2 = "s\<lparr>entries := entries s @ [t], holds := ?hs\<rparr>"
  from run have fresh: "txn_ref t \<notin> txn_ref ` set (entries s)"
    and adj: "exec_stmt ?s2 (Adjust (hold_user h) (hold_currency h) db (- hold_amount h) at) = Inr s'"
    by (auto elim!: batch_InrE dest!: insert_InrD simp: and_then_eq_Inr exec_stmt.simps(4))
  show opn: "hold_status h = Open"
    using fresh hk t(1) by (force simp: hold_ok_def resolved_by_def)
  note d = adjust_InrD [OF adj, of a, simplified, OF a]
  have keys: "map hold_ref ?hs = map hold_ref (holds s)" by simp
  show "ledger_ok s'"
  proof (rule movement_ok [OF ok a fresh t(3,5), where hs = ?hs and at = at and dh = "- hold_amount h"])
    show "distinct (map hold_ref ?hs)" using dist keys by (simp only:)
    show "sum_list (map (open_part k') ?hs) = held_total s k' + (if k' = hold_key h then - hold_amount h else 0)" for k'
      using resolve_total [OF dist h opn st] by (simp only: held_total_def)
    show "hold_ok s' x" if "x \<in> set ?hs" for x
    proof -
      from that obtain y where y: "y \<in> set (holds s)"
        and x: "x = ?f y"
        by auto
      have yk: "hold_ok s' y"
        by (rule hold_ok_mono [OF ledger_okD(6) [OF ok y]]) (use d in auto)
      show ?thesis
      proof (cases "hold_ref y = hold_ref h \<and> hold_status y = Open")
        case False
        with x yk show ?thesis by (simp only: resolve_if_open_def if_False)
      next
        case True
        then have "y = h" using dist h y by (metis find_unique_key option.inject)
        with yk x True t st d show ?thesis
          by (cases st)
            (simp_all add: hold_ok_def resolve_if_open_def resolve_row_def resolved_by_def placed_by_def)
      qed
    qed
    show "x \<in> set ?hs" if "x \<in> set (holds s)" "hold_status x \<noteq> Open" for x
      using image_eqI [OF _ that(1), of x ?f] that(2) by simp
    have "?f h \<in> set (holds s')" using h d by simp
    moreover have "hold_status (?f h) = st" "hold_key (?f h) = hold_key h"
      using opn by (simp_all add: resolve_if_open_def resolve_row_def)
    ultimately have "\<exists>x\<in>set (holds s'). hold_status x \<noteq> Open \<and> resolved_by t x"
      using t st by (intro bexI [of _ "?f h"]) (simp_all add: resolved_by_def)
    moreover have "accounts s' (txn_key t) \<noteq> None" using d t(3) by simp
    moreover have "derived_from (txn_kind t) (txn_ref t) (hold_ref h)" using t by simp
    ultimately show "entry_ok s' t"
      using t st by (cases st) (simp_all add: entry_ok_def)
  qed (use d t st in \<open>cases st; simp\<close>)+
  have "\<exists>h'\<in>set ?hs. hold_ref h' = hold_ref y \<and> hold_key h' = hold_key y
      \<and> hold_amount h' = hold_amount y \<and> (hold_status y \<noteq> Open \<longrightarrow> h' = y)"
    if "y \<in> set (holds s)" for y
    using that by (intro bexI [of _ "?f y"]) simp_all
  then show "extends s s'" using d by (simp add: extends_def)
qed

text \<open>Every planned batch that commits keeps the invariant and only extends the tables.\<close>

lemma planned_batch_ok:
  assumes ok: "ledger_ok s" and plan: "planned s q" and run: "d1_batch s q = Inr s'"
  shows "ledger_ok s' \<and> extends s s'"
  using plan
proof cases
  case (credit n u c r memo at)
  have run': "d1_batch s [Ensure_account u c at, Insert_entry (entry r u c Credit n None memo at),
      Adjust u c n 0 at] = Inr s'" using run credit by (simp only: credit_stmts_def)
  show ?thesis
    using credit_debit_ok [OF ok run'] credit by (simp add: net_effect_def)
next
  case (debit n u c r memo at)
  have run': "d1_batch s [Ensure_account u c at, Insert_entry (entry r u c Debit n None memo at),
      Adjust u c (- n) 0 at] = Inr s'" using run debit by (simp only: debit_stmts_def)
  show ?thesis
    using credit_debit_ok [OF ok run'] debit by (simp add: net_effect_def)
next
  case (reverse t memo at)
  note tok = ledger_okD(7) [OF ok reverse(2)]
  have "accounts s (txn_user t, txn_currency t) \<noteq> None" "0 < txn_amount t"
    using tok reverse(3) by (auto simp: entry_ok_def)
  then show ?thesis
    using entry_then_adjust_ok [OF ok _ run [unfolded reverse(1) reverse_stmts_def]] reverse(3)
    by (auto simp: net_effect_def opposite_def reverse_delta_def)
next
  case (transfer n src dst c r memo at)
  then show ?thesis using transfer_ok [OF ok] run by blast
next
  case (hold n u c r at)
  then show ?thesis using hold_stmts_ok [OF ok] run by blast
next
  case (release h memo at)
  have "0 < hold_amount h" using ledger_okD(6) [OF ok release(2)] by (simp add: hold_ok_def)
  then show ?thesis
    using resolve_ok(1,2) [OF ok release(2) _ _ _ _ _ _ _ _ run [unfolded release(1) release_stmts_def]]
    by (simp add: net_effect_def)
next
  case (capture h n memo at)
  then show ?thesis
    using resolve_ok(1,2) [OF ok capture(2) _ _ _ _ _ _ _ _ run [unfolded capture(1) capture_stmts_def]]
    by (simp add: net_effect_def)
qed

text \<open>A release or a capture of a hold that is no longer open never commits.\<close>

lemma resolved_hold_aborts:
  assumes "ledger_ok s" "h \<in> set (holds s)" "hold_status h \<noteq> Open"
  shows "d1_batch s (release_stmts h memo at) = Inl UNIQUE"
    "d1_batch s (capture_stmts h n memo at) = Inl UNIQUE"
proof -
  from ledger_okD(6) [OF assms(1,2)] assms(3)
  have "resolve_ref (hold_ref h) \<in> txn_ref ` set (entries s)"
    by (force simp: hold_ok_def resolved_by_def)
  then show "d1_batch s (release_stmts h memo at) = Inl UNIQUE"
    "d1_batch s (capture_stmts h n memo at) = Inl UNIQUE"
    by (simp_all add: release_stmts_def capture_stmts_def exec_stmt.simps)
qed

section \<open>Operations as planned batches\<close>

text \<open>
  Every operation either leaves the tables as they are or commits one planned batch: the whole
  state-changing behaviour of the ledger is in \<open>planned\<close>.
\<close>

definition moves_to :: "ledger_db \<Rightarrow> ledger_db \<Rightarrow> bool" where
  "moves_to s s' \<longleftrightarrow> s' = s \<or> (\<exists>q. planned s q \<and> d1_batch s q = Inr s')"

lemma moves_to_ok: "moves_to s s' \<Longrightarrow> ledger_ok s \<Longrightarrow> ledger_ok s' \<and> extends s s'"
  unfolding moves_to_def using planned_batch_ok extends_refl by blast

lemma run_moves: "run s q k db dh ins = Inr (out, s') \<Longrightarrow> planned s q \<Longrightarrow> moves_to s s'"
  by (auto simp: run_def moves_to_def Let_def split: sum.splits violation.splits option.splits)

lemma if_replayed_InrD: "if_replayed check out = Inr out' \<Longrightarrow> out' = out"
  by (auto simp: if_replayed_def and_then_eq_Inr split: if_splits)

lemma assert_amount_InrD: "assert_amount a = Inr n \<Longrightarrow> a = JSInt n \<and> 0 < n"
  by (cases a) (auto split: if_splits)

lemma writes_credit_moves: "writes_credit s u c a r memo at = Inr (out, s') \<Longrightarrow> moves_to s s'"
  by (auto simp: writes_credit_def and_then_eq_Inr dest!: assert_amount_InrD
      intro: run_moves planned.credit)

lemma writes_debit_moves: "writes_debit s u c a r memo at = Inr (out, s') \<Longrightarrow> moves_to s s'"
  by (auto simp: writes_debit_def and_then_eq_Inr dest!: assert_amount_InrD
      intro: run_moves planned.debit)

lemma reversible_InrD:
  "reversible s r account = Inr t \<Longrightarrow> t \<in> set (entries s) \<and> txn_ref t = r \<and> txn_related t = None
     \<and> (txn_kind t = Credit \<or> txn_kind t = Debit) \<and> on_account (txn_key t) account"
  by (auto simp: reversible_def find_entry_def dest: find_in_set split: option.splits if_splits)

lemma writes_reverse_moves: "writes_reverse s r k memo at = Inr ((out, s'), t) \<Longrightarrow> moves_to s s'"
  by (auto simp: writes_reverse_def and_then_eq_Inr dest!: reversible_InrD if_replayed_InrD
      intro: run_moves planned.reverse)

lemma release_hold_moves:
  "release_hold s h memo at = Inr (out, s') \<Longrightarrow> h \<in> set (holds s) \<Longrightarrow> moves_to s s'"
  by (auto simp: release_hold_def and_then_eq_Inr dest!: if_replayed_InrD
      intro: run_moves planned.release)

lemma capture_hold_moves:
  "capture_hold s h n memo at = Inr (out, s') \<Longrightarrow> h \<in> set (holds s) \<Longrightarrow> 0 \<le> n \<Longrightarrow> n \<le> hold_amount h
     \<Longrightarrow> moves_to s s'"
  by (auto simp: capture_hold_def and_then_eq_Inr dest!: if_replayed_InrD
      intro: run_moves planned.capture)

lemma find_hold_SomeD: "find_hold s r = Some h \<Longrightarrow> h \<in> set (holds s) \<and> hold_ref h = r"
  by (auto simp: find_hold_def dest: find_in_set)

lemma require_open_hold_InrD:
  "require_open_hold s r = Inr h \<Longrightarrow> h \<in> set (holds s) \<and> hold_ref h = r \<and> hold_status h = Open"
  by (auto simp: require_open_hold_def dest: find_hold_SomeD split: option.splits if_splits)

lemma writes_release_moves:
  assumes "writes_release s r k memo at = Inr ((out, s'), h)" shows "moves_to s s'"
proof (cases "find_hold s r")
  case (Some h0)
  note h0 = find_hold_SomeD [OF Some]
  show ?thesis
    using assms Some h0 release_hold_moves [of s h0 memo at]
    by (auto simp: writes_release_def Let_def and_then_eq_Inr moves_to_def split: if_splits)
qed (use assms in \<open>simp add: writes_release_def\<close>)

end
