(* ===== verification/Ledger_Interleaving.thy ===== *)
theory Ledger_Interleaving
  imports Ledger_Invariant
begin

text \<open>
  The ledger under concurrency. Between an operation's reads and its batch, other Workers' batches
  may commit. A system is the tables and the batches that operations have prepared and not yet
  sent; its steps prepare a batch from what the tables say now, or send one prepared earlier.
\<close>

section \<open>The operations, one at a time\<close>

datatype ledger_op =
    Op_credit user_id currency jsnum ref "string option" millis
  | Op_debit user_id currency jsnum ref "string option" millis
  | Op_reverse ref "string option" millis
  | Op_transfer user_id user_id currency jsnum ref "string option" millis
  | Op_hold user_id currency jsnum ref millis
  | Op_release ref "string option" millis
  | Op_capture ref "jsnum option" "string option" millis
  | Op_managed_credit user_id currency jsnum ref "string option" millis
  | Op_managed_debit user_id currency jsnum ref "string option" millis
  | Op_managed_reverse ref "account_key option" "string option" millis
  | Op_managed_release ref "account_key option" "string option" millis

text \<open>The tables an operation leaves; its answer is dropped.\<close>

abbreviation db_of :: "'e + ('a \<times> 'd) \<Rightarrow> 'e + 'd" where
  "db_of r \<equiv> map_sum id snd r"

fun ledger_step :: "ledger_db \<Rightarrow> ledger_op \<Rightarrow> ledger_error + ledger_db" where
  "ledger_step s (Op_credit u c n r m at) = db_of (ledger_credit s u c n r m at)"
| "ledger_step s (Op_debit u c n r m at) = db_of (ledger_debit s u c n r m at)"
| "ledger_step s (Op_reverse r m at) = db_of (ledger_reverse s r m at)"
| "ledger_step s (Op_transfer src dst c n r m at) = ledger_transfer s src dst c n r m at"
| "ledger_step s (Op_hold u c n r at) = db_of (place_hold s u c n r at)"
| "ledger_step s (Op_release r m at) = db_of (ledger_release s r m at)"
| "ledger_step s (Op_capture r n m at) = db_of (ledger_capture s r n m at)"
| "ledger_step s (Op_managed_credit u c n r m at) = db_of (managed_credit s u c n r m at)"
| "ledger_step s (Op_managed_debit u c n r m at) = db_of (managed_debit s u c n r m at)"
| "ledger_step s (Op_managed_reverse r k m at) =
     db_of (map_sum id fst (writes_reverse s r k m at))"
| "ledger_step s (Op_managed_release r k m at) =
     db_of (map_sum id fst (writes_release s r k m at))"

lemma map_sum_eq_Inr: "map_sum f g r = Inr y \<longleftrightarrow> (\<exists>x. r = Inr x \<and> y = g x)"
  by (cases r) auto

lemma answer_after_eq_Inr:
  "answer_after r = Inr (b, s') \<longleftrightarrow> (\<exists>out. r = Inr (out, s') \<and> b = after out)"
  by (auto simp: answer_after_def and_then_eq_Inr)

lemma transfer_moves:
  assumes "ledger_transfer s src dst c a r m at = Inr s'"
  shows "moves_to s s'"
proof -
  from assms obtain n where n: "assert_amount a = Inr n"
    and ans: "(case d1_batch s (transfer_stmts src dst c n r m at) of
          Inl UNIQUE \<Rightarrow> Inr s | Inl CHECK \<Rightarrow> Inl (Insufficient_funds None) | Inr s' \<Rightarrow> Inr s') = Inr s'"
    by (auto simp: ledger_transfer_def and_then_eq_Inr)
  have "planned s (transfer_stmts src dst c n r m at)"
    using assert_amount_InrD [OF n] planned.transfer by blast
  with ans show ?thesis
    by (cases "d1_batch s (transfer_stmts src dst c n r m at)")
      (auto simp: moves_to_def split: violation.splits)
qed

lemma place_hold_moves: "place_hold s u c a r at = Inr (b, s') \<Longrightarrow> moves_to s s'"
  by (auto simp: place_hold_def and_then_eq_Inr answer_after_eq_Inr dest!: assert_amount_InrD
      intro: run_moves planned.hold)

lemma captured_amount_InrD:
  "captured_amount h a = Inr n \<Longrightarrow> 0 < hold_amount h \<Longrightarrow> 0 \<le> n \<and> n \<le> hold_amount h"
  by (cases "(h, a)" rule: captured_amount.cases) (auto split: if_splits)

lemma ledger_release_moves: "ledger_release s r m at = Inr (b, s') \<Longrightarrow> moves_to s s'"
  by (auto simp: ledger_release_def and_then_eq_Inr answer_after_eq_Inr
      dest!: require_open_hold_InrD intro: release_hold_moves)

lemma ledger_capture_moves:
  assumes "ledger_ok s" and "ledger_capture s r a m at = Inr (b, s')"
  shows "moves_to s s'"
proof -
  from assms(2) obtain h n out where h: "require_open_hold s r = Inr h"
    and n: "captured_amount h a = Inr n" and out: "capture_hold s h n m at = Inr (out, s')"
    by (auto simp: ledger_capture_def and_then_eq_Inr answer_after_eq_Inr)
  have "h \<in> set (holds s)" using require_open_hold_InrD [OF h] by simp
  moreover from this have "0 < hold_amount h"
    using ledger_okD(6) [OF assms(1)] by (simp add: hold_ok_def)
  ultimately show ?thesis
    using capture_hold_moves [OF out] captured_amount_InrD [OF n] by simp
qed

lemma managed_moves:
  "managed_credit s u c a r m at = Inr (out, s') \<Longrightarrow> moves_to s s'"
  "managed_debit s u c a r m at = Inr (out, s') \<Longrightarrow> moves_to s s'"
  by (auto simp: managed_credit_def managed_debit_def and_then_eq_Inr
      dest!: if_replayed_InrD intro: writes_credit_moves writes_debit_moves)

lemma ledger_step_moves:
  assumes "ledger_ok s" and "ledger_step s op = Inr s'"
  shows "moves_to s s'"
  using assms
  by (cases op)
    (auto simp: map_sum_eq_Inr ledger_credit_def ledger_debit_def ledger_reverse_def
      answer_after_eq_Inr and_then_eq_Inr
      intro: writes_credit_moves writes_debit_moves writes_reverse_moves writes_release_moves
        transfer_moves place_hold_moves ledger_release_moves ledger_capture_moves managed_moves)

interpretation ledger_ops: invariant_system ledger_step ledger_ok
  by unfold_locales (use ledger_step_moves moves_to_ok in blast)

lemma keep_ok: "ledger_ok s \<Longrightarrow> ledger_ok (keep_on_error s (ledger_step s op))"
  by (cases "ledger_step s op") (auto intro: ledger_ops.step_inv)

lemma ledger_step_extends: "ledger_ok s \<Longrightarrow> ledger_step s op = Inr s' \<Longrightarrow> extends s s'"
  using ledger_step_moves moves_to_ok by blast

section \<open>Interleaved batches\<close>

record ledger_system =
  tables :: ledger_db
  in_flight :: "stmt list list"

definition idle :: ledger_system where
  "idle = \<lparr>tables = empty_ledger, in_flight = []\<rparr>"

text \<open>
  A batch prepared at one state may be sent at any later one, in any order, or never (the Worker
  is evicted between its read and its batch).
\<close>

inductive system_step :: "ledger_system \<Rightarrow> ledger_system \<Rightarrow> bool" where
  prepare: "planned (tables z) q \<Longrightarrow> system_step z (z\<lparr>in_flight := q # in_flight z\<rparr>)"
| commit: "in_flight z = p @ q # r \<Longrightarrow> d1_batch (tables z) q = Inr s' \<Longrightarrow>
    system_step z (z\<lparr>tables := s', in_flight := p @ r\<rparr>)"
| abort: "in_flight z = p @ q # r \<Longrightarrow> d1_batch (tables z) q = Inl e \<Longrightarrow>
    system_step z (z\<lparr>in_flight := p @ r\<rparr>)"
| evict: "in_flight z = p @ q # r \<Longrightarrow> system_step z (z\<lparr>in_flight := p @ r\<rparr>)"

definition system_ok :: "ledger_system \<Rightarrow> bool" where
  "system_ok z \<longleftrightarrow> ledger_ok (tables z) \<and> (\<forall>q\<in>set (in_flight z). planned (tables z) q)"

lemma system_step_ok:
  "system_step z z' \<Longrightarrow> system_ok z \<Longrightarrow> system_ok z' \<and> extends (tables z) (tables z')"
proof (induction rule: system_step.induct)
  case (commit z p q r s')
  then have ok: "ledger_ok (tables z)" and q: "planned (tables z) q"
    by (auto simp: system_ok_def)
  note b = planned_batch_ok [OF ok q commit(2)]
  with commit show ?case by (auto simp: system_ok_def intro: planned_extends)
qed (auto simp: system_ok_def)

lemma system_reachable_ok:
  assumes "system_step\<^sup>*\<^sup>* z z'" "system_ok z"
  shows "system_ok z' \<and> extends (tables z) (tables z')"
  using assms(1)
proof (induction rule: rtranclp_induct)
  case (step y w)
  then show ?case using system_step_ok extends_trans by blast
qed (use assms in simp)

lemma idle_ok [wf_intros]: "system_ok idle"
  by (simp add: system_ok_def idle_def ledger_ok_empty)

text \<open>What solvency and conservation say of one account.\<close>

definition account_sound :: "ledger_db \<Rightarrow> account_key \<Rightarrow> bool" where
  "account_sound s k \<longleftrightarrow>
     0 \<le> held_of s k \<and> held_of s k \<le> balance_of s k
     \<and> balance_of s k = entry_total s k \<and> held_of s k = held_total s k"

lemma ledger_ok_account_sound: "ledger_ok s \<Longrightarrow> account_sound s k"
  using ledger_okD(3,4,5) [of s k]
  by (auto simp: account_sound_def balance_of_def held_of_def solvent_row_def split: option.splits)

end
