(* ===== verification/Ledger_Laws.thy ===== *)
theory Ledger_Laws
  imports Ledger_Interleaving
begin

text \<open>
  What each ledger operation does on every branch, and what a redelivered operation does: the
  facts that the properties of the ledger, and the components that play for stakes, rest on.
\<close>

section \<open>The batches, branch by branch\<close>

abbreviation taken :: "ledger_db \<Rightarrow> ref \<Rightarrow> bool" where
  "taken s r \<equiv> r \<in> txn_ref ` set (entries s)"

text \<open>The row an adjustment meets once the account is ensured.\<close>

definition row_of :: "ledger_db \<Rightarrow> account_key \<Rightarrow> millis \<Rightarrow> ledger_account" where
  "row_of s k at = (case accounts s k of None \<Rightarrow> new_account at | Some a \<Rightarrow> a)"

lemma row_of_amounts [simp]:
  "acc_balance (row_of s k at) = balance_of s k" "acc_held (row_of s k at) = held_of s k"
  by (simp_all add: row_of_def balance_of_def held_of_def new_account_def split: option.split)

definition available_of :: "ledger_db \<Rightarrow> account_key \<Rightarrow> int" where
  "available_of s k = balance_of s k - held_of s k"

lemma read_balance_eq:
  "read_balance s u c = \<lparr>bal_balance = balance_of s (u, c), bal_held = held_of s (u, c),
     bal_available = available_of s (u, c)\<rparr>"
  by (simp add: read_balance_def to_balance_def balance_of_def held_of_def available_of_def
      split: option.split)

lemma solvent_adjust_iff:
  "solvent_row (adjust_row db dh at a) \<longleftrightarrow> 0 \<le> acc_balance a + db \<and> 0 \<le> acc_held a + dh
     \<and> acc_held a + dh \<le> acc_balance a + db"
  by (simp add: solvent_row_def adjust_row_def)

lemma ensure_insert_adjust:
  "d1_batch s [Ensure_account u c at, Insert_entry t, Adjust u c db dh at] =
     (if taken s (txn_ref t) then Inl UNIQUE
      else if solvent_row (adjust_row db dh at (row_of s (u, c) at))
      then Inr (s\<lparr>accounts := (accounts s)((u, c) \<mapsto> adjust_row db dh at (row_of s (u, c) at)),
                 entries := entries s @ [t]\<rparr>)
      else Inl CHECK)"
  by (cases "accounts s (u, c)") (auto simp: exec_stmt.simps row_of_def Let_def)

text \<open>The tables after one account has moved by one entry.\<close>

definition moved ::
  "ledger_db \<Rightarrow> account_key \<Rightarrow> int \<Rightarrow> int \<Rightarrow> millis \<Rightarrow> ledger_transaction \<Rightarrow> ledger_db" where
  "moved s k db dh at t =
     s\<lparr>accounts := (accounts s)(k \<mapsto> adjust_row db dh at (row_of s k at)), entries := entries s @ [t]\<rparr>"

lemma moved_simps [simp]:
  "entries (moved s k db dh at t) = entries s @ [t]" "holds (moved s k db dh at t) = holds s"
  "balance_of (moved s k db dh at t) k' = balance_of s k' + (if k' = k then db else 0)"
  "held_of (moved s k db dh at t) k' = held_of s k' + (if k' = k then dh else 0)"
  by (simp_all add: moved_def balance_of_def held_of_def adjust_row_def row_of_def new_account_def
      split: option.split)

lemma ensure_insert_adjust_moved:
  "d1_batch s [Ensure_account u c at, Insert_entry t, Adjust u c db dh at] =
     (if taken s (txn_ref t) then Inl UNIQUE
      else if 0 \<le> balance_of s (u, c) + db \<and> 0 \<le> held_of s (u, c) + dh
              \<and> held_of s (u, c) + dh \<le> balance_of s (u, c) + db
      then Inr (moved s (u, c) db dh at t) else Inl CHECK)"
  unfolding ensure_insert_adjust by (simp add: moved_def solvent_adjust_iff)

lemma taken_aborts:
  "taken s r \<Longrightarrow> d1_batch s (credit_stmts u c n r memo at) = Inl UNIQUE"
  "taken s r \<Longrightarrow> d1_batch s (debit_stmts u c n r memo at) = Inl UNIQUE"
  "taken s r \<Longrightarrow> d1_batch s (hold_stmts u c n r at) = Inl UNIQUE"
  "taken s (reverse_ref (txn_ref t)) \<Longrightarrow> d1_batch s (reverse_stmts t memo at) = Inl UNIQUE"
  "taken s (resolve_ref (hold_ref h)) \<Longrightarrow> d1_batch s (release_stmts h memo at) = Inl UNIQUE"
  "taken s (resolve_ref (hold_ref h)) \<Longrightarrow> d1_batch s (capture_stmts h n memo at) = Inl UNIQUE"
  by (auto simp: credit_stmts_def debit_stmts_def hold_stmts_def reverse_stmts_def
      release_stmts_def capture_stmts_def exec_stmt.simps split: option.splits)

lemma taken_transfer_aborts:
  "taken s (out_ref r) \<or> taken s (in_ref r) \<Longrightarrow>
     d1_batch s (transfer_stmts src dst c n r memo at) = Inl UNIQUE"
  by (cases "accounts s (src, c)"; cases "accounts s (dst, c)"; cases "taken s (out_ref r)")
    (auto simp: transfer_stmts_def exec_stmt.simps split: option.splits)

text \<open>A held hold's ref is taken too, so its insert never aborts on its own.\<close>

lemma UNIQUE_means_taken:
  "d1_batch s (credit_stmts u c n r memo at) = Inl UNIQUE \<Longrightarrow> taken s r"
  "d1_batch s (debit_stmts u c n r memo at) = Inl UNIQUE \<Longrightarrow> taken s r"
  unfolding credit_stmts_def debit_stmts_def ensure_insert_adjust by (simp_all split: if_splits)

lemma reverse_batch:
  "accounts s (txn_key t) \<noteq> None \<Longrightarrow> d1_batch s (reverse_stmts t memo at) =
     (if taken s (reverse_ref (txn_ref t)) then Inl UNIQUE
      else if 0 \<le> balance_of s (txn_key t) + reverse_delta t \<and> 0 \<le> held_of s (txn_key t)
              \<and> held_of s (txn_key t) \<le> balance_of s (txn_key t) + reverse_delta t
      then Inr (moved s (txn_key t) (reverse_delta t) 0 at
             (entry (reverse_ref (txn_ref t)) (txn_user t) (txn_currency t) (opposite (txn_kind t))
                (txn_amount t) (Some (txn_ref t)) memo at))
      else Inl CHECK)"
  by (auto simp: reverse_stmts_def exec_stmt.simps moved_def row_of_def Let_def
      solvent_adjust_iff balance_of_def held_of_def)

lemma find_entry_iff:
  assumes "ledger_ok s"
  shows "find_entry s r = Some t \<longleftrightarrow> t \<in> set (entries s) \<and> txn_ref t = r"
  using find_unique_key [OF ledger_okD(1) [OF assms], of t]
  by (auto simp: find_entry_def dest: find_in_set)

lemma find_entry_None_iff: "find_entry s r = None \<longleftrightarrow> \<not> taken s r"
  by (auto simp: find_entry_def find_none_iff)

lemma find_hold_iff:
  assumes "ledger_ok s"
  shows "find_hold s r = Some h \<longleftrightarrow> h \<in> set (holds s) \<and> hold_ref h = r"
  using find_unique_key [OF ledger_okD(2) [OF assms], of h]
  by (auto simp: find_hold_def dest: find_in_set)

section \<open>An open hold can always be resolved\<close>

lemma derived_refs_differ [simp]:
  "resolve_ref x \<noteq> reverse_ref y" "resolve_ref x \<noteq> out_ref y" "resolve_ref x \<noteq> in_ref y"
  "resolve_ref x = resolve_ref y \<longleftrightarrow> x = y" "reverse_ref x = reverse_ref y \<longleftrightarrow> x = y"
  "in_ref x \<noteq> out_ref y"
proof -
  show "resolve_ref x \<noteq> out_ref y" "resolve_ref x \<noteq> in_ref y" "in_ref x \<noteq> out_ref y"
    unfolding resolve_ref_def out_ref_def in_ref_def by (auto dest: arg_cong [where f = last])
qed (simp_all add: resolve_ref_def reverse_ref_def)

text \<open>While a hold is open, whatever stands under its \<open>:resolve\<close> ref is not its resolution.\<close>

lemma open_hold_not_derived:
  assumes ok: "ledger_ok s" and h: "h \<in> set (holds s)" "hold_status h = Open"
  shows "assert_own_derived s (resolve_ref (hold_ref h)) (hold_ref h) k
       = Inl (Ref_conflict (resolve_ref (hold_ref h)))"
proof -
  have False if t: "find_entry s (resolve_ref (hold_ref h)) = Some t"
    and rel: "txn_related t = Some (hold_ref h)" for t
  proof -
    have tin: "t \<in> set (entries s)" and tref: "txn_ref t = resolve_ref (hold_ref h)"
      using t find_entry_iff [OF ok] by auto
    note e = ledger_okD(7) [OF ok tin]
    have "derived_from (txn_kind t) (resolve_ref (hold_ref h)) (hold_ref h)"
      using e rel tref by (simp add: entry_ok_def)
    then have "txn_kind t = Release \<or> txn_kind t = Capture"
      by (cases "txn_kind t") (auto simp: derived_from.simps)
    with e obtain g where "g \<in> set (holds s)" "hold_status g \<noteq> Open" "resolved_by t g"
      unfolding entry_ok_def by blast
    moreover from this have "hold_ref g = hold_ref h" using tref by (simp add: resolved_by_def)
    ultimately show False
      using h find_unique_key [OF ledger_okD(2) [OF ok]] by (metis option.inject)
  qed
  then show ?thesis
    by (auto simp: assert_own_derived_def guard_def split: option.split)
qed

text \<open>The tables after a hold has been resolved by one entry.\<close>

definition resolved ::
  "ledger_db \<Rightarrow> ledger_hold \<Rightarrow> hold_state \<Rightarrow> int \<Rightarrow> millis \<Rightarrow> ledger_transaction \<Rightarrow> ledger_db" where
  "resolved s h st db at t =
     (moved s (hold_key h) db (- hold_amount h) at t)
       \<lparr>holds := map (resolve_if_open (hold_ref h) st at) (holds s)\<rparr>"

lemma resolved_simps [simp]:
  "entries (resolved s h st db at t) = entries s @ [t]"
  "holds (resolved s h st db at t) = map (resolve_if_open (hold_ref h) st at) (holds s)"
  "balance_of (resolved s h st db at t) k = balance_of s k + (if k = hold_key h then db else 0)"
  "held_of (resolved s h st db at t) k
     = held_of s k + (if k = hold_key h then - hold_amount h else 0)"
  using moved_simps [of s "hold_key h" db "- hold_amount h" at t]
  by (simp_all add: resolved_def balance_of_def held_of_def)

lemma open_hold_within_held:
  assumes ok: "ledger_ok s" and h: "h \<in> set (holds s)" "hold_status h = Open"
  shows "hold_amount h \<le> held_of s (hold_key h)"
proof -
  have "open_part (hold_key h) h \<le> sum_list (map (open_part (hold_key h)) (holds s))"
  proof (rule member_le_sum_list)
    show "open_part (hold_key h) h \<in> set (map (open_part (hold_key h)) (holds s))" using h by simp
    show "0 \<le> x" if "x \<in> set (map (open_part (hold_key h)) (holds s))" for x
      using that ledger_okD(6) [OF ok] by (force simp: open_part_def hold_ok_def)
  qed
  then show ?thesis
    using h ledger_okD(5) [OF ok] by (simp add: held_total_def open_part_def)
qed

lemma resolve_batch:
  assumes ok: "ledger_ok s" and h: "h \<in> set (holds s)" "hold_status h = Open"
    and n: "0 \<le> n" "n \<le> hold_amount h"
    and t: "txn_ref t = resolve_ref (hold_ref h)"
  shows "d1_batch s [Insert_entry t, Resolve_hold (hold_ref h) st at,
           Adjust (hold_user h) (hold_currency h) (- n) (- hold_amount h) at]
       = (if taken s (resolve_ref (hold_ref h)) then Inl UNIQUE else Inr (resolved s h st (- n) at t))"
proof -
  have "accounts s (hold_key h) \<noteq> None"
    using ledger_okD(6) [OF ok h(1)] by (simp add: hold_ok_def)
  then obtain a where a: "accounts s (hold_key h) = Some a" by auto
  have "solvent_row (adjust_row (- n) (- hold_amount h) at a)"
    unfolding solvent_adjust_iff
    using open_hold_within_held [OF ok h] ledger_okD(3) [OF ok a] n a
    by (simp add: solvent_row_def held_of_def)
  then show ?thesis
    using a t by (simp add: exec_stmt.simps Let_def resolved_def moved_def row_of_def)
qed

lemma release_hold_eq:
  assumes ok: "ledger_ok s" and h: "h \<in> set (holds s)" "hold_status h = Open"
  shows "release_hold s h memo at =
    (if taken s (resolve_ref (hold_ref h)) then Inl (Ref_conflict (resolve_ref (hold_ref h)))
     else (let s' = resolved s h Released 0 at
                 (entry (resolve_ref (hold_ref h)) (hold_user h) (hold_currency h) Release
                    (hold_amount h) (Some (hold_ref h)) memo at)
           in Inr (\<lparr>applied = True, before = read_balance s (hold_user h) (hold_currency h),
                    after = read_balance s' (hold_user h) (hold_currency h)\<rparr>, s')))"
proof -
  have "0 \<le> hold_amount h" using ledger_okD(6) [OF ok h(1)] by (simp add: hold_ok_def)
  note b = resolve_batch [OF ok h order_refl [of 0] this entry_simps(1), unfolded minus_zero]
  show ?thesis
    unfolding release_hold_def run_def release_stmts_def b
    by (simp add: if_replayed_def Let_def open_hold_not_derived [OF ok h] read_balance_eq
        to_balance_def available_of_def)
qed

lemma capture_hold_eq:
  assumes ok: "ledger_ok s" and h: "h \<in> set (holds s)" "hold_status h = Open"
    and n: "0 \<le> n" "n \<le> hold_amount h"
  shows "capture_hold s h n memo at =
    (if taken s (resolve_ref (hold_ref h)) then Inl (Ref_conflict (resolve_ref (hold_ref h)))
     else (let s' = resolved s h Captured (- n) at
                 (entry (resolve_ref (hold_ref h)) (hold_user h) (hold_currency h) Capture
                    n (Some (hold_ref h)) memo at)
           in Inr (\<lparr>applied = True, before = read_balance s (hold_user h) (hold_currency h),
                    after = read_balance s' (hold_user h) (hold_currency h)\<rparr>, s')))"
  unfolding capture_hold_def run_def capture_stmts_def resolve_batch [OF ok h n entry_simps(1)]
  by (simp add: if_replayed_def Let_def open_hold_not_derived [OF ok h]
      read_balance_eq to_balance_def available_of_def)


section \<open>Redelivery\<close>

text \<open>The call delivered again at another time, and the two calls that require an open hold.\<close>

fun at_time :: "millis \<Rightarrow> ledger_op \<Rightarrow> ledger_op" where
  "at_time l (Op_credit u c n r m at) = Op_credit u c n r m l"
| "at_time l (Op_debit u c n r m at) = Op_debit u c n r m l"
| "at_time l (Op_reverse r m at) = Op_reverse r m l"
| "at_time l (Op_transfer src dst c n r m at) = Op_transfer src dst c n r m l"
| "at_time l (Op_hold u c n r at) = Op_hold u c n r l"
| "at_time l (Op_release r m at) = Op_release r m l"
| "at_time l (Op_capture r n m at) = Op_capture r n m l"
| "at_time l (Op_managed_credit u c n r m at) = Op_managed_credit u c n r m l"
| "at_time l (Op_managed_debit u c n r m at) = Op_managed_debit u c n r m l"
| "at_time l (Op_managed_reverse r k m at) = Op_managed_reverse r k m l"
| "at_time l (Op_managed_release r k m at) = Op_managed_release r k m l"

fun requires_open :: "ledger_op \<Rightarrow> bool" where
  "requires_open (Op_release r m at) = True"
| "requires_open (Op_capture r n m at) = True"
| "requires_open _ = False"

text \<open>What the tables show of a call that was answered.\<close>

definition reversal_shown :: "ledger_db \<Rightarrow> ref \<Rightarrow> account_key option \<Rightarrow> bool" where
  "reversal_shown s r k \<longleftrightarrow> (\<exists>t. reversible s r k = Inr t \<and> taken s (reverse_ref r)
     \<and> assert_own_derived s (reverse_ref r) r (txn_key t) = Inr ())"

definition positive :: "jsnum \<Rightarrow> bool" where
  "positive a \<longleftrightarrow> (\<exists>n>0. a = JSInt n)"

fun answered :: "ledger_db \<Rightarrow> ledger_op \<Rightarrow> bool" where
  "answered s (Op_credit u c n r m at) \<longleftrightarrow> positive n \<and> taken s r"
| "answered s (Op_debit u c n r m at) \<longleftrightarrow> positive n \<and> taken s r"
| "answered s (Op_hold u c n r at) \<longleftrightarrow> positive n \<and> taken s r"
| "answered s (Op_transfer src dst c n r m at) \<longleftrightarrow> positive n \<and> (taken s (out_ref r) \<or> taken s (in_ref r))"
| "answered s (Op_reverse r m at) \<longleftrightarrow> reversal_shown s r None"
| "answered s (Op_managed_reverse r k m at) \<longleftrightarrow> reversal_shown s r k"
| "answered s (Op_managed_credit u c a r m at) \<longleftrightarrow>
     (\<exists>n>0. a = JSInt n \<and> assert_same_entry s r (u, c) Credit n = Inr ())"
| "answered s (Op_managed_debit u c a r m at) \<longleftrightarrow>
     (\<exists>n>0. a = JSInt n \<and> assert_same_entry s r (u, c) Debit n = Inr ())"
| "answered s (Op_managed_release r k m at) \<longleftrightarrow>
     (\<exists>h. find_hold s r = Some h \<and> hold_status h = Released \<and> on_account (hold_key h) k)"
| "answered s (Op_release r m at) \<longleftrightarrow> (\<exists>h. find_hold s r = Some h \<and> hold_status h \<noteq> Open)"
| "answered s (Op_capture r n m at) \<longleftrightarrow> (\<exists>h. find_hold s r = Some h \<and> hold_status h \<noteq> Open)"

lemma extends_find_entry:
  "extends s s' \<Longrightarrow> find_entry s r = Some t \<Longrightarrow> find_entry s' r = Some t"
  by (auto simp: extends_def find_entry_def find_append)

lemma extends_taken: "extends s s' \<Longrightarrow> taken s r \<Longrightarrow> taken s' r"
  by (auto simp: extends_def)

lemma extends_resolved_hold:
  assumes "ledger_ok s'" "extends s s'" "find_hold s r = Some h" "hold_status h \<noteq> Open"
  shows "find_hold s' r = Some h"
  using assms find_hold_SomeD [OF assms(3)] find_hold_iff [OF assms(1)]
  unfolding extends_def by blast

lemma reversible_extends:
  "extends s s' \<Longrightarrow> reversible s r k = Inr t \<Longrightarrow> reversible s' r k = Inr t"
  using extends_find_entry [of s s' r]
  by (auto simp: reversible_def split: option.splits if_splits)

lemma own_derived_extends:
  "extends s s' \<Longrightarrow> assert_own_derived s d r k = Inr () \<Longrightarrow> assert_own_derived s' d r k = Inr ()"
  using extends_find_entry [of s s' d]
  by (auto simp: assert_own_derived_def split: option.splits)

lemma same_entry_extends:
  "extends s s' \<Longrightarrow> assert_same_entry s r k kd n = Inr () \<Longrightarrow> assert_same_entry s' r k kd n = Inr ()"
  using extends_find_entry [of s s' r]
  by (auto simp: assert_same_entry_def split: option.splits)

lemma answered_stays:
  assumes "ledger_ok s'" "extends s s'" "answered s op"
  shows "answered s' op"
proof (cases op)
  case (Op_managed_release r k m at)
  with assms(3) obtain h where h: "find_hold s r = Some h" "hold_status h = Released"
      "on_account (hold_key h) k" by auto
  have "find_hold s' r = Some h"
    by (rule extends_resolved_hold [OF assms(1,2) h(1)]) (simp add: h)
  with h Op_managed_release show ?thesis by simp
qed (use assms(3) in \<open>auto simp: reversal_shown_def
      intro: extends_taken [OF assms(2)] reversible_extends [OF assms(2)]
        own_derived_extends [OF assms(2)] same_entry_extends [OF assms(2)]
        extends_resolved_hold [OF assms(1,2)]\<close>)

lemma run_replay:
  "d1_batch s q = Inl UNIQUE \<Longrightarrow>
     run s q k db dh ins = Inr (\<lparr>applied = False, before = read_balance s (fst k) (snd k),
       after = read_balance s (fst k) (snd k)\<rparr>, s)"
  by (simp add: run_def Let_def)

lemma same_entry_taken: "assert_same_entry s r k kd n = Inr () \<Longrightarrow> taken s r"
  by (auto simp: assert_same_entry_def find_entry_def dest: find_in_set split: option.splits)

lemma reversal_replay:
  assumes "reversal_shown s r k"
  obtains out t where "writes_reverse s r k m at = Inr ((out, s), t)"
proof -
  from assms obtain t where t: "reversible s r k = Inr t" "taken s (reverse_ref r)"
      "assert_own_derived s (reverse_ref r) r (txn_key t) = Inr ()"
    by (auto simp: reversal_shown_def)
  have "txn_ref t = r" using reversible_InrD [OF t(1)] by simp
  then have "d1_batch s (reverse_stmts t m at) = Inl UNIQUE" using t(2) taken_aborts(4) by simp
  from run_replay [OF this] t that show ?thesis
    by (auto simp: writes_reverse_def if_replayed_def)
qed

text \<open>A call already answered, delivered again, moves nothing.\<close>

lemma answered_noop:
  assumes "answered s op" "\<not> requires_open op"
  shows "ledger_step s (at_time l op) = Inr s"
proof (cases op)
  case (Op_transfer src dst c n r m at)
  with assms show ?thesis
    using taken_transfer_aborts [where s = s and r = r]
    by (auto simp: positive_def ledger_transfer_def)
next
  case (Op_reverse r m at)
  with assms(1) have "reversal_shown s r None" by simp
  then obtain out t where "writes_reverse s r None m l = Inr ((out, s), t)"
    by (rule reversal_replay [where m = m and at = l])
  with Op_reverse show ?thesis by (simp add: ledger_reverse_def answer_after_def)
next
  case (Op_managed_reverse r k m at)
  with assms(1) have "reversal_shown s r k" by simp
  then obtain out t where "writes_reverse s r k m l = Inr ((out, s), t)"
    by (rule reversal_replay [where m = m and at = l])
  with Op_managed_reverse show ?thesis by simp
next
  case (Op_managed_release r k m at)
  with assms show ?thesis by (auto simp: writes_release_def Let_def)
next
  case (Op_managed_credit u c a r m at)
  with assms obtain n where n: "a = JSInt n" "0 < n" "assert_same_entry s r (u, c) Credit n = Inr ()"
    by auto
  with run_replay [OF taken_aborts(1) [OF same_entry_taken [OF n(3)]]] Op_managed_credit
  show ?thesis by (simp add: managed_credit_def writes_credit_def if_replayed_def)
next
  case (Op_managed_debit u c a r m at)
  with assms obtain n where n: "a = JSInt n" "0 < n" "assert_same_entry s r (u, c) Debit n = Inr ()"
    by auto
  with run_replay [OF taken_aborts(2) [OF same_entry_taken [OF n(3)]]] Op_managed_debit
  show ?thesis by (simp add: managed_debit_def writes_debit_def if_replayed_def)
qed (use assms in \<open>auto simp: positive_def ledger_credit_def ledger_debit_def writes_credit_def
       writes_debit_def place_hold_def answer_after_def run_replay taken_aborts\<close>)

text \<open>A release or a capture that was answered finds its hold resolved.\<close>

lemma answered_refused:
  assumes "answered s op" "requires_open op"
  shows "ledger_step s (at_time l op) = Inl Hold_not_open"
  using assms
  by (cases op)
    (auto simp: ledger_release_def ledger_capture_def require_open_hold_def answer_after_def)


lemma exec_stmt_keeps_entries: "exec_stmt s q = Inr s' \<Longrightarrow> set (entries s) \<subseteq> set (entries s')"
  by (cases q) (auto simp: exec_stmt.simps Let_def split: option.splits if_splits)

lemma batch_keeps_entries: "d1_batch s q = Inr s' \<Longrightarrow> set (entries s) \<subseteq> set (entries s')"
  by (induction q arbitrary: s) (use exec_stmt_keeps_entries in \<open>fastforce simp: and_then_eq_Inr\<close>)+

lemma batch_inserted:
  "d1_batch s q = Inr s' \<Longrightarrow> Insert_entry t \<in> set q \<Longrightarrow> t \<in> set (entries s')"
proof (induction q arbitrary: s)
  case (Cons p q)
  from Cons.prems(1) obtain s1 where s1: "exec_stmt s p = Inr s1" and r: "d1_batch s1 q = Inr s'"
    by (rule batch_InrE)
  show ?case
  proof (cases "p = Insert_entry t")
    case True
    with s1 have "t \<in> set (entries s1)" by (auto dest: insert_InrD)
    then show ?thesis using batch_keeps_entries [OF r] by blast
  next
    case False
    with Cons r show ?thesis by auto
  qed
qed simp

lemma run_InrD:
  "run s q k db dh ins = Inr (out, s') \<Longrightarrow>
     applied out \<and> d1_batch s q = Inr s' \<or> \<not> applied out \<and> d1_batch s q = Inl UNIQUE \<and> s' = s"
  by (auto simp: run_def Let_def split: sum.splits violation.splits option.splits)

lemma hold_ref_taken: "ledger_ok s \<Longrightarrow> h \<in> set (holds s) \<Longrightarrow> taken s (hold_ref h)"
  using ledger_okD(6) [of s h] by (force simp: hold_ok_def placed_by_def)

lemma UNIQUE_hold_taken:
  assumes "ledger_ok s" "d1_batch s (hold_stmts u c n r at) = Inl UNIQUE" shows "taken s r"
proof (rule ccontr)
  assume free: "\<not> taken s r"
  with hold_ref_taken [OF assms(1)] have "r \<notin> hold_ref ` set (holds s)" by blast
  with free assms(2) show False
    by (cases "accounts s (u, c)")
      (auto simp: hold_stmts_def exec_stmt.simps Let_def split: if_splits)
qed

lemma UNIQUE_transfer_taken:
  "d1_batch s (transfer_stmts src dst c n r m at) = Inl UNIQUE \<Longrightarrow>
     taken s (out_ref r) \<or> taken s (in_ref r)"
  by (rule ccontr, cases "accounts s (src, c)"; cases "accounts s (dst, c)")
    (auto simp: transfer_stmts_def exec_stmt.simps Let_def and_then_eq_Inl and_then_eq_Inr
      split: if_splits option.splits)


lemma run_takes:
  assumes "run s q k db dh ins = Inr (out, s')" "Insert_entry t \<in> set q"
    and "d1_batch s q = Inl UNIQUE \<Longrightarrow> taken s (txn_ref t)"
  shows "taken s' (txn_ref t)"
  using run_InrD [OF assms(1)] batch_inserted [OF _ assms(2)] assms(3) by auto

lemma credit_takes:
  assumes "writes_credit s u c a r m at = Inr (out, s')"
  shows "positive a \<and> taken s' r"
proof -
  from assms obtain n where n: "assert_amount a = Inr n"
    and run: "run s (credit_stmts u c n r m at) (u, c) n 0 None = Inr (out, s')"
    by (auto simp: writes_credit_def and_then_eq_Inr)
  have "Insert_entry (entry r u c Credit n None m at) \<in> set (credit_stmts u c n r m at)"
    by (simp add: credit_stmts_def)
  from run_takes [OF run this] UNIQUE_means_taken(1) assert_amount_InrD [OF n]
  show ?thesis by (auto simp: positive_def)
qed

lemma debit_takes:
  assumes "writes_debit s u c a r m at = Inr (out, s')"
  shows "positive a \<and> taken s' r"
proof -
  from assms obtain n where n: "assert_amount a = Inr n"
    and run: "run s (debit_stmts u c n r m at) (u, c) (- n) 0 (Some (shortfall n)) = Inr (out, s')"
    by (auto simp: writes_debit_def and_then_eq_Inr)
  have "Insert_entry (entry r u c Debit n None m at) \<in> set (debit_stmts u c n r m at)"
    by (simp add: debit_stmts_def)
  from run_takes [OF run this] UNIQUE_means_taken(2) assert_amount_InrD [OF n]
  show ?thesis by (auto simp: positive_def)
qed

lemma hold_takes:
  assumes "ledger_ok s" "place_hold s u c a r at = Inr (b, s')"
  shows "positive a \<and> taken s' r"
proof -
  from assms(2) obtain n out where n: "assert_amount a = Inr n"
    and run: "run s (hold_stmts u c n r at) (u, c) 0 n (Some (\<lambda>_. Insufficient_funds None)) = Inr (out, s')"
    by (auto simp: place_hold_def and_then_eq_Inr answer_after_eq_Inr)
  have "Insert_entry (entry r u c Hold n None None at) \<in> set (hold_stmts u c n r at)"
    by (simp add: hold_stmts_def)
  from run_takes [OF run this] UNIQUE_hold_taken [OF assms(1)] assert_amount_InrD [OF n]
  show ?thesis by (auto simp: positive_def)
qed

lemma transfer_takes:
  assumes "ledger_transfer s src dst c a r m at = Inr s'"
  shows "positive a \<and> (taken s' (out_ref r) \<or> taken s' (in_ref r))"
proof -
  from assms obtain n where n: "assert_amount a = Inr n"
    and ans: "(case d1_batch s (transfer_stmts src dst c n r m at) of
          Inl UNIQUE \<Rightarrow> Inr s | Inl CHECK \<Rightarrow> Inl (Insufficient_funds None) | Inr s' \<Rightarrow> Inr s') = Inr s'"
    by (auto simp: ledger_transfer_def and_then_eq_Inr)
  have "Insert_entry (entry (out_ref r) src c Transfer_out n (Some (in_ref r)) m at)
      \<in> set (transfer_stmts src dst c n r m at)" by (simp add: transfer_stmts_def)
  note ins = batch_inserted [OF _ this]
  have pos: "positive a" using assert_amount_InrD [OF n] by (simp add: positive_def)
  show ?thesis
  proof (cases "d1_batch s (transfer_stmts src dst c n r m at)")
    case (Inl v)
    with ans have "v = UNIQUE \<and> s' = s" by (cases v) simp_all
    with pos UNIQUE_transfer_taken Inl show ?thesis by blast
  next
    case (Inr s1)
    with ans have "s1 = s'" by simp
    from ins [OF Inr [unfolded this]] pos show ?thesis by (metis entry_simps(1) imageI)
  qed
qed

lemma own_derived_of_entry:
  assumes "ledger_ok s" "t \<in> set (entries s)" "txn_related t = Some owner" "txn_key t = k"
  shows "assert_own_derived s (txn_ref t) owner k = Inr ()"
proof -
  have "find_entry s (txn_ref t) = Some t" using find_entry_iff [OF assms(1)] assms(2) by blast
  then show ?thesis using assms(3-) by (auto simp: assert_own_derived_def)
qed

lemma same_entry_of_entry:
  assumes "ledger_ok s" "t \<in> set (entries s)" "txn_key t = k" "txn_kind t = kd" "txn_amount t = n"
  shows "assert_same_entry s (txn_ref t) k kd n = Inr ()"
proof -
  have "find_entry s (txn_ref t) = Some t" using find_entry_iff [OF assms(1)] assms(2) by blast
  then show ?thesis using assms(3-) by (auto simp: assert_same_entry_def)
qed

lemma reverse_shows:
  assumes ok: "ledger_ok s" and rev: "writes_reverse s r k m at = Inr ((out, s'), t)"
  shows "reversal_shown s' r k"
proof -
  from rev have t: "reversible s r k = Inr t"
    and run: "run s (reverse_stmts t m at) (txn_key t) (reverse_delta t) 0
      (Some (shortfall (txn_amount t))) = Inr (out, s')"
    and chk: "\<not> applied out \<Longrightarrow> assert_own_derived s' (reverse_ref r) r (txn_key t) = Inr ()"
    by (auto simp: writes_reverse_def and_then_eq_Inr if_replayed_def split: if_splits)
  have tr: "txn_ref t = r" using reversible_InrD [OF t] by simp
  have "moves_to s s'" using writes_reverse_moves rev by blast
  then have ok': "ledger_ok s'" and ext: "extends s s'" using moves_to_ok ok by auto
  have "assert_own_derived s' (reverse_ref r) r (txn_key t) = Inr ()"
  proof (cases "applied out")
    case True
    let ?e = "entry (reverse_ref r) (txn_user t) (txn_currency t) (opposite (txn_kind t))
      (txn_amount t) (Some r) m at"
    have "Insert_entry ?e \<in> set (reverse_stmts t m at)" by (simp add: reverse_stmts_def tr)
    then have "?e \<in> set (entries s')" using True run_InrD [OF run] batch_inserted by blast
    from own_derived_of_entry [OF ok' this] show ?thesis by simp
  qed (use chk in simp)
  moreover from this obtain e where "find_entry s' (reverse_ref r) = Some e"
    by (auto simp: assert_own_derived_def split: option.splits)
  then have "taken s' (reverse_ref r)" using find_entry_iff [OF ok'] by force
  ultimately show ?thesis
    using reversible_extends [OF ext t] by (auto simp: reversal_shown_def)
qed

lemma managed_shows:
  assumes ok: "ledger_ok s"
  shows "managed_credit s u c a r m at = Inr (out, s') \<Longrightarrow>
      \<exists>n>0. a = JSInt n \<and> assert_same_entry s' r (u, c) Credit n = Inr ()"
    and "managed_debit s u c a r m at = Inr (out, s') \<Longrightarrow>
      \<exists>n>0. a = JSInt n \<and> assert_same_entry s' r (u, c) Debit n = Inr ()"
proof -
  assume a: "managed_credit s u c a r m at = Inr (out, s')"
  then have ok': "ledger_ok s'" using managed_moves(1) moves_to_ok ok by blast
  from a obtain n where n: "assert_amount a = Inr n"
    and run: "run s (credit_stmts u c n r m at) (u, c) n 0 None = Inr (out, s')"
    and chk: "\<not> applied out \<Longrightarrow> assert_same_entry s' r (u, c) Credit n = Inr ()"
    by (auto simp: managed_credit_def writes_credit_def and_then_eq_Inr if_replayed_def
        split: if_splits)
  have "assert_same_entry s' r (u, c) Credit n = Inr ()"
  proof (cases "applied out")
    case True
    then have "entry r u c Credit n None m at \<in> set (entries s')"
      using run_InrD [OF run] batch_inserted by (fastforce simp: credit_stmts_def)
    from same_entry_of_entry [OF ok' this] show ?thesis by simp
  qed (use chk in simp)
  with assert_amount_InrD [OF n]
  show "\<exists>n>0. a = JSInt n \<and> assert_same_entry s' r (u, c) Credit n = Inr ()" by auto
next
  assume a: "managed_debit s u c a r m at = Inr (out, s')"
  then have ok': "ledger_ok s'" using managed_moves(2) moves_to_ok ok by blast
  from a obtain n where n: "assert_amount a = Inr n"
    and run: "run s (debit_stmts u c n r m at) (u, c) (- n) 0 (Some (shortfall n)) = Inr (out, s')"
    and chk: "\<not> applied out \<Longrightarrow> assert_same_entry s' r (u, c) Debit n = Inr ()"
    by (auto simp: managed_debit_def writes_debit_def and_then_eq_Inr if_replayed_def
        split: if_splits)
  have "assert_same_entry s' r (u, c) Debit n = Inr ()"
  proof (cases "applied out")
    case True
    then have "entry r u c Debit n None m at \<in> set (entries s')"
      using run_InrD [OF run] batch_inserted by (fastforce simp: debit_stmts_def)
    from same_entry_of_entry [OF ok' this] show ?thesis by simp
  qed (use chk in simp)
  with assert_amount_InrD [OF n]
  show "\<exists>n>0. a = JSInt n \<and> assert_same_entry s' r (u, c) Debit n = Inr ()" by auto
qed

lemma resolved_hold_found:
  assumes ok: "ledger_ok s'" and h: "h \<in> set (holds s)" "hold_status h = Open"
    and s': "s' = resolved s h st db at t"
  shows "find_hold s' (hold_ref h) = Some (resolve_row st at h)"
proof -
  have "resolve_if_open (hold_ref h) st at h = resolve_row st at h"
    using h(2) by (simp add: resolve_if_open_def)
  then have "resolve_row st at h \<in> set (holds s')" using h(1) s' by force
  then show ?thesis using find_hold_iff [OF ok] by (simp add: resolve_row_def)
qed

lemma resolution_shows:
  assumes ok: "ledger_ok s" and op: "ledger_step s op = Inr s'" and "requires_open op"
  shows "answered s' op"
proof -
  have ok': "ledger_ok s'" using ledger_step_moves [OF ok op] moves_to_ok ok by blast
  have found: "\<exists>h. find_hold s' r = Some h \<and> hold_status h \<noteq> Open"
    if h: "require_open_hold s r = Inr h" and s': "s' = resolved s h st db at t" and "st \<noteq> Open"
    for r h st db at t
    using resolved_hold_found [OF ok' _ _ s'] require_open_hold_InrD [OF h] that(3)
    by (auto simp: resolve_row_def)
  show ?thesis
  proof (cases op)
    case (Op_release r m at)
    with op obtain h out where h: "require_open_hold s r = Inr h"
      and out: "release_hold s h m at = Inr (out, s')"
      by (auto simp: map_sum_eq_Inr ledger_release_def and_then_eq_Inr answer_after_eq_Inr)
    with release_hold_eq [OF ok, of h m at] require_open_hold_InrD [OF h] found [OF h]
    show ?thesis by (auto simp: Op_release Let_def split: if_splits)
  next
    case (Op_capture r a m at)
    with op obtain h n out where h: "require_open_hold s r = Inr h"
      and n: "captured_amount h a = Inr n" and out: "capture_hold s h n m at = Inr (out, s')"
      by (auto simp: map_sum_eq_Inr ledger_capture_def and_then_eq_Inr answer_after_eq_Inr)
    note hD = require_open_hold_InrD [OF h]
    have "0 < hold_amount h" using ledger_okD(6) [OF ok] hD by (simp add: hold_ok_def)
    with captured_amount_InrD [OF n] capture_hold_eq [OF ok, of h n m at] hD out found [OF h]
    show ?thesis by (auto simp: Op_capture Let_def split: if_splits)
  qed (use assms(3) in auto)
qed

lemma managed_release_shows:
  assumes ok: "ledger_ok s" and rel: "writes_release s r k m at = Inr ((out, s'), h)"
  shows "\<exists>h. find_hold s' r = Some h \<and> hold_status h = Released \<and> on_account (hold_key h) k"
proof -
  from rel have h: "find_hold s r = Some h" "on_account (hold_key h) k" "hold_status h \<noteq> Captured"
    by (auto simp: writes_release_def Let_def and_then_eq_Inr split: option.splits if_splits)
  note hD = find_hold_SomeD [OF h(1)]
  show ?thesis
  proof (cases "hold_status h = Open")
    case False
    with rel h show ?thesis
      by (cases "hold_status h") (auto simp: writes_release_def Let_def)
  next
    case True
    with rel h obtain out' where "release_hold s h m at = Inr (out', s')"
      by (auto simp: writes_release_def Let_def and_then_eq_Inr split: if_splits)
    then obtain t where s': "s' = resolved s h Released 0 at t"
      using release_hold_eq [OF ok, of h m at] hD True by (auto simp: Let_def split: if_splits)
    have "ledger_ok s'" using writes_release_moves [OF rel] moves_to_ok ok by blast
    from resolved_hold_found [OF this _ True s'] hD h(2) show ?thesis
      by (simp add: resolve_row_def)
  qed
qed

text \<open>Every call that was answered is shown by the tables it left.\<close>

lemma answered_after:
  assumes ok: "ledger_ok s" and op: "ledger_step s op = Inr s'"
  shows "answered s' op"
proof (cases "requires_open op")
  case True
  with resolution_shows [OF ok op] show ?thesis by simp
next
  case False
  with op show ?thesis
    by (cases op)
      (auto simp: map_sum_eq_Inr ledger_credit_def ledger_debit_def ledger_reverse_def
        answer_after_eq_Inr and_then_eq_Inr
        dest: credit_takes debit_takes transfer_takes hold_takes [OF ok] reverse_shows [OF ok]
          managed_shows(1) [OF ok] managed_shows(2) [OF ok] managed_release_shows [OF ok])
qed


section \<open>Movements of accounts\<close>

lemma totals_of_entries [simp]:
  "balance_of (s\<lparr>entries := es\<rparr>) = balance_of s" "held_of (s\<lparr>entries := es\<rparr>) = held_of s"
  by (simp_all add: balance_of_def held_of_def fun_eq_iff)

lemma ensure_balances:
  assumes "exec_stmt s (Ensure_account u c at) = Inr s'"
  shows "balance_of s' k = balance_of s k" "held_of s' k = held_of s k"
    "accounts s' (u, c) \<noteq> None" "accounts s k \<noteq> None \<Longrightarrow> accounts s' k \<noteq> None"
  using assms
  by (cases "accounts s (u, c)";
      force simp: exec_stmt.simps balance_of_def held_of_def new_account_def)+

lemma adjust_balances:
  assumes "exec_stmt s (Adjust u c db dh at) = Inr s'" and "accounts s (u, c) \<noteq> None"
  shows "balance_of s' k = balance_of s k + (if k = (u, c) then db else 0)"
    "held_of s' k = held_of s k + (if k = (u, c) then dh else 0)"
    "accounts s k \<noteq> None \<Longrightarrow> accounts s' k \<noteq> None"
proof -
  from assms(2) obtain a where a: "accounts s (u, c) = Some a" by auto
  from adjust_InrD [OF assms(1) a]
  have "s' = s\<lparr>accounts := (accounts s)((u, c) \<mapsto> adjust_row db dh at a)\<rparr>" by simp
  with a show "balance_of s' k = balance_of s k + (if k = (u, c) then db else 0)"
    "held_of s' k = held_of s k + (if k = (u, c) then dh else 0)"
    "accounts s k \<noteq> None \<Longrightarrow> accounts s' k \<noteq> None"
    by (simp_all add: balance_of_def held_of_def adjust_row_def)
qed

lemma transfer_balances:
  assumes "d1_batch s (transfer_stmts src dst c n r memo at) = Inr s'"
  shows "balance_of s' k
      = balance_of s k - (if k = (src, c) then n else 0) + (if k = (dst, c) then n else 0)"
    "held_of s' k = held_of s k"
proof -
  let ?o = "entry (out_ref r) src c Transfer_out n (Some (in_ref r)) memo at"
    and ?i = "entry (in_ref r) dst c Transfer_in n (Some (out_ref r)) memo at"
  from assms obtain s1 s2 s3 where e1: "exec_stmt s (Ensure_account src c at) = Inr s1"
    and e2: "exec_stmt s1 (Ensure_account dst c at) = Inr s2"
    and e3: "exec_stmt (s2\<lparr>entries := entries s2 @ [?o, ?i]\<rparr>) (Adjust src c (- n) 0 at) = Inr s3"
    and e4: "exec_stmt s3 (Adjust dst c n 0 at) = Inr s'"
    unfolding transfer_stmts_def
    by (auto elim!: batch_InrE dest!: insert_InrD simp: and_then_eq_Inr)
  have a2: "accounts s2 (src, c) \<noteq> None" "accounts s2 (dst, c) \<noteq> None"
    using ensure_balances(3) [OF e1] ensure_balances(3) [OF e2] ensure_balances(4) [OF e2] by auto
  then have a3: "accounts s3 (dst, c) \<noteq> None"
    using adjust_balances(3) [OF e3] by simp
  have "balance_of s2 k = balance_of s k" "held_of s2 k = held_of s k"
    using ensure_balances(1,2) [OF e1] ensure_balances(1,2) [OF e2] by simp_all
  moreover have "balance_of s3 k = balance_of s2 k - (if k = (src, c) then n else 0)"
      "held_of s3 k = held_of s2 k"
    using adjust_balances(1,2) [OF e3, of k] a2(1) by simp_all
  ultimately show "balance_of s' k
      = balance_of s k - (if k = (src, c) then n else 0) + (if k = (dst, c) then n else 0)"
    "held_of s' k = held_of s k"
    using adjust_balances(1,2) [OF e4 a3, of k] by simp_all
qed

end
