(* ===== verification/Ledger_Properties.thy ===== *)
theory Ledger_Properties
  imports Ledger_Laws
begin

text \<open>
  The properties of the ledger: what holds however batches interleave, what a redelivered call
  does, and what each kind of movement does to the accounts.
\<close>

section \<open>Sample tables\<close>

text \<open>A concrete account for the witnesses: nine chips credited, five of them held.\<close>

definition ann :: account_key where "ann = (''ann'', ''chips'')"

definition sample_row :: "int \<Rightarrow> int \<Rightarrow> ledger_account" where
  "sample_row b h = \<lparr>acc_balance = b, acc_held = h, acc_created = 1, acc_updated = 2\<rparr>"

definition credited :: ledger_db where
  "credited = keep_on_error empty_ledger
     (ledger_step empty_ledger (Op_credit ''ann'' ''chips'' (JSInt 9) ''c'' None 1))"

definition staked :: ledger_db where
  "staked = keep_on_error credited
     (ledger_step credited (Op_hold ''ann'' ''chips'' (JSInt 5) ''h'' 2))"

lemma credited_ok: "ledger_ok credited" and staked_ok: "ledger_ok staked"
proof -
  show 1: "ledger_ok credited" unfolding credited_def by (rule keep_ok [OF ledger_ok_empty])
  show "ledger_ok staked" unfolding staked_def by (rule keep_ok [OF 1])
qed

lemmas eval_ledger = exec_stmt.simps run_def Let_def ledger_credit_def writes_credit_def
  ledger_debit_def writes_debit_def answer_after_def credit_stmts_def debit_stmts_def
  hold_stmts_def place_hold_def new_account_def adjust_row_def solvent_row_def

lemma credited_step:
  "d1_batch empty_ledger (credit_stmts ''ann'' ''chips'' 9 ''c'' None 1) = Inr credited"
  by (simp add: credited_def eval_ledger empty_ledger_def)

lemma credited_eq:
  "credited = \<lparr>accounts = [ann \<mapsto> sample_row 9 0\<lparr>acc_updated := 1\<rparr>],
     entries = [entry ''c'' ''ann'' ''chips'' Credit 9 None None 1], holds = []\<rparr>"
  by (simp add: credited_def eval_ledger empty_ledger_def ann_def sample_row_def)

lemma staked_step:
  "d1_batch credited (hold_stmts ''ann'' ''chips'' 5 ''h'' 2) = Inr staked"
  by (simp add: staked_def credited_eq eval_ledger ann_def sample_row_def)

lemma staked_eq:
  "staked = \<lparr>accounts = [ann \<mapsto> sample_row 9 5],
     entries = [entry ''c'' ''ann'' ''chips'' Credit 9 None None 1,
                entry ''h'' ''ann'' ''chips'' Hold 5 None None 2],
     holds = [new_hold ''h'' ''ann'' ''chips'' 5 2]\<rparr>"
  by (simp add: staked_def credited_eq eval_ledger ann_def sample_row_def)

section \<open>Under every interleaving\<close>

text \<open>C2: However the batches of concurrent operations interleave, are replayed, refused or
  dropped, in every state reached from the empty tables every account is solvent (its reserved
  part is between zero and its balance), its balance is the sum of its entries, and its reserved
  part is the sum of its open holds.\<close>

theorem ledger_interleaved_sound:
  assumes "system_step\<^sup>*\<^sup>* idle z"
  shows "account_sound (tables z) k"
  using system_reachable_ok [OF assms idle_ok] ledger_ok_account_sound
  by (auto simp: system_ok_def)

text \<open>Two prepared batches, the later one sent first.\<close>

lemma sample_interleaving: "system_step\<^sup>*\<^sup>* idle \<lparr>tables = staked, in_flight = []\<rparr>"
proof -
  let ?c = "credit_stmts ''ann'' ''chips'' 9 ''c'' None 1" and ?h = "hold_stmts ''ann'' ''chips'' 5 ''h'' 2"
  let ?z1 = "idle\<lparr>in_flight := [?h]\<rparr>" and ?z2 = "idle\<lparr>in_flight := [?c, ?h]\<rparr>"
  let ?z3 = "\<lparr>tables = credited, in_flight = [?h]\<rparr>"
  have "system_step idle ?z1"
    using system_step.prepare [of idle ?h] planned.hold by (simp add: idle_def)
  moreover have "system_step ?z1 ?z2"
    using system_step.prepare [of ?z1 ?c] planned.credit by (simp add: idle_def)
  moreover have "system_step ?z2 ?z3"
    using system_step.commit [of ?z2 "[]" ?c "[?h]" credited] credited_step by (simp add: idle_def)
  moreover have "system_step ?z3 \<lparr>tables = staked, in_flight = []\<rparr>"
    using system_step.commit [of ?z3 "[]" ?h "[]" staked] staked_step by simp
  ultimately show ?thesis by (blast intro: converse_rtranclp_into_rtranclp)
qed

theorem ledger_interleaved_sound_witness:
  "account_sound staked ann \<and> balance_of staked ann = 9 \<and> held_of staked ann = 5"
  using ledger_interleaved_sound [OF sample_interleaving, of ann]
  by (simp add: staked_eq balance_of_def held_of_def sample_row_def)

text \<open>The entry log is append-only and a resolved hold is final: from any reached state to
  any later one, the entries are the same list with new ones after it, and every hold that was
  released or captured stands exactly as it was.\<close>

theorem ledger_history_kept:
  assumes "system_step\<^sup>*\<^sup>* idle z" and "system_step\<^sup>*\<^sup>* z z'"
  shows "(\<exists>new. entries (tables z') = entries (tables z) @ new)
    \<and> {h \<in> set (holds (tables z)). hold_status h \<noteq> Open} \<subseteq> set (holds (tables z'))"
proof -
  have "system_ok z" using system_reachable_ok [OF assms(1) idle_ok] by simp
  then have "extends (tables z) (tables z')" using system_reachable_ok [OF assms(2)] by simp
  then show ?thesis unfolding extends_def by fastforce
qed

theorem ledger_history_kept_witness:
  "\<exists>new. entries staked = entries empty_ledger @ new"
  using ledger_history_kept [OF rtranclp.rtrancl_refl sample_interleaving] by (simp add: idle_def)

section \<open>Redelivery\<close>

text \<open>C25: Every write but the in-process \<open>release\<close> and \<open>capture\<close> is idempotent at any distance:
  once a call has been answered, delivering it again after any run of other operations, at any
  later time, answers and leaves the tables exactly as they are.\<close>

theorem redelivered_call_moves_nothing:
  assumes "ledger_ok s" and "ledger_step s op = Inr s1" and "\<not> requires_open op"
  shows "ledger_step (ledger_ops.run s1 ops) (at_time later op) = Inr (ledger_ops.run s1 ops)"
proof -
  have ok1: "ledger_ok s1" by (rule ledger_ops.step_inv [OF assms(1,2)])
  have "answered (ledger_ops.run s1 ops) op"
    by (rule ledger_ops.run_stable [where P = "\<lambda>s. answered s op", OF _ ok1 answered_after [OF assms(1,2)]])
      (use answered_stays ledger_ops.step_inv ledger_step_extends in blast)
  then show ?thesis by (rule answered_noop [OF _ assms(3)])
qed

theorem redelivered_call_moves_nothing_witness:
  "ledger_step (ledger_ops.run credited [Op_hold ''ann'' ''chips'' (JSInt 5) ''h'' 2])
     (Op_credit ''ann'' ''chips'' (JSInt 9) ''c'' None 7)
   = Inr (ledger_ops.run credited [Op_hold ''ann'' ''chips'' (JSInt 5) ''h'' 2])"
proof -
  have "ledger_step empty_ledger (Op_credit ''ann'' ''chips'' (JSInt 9) ''c'' None 1) = Inr credited"
    by (simp add: credited_def eval_ledger empty_ledger_def)
  from redelivered_call_moves_nothing
    [OF ledger_ok_empty this, of "[Op_hold ''ann'' ''chips'' (JSInt 5) ''h'' 2]" 7]
  show ?thesis by simp
qed

text \<open>A hold is resolved once: after an in-process release or capture has been answered,
  every later release or capture of that hold is refused with \<open>hold_not_open\<close> (the redelivery of
  the answered call included) and the in-process surface never answers it as a replay.\<close>

theorem resolution_not_replayable:
  assumes "ledger_ok s" and "ledger_step s op = Inr s1" and "requires_open op"
  shows "ledger_step (ledger_ops.run s1 ops) (at_time later op) = Inl Hold_not_open"
proof -
  have ok1: "ledger_ok s1" by (rule ledger_ops.step_inv [OF assms(1,2)])
  have "answered (ledger_ops.run s1 ops) op"
    by (rule ledger_ops.run_stable [where P = "\<lambda>s. answered s op", OF _ ok1 answered_after [OF assms(1,2)]])
      (use answered_stays ledger_ops.step_inv ledger_step_extends in blast)
  then show ?thesis by (rule answered_refused [OF _ assms(3)])
qed

lemma staked_capture:
  "\<exists>s1. ledger_step staked (Op_capture ''h'' None None 3) = Inr s1"
  by (simp add: staked_eq ledger_capture_def require_open_hold_def find_hold_def capture_hold_def
      capture_stmts_def eval_ledger if_replayed_def ann_def sample_row_def resolve_ref_def)

theorem resolution_not_replayable_witness:
  "\<exists>s1. ledger_step staked (Op_capture ''h'' None None 3) = Inr s1
     \<and> ledger_step s1 (Op_capture ''h'' None None 4) = Inl Hold_not_open"
proof -
  from staked_capture obtain s1
    where s1: "ledger_step staked (Op_capture ''h'' None None 3) = Inr s1" by blast
  from resolution_not_replayable [OF staked_ok s1, of "[]" 4] s1 show ?thesis by simp
qed

section \<open>What each movement does\<close>

text \<open>Capturing part of an open hold always succeeds while its \<open>:resolve\<close> ref is free: the
  balance falls by exactly the captured part, the whole reservation is given back (so the
  remainder becomes available), the hold is found captured, and no other account moves.\<close>

theorem capture_settles_hold:
  assumes ok: "ledger_ok s" and h: "find_hold s r = Some h" "hold_status h = Open"
    and n: "0 \<le> n" "n \<le> hold_amount h" and free: "find_entry s (resolve_ref r) = None"
  shows "\<exists>b s'. ledger_capture s r (Some (JSInt n)) memo at = Inr (b, s')
     \<and> b = read_balance s' (hold_user h) (hold_currency h)
     \<and> balance_of s' (hold_key h) = balance_of s (hold_key h) - n
     \<and> available_of s' (hold_key h) = available_of s (hold_key h) + (hold_amount h - n)
     \<and> map_option hold_status (find_hold s' r) = Some Captured
     \<and> (\<forall>k. k \<noteq> hold_key h \<longrightarrow> balance_of s' k = balance_of s k \<and> held_of s' k = held_of s k)"
proof -
  note hD = find_hold_SomeD [OF h(1)]
  have "\<not> taken s (resolve_ref (hold_ref h))"
    using free hD by (simp add: find_entry_None_iff)
  with capture_hold_eq [OF ok _ h(2) n, of memo at] hD
  obtain t out where cap: "capture_hold s h n memo at = Inr (out, resolved s h Captured (- n) at t)"
    and after: "after out = read_balance (resolved s h Captured (- n) at t) (hold_user h) (hold_currency h)"
    by (auto simp: Let_def)
  let ?s' = "resolved s h Captured (- n) at t"
  have "ledger_ok ?s'"
    using capture_hold_moves [OF cap _ n] hD moves_to_ok [OF _ ok] by simp
  from resolved_hold_found [OF this _ h(2) refl] hD
  have "map_option hold_status (find_hold ?s' r) = Some Captured" by (simp add: resolve_row_def)
  moreover have "ledger_capture s r (Some (JSInt n)) memo at = Inr (after out, ?s')"
    using h n cap by (simp add: ledger_capture_def require_open_hold_def answer_after_def)
  ultimately show ?thesis
    using after by (auto simp: available_of_def)
qed

theorem capture_settles_hold_witness:
  "\<exists>b s'. ledger_capture staked ''h'' (Some (JSInt 2)) None 3 = Inr (b, s')
     \<and> balance_of s' ann = 7 \<and> available_of s' ann = 7"
proof -
  let ?h = "new_hold ''h'' ''ann'' ''chips'' 5 2"
  have "find_hold staked ''h'' = Some ?h" "find_entry staked (resolve_ref ''h'') = None"
    by (simp_all add: staked_eq find_hold_def find_entry_def resolve_ref_def)
  moreover have "balance_of staked ann = 9" "available_of staked ann = 4"
    by (simp_all add: staked_eq balance_of_def available_of_def held_of_def sample_row_def)
  ultimately show ?thesis
    using capture_settles_hold [OF staked_ok, of "''h''" ?h 2 None 3] by (auto simp: ann_def)
qed

text \<open>A debit under a free ref is decided by the available balance alone: it is answered, and
  takes exactly the amount, if and only if the amount is at most what is available; otherwise it is
  refused naming the amount, what is available and the exact shortfall. An amount that is not a
  positive integer is refused first.\<close>

theorem debit_decided_by_available:
  assumes ok: "ledger_ok s" and free: "find_entry s r = None"
  shows "ledger_debit s u c (JSInt n) r memo at =
    (if n \<le> 0 then Inl Invalid_amount
     else if n \<le> available_of s (u, c)
     then (let s' = moved s (u, c) (- n) 0 at (entry r u c Debit n None memo at)
           in Inr (read_balance s' u c, s'))
     else Inl (Insufficient_funds
            (Some (n, available_of s (u, c), n - available_of s (u, c)))))
    \<and> ledger_debit s u c JSNonInt r memo at = Inl Invalid_amount"
proof -
  have fr: "\<not> taken s r" using free by (simp add: find_entry_None_iff)
  have "0 \<le> held_of s (u, c)" "held_of s (u, c) \<le> balance_of s (u, c)"
    using ledger_ok_account_sound [OF ok, of "(u, c)"] by (simp_all add: account_sound_def)
  with fr show ?thesis
    unfolding ledger_debit_def writes_debit_def answer_after_def run_def debit_stmts_def
      ensure_insert_adjust_moved
    by (auto simp: Let_def read_balance_eq available_of_def shortfall_def)
qed

theorem debit_decided_by_available_witness:
  "ledger_debit staked ''ann'' ''chips'' (JSInt 6) ''d'' None 3
     = Inl (Insufficient_funds (Some (6, 4, 2)))"
proof -
  have "find_entry staked ''d'' = None" by (simp add: staked_eq find_entry_def)
  from debit_decided_by_available [OF staked_ok this, of "''ann''" "''chips''" 6 None 3]
  show ?thesis
    by (simp add: available_of_def balance_of_def held_of_def staked_eq ann_def sample_row_def)
qed

text \<open>A reversal that applies undoes its original exactly, whatever happened in between: the
  account's balance moves back by the original's net effect, its reserved part and every other
  account stay, the original entry stays in the log, and the reversal itself can never be
  reversed.\<close>

theorem reverse_undoes_entry:
  assumes ok: "ledger_ok s"
    and rev: "writes_reverse s r account memo at = Inr ((out, s'), t)" and app: "applied out"
  shows "balance_of s' (txn_key t) = balance_of s (txn_key t) - net_effect t
     \<and> held_of s' = held_of s \<and> (\<forall>k. k \<noteq> txn_key t \<longrightarrow> balance_of s' k = balance_of s k)
     \<and> find_entry s' r = Some t
     \<and> (\<exists>kd. ledger_reverse s' (reverse_ref r) memo' at' = Inl (Entry_not_reversible kd (Some r)))"
proof -
  from rev have t: "reversible s r account = Inr t"
    and run: "run s (reverse_stmts t memo at) (txn_key t) (reverse_delta t) 0
      (Some (shortfall (txn_amount t))) = Inr (out, s')"
    by (auto simp: writes_reverse_def and_then_eq_Inr if_replayed_def split: if_splits)
  note tD = reversible_InrD [OF t]
  let ?e = "entry (reverse_ref r) (txn_user t) (txn_currency t) (opposite (txn_kind t))
      (txn_amount t) (Some r) memo at"
  have "accounts s (txn_key t) \<noteq> None"
    using ledger_okD(7) [OF ok] tD by (auto simp: entry_ok_def)
  with run_InrD [OF run] app tD reverse_batch [of s t memo at]
  have s': "s' = moved s (txn_key t) (reverse_delta t) 0 at ?e"
    by (auto split: if_splits)
  have ok': "ledger_ok s'" using writes_reverse_moves [OF rev] moves_to_ok ok by blast
  have "find_entry s' (reverse_ref r) = Some ?e" "find_entry s' r = Some t"
    using find_entry_iff [OF ok'] tD s' by auto
  moreover have "reverse_delta t = - net_effect t"
    using tD by (auto simp: reverse_delta_def net_effect_def opposite_def)
  moreover have "held_of s' = held_of s" using s' by (intro ext) simp
  ultimately show ?thesis
    using tD s' by (auto simp: ledger_reverse_def writes_reverse_def reversible_def on_account_def
        answer_after_def opposite_def)
qed

theorem reverse_undoes_entry_witness:
  "\<exists>out s' t. writes_reverse credited ''c'' None None 3 = Inr ((out, s'), t) \<and> applied out
     \<and> balance_of s' ann = 0"
proof -
  obtain out s' t where r: "writes_reverse credited ''c'' None None 3 = Inr ((out, s'), t)"
      and a: "applied out" and t: "t = entry ''c'' ''ann'' ''chips'' Credit 9 None None 1"
    by (simp add: credited_eq writes_reverse_def reversible_def find_entry_def on_account_def
        reverse_stmts_def eval_ledger if_replayed_def ann_def sample_row_def reverse_ref_def
        reverse_delta_def opposite_def)
  from reverse_undoes_entry [OF credited_ok r a] t
  have "balance_of s' ann = balance_of credited ann - 9" by (simp add: ann_def net_effect_def)
  with r a show ?thesis by (auto simp: credited_eq balance_of_def sample_row_def)
qed


text \<open>A transfer that is answered either moved exactly its amount from one account to the
  other, leaving the total of the currency and every reservation as they were, or moved nothing.
  It moved nothing exactly when one of its two derived refs was already taken, whichever write
  took it: an unrelated credit under \<open>:in\<close> is answered as success, not as a conflict.\<close>

theorem transfer_moves_or_silently_skips:
  assumes "ledger_transfer s src dst c (JSInt n) r memo at = Inr s'"
  shows "if find_entry s (out_ref r) \<noteq> None \<or> find_entry s (in_ref r) \<noteq> None then s' = s
    else (\<forall>k. held_of s' k = held_of s k \<and> balance_of s' k = balance_of s k
            - (if k = (src, c) then n else 0) + (if k = (dst, c) then n else 0))
       \<and> (\<forall>ks. finite ks \<and> {(src, c), (dst, c)} \<subseteq> ks \<longrightarrow>
            (\<Sum>k\<in>ks. balance_of s' k) = (\<Sum>k\<in>ks. balance_of s k))"
proof -
  have tk: "find_entry s q \<noteq> None \<longleftrightarrow> taken s q" for q
    by (simp add: find_entry_None_iff)
  from assms have ans: "(case d1_batch s (transfer_stmts src dst c n r memo at) of
          Inl UNIQUE \<Rightarrow> Inr s | Inl CHECK \<Rightarrow> Inl (Insufficient_funds None) | Inr s' \<Rightarrow> Inr s') = Inr s'"
    by (auto simp: ledger_transfer_def split: if_splits)
  show ?thesis
  proof (cases "taken s (out_ref r) \<or> taken s (in_ref r)")
    case True
    with taken_transfer_aborts [OF True] ans tk show ?thesis by auto
  next
    case False
    with ans UNIQUE_transfer_taken [of s src dst c n r memo at]
    have "d1_batch s (transfer_stmts src dst c n r memo at) = Inr s'"
      by (auto split: sum.splits violation.splits)
    note b = transfer_balances [OF this]
    have "(\<Sum>k\<in>ks. balance_of s' k) = (\<Sum>k\<in>ks. balance_of s k)"
      if "finite ks" "{(src, c), (dst, c)} \<subseteq> ks" for ks
      using that by (simp add: b(1) sum.distrib sum_subtractf sum.delta)
    with b False tk show ?thesis by simp
  qed
qed

theorem transfer_moves_or_silently_skips_witness:
  "\<exists>s. ledger_credit empty_ledger ''ann'' ''chips'' (JSInt 9) (in_ref ''t'') None 1
         = Inr (to_balance 9 0, s)
     \<and> ledger_transfer s ''ann'' ''bob'' ''chips'' (JSInt 4) ''t'' None 2 = Inr s
     \<and> balance_of s (''bob'', ''chips'') = 0"
proof -
  obtain s where s: "ledger_credit empty_ledger ''ann'' ''chips'' (JSInt 9) (in_ref ''t'') None 1
         = Inr (to_balance 9 0, s)" "find_entry s (in_ref ''t'') \<noteq> None"
      "balance_of s (''bob'', ''chips'') = 0"
    by (simp add: eval_ledger empty_ledger_def read_balance_def to_balance_def find_entry_def
        balance_of_def)
  have "taken s (in_ref ''t'')" using s(2) by (simp add: find_entry_None_iff)
  then have t: "ledger_transfer s ''ann'' ''bob'' ''chips'' (JSInt 4) ''t'' None 2 = Inr s"
    using taken_transfer_aborts [where s = s and r = "''t''"] by (simp add: ledger_transfer_def)
  with transfer_moves_or_silently_skips [OF t] s show ?thesis by blast
qed

text \<open>The answer of a management credit is the truth about what it did. If it says it moved
  the account, the two balances it reports are the account before and after and differ by exactly
  the amount; if it says it did not, the tables are untouched and the log holds that very credit,
  for that account and that amount.\<close>

theorem managed_credit_tells_truth:
  assumes ok: "ledger_ok s"
    and ans: "managed_credit s u c (JSInt n) r memo at = Inr (out, s')"
  shows "if applied out
    then before out = read_balance s u c \<and> after out = read_balance s' u c
       \<and> bal_balance (after out) = bal_balance (before out) + n
       \<and> bal_held (after out) = bal_held (before out) \<and> find_entry s r = None
    else s' = s \<and> before out = after out
       \<and> (\<exists>t\<in>set (entries s). txn_ref t = r \<and> txn_key t = (u, c) \<and> txn_kind t = Credit
            \<and> txn_amount t = n)"
proof -
  from ans have n: "0 < n"
    and run: "run s (credit_stmts u c n r memo at) (u, c) n 0 None = Inr (out, s')"
    and chk: "\<not> applied out \<Longrightarrow> assert_same_entry s' r (u, c) Credit n = Inr ()"
    by (auto simp: managed_credit_def writes_credit_def and_then_eq_Inr if_replayed_def
        split: if_splits)
  show ?thesis
  proof (cases "applied out")
    case True
    then have b: "d1_batch s (credit_stmts u c n r memo at) = Inr s'" using run_InrD [OF run] by simp
    then have "\<not> taken s r" and s': "s' = moved s (u, c) n 0 at (entry r u c Credit n None memo at)"
      unfolding credit_stmts_def ensure_insert_adjust_moved by (auto split: if_splits)
    then have "find_entry s r = None" by (simp add: find_entry_None_iff)
    moreover have "out = \<lparr>applied = True, before = to_balance (bal_balance (read_balance s' u c) - n)
        (bal_held (read_balance s' u c)), after = read_balance s' u c\<rparr>"
      using run b by (simp add: run_def Let_def)
    ultimately show ?thesis using s' by (simp add: read_balance_eq to_balance_def available_of_def)
  next
    case False
    then have "s' = s" "before out = after out"
      using run run_InrD [OF run] by (auto simp: run_def Let_def)
    moreover from chk [OF False] this(1) obtain t where "find_entry s r = Some t"
        "txn_key t = (u, c)" "txn_kind t = Credit" "txn_amount t = n"
      by (auto simp: assert_same_entry_def split: option.splits)
    ultimately show ?thesis using False find_entry_iff [OF ok] by auto
  qed
qed

theorem managed_credit_tells_truth_witness:
  "\<exists>out. managed_credit credited ''ann'' ''chips'' (JSInt 9) ''c'' (Some ''again'') 3 = Inr (out, credited)
     \<and> \<not> applied out \<and> (\<exists>t\<in>set (entries credited). txn_ref t = ''c'')"
proof -
  obtain out where m: "managed_credit credited ''ann'' ''chips'' (JSInt 9) ''c'' (Some ''again'') 3
      = Inr (out, credited)" and a: "\<not> applied out"
    by (simp add: credited_eq managed_credit_def eval_ledger if_replayed_def assert_same_entry_def
        find_entry_def ann_def)
  from managed_credit_tells_truth [OF credited_ok m] a m show ?thesis by auto
qed

end
