(* ===== verification/Effects.thy ===== *)
theory Effects
  imports Ledger_Laws
begin

text \<open>
  The wager seam of \<open>packages/multiplayer/src/game/effects.ts\<close>: the movements a game declares, the
  loop that settles them through the ledger, and the contract a game that stakes on holds relies
  on, as a locale that the ledger is shown to provide.
\<close>

section \<open>Effects and their settlement\<close>

datatype ledger_effect =
    E_credit user_id currency jsnum ref "string option"
  | E_debit user_id currency jsnum ref "string option"
  | E_hold user_id currency jsnum ref
  | E_release ref
  | E_capture ref "jsnum option" "string option"
  | E_transfer user_id user_id currency jsnum ref "string option"

fun effect_op :: "millis \<Rightarrow> ledger_effect \<Rightarrow> ledger_op" where
  "effect_op at (E_credit u c n r m) = Op_credit u c n r m at"
| "effect_op at (E_debit u c n r m) = Op_debit u c n r m at"
| "effect_op at (E_hold u c n r) = Op_hold u c n r at"
| "effect_op at (E_release r) = Op_release r None at"
| "effect_op at (E_capture r n m) = Op_capture r n m at"
| "effect_op at (E_transfer src dst c n r m) = Op_transfer src dst c n r m at"

text \<open>One effect. Settling out of a session that ends forgives a release of a hold that is gone.\<close>

definition apply_effect :: "bool \<Rightarrow> millis \<Rightarrow> ledger_db \<Rightarrow> ledger_effect \<Rightarrow> ledger_error + ledger_db" where
  "apply_effect settling_out at s e =
     (case ledger_step s (effect_op at e) of
        Inr s' \<Rightarrow> Inr s'
      | Inl err \<Rightarrow>
          (case e of
             E_release r \<Rightarrow> if settling_out \<and> err = Hold_not_found then Inr s else Inl err
           | _ \<Rightarrow> Inl err))"

text \<open>
  The loop. It is not a transaction: an effect that throws leaves those before it settled, so the
  result is the tables as they are left, beside the error if one was thrown.
\<close>

fun settle_all ::
  "('db \<Rightarrow> ledger_effect \<Rightarrow> 'e + 'db) \<Rightarrow> 'db \<Rightarrow> ledger_effect list \<Rightarrow> 'db \<times> 'e option" where
  "settle_all perform s [] = (s, None)"
| "settle_all perform s (e # es) =
     (case perform s e of Inl err \<Rightarrow> (s, Some err) | Inr s' \<Rightarrow> settle_all perform s' es)"

datatype settle_error = No_ledger_composed nat | Ledger_refused ledger_error

definition apply_ledger_effects ::
  "bool \<Rightarrow> bool \<Rightarrow> millis \<Rightarrow> ledger_db \<Rightarrow> ledger_effect list \<Rightarrow> ledger_db \<times> settle_error option" where
  "apply_ledger_effects composed settling_out at s es =
     (if es = [] then (s, None)
      else if \<not> composed then (s, Some (No_ledger_composed (length es)))
      else (case settle_all (apply_effect settling_out at) s es of
              (s', err) \<Rightarrow> (s', map_option Ledger_refused err)))"

lemma composed_effects:
  "apply_ledger_effects True so at s es =
     (case settle_all (apply_effect so at) s es of (s', err) \<Rightarrow> (s', map_option Ledger_refused err))"
  by (simp add: apply_ledger_effects_def)

lemma settle_all_append:
  "settle_all p s (es @ fs) =
     (case settle_all p s es of (s', None) \<Rightarrow> settle_all p s' fs | (s', Some e) \<Rightarrow> (s', Some e))"
  by (induction es arbitrary: s) (auto split: sum.splits)

lemma apply_effect_step:
  "apply_effect so at s e = Inr s' \<Longrightarrow> s' = s \<or> ledger_step s (effect_op at e) = Inr s'"
  by (auto simp: apply_effect_def split: sum.splits ledger_effect.splits if_splits)

lemma apply_effect_ok:
  assumes "ledger_ok s" "apply_effect so at s e = Inr s'"
  shows "ledger_ok s' \<and> extends s s'"
  using apply_effect_step [OF assms(2)] assms(1) ledger_ops.step_inv ledger_step_extends extends_refl
  by metis

lemma settle_all_ok:
  "ledger_ok s \<Longrightarrow> settle_all (apply_effect so at) s es = (s', r) \<Longrightarrow> ledger_ok s' \<and> extends s s'"
proof (induction es arbitrary: s)
  case (Cons e es)
  then show ?case
  proof (cases "apply_effect so at s e")
    case (Inr s1)
    with Cons.prems have "settle_all (apply_effect so at) s1 es = (s', r)" by simp
    with Cons.IH [of s1] apply_effect_ok [OF Cons.prems(1) Inr] extends_trans show ?thesis by blast
  qed (use Cons.prems in simp)
qed simp

lemma apply_ledger_effects_ok:
  "ledger_ok s \<Longrightarrow> apply_ledger_effects c so at s es = (s', r) \<Longrightarrow> ledger_ok s' \<and> extends s s'"
  using settle_all_ok by (auto simp: apply_ledger_effects_def split: if_splits prod.splits)

section \<open>The contract of a stake book\<close>

text \<open>
  What a game that escrows stakes needs of whoever settles its effects: a stake placed under a
  fresh ref is there, with its owner and amount, until that ref is released or captured; both of
  these always succeed on a standing stake; a payment always succeeds and disturbs no stake, but
  the one whose settlement ref it takes.
\<close>

locale stake_book =
  fixes perform :: "'db \<Rightarrow> ledger_effect \<Rightarrow> 'e + 'db"
    and good :: "'db \<Rightarrow> bool"
    and stake :: "'db \<Rightarrow> ref \<Rightarrow> (user_id \<times> currency \<times> int) option"
    and fresh :: "'db \<Rightarrow> ref \<Rightarrow> bool"
    and settlement :: "ref \<Rightarrow> ref"
  assumes hold_law:
      "good s \<Longrightarrow> fresh s r \<Longrightarrow> perform s (E_hold u c (JSInt n) r) = Inr s' \<Longrightarrow>
        good s' \<and> stake s' r = Some (u, c, n) \<and> (\<forall>q. q \<noteq> r \<longrightarrow> r \<noteq> settlement q \<longrightarrow> stake s' q = stake s q)
        \<and> (\<forall>q. q \<noteq> r \<longrightarrow> r \<noteq> settlement q \<longrightarrow> fresh s q \<longrightarrow> fresh s' q)"
    and resolve_law:
      "good s \<Longrightarrow> stake s r \<noteq> None \<Longrightarrow> e \<in> {E_release r, E_capture r None m} \<Longrightarrow>
        \<exists>s'. perform s e = Inr s' \<and> good s' \<and> stake s' r = None \<and> (\<forall>q. q \<noteq> r \<longrightarrow> stake s' q = stake s q)
        \<and> (\<forall>q. q \<noteq> r \<longrightarrow> q \<noteq> settlement r \<longrightarrow> fresh s q \<longrightarrow> fresh s' q)"
    and pay_law:
      "good s \<Longrightarrow> 0 < n \<Longrightarrow>
        \<exists>s'. perform s (E_credit u c (JSInt n) p m) = Inr s' \<and> good s'
        \<and> (\<forall>q. p \<noteq> settlement q \<longrightarrow> stake s' q = stake s q)
        \<and> (\<forall>q. q \<noteq> p \<longrightarrow> p \<noteq> settlement q \<longrightarrow> fresh s q \<longrightarrow> fresh s' q)"
begin

text \<open>
  The effects that settle one stake: nothing, a capture, or a release perhaps followed by a
  payment under a ref of its own.
\<close>

definition settles_one :: "ref \<Rightarrow> ledger_effect list \<Rightarrow> bool" where
  "settles_one r es \<longleftrightarrow> es \<in> {[E_release r], [E_capture r None None]}
     \<or> (\<exists>u c n p m. es = [E_release r, E_credit u c (JSInt n) p m] \<and> 0 < n)"

definition paid_refs :: "ledger_effect list \<Rightarrow> ref set" where
  "paid_refs es = {p. \<exists>u c n m. E_credit u c n p m \<in> set es}"

text \<open>Nothing but the stakes named is touched, when no payment takes a settlement ref in use.\<close>

definition untouched :: "ref set \<Rightarrow> ref set \<Rightarrow> 'db \<Rightarrow> 'db \<Rightarrow> bool" where
  "untouched rs ps s s' \<longleftrightarrow>
     (\<forall>q. q \<notin> rs \<longrightarrow> settlement q \<notin> ps \<longrightarrow> stake s' q = stake s q)
     \<and> (\<forall>q. q \<notin> rs \<longrightarrow> q \<notin> settlement ` rs \<longrightarrow> q \<notin> ps \<longrightarrow> settlement q \<notin> ps \<longrightarrow> fresh s q \<longrightarrow> fresh s' q)"

lemma untouched_refl: "untouched rs ps s s"
  by (simp add: untouched_def)

lemma untouched_trans:
  "untouched rs ps s s' \<Longrightarrow> untouched rs' ps' s' s'' \<Longrightarrow> untouched (rs \<union> rs') (ps \<union> ps') s s''"
  unfolding untouched_def by (simp add: image_Un)

lemma settle_one:
  assumes g: "good s" and st: "stake s r \<noteq> None" and es: "settles_one r es"
  shows "\<exists>s'. settle_all perform s es = (s', None) \<and> good s' \<and> untouched {r} (paid_refs es) s s'"
proof -
  from es consider e where "es = [e]" "e \<in> {E_release r, E_capture r None None}"
    | u c n p m where "es = [E_release r, E_credit u c (JSInt n) p m]" "0 < n"
    by (auto simp: settles_one_def)
  then show ?thesis
  proof cases
    case (1 e)
    from resolve_law [OF g st this(2)] obtain s' where "perform s e = Inr s'" "good s'"
      "\<forall>q. q \<noteq> r \<longrightarrow> stake s' q = stake s q"
      "\<forall>q. q \<noteq> r \<longrightarrow> q \<noteq> settlement r \<longrightarrow> fresh s q \<longrightarrow> fresh s' q" by blast
    with 1 show ?thesis by (auto simp: untouched_def)
  next
    case (2 u c n p m)
    from resolve_law [OF g st, of "E_release r"] obtain s1 where s1: "perform s (E_release r) = Inr s1"
      "good s1" "\<forall>q. q \<noteq> r \<longrightarrow> stake s1 q = stake s q"
      "\<forall>q. q \<noteq> r \<longrightarrow> q \<noteq> settlement r \<longrightarrow> fresh s q \<longrightarrow> fresh s1 q" by blast
    from pay_law [OF s1(2) 2(2), of u c p m] obtain s2
      where s2: "perform s1 (E_credit u c (JSInt n) p m) = Inr s2" "good s2"
      "\<forall>q. p \<noteq> settlement q \<longrightarrow> stake s2 q = stake s1 q"
      "\<forall>q. q \<noteq> p \<longrightarrow> p \<noteq> settlement q \<longrightarrow> fresh s1 q \<longrightarrow> fresh s2 q" by blast
    have "paid_refs es = {p}" using 2 by (auto simp: paid_refs_def)
    with 2 s1 s2 show ?thesis by (auto simp: untouched_def)
  qed
qed

text \<open>
  Settling a list of distinct stakes, each by its own effects, always completes, and touches
  nothing else.
\<close>

lemma settle_many:
  assumes "good s" and "distinct (map fst rs)"
    and "\<And>r es. (r, es) \<in> set rs \<Longrightarrow> stake s r \<noteq> None \<and> settles_one r es"
    and "\<And>r es q. (r, es) \<in> set rs \<Longrightarrow> q \<in> fst ` set rs \<Longrightarrow> settlement q \<notin> paid_refs es"
  shows "\<exists>s'. settle_all perform s (concat (map snd rs)) = (s', None) \<and> good s'
    \<and> untouched (fst ` set rs) (\<Union>(paid_refs ` snd ` set rs)) s s'"
  using assms
proof (induction rs arbitrary: s)
  case Nil
  then show ?case by (simp add: untouched_refl)
next
  case (Cons a rs)
  obtain r es where a: "a = (r, es)" by force
  from settle_one [OF Cons.prems(1), of r es] Cons.prems(3) [of r es] a
  obtain s1 where s1: "settle_all perform s es = (s1, None)" "good s1"
      "untouched {r} (paid_refs es) s s1" by auto
  have keep: "stake s1 q = stake s q" if "q \<in> fst ` set rs" for q
  proof -
    have "q \<noteq> r" using that Cons.prems(2) a by (auto simp: image_iff)
    moreover have "settlement q \<notin> paid_refs es" using Cons.prems(4) [of r es q] that a by auto
    ultimately show ?thesis using s1(3) by (simp add: untouched_def)
  qed
  have 3: "stake s1 r' \<noteq> None \<and> settles_one r' es'" if "(r', es') \<in> set rs" for r' es'
    using keep [of r'] Cons.prems(3) [of r' es'] that by force
  have 4: "settlement q \<notin> paid_refs es'" if "(r', es') \<in> set rs" "q \<in> fst ` set rs" for r' es' q
    using Cons.prems(4) [of r' es' q] that by auto
  have 2: "distinct (map fst rs)" using Cons.prems(2) by simp
  obtain s' where s': "settle_all perform s1 (concat (map snd rs)) = (s', None)" "good s'"
      "untouched (fst ` set rs) (\<Union>(paid_refs ` snd ` set rs)) s1 s'"
    using Cons.IH [OF s1(2) 2] 3 4 by (meson that)
  have "untouched (fst ` set (a # rs)) (\<Union>(paid_refs ` snd ` set (a # rs))) s s'"
    using untouched_trans [OF s1(3) s'(3)] a by simp
  with s1 s' a show ?case by (simp add: settle_all_append)
qed

end

section \<open>The ledger keeps it\<close>

definition stake_of :: "ledger_db \<Rightarrow> ref \<Rightarrow> (user_id \<times> currency \<times> int) option" where
  "stake_of s r =
     (case find_hold s r of
        Some h \<Rightarrow> if hold_status h = Open \<and> find_entry s (resolve_ref r) = None
                  then Some (hold_user h, hold_currency h, hold_amount h) else None
      | None \<Rightarrow> None)"

definition fresh_ref :: "ledger_db \<Rightarrow> ref \<Rightarrow> bool" where
  "fresh_ref s r \<longleftrightarrow> find_entry s r = None \<and> find_entry s (resolve_ref r) = None"

lemma stake_of_SomeD:
  assumes "stake_of s r = Some (u, c, n)"
  obtains h where "find_hold s r = Some h" "h \<in> set (holds s)" "hold_ref h = r"
    "hold_status h = Open" "\<not> taken s (resolve_ref r)" "hold_user h = u" "hold_currency h = c"
    "hold_amount h = n"
proof -
  from assms obtain h where h: "find_hold s r = Some h" "hold_status h = Open"
      "find_entry s (resolve_ref r) = None" "hold_user h = u" "hold_currency h = c" "hold_amount h = n"
    by (auto simp: stake_of_def split: option.splits if_splits)
  moreover have "h \<in> set (holds s)" "hold_ref h = r" using find_hold_SomeD [OF h(1)] by auto
  moreover have "\<not> taken s (resolve_ref r)" using h(3) by (simp add: find_entry_None_iff)
  ultimately show thesis using that by blast
qed

lemma find_map_key:
  "(\<And>x. key (f x) = key x) \<Longrightarrow> find (\<lambda>x. key x = k) (map f xs) = map_option f (find (\<lambda>x. key x = k) xs)"
  by (induction xs) simp_all

lemma find_hold_resolved:
  "find_hold (resolved s h st db at t) q =
     map_option (resolve_if_open (hold_ref h) st at) (find_hold s q)"
  by (simp add: find_hold_def find_map_key)

lemma find_entry_append:
  "find_entry s' q = None \<longleftrightarrow> find_entry s q = None \<and> txn_ref t \<noteq> q" if "entries s' = entries s @ [t]"
  using that by (auto simp: find_entry_None_iff)

text \<open>What a resolution does to every stake.\<close>

lemma stakes_resolved:
  assumes s': "s' = resolved s h st db at t" and t: "txn_ref t = resolve_ref (hold_ref h)"
    and st: "st \<noteq> Open" and r: "hold_ref h = r"
  shows "stake_of s' r = None"
    "q \<noteq> r \<Longrightarrow> stake_of s' q = stake_of s q"
    "q \<noteq> r \<Longrightarrow> q \<noteq> resolve_ref r \<Longrightarrow> fresh_ref s q \<Longrightarrow> fresh_ref s' q"
proof -
  have e: "find_entry s' q = None \<longleftrightarrow> find_entry s q = None \<and> q \<noteq> resolve_ref r" for q
    using find_entry_append [of s' s t q] s' t r by auto
  show "stake_of s' r = None"
    by (auto simp: stake_of_def e split: option.split)
  show "stake_of s' q = stake_of s q" if "q \<noteq> r"
  proof -
    have "find_entry s' (resolve_ref q) = None \<longleftrightarrow> find_entry s (resolve_ref q) = None"
      using e that by simp
    moreover have "find_hold s' q = map_option (resolve_if_open r st at) (find_hold s q)"
      using s' r find_hold_resolved by simp
    moreover have "resolve_if_open r st at g = g" if "find_hold s q = Some g" for g
      using find_hold_SomeD [OF that] \<open>q \<noteq> r\<close> by (simp add: resolve_if_open_def)
    ultimately show ?thesis by (cases "find_hold s q") (auto simp: stake_of_def)
  qed
  show "fresh_ref s' q" if "q \<noteq> r" "q \<noteq> resolve_ref r" "fresh_ref s q"
    using that by (simp add: fresh_ref_def e)
qed

lemma resolve_stake:
  assumes ok: "ledger_ok s" and st: "stake_of s r \<noteq> None"
    and e: "e \<in> {E_release r, E_capture r None m}"
  shows "\<exists>s' h st db t. apply_effect so at s e = Inr s' \<and> s' = resolved s h st db at t \<and> st \<noteq> Open
    \<and> txn_ref t = resolve_ref (hold_ref h) \<and> hold_ref h = r"
proof -
  obtain u c n where "stake_of s r = Some (u, c, n)" using st by auto
  then obtain h where h: "find_hold s r = Some h" "h \<in> set (holds s)" "hold_ref h = r"
      "hold_status h = Open" "\<not> taken s (resolve_ref r)" by (rule stake_of_SomeD)
  then have req: "require_open_hold s r = Inr h" by (simp add: require_open_hold_def)
  have n: "0 \<le> hold_amount h" using ledger_okD(6) [OF ok h(2)] by (simp add: hold_ok_def)
  note rel = release_hold_eq [OF ok h(2,4), of None at]
  note cap = capture_hold_eq [OF ok h(2,4) n order_refl, of m at]
  from e consider "e = E_release r" | "e = E_capture r None m" by blast
  then show ?thesis
  proof cases
    case 1
    with rel h req show ?thesis
      by (auto simp: apply_effect_def ledger_release_def answer_after_def Let_def
          intro!: exI [of _ Released] exI [of _ h] exI [of _ 0])
  next
    case 2
    with cap h req show ?thesis
      by (auto simp: apply_effect_def ledger_capture_def answer_after_def Let_def
          intro!: exI [of _ Captured] exI [of _ h] exI [of _ "- hold_amount h"])
  qed
qed

text \<open>A credit is always answered.\<close>

lemma credit_answered:
  assumes ok: "ledger_ok s" and n: "0 < n"
  shows "\<exists>s'. apply_effect so at s (E_credit u c (JSInt n) p m) = Inr s'
    \<and> (s' = s \<or> s' = moved s (u, c) n 0 at (entry p u c Credit n None m at))"
proof -
  have "0 \<le> held_of s (u, c)" "held_of s (u, c) \<le> balance_of s (u, c)"
    using ledger_ok_account_sound [OF ok, of "(u, c)"] by (simp_all add: account_sound_def)
  with n show ?thesis
    unfolding apply_effect_def effect_op.simps ledger_step.simps ledger_credit_def writes_credit_def
      answer_after_def run_def credit_stmts_def ensure_insert_adjust_moved
    by (auto simp: Let_def)
qed

lemma hold_answered:
  assumes ok: "ledger_ok s" and fr: "fresh_ref s r"
    and h: "apply_effect so at s (E_hold u c (JSInt n) r) = Inr s'"
  shows "entries s' = entries s @ [entry r u c Hold n None None at]
    \<and> holds s' = holds s @ [new_hold r u c n at]"
proof -
  have free: "\<not> taken s r" using fr by (simp add: fresh_ref_def find_entry_None_iff)
  from h obtain b where pl: "place_hold s u c (JSInt n) r at = Inr (b, s')"
    by (auto simp: apply_effect_def map_sum_eq_Inr split: sum.splits)
  then obtain out where "run s (hold_stmts u c n r at) (u, c) 0 n (Some (\<lambda>_. Insufficient_funds None))
      = Inr (out, s')"
    by (auto simp: place_hold_def answer_after_eq_Inr split: if_splits)
  with run_InrD UNIQUE_hold_taken [OF ok] free
  have "d1_batch s (hold_stmts u c n r at) = Inr s'" by blast
  then show ?thesis
    by (cases "accounts s (u, c)")
      (auto simp: hold_stmts_def exec_stmt.simps Let_def split: if_splits)
qed

lemma stakes_after_hold:
  assumes ok: "ledger_ok s" and fr: "fresh_ref s r"
    and e: "entries s' = entries s @ [entry r u c Hold n None None at]"
    and hs: "holds s' = holds s @ [new_hold r u c n at]"
  shows "stake_of s' r = Some (u, c, n)"
    "q \<noteq> r \<Longrightarrow> r \<noteq> resolve_ref q \<Longrightarrow> stake_of s' q = stake_of s q"
    "q \<noteq> r \<Longrightarrow> r \<noteq> resolve_ref q \<Longrightarrow> fresh_ref s q \<Longrightarrow> fresh_ref s' q"
proof -
  have none: "find_hold s r = None"
    using hold_ref_taken [OF ok] fr find_hold_SomeD
    by (cases "find_hold s r") (force simp: fresh_ref_def find_entry_None_iff)+
  have f: "find_hold s' q = (if q = r then Some (new_hold r u c n at) else find_hold s q)" for q
    using none by (auto simp: find_hold_def hs find_append split: option.split)
  have g: "find_entry s' q = None \<longleftrightarrow> find_entry s q = None \<and> q \<noteq> r" for q
    using find_entry_append [OF e] by auto
  have "r \<noteq> resolve_ref r" by (simp add: resolve_ref_def)
  with fr show "stake_of s' r = Some (u, c, n)"
    by (simp add: stake_of_def f g fresh_ref_def)
  show "stake_of s' q = stake_of s q" if "q \<noteq> r" "r \<noteq> resolve_ref q"
    using that by (auto simp: stake_of_def f g split: option.split)
  show "fresh_ref s' q" if "q \<noteq> r" "r \<noteq> resolve_ref q" "fresh_ref s q"
    using that by (auto simp: fresh_ref_def g)
qed

interpretation ledger_stakes: stake_book "apply_effect so at" ledger_ok stake_of fresh_ref resolve_ref
proof unfold_locales
  fix s r u c n s'
  assume a: "ledger_ok s" "fresh_ref s r" "apply_effect so at s (E_hold u c (JSInt n) r) = Inr s'"
  note h = hold_answered [OF a]
  show "ledger_ok s' \<and> stake_of s' r = Some (u, c, n)
      \<and> (\<forall>q. q \<noteq> r \<longrightarrow> r \<noteq> resolve_ref q \<longrightarrow> stake_of s' q = stake_of s q)
      \<and> (\<forall>q. q \<noteq> r \<longrightarrow> r \<noteq> resolve_ref q \<longrightarrow> fresh_ref s q \<longrightarrow> fresh_ref s' q)"
    using stakes_after_hold [OF a(1,2) conjunct1 [OF h] conjunct2 [OF h]] apply_effect_ok [OF a(1,3)]
    by blast
next
  fix s r e m
  assume a: "ledger_ok s" "stake_of s r \<noteq> None" "e \<in> {E_release r, E_capture r None m}"
  from resolve_stake [OF a] obtain s' h st db t where s': "apply_effect so at s e = Inr s'"
      "s' = resolved s h st db at t" "st \<noteq> Open" "txn_ref t = resolve_ref (hold_ref h)" "hold_ref h = r"
    by blast
  with stakes_resolved [OF s'(2,4,3,5)] apply_effect_ok [OF a(1) s'(1)]
  show "\<exists>s'. apply_effect so at s e = Inr s' \<and> ledger_ok s' \<and> stake_of s' r = None
      \<and> (\<forall>q. q \<noteq> r \<longrightarrow> stake_of s' q = stake_of s q)
      \<and> (\<forall>q. q \<noteq> r \<longrightarrow> q \<noteq> resolve_ref r \<longrightarrow> fresh_ref s q \<longrightarrow> fresh_ref s' q)"
    by blast
next
  fix s n u c p m
  assume a: "ledger_ok s" "(0::int) < n"
  from credit_answered [OF a] obtain s' where s': "apply_effect so at s (E_credit u c (JSInt n) p m) = Inr s'"
      "s' = s \<or> s' = moved s (u, c) n 0 at (entry p u c Credit n None m at)" by blast
  have f: "find_hold s' q = find_hold s q" for q using s'(2) by (auto simp: find_hold_def)
  have e: "find_entry s' q = None \<longleftrightarrow> find_entry s q = None" if "q \<noteq> p" for q
    using s'(2) find_entry_append [of s' s "entry p u c Credit n None m at" q] that by auto
  show "\<exists>s'. apply_effect so at s (E_credit u c (JSInt n) p m) = Inr s' \<and> ledger_ok s'
      \<and> (\<forall>q. p \<noteq> resolve_ref q \<longrightarrow> stake_of s' q = stake_of s q)
      \<and> (\<forall>q. q \<noteq> p \<longrightarrow> p \<noteq> resolve_ref q \<longrightarrow> fresh_ref s q \<longrightarrow> fresh_ref s' q)"
    using s'(1) apply_effect_ok [OF a(1) s'(1)] e
    by (intro exI [of _ s']) (auto simp: stake_of_def fresh_ref_def f split: option.split)
qed

end
