(* ===== verification/Random_Source.thy ===== *)
theory Random_Source
  imports Pithy_Prelude "HOL-Library.Word"
begin

text \<open>
  The provably fair random stream of \<open>packages/multiplayer/src/game/random.ts\<close>: a base hashed from
  the seed, a draw per counter, and the source a game model draws from. \<open>Math.imul\<close>, \<open>^\<close>, \<open><<\<close>
  and \<open>>>>\<close> work on 32 bits, so the integers are words of that width; the hash that commits to
  the seed is the Web Crypto function and a parameter.
\<close>

unbundle bit_operations_syntax

type_synonym u32 = "32 word"

section \<open>State\<close>

record rng_state =
  seed :: string
  seed_hash :: string
  cursor :: nat

section \<open>The stream\<close>

text \<open>\<open>seedToBase\<close>: one round per character code.\<close>

definition seed_round :: "u32 \<Rightarrow> char \<Rightarrow> u32" where
  "seed_round h c =
     (let m = (h XOR of_nat (of_char c)) * 3432918353
      in push_bit 13 m OR drop_bit 19 m)"

definition seed_to_base :: "string \<Rightarrow> u32" where
  "seed_to_base s = foldl seed_round (1779033703 XOR of_nat (length s)) s"

text \<open>\<open>draw\<close>: the 32 bits whose quotient by \<open>2 ^ 32\<close> is the float in [0, 1).\<close>

definition xorshift :: "nat \<Rightarrow> u32 \<Rightarrow> u32" where
  "xorshift k t = t XOR drop_bit k t"

definition draw :: "u32 \<Rightarrow> nat \<Rightarrow> u32" where
  "draw base counter =
     (let t = base + of_nat counter * 0x9e3779b9;
          t = xorshift 15 t;
          t = t * 0x2c1b3c6d;
          t = xorshift 12 t;
          t = t * 0x297a2d39
      in xorshift 15 t)"

section \<open>The source\<close>

text \<open>
  The closure of \<open>randomSource\<close> over its cursor is the state itself. \<open>next() * n\<close> is exact for
  every \<open>n\<close> up to \<open>2 ^ 21\<close> (the product of 32 bits with 21 fits the 53 of a double), and its
  floor is then the integer quotient.
\<close>

definition next_draw :: "rng_state \<Rightarrow> u32 \<times> rng_state" where
  "next_draw g = (draw (seed_to_base (seed g)) (cursor g), g\<lparr>cursor := cursor g + 1\<rparr>)"

definition floor_scaled :: "u32 \<Rightarrow> nat \<Rightarrow> nat" where
  "floor_scaled t n = unat t * n div 2 ^ 32"

definition rng_int :: "int \<Rightarrow> int \<Rightarrow> rng_state \<Rightarrow> int \<times> rng_state" where
  "rng_int lo hi g =
     (let (t, g') = next_draw g in (lo + int (floor_scaled t (nat (hi - lo + 1))), g'))"

definition rng_pick :: "'a list \<Rightarrow> rng_state \<Rightarrow> 'a option \<times> rng_state" where
  "rng_pick items g =
     (let (t, g') = next_draw g; i = floor_scaled t (length items)
      in (if i < length items then Some (items ! i) else None, g'))"

definition spent :: "rng_state \<Rightarrow> nat" where
  "spent g = cursor g"

section \<open>Minting a state\<close>

definition hex_digit :: "nat \<Rightarrow> char" where
  "hex_digit n = ''0123456789abcdef'' ! n"

definition to_hex :: "8 word list \<Rightarrow> string" where
  "to_hex bytes = concat (map (\<lambda>b. [hex_digit (unat b div 16), hex_digit (unat b mod 16)]) bytes)"

definition create_rng_state :: "(8 word list \<Rightarrow> 8 word list) \<Rightarrow> 8 word list \<Rightarrow> rng_state" where
  "create_rng_state sha256 seed_bytes =
     \<lparr>seed = to_hex seed_bytes, seed_hash = to_hex (sha256 seed_bytes), cursor = 0\<rparr>"

section \<open>Draws are in range\<close>

lemma floor_scaled_less: "0 < n \<Longrightarrow> floor_scaled t n < n"
proof -
  assume n: "0 < n"
  have "unat t < 2 ^ 32" using unsigned_less [of t] by simp
  then have "unat t * n < 2 ^ 32 * n" using n by simp
  then show ?thesis by (simp add: floor_scaled_def less_mult_imp_div_less mult.commute)
qed

lemma rng_int_bounds:
  "lo \<le> hi \<Longrightarrow> rng_int lo hi g = (v, g') \<Longrightarrow> lo \<le> v \<and> v \<le> hi \<and> g' = g\<lparr>cursor := cursor g + 1\<rparr>"
  using floor_scaled_less [of "nat (hi - lo + 1)" "fst (next_draw g)"]
  by (auto simp: rng_int_def next_draw_def)

lemma rng_pick_member:
  "items \<noteq> [] \<Longrightarrow> rng_pick items g = (x, g') \<Longrightarrow> \<exists>y\<in>set items. x = Some y"
  using floor_scaled_less [of "length items" "fst (next_draw g)"]
  by (auto simp: rng_pick_def next_draw_def Let_def)

section \<open>No draw repeats\<close>

lemma xorshift_inj:
  assumes "0 < k" shows "inj (xorshift k)"
proof (rule injI)
  fix x y :: u32
  assume eq: "xorshift k x = xorshift k y"
  have step: "bit x (n + k) = bit y (n + k) \<Longrightarrow> bit x n = bit y n" for n
    using arg_cong [OF eq, of "\<lambda>w. bit w n"]
    by (auto simp: xorshift_def bit_xor_iff bit_drop_bit_eq add.commute)
  have "bit x n = bit y n" for n
  proof (induction "32 - n" arbitrary: n rule: less_induct)
    case less
    show ?case
    proof (cases "32 \<le> n")
      case True
      then have "\<not> bit x n" "\<not> bit y n" using bit_imp_le_length by fastforce+
      then show ?thesis by simp
    next
      case False
      with assms less [of "n + k"] step show ?thesis by simp
    qed
  qed
  then show "x = y" by (intro bit_word_eqI) simp
qed

lemma odd_mult_inj:
  fixes c d :: u32
  assumes "c * d = 1" shows "inj (\<lambda>t. t * c)"
proof (rule injI)
  fix x y :: u32
  assume "x * c = y * c"
  then have "x * c * d = y * c * d" by simp
  with assms show "x = y" by (simp add: mult.assoc)
qed

lemma mix_inj: "inj (\<lambda>t. xorshift 15 (xorshift 12 (xorshift 15 t * 0x2c1b3c6d) * 0x297a2d39))"
proof -
  have m1: "inj (\<lambda>t::u32. t * 0x2c1b3c6d)" by (rule odd_mult_inj [where d = "0x64ea2d65"]) simp
  have m2: "inj (\<lambda>t::u32. t * 0x297a2d39)" by (rule odd_mult_inj [where d = "0x0cf0b109"]) simp
  have x: "inj (xorshift 15)" "inj (xorshift 12)" by (simp_all add: xorshift_inj)
  show ?thesis
    using inj_compose [OF x(1) inj_compose [OF m2 inj_compose [OF x(2) inj_compose [OF m1 x(1)]]]]
    by (simp add: comp_def)
qed

lemma draw_inj:
  assumes "draw base i = draw base j" and "i < 2 ^ 32" and "j < 2 ^ 32"
  shows "i = j"
proof -
  from assms(1) have "base + of_nat i * 0x9e3779b9 = base + of_nat j * 0x9e3779b9"
    unfolding draw_def Let_def by (rule injD [OF mix_inj])
  then have "of_nat i * (0x9e3779b9 :: u32) = of_nat j * 0x9e3779b9" by simp
  moreover have "inj (\<lambda>t::u32. t * 0x9e3779b9)" by (rule odd_mult_inj [where d = "0x144cbc89"]) simp
  ultimately have "(of_nat i :: u32) = of_nat j" by (auto dest: injD)
  then have "unat (of_nat i :: u32) = unat (of_nat j :: u32)" by simp
  with assms(2,3) show ?thesis by (simp add: unat_of_nat)
qed

end
