(* ===== verification/Game_Model.thy ===== *)
theory Game_Model
  imports Effects Random_Source
begin

text \<open>
  The game-model seam of \<open>packages/multiplayer/src/game/model.ts\<close>: what a model is called with, what
  it answers, and the registry. A model that draws randomness is given the stream and returns it
  advanced; the raw payload of an action is a type of its own, which each model parses.
\<close>

datatype game_error =
    Malformed  \<comment> \<open>the action's schema refused it\<close>
  | Invalid_move
  | Invalid_transition

record model_outcome =
  out_scores :: "(user_id \<times> int) list"
  out_winner :: "user_id option"
  out_draw :: bool

record 'c game_ctx =
  session_id :: string
  game_config :: 'c
  players :: "user_id list"
  now :: millis

type_synonym 's applied_result = "('s \<times> ledger_effect list) \<times> rng_state"

record ('c, 's, 'p, 'v) game_model =
  gm_kind :: string
  gm_min_players :: "nat option"
  gm_max_players :: "nat option"
  gm_moves_balances :: bool
  gm_accepts :: "'p \<Rightarrow> bool"  \<comment> \<open>the declared action schema, as the session's gate\<close>
  gm_init :: "'c game_ctx \<Rightarrow> rng_state \<Rightarrow> 's \<times> rng_state"
  gm_apply :: "'c game_ctx \<Rightarrow> rng_state \<Rightarrow> 's \<Rightarrow> user_id \<Rightarrow> 'p \<Rightarrow> game_error + 's applied_result"
  gm_complete :: "'c game_ctx \<Rightarrow> 's \<Rightarrow> bool"
  gm_resolve :: "'c game_ctx \<Rightarrow> 's \<Rightarrow> model_outcome \<times> ledger_effect list"
  gm_redact :: "'c game_ctx \<Rightarrow> 's \<Rightarrow> user_id \<Rightarrow> bool \<Rightarrow> 'v"
  gm_on_join :: "('c game_ctx \<Rightarrow> rng_state \<Rightarrow> 's \<Rightarrow> user_id \<Rightarrow> 's applied_result) option"
  gm_on_leave :: "('c game_ctx \<Rightarrow> rng_state \<Rightarrow> 's \<Rightarrow> user_id \<Rightarrow> 's applied_result) option"

section \<open>The registry\<close>

text \<open>A \<open>Map\<close> in insertion order: registering a kind again replaces its model where it stands.\<close>

fun register_game_model ::
  "('c, 's, 'p, 'v) game_model \<Rightarrow> ('c, 's, 'p, 'v) game_model list \<Rightarrow> ('c, 's, 'p, 'v) game_model list" where
  "register_game_model m [] = [m]"
| "register_game_model m (x # xs) = (if gm_kind x = gm_kind m then m # xs else x # register_game_model m xs)"

definition resolve_model ::
  "string \<Rightarrow> ('c, 's, 'p, 'v) game_model list \<Rightarrow> ('c, 's, 'p, 'v) game_model option" where
  "resolve_model kind reg = find (\<lambda>m. gm_kind m = kind) reg"

definition registered_kinds :: "('c, 's, 'p, 'v) game_model list \<Rightarrow> string list" where
  "registered_kinds reg = map gm_kind reg"

text \<open>No upper bound is \<open>None\<close>.\<close>

definition player_bounds :: "('c, 's, 'p, 'v) game_model \<Rightarrow> nat \<times> nat option" where
  "player_bounds m = (case gm_min_players m of None \<Rightarrow> 2 | Some n \<Rightarrow> n, gm_max_players m)"

lemma resolve_registered:
  "resolve_model k (register_game_model m reg) = (if k = gm_kind m then Some m else resolve_model k reg)"
  by (induction reg) (auto simp: resolve_model_def)

lemma registered_kinds_register:
  "registered_kinds (register_game_model m reg) =
     (if gm_kind m \<in> set (registered_kinds reg) then registered_kinds reg
      else registered_kinds reg @ [gm_kind m])"
  by (induction reg) (auto simp: registered_kinds_def)

end
