(* ===== verification/Wagering_Table.thy ===== *)
theory Wagering_Table
  imports Game_Model
begin

text \<open>
  The wagering-table pattern of \<open>packages/multiplayer/src/game/patterns/wageringTable.ts\<close>: the bet
  book, the holds placed when a bet lands, and the settlement when an event decides it. What a
  game supplies is a record of functions. Amounts are integers, as the state's schema requires.
\<close>

section \<open>The bet book\<close>

record 'd pending_bet =
  bet_user :: user_id
  bet_ref :: ref
  bet_amount :: int
  bet_data :: 'd

datatype bet_result = Win | Lose | Push

record bet_decision =
  dec_ref :: ref
  dec_result :: bet_result
  dec_payout :: int

record ('c, 'r, 'b, 'd, 'w) wagering_spec =
  ws_kind :: string
  ws_min_players :: "nat option"
  ws_max_players :: "nat option"
  ws_currency :: "'c \<Rightarrow> currency"
  ws_start :: "'c game_ctx \<Rightarrow> rng_state \<Rightarrow> 'r \<times> rng_state"
  ws_place :: "'c game_ctx \<Rightarrow> 'r \<Rightarrow> user_id \<Rightarrow> 'b \<Rightarrow> 'd pending_bet list \<Rightarrow> game_error + (int \<times> 'd)"
  ws_driver :: "'c game_ctx \<Rightarrow> 'r \<Rightarrow> user_id option"  \<comment> \<open>\<open>None\<close>: anyone may trigger\<close>
  ws_event :: "'c game_ctx \<Rightarrow> rng_state \<Rightarrow> 'r \<Rightarrow> 'd pending_bet list
                 \<Rightarrow> ('r \<times> bet_decision list) \<times> rng_state"
  ws_view :: "'c game_ctx \<Rightarrow> 'r \<Rightarrow> user_id \<Rightarrow> 'w"

record ('r, 'd) table_state =
  tbl_round :: 'r
  tbl_bets :: "'d pending_bet list"
  tbl_seq :: nat
  tbl_last :: "bet_decision list"

text \<open>The action's schema: a bet, an event, or what neither arm of the union accepts.\<close>

datatype 'b table_action = Bet 'b | Event | Unrecognized

record ('w, 'd) table_view =
  tv_round :: 'w
  tv_driver :: "user_id option"
  tv_your_turn :: bool
  tv_bets :: "(user_id \<times> int \<times> 'd) list"
  tv_last :: "bet_decision list"

section \<open>Settlement\<close>

definition bet_ref_of :: "string \<Rightarrow> nat \<Rightarrow> ref" where
  "bet_ref_of sid n = sid @ '':bet:'' @ decimal n"

definition win_ref :: "ref \<Rightarrow> ref" where
  "win_ref r = r @ '':win''"

text \<open>\<open>new Map(decisions.map(\<dots>))\<close>: of two decisions on one ref the later is kept.\<close>

definition decided :: "bet_decision list \<Rightarrow> ref \<Rightarrow> bet_decision option" where
  "decided ds = map_of (rev (map (\<lambda>d. (dec_ref d, d)) ds))"

definition bet_effects ::
  "string \<Rightarrow> currency \<Rightarrow> bet_decision list \<Rightarrow> 'd pending_bet \<Rightarrow> ledger_effect list" where
  "bet_effects kind currency ds b =
     (case decided ds (bet_ref b) of
        None \<Rightarrow> []
      | Some d \<Rightarrow>
          if dec_result d = Lose then [E_capture (bet_ref b) None None]
          else E_release (bet_ref b) #
            (if dec_result d = Win \<and> dec_payout d > 0
             then [E_credit (bet_user b) currency (JSInt (dec_payout d)) (win_ref (bet_ref b))
                     (Some (kind @ '' win''))]
             else []))"

section \<open>The model\<close>

definition table_init ::
  "('c, 'r, 'b, 'd, 'w) wagering_spec \<Rightarrow> 'c game_ctx \<Rightarrow> rng_state \<Rightarrow> ('r, 'd) table_state \<times> rng_state" where
  "table_init spec ctx g =
     (let (r, g') = ws_start spec ctx g
      in (\<lparr>tbl_round = r, tbl_bets = [], tbl_seq = 0, tbl_last = []\<rparr>, g'))"

definition table_bet ::
  "('c, 'r, 'b, 'd, 'w) wagering_spec \<Rightarrow> 'c game_ctx \<Rightarrow> ('r, 'd) table_state \<Rightarrow> user_id \<Rightarrow> 'b
     \<Rightarrow> game_error + (('r, 'd) table_state \<times> ledger_effect list)" where
  "table_bet spec ctx st p b =
     and_then (ws_place spec ctx (tbl_round st) p b (tbl_bets st)) (\<lambda>(amount, data).
       (let r = bet_ref_of (session_id ctx) (tbl_seq st)
        in Inr (st\<lparr>tbl_seq := tbl_seq st + 1,
                   tbl_bets := tbl_bets st @
                     [\<lparr>bet_user = p, bet_ref = r, bet_amount = amount, bet_data = data\<rparr>]\<rparr>,
                [E_hold p (ws_currency spec (game_config ctx)) (JSInt amount) r])))"

definition may_trigger ::
  "('c, 'r, 'b, 'd, 'w) wagering_spec \<Rightarrow> 'c game_ctx \<Rightarrow> 'r \<Rightarrow> user_id \<Rightarrow> bool" where
  "may_trigger spec ctx r p = (case ws_driver spec ctx r of None \<Rightarrow> True | Some d \<Rightarrow> d = p)"

definition table_event ::
  "('c, 'r, 'b, 'd, 'w) wagering_spec \<Rightarrow> 'c game_ctx \<Rightarrow> rng_state \<Rightarrow> ('r, 'd) table_state \<Rightarrow> user_id
     \<Rightarrow> game_error + ('r, 'd) table_state applied_result" where
  "table_event spec ctx g st p =
     (if \<not> may_trigger spec ctx (tbl_round st) p then Inl Invalid_transition
      else
        (let ((r, ds), g') = ws_event spec ctx g (tbl_round st) (tbl_bets st);
             currency = ws_currency spec (game_config ctx);
             effects = concat (map (bet_effects (ws_kind spec) currency ds) (tbl_bets st));
             bets = filter (\<lambda>b. decided ds (bet_ref b) = None) (tbl_bets st)
         in Inr ((\<lparr>tbl_round = r, tbl_bets = bets, tbl_seq = tbl_seq st, tbl_last = ds\<rparr>, effects), g')))"

definition table_apply ::
  "('c, 'r, 'b, 'd, 'w) wagering_spec \<Rightarrow> 'c game_ctx \<Rightarrow> rng_state \<Rightarrow> ('r, 'd) table_state \<Rightarrow> user_id
     \<Rightarrow> 'b table_action \<Rightarrow> game_error + ('r, 'd) table_state applied_result" where
  "table_apply spec ctx g st p a =
     (case a of
        Unrecognized \<Rightarrow> Inl Malformed
      | Bet b \<Rightarrow> and_then (table_bet spec ctx st p b) (\<lambda>out. Inr (out, g))
      | Event \<Rightarrow> table_event spec ctx g st p)"

definition table_leave ::
  "'c game_ctx \<Rightarrow> rng_state \<Rightarrow> ('r, 'd) table_state \<Rightarrow> user_id \<Rightarrow> ('r, 'd) table_state applied_result" where
  "table_leave ctx g st p =
     ((st\<lparr>tbl_bets := filter (\<lambda>b. bet_user b \<noteq> p) (tbl_bets st)\<rparr>,
       map (\<lambda>b. E_release (bet_ref b)) (filter (\<lambda>b. bet_user b = p) (tbl_bets st))), g)"

definition table_redact ::
  "('c, 'r, 'b, 'd, 'w) wagering_spec \<Rightarrow> 'c game_ctx \<Rightarrow> ('r, 'd) table_state \<Rightarrow> user_id \<Rightarrow> bool
     \<Rightarrow> ('w, 'd) table_view" where
  "table_redact spec ctx st viewer revealed =
     \<lparr>tv_round = ws_view spec ctx (tbl_round st) viewer,
      tv_driver = ws_driver spec ctx (tbl_round st),
      tv_your_turn = may_trigger spec ctx (tbl_round st) viewer,
      tv_bets = map (\<lambda>b. (bet_user b, bet_amount b, bet_data b)) (tbl_bets st),
      tv_last = tbl_last st\<rparr>"

definition wagering_table ::
  "('c, 'r, 'b, 'd, 'w) wagering_spec
     \<Rightarrow> ('c, ('r, 'd) table_state, 'b table_action, ('w, 'd) table_view) game_model" where
  "wagering_table spec =
     \<lparr>gm_kind = ws_kind spec,
      gm_min_players = (case ws_min_players spec of None \<Rightarrow> Some 1 | Some n \<Rightarrow> Some n),
      gm_max_players = ws_max_players spec, gm_moves_balances = True,
      gm_accepts = (\<lambda>a. a \<noteq> Unrecognized),
      gm_init = table_init spec, gm_apply = table_apply spec,
      gm_complete = (\<lambda>_ _. False),
      gm_resolve = (\<lambda>_ _. (\<lparr>out_scores = [], out_winner = None, out_draw = False\<rparr>, [])),
      gm_redact = table_redact spec, gm_on_join = None, gm_on_leave = Some table_leave\<rparr>"

section \<open>The refs of a table\<close>

lemma bet_ref_of_inj: "bet_ref_of sid i = bet_ref_of sid j \<Longrightarrow> i = j"
  by (auto simp: bet_ref_of_def dest: decimal_inj)

lemma last_decimal: "last (decimal n) \<in> set ''0123456789''"
  by (rule subsetD [OF decimal_digits last_in_set [OF decimal_nonempty(1)]])

lemma last_bet_ref: "last (bet_ref_of sid n) \<in> set ''0123456789''"
  using last_decimal [of n] by (simp add: bet_ref_of_def)

lemma last_derived [simp]:
  "last (win_ref r) = CHR ''n''" "last (resolve_ref r) = CHR ''e''" "last (reverse_ref r) = CHR ''e''"
  "last (out_ref r) = CHR ''t''" "last (in_ref r) = CHR ''n''"
  by (simp_all add: win_ref_def resolve_ref_def reverse_ref_def out_ref_def in_ref_def)

lemma bet_ref_fresh_of_derived [simp]:
  "bet_ref_of sid n \<noteq> resolve_ref r" "bet_ref_of sid n \<noteq> win_ref r" "win_ref q \<noteq> resolve_ref r"
  "resolve_ref r \<noteq> bet_ref_of sid n" "win_ref r \<noteq> bet_ref_of sid n" "resolve_ref r \<noteq> win_ref q"
  using last_bet_ref [of sid n] last_derived by (auto dest: arg_cong [where f = last])

section \<open>An event settles exactly the bets it decides\<close>

lemma bet_effects_settle:
  "decided ds (bet_ref b) \<noteq> None \<Longrightarrow>
     stake_book.settles_one (bet_ref b) (bet_effects kind cur ds b)"
  by (auto simp: bet_effects_def ledger_stakes.settles_one_def split: option.split)

lemma bet_effects_pay:
  "stake_book.paid_refs (bet_effects kind cur ds b) \<subseteq> {win_ref (bet_ref b)}"
  by (auto simp: bet_effects_def ledger_stakes.paid_refs_def split: option.splits if_splits)

end
