(* ===== verification/Table_Play.thy ===== *)
theory Table_Play
  imports Wagering_Table
begin

text \<open>
  A wagering table played for stakes: the table's state and the ledger it settles through, as the
  session commits them (the ledger's effects first, the state only if all of them settled). Other
  parts of the program write the same ledger between the table's transitions.
\<close>

section \<open>The system\<close>

record ('r, 'd) table_system =
  felt :: "('r, 'd) table_state"
  bank :: ledger_db
  dice :: rng_state

datatype 'b table_move =
    Act "user_id list" user_id "'b table_action" millis  \<comment> \<open>the roster, the actor, the action, the clock\<close>
  | Leave "user_id list" user_id millis
  | Close "user_id list" millis  \<comment> \<open>every seat is settled out, in order\<close>
  | Elsewhere ledger_op  \<comment> \<open>another part of the program writes the ledger\<close>

text \<open>
  The session's commit (\<open>applyAction\<close>, \<open>applyLeave\<close>): the effects are settled first, and a refused
  effect leaves the state where it was and the ledger as far as it got. The answer says whether the
  state was committed.
\<close>

definition commit_table ::
  "bool \<Rightarrow> millis \<Rightarrow> ('r, 'd) table_system \<Rightarrow> ('r, 'd) table_state applied_result
     \<Rightarrow> ('r, 'd) table_system \<times> bool" where
  "commit_table settling_out at z res =
     (let ((st, es), g) = res
      in case apply_ledger_effects True settling_out at (bank z) es of
           (s', None) \<Rightarrow> (\<lparr>felt = st, bank = s', dice = g\<rparr>, True)
         | (s', Some _) \<Rightarrow> (z\<lparr>bank := s'\<rparr>, False))"

definition table_ctx :: "string \<Rightarrow> 'c \<Rightarrow> user_id list \<Rightarrow> millis \<Rightarrow> 'c game_ctx" where
  "table_ctx sid cfg roster at = \<lparr>session_id = sid, game_config = cfg, players = roster, now = at\<rparr>"

text \<open>
  \<open>settleOut\<close>: each seated player as their leaving would, a release of a hold that is gone
  forgiven; a seat that cannot be settled stops the rest.
\<close>

fun settle_seats ::
  "string \<Rightarrow> 'c \<Rightarrow> user_id list \<Rightarrow> millis \<Rightarrow> user_id list \<Rightarrow> ('r, 'd) table_system \<Rightarrow> ('r, 'd) table_system" where
  "settle_seats sid cfg members at [] z = z"
| "settle_seats sid cfg members at (p # ps) z =
     (let rest = filter (\<lambda>m. m \<noteq> p) members;
          (z', ok) = commit_table True at z (table_leave (table_ctx sid cfg rest at) (dice z) (felt z) p)
      in if ok then settle_seats sid cfg rest at ps z' else z')"

fun play ::
  "('c, 'r, 'b, 'd, 'w) wagering_spec \<Rightarrow> string \<Rightarrow> 'c \<Rightarrow> ('r, 'd) table_system \<Rightarrow> 'b table_move
     \<Rightarrow> ('r, 'd) table_system" where
  "play spec sid cfg z (Act roster p a at) =
     (case table_apply spec (table_ctx sid cfg roster at) (dice z) (felt z) p a of
        Inl _ \<Rightarrow> z
      | Inr res \<Rightarrow> fst (commit_table False at z res))"
| "play spec sid cfg z (Leave roster p at) =
     fst (commit_table False at z (table_leave (table_ctx sid cfg roster at) (dice z) (felt z) p))"
| "play spec sid cfg z (Close roster at) = settle_seats sid cfg roster at roster z"
| "play spec sid cfg z (Elsewhere op) = z\<lparr>bank := keep_on_error (bank z) (ledger_step (bank z) op)\<rparr>"

section \<open>What the rest of the program may do to the ledger\<close>

text \<open>The refs an operation can write an entry or a hold under, or resolve.\<close>

fun writes_refs :: "ledger_op \<Rightarrow> ref set" where
  "writes_refs (Op_credit u c n r m at) = {r}"
| "writes_refs (Op_debit u c n r m at) = {r}"
| "writes_refs (Op_reverse r m at) = {reverse_ref r}"
| "writes_refs (Op_transfer src dst c n r m at) = {out_ref r, in_ref r}"
| "writes_refs (Op_hold u c n r at) = {r}"
| "writes_refs (Op_release r m at) = {r, resolve_ref r}"
| "writes_refs (Op_capture r n m at) = {r, resolve_ref r}"
| "writes_refs (Op_managed_credit u c n r m at) = {r}"
| "writes_refs (Op_managed_debit u c n r m at) = {r}"
| "writes_refs (Op_managed_reverse r k m at) = {reverse_ref r}"
| "writes_refs (Op_managed_release r k m at) = {r, resolve_ref r}"

definition foreign_op :: "string \<Rightarrow> ledger_op \<Rightarrow> bool" where
  "foreign_op sid op \<longleftrightarrow>
     (\<forall>i. bet_ref_of sid i \<notin> writes_refs op \<and> resolve_ref (bet_ref_of sid i) \<notin> writes_refs op)"

definition stmt_refs :: "stmt \<Rightarrow> ref set" where
  "stmt_refs q = (case q of Insert_entry t \<Rightarrow> {txn_ref t} | Insert_hold h \<Rightarrow> {hold_ref h}
     | Resolve_hold r st at \<Rightarrow> {r} | _ \<Rightarrow> {})"

lemma exec_stmt_elsewhere:
  assumes "exec_stmt s q = Inr s'" and "r \<notin> stmt_refs q"
  shows "(find_entry s' r = None \<longleftrightarrow> find_entry s r = None) \<and> find_hold s' r = find_hold s r"
proof (cases q)
  case (Resolve_hold r' st at)
  have "map_option (resolve_if_open r' st at) (find_hold s r) = find_hold s r"
    using assms(2) Resolve_hold find_hold_SomeD [of s r]
    by (cases "find_hold s r") (auto simp: stmt_refs_def resolve_if_open_def)
  then show ?thesis
    using assms(1) Resolve_hold find_map_key [of hold_ref "resolve_if_open r' st at" r "holds s"]
    by (auto simp: exec_stmt.simps find_hold_def find_entry_def)
qed (use assms in \<open>auto simp: exec_stmt.simps stmt_refs_def find_hold_def find_entry_def find_append
       Let_def split: option.splits if_splits\<close>)

lemma batch_elsewhere:
  "d1_batch s qs = Inr s' \<Longrightarrow> r \<notin> \<Union>(stmt_refs ` set qs) \<Longrightarrow>
     (find_entry s' r = None \<longleftrightarrow> find_entry s r = None) \<and> find_hold s' r = find_hold s r"
proof (induction qs arbitrary: s)
  case (Cons q qs)
  from Cons.prems(1) obtain s1 where "exec_stmt s q = Inr s1" "d1_batch s1 qs = Inr s'"
    by (rule batch_InrE)
  with exec_stmt_elsewhere [of s q s1 r] Cons show ?case by auto
qed simp

text \<open>An operation changes what the tables say of a ref only if it is one of the refs it writes.\<close>

definition same_at :: "ledger_db \<Rightarrow> ledger_db \<Rightarrow> ref \<Rightarrow> bool" where
  "same_at s s' r \<longleftrightarrow>
     (find_entry s' r = None \<longleftrightarrow> find_entry s r = None) \<and> find_hold s' r = find_hold s r"

lemma run_elsewhere:
  assumes "run s q k db dh ins = Inr (out, s')" and "r \<notin> \<Union>(stmt_refs ` set q)"
  shows "same_at s s' r"
  using run_InrD [OF assms(1)] batch_elsewhere [OF _ assms(2)] by (auto simp: same_at_def)

lemma transfer_elsewhere:
  assumes "ledger_transfer s src dst c a r m at = Inr s'" and "q \<notin> {out_ref r, in_ref r}"
  shows "same_at s s' q"
proof -
  from assms(1) obtain n where ans: "(case d1_batch s (transfer_stmts src dst c n r m at) of
          Inl UNIQUE \<Rightarrow> Inr s | Inl CHECK \<Rightarrow> Inl (Insufficient_funds None) | Inr s' \<Rightarrow> Inr s') = Inr s'"
    by (auto simp: ledger_transfer_def and_then_eq_Inr)
  show ?thesis
  proof (cases "d1_batch s (transfer_stmts src dst c n r m at)")
    case (Inl v)
    with ans show ?thesis by (cases v) (simp_all add: same_at_def)
  next
    case (Inr s1)
    with ans batch_elsewhere [OF Inr, of q] assms(2) show ?thesis
      by (simp add: same_at_def transfer_stmts_def stmt_refs_def)
  qed
qed

lemma resolution_elsewhere:
  "release_hold s h m at = Inr (out, s') \<Longrightarrow> q \<notin> {hold_ref h, resolve_ref (hold_ref h)} \<Longrightarrow> same_at s s' q"
  "capture_hold s h n m at = Inr (out, s') \<Longrightarrow> q \<notin> {hold_ref h, resolve_ref (hold_ref h)} \<Longrightarrow> same_at s s' q"
  by (auto simp: release_hold_def capture_hold_def and_then_eq_Inr release_stmts_def
      capture_stmts_def stmt_refs_def dest!: if_replayed_InrD intro!: run_elsewhere)

lemma writes_elsewhere:
  "writes_credit s u c a r m at = Inr (out, s') \<Longrightarrow> q \<noteq> r \<Longrightarrow> same_at s s' q"
  "writes_debit s u c a r m at = Inr (out, s') \<Longrightarrow> q \<noteq> r \<Longrightarrow> same_at s s' q"
  "place_hold s u c a r at = Inr (b, s') \<Longrightarrow> q \<noteq> r \<Longrightarrow> same_at s s' q"
  "writes_reverse s r k m at = Inr ((out, s'), t) \<Longrightarrow> q \<noteq> reverse_ref r \<Longrightarrow> same_at s s' q"
  by (auto simp: writes_credit_def writes_debit_def place_hold_def writes_reverse_def
      answer_after_eq_Inr and_then_eq_Inr credit_stmts_def debit_stmts_def hold_stmts_def
      reverse_stmts_def stmt_refs_def dest!: if_replayed_InrD reversible_InrD intro!: run_elsewhere)

lemma managed_release_elsewhere:
  assumes "writes_release s r k m at = Inr ((out, s'), h)" and "q \<notin> {r, resolve_ref r}"
  shows "same_at s s' q"
proof (cases "find_hold s r")
  case (Some g)
  have "hold_ref g = r" using find_hold_SomeD [OF Some] by simp
  with assms Some resolution_elsewhere(1) [of s g m at _ s' q] show ?thesis
    by (auto simp: writes_release_def Let_def and_then_eq_Inr same_at_def split: if_splits)
qed (use assms in \<open>simp add: writes_release_def\<close>)

lemma step_elsewhere:
  assumes "ledger_step s op = Inr s'" and "q \<notin> writes_refs op"
  shows "same_at s s' q"
  using assms
  by (cases op)
    (auto simp: map_sum_eq_Inr ledger_credit_def ledger_debit_def ledger_reverse_def
      ledger_release_def ledger_capture_def managed_credit_def managed_debit_def
      answer_after_eq_Inr and_then_eq_Inr
      dest!: if_replayed_InrD require_open_hold_InrD
      dest: writes_elsewhere(1) writes_elsewhere(2) writes_elsewhere(3) writes_elsewhere(4)
        transfer_elsewhere resolution_elsewhere(1) resolution_elsewhere(2) managed_release_elsewhere)

section \<open>Every pending bet is escrowed\<close>

definition escrowed :: "string \<Rightarrow> currency \<Rightarrow> ('r, 'd) table_system \<Rightarrow> bool" where
  "escrowed sid cur z \<longleftrightarrow> ledger_ok (bank z)
     \<and> distinct (map bet_ref (tbl_bets (felt z)))
     \<and> (\<forall>b\<in>set (tbl_bets (felt z)). stake_of (bank z) (bet_ref b) = Some (bet_user b, cur, bet_amount b)
          \<and> (\<exists>i<tbl_seq (felt z). bet_ref b = bet_ref_of sid i))
     \<and> (\<forall>i\<ge>tbl_seq (felt z). fresh_ref (bank z) (bet_ref_of sid i))"

text \<open>Before the table opens, nothing in the ledger uses its refs.\<close>

definition unused :: "string \<Rightarrow> ledger_db \<Rightarrow> bool" where
  "unused sid s \<longleftrightarrow> (\<forall>i. fresh_ref s (bet_ref_of sid i))"

lemma escrowed_start:
  "ledger_ok s \<Longrightarrow> unused sid s \<Longrightarrow> table_init spec ctx g = (st, g') \<Longrightarrow>
     escrowed sid cur \<lparr>felt = st, bank = s, dice = g'\<rparr>"
  by (auto simp: escrowed_def unused_def table_init_def Let_def split: prod.splits)

lemma escrowed_elsewhere:
  assumes "escrowed sid cur z" and "foreign_op sid op"
  shows "escrowed sid cur (z\<lparr>bank := keep_on_error (bank z) (ledger_step (bank z) op)\<rparr>)"
proof (cases "ledger_step (bank z) op")
  case (Inr s')
  have "same_at (bank z) s' (bet_ref_of sid i)" "same_at (bank z) s' (resolve_ref (bet_ref_of sid i))" for i
    using step_elsewhere [OF Inr] assms(2) by (auto simp: foreign_op_def)
  then have "stake_of s' (bet_ref_of sid i) = stake_of (bank z) (bet_ref_of sid i)"
    "fresh_ref s' (bet_ref_of sid i) = fresh_ref (bank z) (bet_ref_of sid i)" for i
    by (auto simp: same_at_def stake_of_def fresh_ref_def split: option.split)
  moreover have "ledger_ok s'" using ledger_ops.step_inv [OF _ Inr] assms(1) by (simp add: escrowed_def)
  ultimately show ?thesis using assms(1) Inr by (fastforce simp: escrowed_def)
qed (use assms in simp)

text \<open>A settlement of some of the bets, each by effects of its own.\<close>

lemma escrowed_settle:
  assumes z: "escrowed sid cur z" and gone: "set gone \<subseteq> set (tbl_bets (felt z))" "distinct (map bet_ref gone)"
    and one: "\<And>b. b \<in> set gone \<Longrightarrow> ledger_stakes.settles_one (bet_ref b) (es b)
        \<and> ledger_stakes.paid_refs (es b) \<subseteq> {win_ref (bet_ref b)}"
    and left: "tbl_bets st = filter (\<lambda>b. b \<notin> set gone) (tbl_bets (felt z))" "tbl_seq st = tbl_seq (felt z)"
  shows "\<exists>s'. commit_table so at z ((st, concat (map es gone)), g) = (\<lparr>felt = st, bank = s', dice = g\<rparr>, True)
    \<and> escrowed sid cur \<lparr>felt = st, bank = s', dice = g\<rparr>"
proof -
  let ?rs = "map (\<lambda>b. (bet_ref b, es b)) gone"
  let ?P = "\<Union>(ledger_stakes.paid_refs ` snd ` set ?rs)"
  have ok: "ledger_ok (bank z)" and dist: "distinct (map bet_ref (tbl_bets (felt z)))"
    and st: "\<And>b. b \<in> set (tbl_bets (felt z)) \<Longrightarrow> stake_of (bank z) (bet_ref b) = Some (bet_user b, cur, bet_amount b)"
    and ref: "\<And>b. b \<in> set (tbl_bets (felt z)) \<Longrightarrow> \<exists>i<tbl_seq (felt z). bet_ref b = bet_ref_of sid i"
    and fr: "\<And>i. tbl_seq (felt z) \<le> i \<Longrightarrow> fresh_ref (bank z) (bet_ref_of sid i)"
    using z by (auto simp: escrowed_def)
  have paid: "?P \<subseteq> range win_ref" using one by fastforce
  obtain s' where s': "settle_all (apply_effect so at) (bank z) (concat (map snd ?rs)) = (s', None)"
      "ledger_ok s'" "ledger_stakes.untouched (fst ` set ?rs) ?P (bank z) s'"
  proof -
    have 1: "distinct (map fst ?rs)" using gone(2) by (simp add: comp_def)
    have 2: "stake_of (bank z) r \<noteq> None \<and> ledger_stakes.settles_one r es'" if "(r, es') \<in> set ?rs" for r es'
      using that one st gone(1) by auto
    have 3: "resolve_ref q \<notin> ledger_stakes.paid_refs es'" if "(r, es') \<in> set ?rs" for r es' q
      using that one by fastforce
    from ledger_stakes.settle_many [OF ok 1, of so at] 2 3 that show thesis by blast
  qed
  have un: "fst ` set ?rs = bet_ref ` set gone" by (auto simp: image_image)
  have keep: "stake_of s' q = stake_of (bank z) q" if "q \<notin> bet_ref ` set gone" for q
    using s'(3) paid that unfolding un ledger_stakes.untouched_def by fastforce
  have stays: "fresh_ref s' (bet_ref_of sid i)" if i: "tbl_seq (felt z) \<le> i" for i
  proof -
    have "bet_ref_of sid i \<notin> bet_ref ` set gone"
      using i ref gone(1) by (fastforce dest: bet_ref_of_inj)
    moreover have "bet_ref_of sid i \<notin> resolve_ref ` bet_ref ` set gone" "bet_ref_of sid i \<notin> ?P"
      "resolve_ref (bet_ref_of sid i) \<notin> ?P" using paid by fastforce+
    ultimately show ?thesis
      using s'(3) fr [OF i] unfolding un ledger_stakes.untouched_def by blast
  qed
  have inj: "bet_ref b \<notin> bet_ref ` set gone" if "b \<in> set (tbl_bets (felt z))" "b \<notin> set gone" for b
    using that dist gone(1) by (auto simp: distinct_map dest: inj_onD)
  have "escrowed sid cur \<lparr>felt = st, bank = s', dice = g\<rparr>"
    using s'(2) dist st ref keep stays inj left
    by (auto simp: escrowed_def distinct_map_filter)
  moreover have "concat (map es gone) = concat (map snd ?rs)" by (simp add: comp_def)
  ultimately show ?thesis
    using s'(1) by (simp add: commit_table_def composed_effects)
qed

lemma concat_map_filter:
  "(\<And>x. x \<in> set xs \<Longrightarrow> \<not> P x \<Longrightarrow> f x = []) \<Longrightarrow> concat (map f xs) = concat (map f (filter P xs))"
  by (induction xs) auto

text \<open>An event whose driver triggers it is always committed.\<close>

lemma escrowed_event:
  assumes z: "escrowed (session_id ctx) (ws_currency spec (game_config ctx)) z"
    and ev: "table_event spec ctx (dice z) (felt z) p = Inr res"
  shows "\<exists>s'. commit_table so at z res = (\<lparr>felt = fst (fst res), bank = s', dice = snd res\<rparr>, True)
    \<and> escrowed (session_id ctx) (ws_currency spec (game_config ctx))
         \<lparr>felt = fst (fst res), bank = s', dice = snd res\<rparr>"
proof -
  obtain r ds g' where run: "ws_event spec ctx (dice z) (tbl_round (felt z)) (tbl_bets (felt z)) = ((r, ds), g')"
    by (metis prod.collapse)
  let ?bets = "tbl_bets (felt z)"
  let ?D = "\<lambda>b. decided ds (bet_ref b) \<noteq> None"
  let ?es = "bet_effects (ws_kind spec) (ws_currency spec (game_config ctx)) ds"
  let ?st = "\<lparr>tbl_round = r, tbl_bets = filter (\<lambda>b. decided ds (bet_ref b) = None) ?bets,
    tbl_seq = tbl_seq (felt z), tbl_last = ds\<rparr>"
  have res: "res = ((?st, concat (map ?es ?bets)), g')"
    using ev run by (auto simp: table_event_def Let_def split: if_splits)
  have eff: "concat (map ?es ?bets) = concat (map ?es (filter ?D ?bets))"
    by (rule concat_map_filter) (simp add: bet_effects_def)
  have dist: "distinct (map bet_ref ?bets)" using z by (simp add: escrowed_def)
  have "\<exists>s'. commit_table so at z ((?st, concat (map ?es (filter ?D ?bets))), g')
      = (\<lparr>felt = ?st, bank = s', dice = g'\<rparr>, True)
    \<and> escrowed (session_id ctx) (ws_currency spec (game_config ctx)) \<lparr>felt = ?st, bank = s', dice = g'\<rparr>"
  proof (rule escrowed_settle [OF z])
    show "distinct (map bet_ref (filter ?D ?bets))" using dist by (simp add: distinct_map_filter)
    show "tbl_bets ?st = filter (\<lambda>b. b \<notin> set (filter ?D ?bets)) ?bets"
      by (auto intro: filter_cong)
    show "ledger_stakes.settles_one (bet_ref b) (?es b)
        \<and> ledger_stakes.paid_refs (?es b) \<subseteq> {win_ref (bet_ref b)}" if "b \<in> set (filter ?D ?bets)" for b
      using that bet_effects_settle [of ds b] bet_effects_pay by (simp del: not_None_eq)
  qed auto
  then show ?thesis unfolding res eff by simp
qed

lemma escrowed_leave:
  assumes z: "escrowed sid cur z"
  shows "\<exists>s'. commit_table so at z (table_leave ctx (dice z) (felt z) p)
      = (\<lparr>felt = fst (fst (table_leave ctx (dice z) (felt z) p)), bank = s', dice = dice z\<rparr>, True)
    \<and> escrowed sid cur \<lparr>felt = fst (fst (table_leave ctx (dice z) (felt z) p)), bank = s', dice = dice z\<rparr>"
proof -
  let ?gone = "filter (\<lambda>b. bet_user b = p) (tbl_bets (felt z))"
  let ?st = "(felt z)\<lparr>tbl_bets := filter (\<lambda>b. bet_user b \<noteq> p) (tbl_bets (felt z))\<rparr>"
  have dist: "distinct (map bet_ref ?gone)" using z by (simp add: escrowed_def distinct_map_filter)
  have eff: "map (\<lambda>b. E_release (bet_ref b)) ?gone = concat (map (\<lambda>b. [E_release (bet_ref b)]) ?gone)"
    by (induction "tbl_bets (felt z)") simp_all
  have "\<exists>s'. commit_table so at z ((?st, concat (map (\<lambda>b. [E_release (bet_ref b)]) ?gone)), dice z)
      = (\<lparr>felt = ?st, bank = s', dice = dice z\<rparr>, True)
    \<and> escrowed sid cur \<lparr>felt = ?st, bank = s', dice = dice z\<rparr>"
    by (rule escrowed_settle [OF z _ dist])
      (auto simp: ledger_stakes.settles_one_def ledger_stakes.paid_refs_def intro!: filter_cong)
  then show ?thesis unfolding eff [symmetric] by (simp add: table_leave_def)
qed

text \<open>A bet is taken only with its stake; a refused hold leaves everything as it was.\<close>

lemma escrowed_bet:
  assumes z: "escrowed (session_id ctx) (ws_currency spec (game_config ctx)) z"
    and bet: "table_bet spec ctx (felt z) p b = Inr (st, es)"
  shows "(\<exists>s'. commit_table so at z ((st, es), g) = (\<lparr>felt = st, bank = s', dice = g\<rparr>, True)
      \<and> escrowed (session_id ctx) (ws_currency spec (game_config ctx)) \<lparr>felt = st, bank = s', dice = g\<rparr>)
    \<or> commit_table so at z ((st, es), g) = (z, False)"
proof -
  let ?sid = "session_id ctx" and ?cur = "ws_currency spec (game_config ctx)"
  let ?r = "bet_ref_of ?sid (tbl_seq (felt z))"
  from bet obtain n d where st: "st = (felt z)\<lparr>tbl_seq := tbl_seq (felt z) + 1, tbl_bets := tbl_bets (felt z) @
        [\<lparr>bet_user = p, bet_ref = ?r, bet_amount = n, bet_data = d\<rparr>]\<rparr>"
      and es: "es = [E_hold p ?cur (JSInt n) ?r]"
    by (auto simp: table_bet_def and_then_eq_Inr Let_def split: prod.splits)
  have ok: "ledger_ok (bank z)" and fr: "fresh_ref (bank z) ?r" using z by (auto simp: escrowed_def)
  show ?thesis
  proof (cases "apply_effect so at (bank z) (E_hold p ?cur (JSInt n) ?r)")
    case (Inl e)
    then show ?thesis by (simp add: es commit_table_def composed_effects)
  next
    case (Inr s')
    from ledger_stakes.hold_law [OF ok fr Inr]
    have law: "ledger_ok s'" "stake_of s' ?r = Some (p, ?cur, n)"
      "\<And>q. q \<noteq> ?r \<Longrightarrow> ?r \<noteq> resolve_ref q \<Longrightarrow> stake_of s' q = stake_of (bank z) q"
      "\<And>q. q \<noteq> ?r \<Longrightarrow> ?r \<noteq> resolve_ref q \<Longrightarrow> fresh_ref (bank z) q \<Longrightarrow> fresh_ref s' q" by auto
    have other: "bet_ref b \<noteq> ?r" if "b \<in> set (tbl_bets (felt z))" for b
      using z that by (fastforce simp: escrowed_def dest: bet_ref_of_inj)
    have later: "bet_ref_of ?sid i \<noteq> ?r" if "tbl_seq (felt z) + 1 \<le> i" for i
      using that by (auto dest: bet_ref_of_inj)
    have "escrowed ?sid ?cur \<lparr>felt = st, bank = s', dice = g\<rparr>"
      using z law other later
      by (fastforce simp: escrowed_def st less_Suc_eq)
    with Inr show ?thesis by (simp add: es commit_table_def composed_effects)
  qed
qed

lemma escrowed_seats:
  "escrowed sid cur z \<Longrightarrow> escrowed sid cur (settle_seats sid cfg ms at ps z)"
proof (induction ps arbitrary: ms z)
  case (Cons p ps)
  let ?ctx = "table_ctx sid cfg (filter (\<lambda>m. m \<noteq> p) ms) at"
  from escrowed_leave [OF Cons.prems, of True at ?ctx p] obtain z' where
    "commit_table True at z (table_leave ?ctx (dice z) (felt z) p) = (z', True)" "escrowed sid cur z'"
    by blast
  with Cons.IH show ?case by simp
qed simp

definition own_move :: "string \<Rightarrow> 'b table_move \<Rightarrow> bool" where
  "own_move sid mv = (case mv of Elsewhere op \<Rightarrow> foreign_op sid op | _ \<Rightarrow> True)"

lemma escrowed_play:
  assumes z: "escrowed sid (ws_currency spec cfg) z" and "own_move sid mv"
  shows "escrowed sid (ws_currency spec cfg) (play spec sid cfg z mv)"
proof (cases mv)
  case (Act roster p a at)
  let ?ctx = "table_ctx sid cfg roster at"
  have c: "session_id ?ctx = sid" "game_config ?ctx = cfg" by (simp_all add: table_ctx_def)
  show ?thesis
  proof (cases "table_apply spec ?ctx (dice z) (felt z) p a")
    case (Inr res)
    then consider b st es where "table_bet spec ?ctx (felt z) p b = Inr (st, es)" "res = ((st, es), dice z)"
      | "table_event spec ?ctx (dice z) (felt z) p = Inr res"
      by (cases a) (auto simp: table_apply_def and_then_eq_Inr)
    then show ?thesis
    proof cases
      case (1 b st es)
      with escrowed_bet [of ?ctx spec z p b st es False at "dice z"] z c Act Inr show ?thesis by auto
    next
      case 2
      with escrowed_event [of ?ctx spec z p res False at] z c Act Inr show ?thesis by auto
    qed
  qed (use z Act in simp)
next
  case (Leave roster p at)
  with escrowed_leave [OF z, of False at "table_ctx sid cfg roster at" p] show ?thesis by auto
next
  case (Close roster at)
  with escrowed_seats [OF z] show ?thesis by simp
next
  case (Elsewhere op)
  with escrowed_elsewhere [OF z] assms(2) show ?thesis by (simp add: own_move_def)
qed

lemma escrowed_plays:
  "escrowed sid (ws_currency spec cfg) z \<Longrightarrow> \<forall>mv\<in>set mvs. own_move sid mv \<Longrightarrow>
     escrowed sid (ws_currency spec cfg) (foldl (play spec sid cfg) z mvs)"
  by (induction mvs arbitrary: z) (auto intro: escrowed_play)

end
