(* ===== verification/Craps.thy ===== *)
theory Craps
  imports Table_Play
begin

text \<open>
  Craps, \<open>packages/multiplayer/src/game/games/craps.ts\<close>: the flagship game of the wagering-table
  pattern, and what its rounds keep true.
\<close>

section \<open>The game\<close>

record craps_config =
  cc_currency :: currency
  cc_min_bet :: int
  cc_max_bet :: "int option"

definition craps_config_ok :: "craps_config \<Rightarrow> bool" where
  "craps_config_ok c \<longleftrightarrow> cc_currency c \<noteq> [] \<and> 1 \<le> cc_min_bet c
     \<and> (case cc_max_bet c of None \<Rightarrow> True | Some m \<Rightarrow> 1 \<le> m \<and> cc_min_bet c \<le> m)"

datatype craps_bet_type = Pass | Dont_pass | Field

record craps_bet =
  cb_type :: craps_bet_type
  cb_amount :: int

datatype craps_phase = Come_out | Point

record craps_round =
  cr_phase :: craps_phase
  cr_point :: "int option"
  cr_shooter :: nat
  cr_last :: "(int \<times> int) option"

record craps_round_view =
  cv_phase :: craps_phase
  cv_point :: "int option"
  cv_shooter :: "user_id option"
  cv_last :: "(int \<times> int) option"

text \<open>A win's multiplier, or \<open>None\<close> to lose.\<close>

definition field_win :: "int \<Rightarrow> int option" where
  "field_win pips =
     (if pips = 2 \<or> pips = 12 then Some 2
      else if pips = 3 \<or> pips = 4 \<or> pips = 9 \<or> pips = 10 \<or> pips = 11 then Some 1
      else None)"

definition pass_outcome :: "bool \<Rightarrow> craps_phase \<Rightarrow> int option \<Rightarrow> int \<Rightarrow> bet_result option" where
  "pass_outcome is_pass phase point pips =
     (if phase = Come_out then
        (if pips = 7 \<or> pips = 11 then Some (if is_pass then Win else Lose)
         else if pips = 2 \<or> pips = 3 then Some (if is_pass then Lose else Win)
         else if pips = 12 then Some (if is_pass then Lose else Push)
         else None)
      else if Some pips = point then Some (if is_pass then Win else Lose)
      else if pips = 7 then Some (if is_pass then Lose else Win)
      else None)"

definition craps_start :: "craps_config game_ctx \<Rightarrow> rng_state \<Rightarrow> craps_round \<times> rng_state" where
  "craps_start ctx g = (\<lparr>cr_phase = Come_out, cr_point = None, cr_shooter = 0, cr_last = None\<rparr>, g)"

definition craps_place ::
  "craps_config game_ctx \<Rightarrow> craps_round \<Rightarrow> user_id \<Rightarrow> craps_bet \<Rightarrow> craps_bet_type pending_bet list
     \<Rightarrow> game_error + (int \<times> craps_bet_type)" where
  "craps_place ctx r p b bets =
     (if cb_amount b < cc_min_bet (game_config ctx)
         \<or> (case cc_max_bet (game_config ctx) of None \<Rightarrow> False | Some m \<Rightarrow> cb_amount b > m)
      then Inl Invalid_move
      else if (cb_type b = Pass \<or> cb_type b = Dont_pass) \<and> cr_phase r \<noteq> Come_out
      then Inl Invalid_transition
      else if list_ex (\<lambda>x. bet_user x = p \<and> bet_data x = cb_type b) bets
      then Inl Invalid_transition
      else Inr (cb_amount b, cb_type b))"

text \<open>\<open>players[i % max(1, n)] ?? null\<close>.\<close>

definition craps_driver :: "craps_config game_ctx \<Rightarrow> craps_round \<Rightarrow> user_id option" where
  "craps_driver ctx r =
     (let ps = players ctx; i = cr_shooter r mod max 1 (length ps)
      in if i < length ps then Some (ps ! i) else None)"

definition craps_decision ::
  "craps_round \<Rightarrow> int \<Rightarrow> craps_bet_type pending_bet \<Rightarrow> bet_decision list" where
  "craps_decision r pips b =
     (if bet_data b = Field then
        (let w = field_win pips
         in [\<lparr>dec_ref = bet_ref b, dec_result = (if w = None then Lose else Win),
              dec_payout = (case w of None \<Rightarrow> 0 | Some k \<Rightarrow> bet_amount b * k)\<rparr>])
      else
        (case pass_outcome (bet_data b = Pass) (cr_phase r) (cr_point r) pips of
           None \<Rightarrow> []
         | Some res \<Rightarrow> [\<lparr>dec_ref = bet_ref b, dec_result = res,
             dec_payout = (if res = Win then bet_amount b else 0)\<rparr>]))"

definition craps_advance :: "user_id list \<Rightarrow> craps_round \<Rightarrow> int \<Rightarrow> int \<Rightarrow> craps_round" where
  "craps_advance ps r d1 d2 =
     (let pips = d1 + d2; rolled = r\<lparr>cr_last := Some (d1, d2)\<rparr>
      in if cr_phase r = Come_out then
           (if pips \<in> {4, 5, 6, 8, 9, 10} then rolled\<lparr>cr_phase := Point, cr_point := Some pips\<rparr>
            else rolled)
         else if Some pips = cr_point r then rolled\<lparr>cr_phase := Come_out, cr_point := None\<rparr>
         else if pips = 7 then
           rolled\<lparr>cr_phase := Come_out, cr_point := None,
             cr_shooter := (if length ps > 0 then (cr_shooter r + 1) mod length ps else 0)\<rparr>
         else rolled)"

definition craps_event ::
  "craps_config game_ctx \<Rightarrow> rng_state \<Rightarrow> craps_round \<Rightarrow> craps_bet_type pending_bet list
     \<Rightarrow> (craps_round \<times> bet_decision list) \<times> rng_state" where
  "craps_event ctx g r bets =
     (let (d1, g1) = rng_int 1 6 g; (d2, g2) = rng_int 1 6 g1
      in ((craps_advance (players ctx) r d1 d2,
           concat (map (craps_decision r (d1 + d2)) bets)), g2))"

definition craps_view :: "craps_config game_ctx \<Rightarrow> craps_round \<Rightarrow> user_id \<Rightarrow> craps_round_view" where
  "craps_view ctx r viewer =
     \<lparr>cv_phase = cr_phase r, cv_point = cr_point r, cv_shooter = craps_driver ctx r, cv_last = cr_last r\<rparr>"

definition craps_spec ::
  "(craps_config, craps_round, craps_bet, craps_bet_type, craps_round_view) wagering_spec" where
  "craps_spec =
     \<lparr>ws_kind = ''craps'', ws_min_players = Some 1, ws_max_players = None,
      ws_currency = cc_currency, ws_start = craps_start, ws_place = craps_place,
      ws_driver = craps_driver, ws_event = craps_event, ws_view = craps_view\<rparr>"

definition craps_game where
  "craps_game = wagering_table craps_spec"

section \<open>Rounds\<close>

definition round_ok :: "craps_round \<Rightarrow> bool" where
  "round_ok r \<longleftrightarrow>
     (case cr_phase r of
        Come_out \<Rightarrow> cr_point r = None
      | Point \<Rightarrow> (\<exists>n\<in>{4, 5, 6, 8, 9, 10}. cr_point r = Some n))
     \<and> (case cr_last r of None \<Rightarrow> True | Some (a, b) \<Rightarrow> a \<in> {1..6} \<and> b \<in> {1..6})"

definition one_each :: "craps_bet_type pending_bet list \<Rightarrow> bool" where
  "one_each bets \<longleftrightarrow> distinct (map (\<lambda>b. (bet_user b, bet_data b)) bets)"

lemma dice_range:
  assumes "craps_event ctx g r bets = ((r', ds), g')"
  obtains d1 d2 where "d1 \<in> {1..6}" "d2 \<in> {1..6}" "r' = craps_advance (players ctx) r d1 d2"
    "ds = concat (map (craps_decision r (d1 + d2)) bets)"
proof -
  obtain d1 g1 where 1: "rng_int 1 6 g = (d1, g1)" by force
  obtain d2 g2 where 2: "rng_int 1 6 g1 = (d2, g2)" by force
  show thesis
    by (rule that [of d1 d2])
      (use rng_int_bounds [OF _ 1] rng_int_bounds [OF _ 2] assms 1 2 in \<open>auto simp: craps_event_def\<close>)
qed

lemma round_ok_advance:
  "round_ok r \<Longrightarrow> d1 \<in> {1..6} \<Longrightarrow> d2 \<in> {1..6} \<Longrightarrow> round_ok (craps_advance ps r d1 d2)"
  by (auto simp: round_ok_def craps_advance_def Let_def split: craps_phase.splits)

lemma craps_spec_simps [simp]:
  "ws_kind craps_spec = ''craps''" "ws_currency craps_spec = cc_currency" "ws_start craps_spec = craps_start"
  "ws_place craps_spec = craps_place" "ws_driver craps_spec = craps_driver"
  "ws_event craps_spec = craps_event" "ws_view craps_spec = craps_view"
  by (simp_all add: craps_spec_def)

text \<open>The table's own part of craps' invariant, and its steps.\<close>

definition craps_ok :: "(craps_round, craps_bet_type) table_state \<Rightarrow> bool" where
  "craps_ok st \<longleftrightarrow> round_ok (tbl_round st) \<and> one_each (tbl_bets st)"

lemma one_each_filter: "one_each bets \<Longrightarrow> one_each (filter P bets)"
  by (simp add: one_each_def distinct_map_filter)

lemma craps_apply_ok:
  assumes ok: "craps_ok st" and "table_apply craps_spec ctx g st p a = Inr ((st', es), g')"
  shows "craps_ok st'"
proof (cases a)
  case (Bet b)
  with assms have "\<not> list_ex (\<lambda>x. bet_user x = p \<and> bet_data x = cb_type b) (tbl_bets st)"
    and st': "\<exists>r n. st' = st\<lparr>tbl_seq := tbl_seq st + 1, tbl_bets := tbl_bets st @
          [\<lparr>bet_user = p, bet_ref = r, bet_amount = n, bet_data = cb_type b\<rparr>]\<rparr>"
    by (auto simp: table_apply_def table_bet_def and_then_eq_Inr craps_place_def Let_def
        split: if_splits)
  with ok show ?thesis by (fastforce simp: craps_ok_def one_each_def list_ex_iff image_iff)
next
  case Event
  with assms obtain r ds where ev: "craps_event ctx g (tbl_round st) (tbl_bets st) = ((r, ds), g')"
    and st': "st' = \<lparr>tbl_round = r, tbl_bets = filter (\<lambda>b. decided ds (bet_ref b) = None) (tbl_bets st),
        tbl_seq = tbl_seq st, tbl_last = ds\<rparr>"
    by (auto simp: table_apply_def table_event_def Let_def split: if_splits prod.splits)
  from ev have "round_ok r"
    by (rule dice_range) (use ok round_ok_advance in \<open>auto simp: craps_ok_def\<close>)
  with ok st' show ?thesis by (simp add: craps_ok_def one_each_filter)
qed (use assms in \<open>simp add: table_apply_def\<close>)

lemma commit_table_felt:
  "felt (fst (commit_table so at z ((st, es), g))) \<in> {st, felt z}"
  by (auto simp: commit_table_def split: prod.splits option.splits)

lemma craps_leave_ok:
  "craps_ok (felt z) \<Longrightarrow> craps_ok (felt (fst (commit_table so at z (table_leave ctx g (felt z) p))))"
  using commit_table_felt [of so at z "fst (fst (table_leave ctx g (felt z) p))"
      "snd (fst (table_leave ctx g (felt z) p))" "snd (table_leave ctx g (felt z) p)"]
  by (auto simp: table_leave_def craps_ok_def one_each_filter)

lemma craps_seats_ok:
  "craps_ok (felt z) \<Longrightarrow> craps_ok (felt (settle_seats sid cfg ms at ps z))"
proof (induction ps arbitrary: ms z)
  case (Cons p ps)
  have "craps_ok (felt (fst (commit_table True at z
      (table_leave (table_ctx sid cfg (filter (\<lambda>m. m \<noteq> p) ms) at) (dice z) (felt z) p))))"
    by (rule craps_leave_ok [OF Cons.prems])
  with Cons.IH show ?case by (auto simp: Let_def split: prod.split)
qed simp

lemma craps_play_ok:
  assumes "craps_ok (felt z)" shows "craps_ok (felt (play craps_spec sid cfg z mv))"
proof (cases mv)
  case (Act roster p a at)
  show ?thesis
  proof (cases "table_apply craps_spec (table_ctx sid cfg roster at) (dice z) (felt z) p a")
    case (Inr res)
    obtain st es g where res: "res = ((st, es), g)" by (metis prod.collapse)
    with Inr assms Act commit_table_felt [of False at z st es g] craps_apply_ok show ?thesis by fastforce
  qed (use assms Act in simp)
qed (use assms craps_leave_ok craps_seats_ok in simp_all)

lemma craps_plays_ok:
  "craps_ok (felt z) \<Longrightarrow> craps_ok (felt (foldl (play craps_spec sid cfg) z mvs))"
  by (induction mvs arbitrary: z) (simp_all add: craps_play_ok)

end
