(* ===== verification/Table_Properties.thy ===== *)
theory Table_Properties
  imports Craps
begin

text \<open>
  The properties of wagering tables, of craps in particular, and of the random stream they roll.
\<close>

section \<open>Stakes and reservations\<close>

lemma sum_list_mono_subset:
  fixes f :: "'a \<Rightarrow> int"
  assumes "distinct xs" "distinct ys" "set xs \<subseteq> set ys" "\<And>y. y \<in> set ys \<Longrightarrow> 0 \<le> f y"
  shows "sum_list (map f xs) \<le> sum_list (map f ys)"
proof -
  have "sum f (set xs) \<le> sum f (set ys)" using assms by (intro sum_mono2) auto
  then show ?thesis using assms by (simp add: sum_list_distinct_conv_sum_set)
qed

text \<open>What a player has staked on the table is part of what the ledger holds for them.\<close>

definition staked_by :: "user_id \<Rightarrow> ('r, 'd) table_state \<Rightarrow> int" where
  "staked_by u st = sum_list (map bet_amount (filter (\<lambda>b. bet_user b = u) (tbl_bets st)))"

lemma escrowed_hold:
  assumes "escrowed sid cur z" "b \<in> set (tbl_bets (felt z))"
  obtains h where "h \<in> set (holds (bank z))" "hold_ref h = bet_ref b" "hold_status h = Open"
    "hold_user h = bet_user b" "hold_currency h = cur" "hold_amount h = bet_amount b"
proof -
  have "stake_of (bank z) (bet_ref b) = Some (bet_user b, cur, bet_amount b)"
    using assms by (simp add: escrowed_def)
  then show thesis by (rule stake_of_SomeD) (use that in blast)
qed

lemma escrowed_staked_le_held:
  assumes z: "escrowed sid cur z"
  shows "staked_by u (felt z) \<le> held_of (bank z) (u, cur)"
proof -
  let ?bs = "filter (\<lambda>b. bet_user b = u) (tbl_bets (felt z))"
  have "\<exists>h. h \<in> set (holds (bank z)) \<and> hold_ref h = bet_ref b \<and> hold_status h = Open
      \<and> hold_user h = bet_user b \<and> hold_currency h = cur \<and> hold_amount h = bet_amount b"
    if "b \<in> set (tbl_bets (felt z))" for b
    using escrowed_hold [OF z that] by blast
  then obtain hold where hold: "\<And>b. b \<in> set (tbl_bets (felt z)) \<Longrightarrow> hold b \<in> set (holds (bank z))
      \<and> hold_ref (hold b) = bet_ref b \<and> hold_status (hold b) = Open \<and> hold_user (hold b) = bet_user b
      \<and> hold_currency (hold b) = cur \<and> hold_amount (hold b) = bet_amount b"
    by metis
  have ok: "ledger_ok (bank z)" and dist: "distinct (map bet_ref ?bs)"
    using z by (auto simp: escrowed_def distinct_map_filter)
  have "map hold_ref (map hold ?bs) = map bet_ref ?bs" using hold by simp
  then have "distinct (map hold ?bs)" using dist by (metis distinct_map)
  moreover have "distinct (holds (bank z))" using ledger_okD(2) [OF ok] by (simp add: distinct_map)
  moreover have "set (map hold ?bs) \<subseteq> set (holds (bank z))" using hold by auto
  moreover have "0 \<le> open_part (u, cur) h" if "h \<in> set (holds (bank z))" for h
    using ledger_okD(6) [OF ok that] by (simp add: open_part_def hold_ok_def)
  ultimately have "sum_list (map (open_part (u, cur)) (map hold ?bs)) \<le> held_total (bank z) (u, cur)"
    unfolding held_total_def by (rule sum_list_mono_subset)
  moreover have "map (open_part (u, cur)) (map hold ?bs) = map bet_amount ?bs"
    unfolding map_map by (rule map_cong [OF refl]) (use hold in \<open>auto simp: open_part_def\<close>)
  ultimately show ?thesis
    unfolding staked_by_def using ledger_okD(5) [OF ok, of "(u, cur)"] by metis
qed

section \<open>Tables\<close>


definition sample_rules :: craps_config where
  "sample_rules = \<lparr>cc_currency = ''chips'', cc_min_bet = 1, cc_max_bet = None\<rparr>"

definition sample_rng :: rng_state where
  "sample_rng = \<lparr>seed = ''ab'', seed_hash = ''cd'', cursor = 0\<rparr>"

definition fresh_felt :: "(craps_round, craps_bet_type) table_state" where
  "fresh_felt = \<lparr>tbl_round = \<lparr>cr_phase = Come_out, cr_point = None, cr_shooter = 0, cr_last = None\<rparr>,
     tbl_bets = [], tbl_seq = 0, tbl_last = []\<rparr>"

definition ann_bets :: "craps_bet table_move" where
  "ann_bets = Act [''ann'', ''bob''] ''ann'' (Bet \<lparr>cb_type = Pass, cb_amount = 4\<rparr>) 5"

lemma sample_init: "table_init craps_spec ctx g = (fresh_felt, g)"
  by (simp add: table_init_def craps_start_def fresh_felt_def)

definition rich_bank :: ledger_db where
  "rich_bank = keep_on_error empty_ledger
     (ledger_step empty_ledger (Op_credit ''ann'' ''chips'' (JSInt 9) ''c'' None 1))"

lemma rich_bank_eq:
  "rich_bank = moved empty_ledger (''ann'', ''chips'') 9 0 1 (entry ''c'' ''ann'' ''chips'' Credit 9 None None 1)"
  unfolding rich_bank_def ledger_step.simps ledger_credit_def writes_credit_def run_def credit_stmts_def
    ensure_insert_adjust_moved
  by (simp add: answer_after_def Let_def empty_ledger_def balance_of_def held_of_def)

lemma rich_bank_ok: "ledger_ok rich_bank" "unused ''t'' rich_bank"
proof -
  show "ledger_ok rich_bank"
    unfolding rich_bank_def by (rule keep_ok [OF ledger_ok_empty])
  show "unused ''t'' rich_bank"
    by (auto simp: unused_def fresh_ref_def rich_bank_eq empty_ledger_def find_entry_def
        bet_ref_of_def resolve_ref_def)
qed


text \<open>A table never wedges on its own settlement. In every state it reaches, an event
  triggered by whoever may trigger it is always committed: every effect of the settlement is
  answered by the ledger, the round advances, exactly the decided bets leave the book, and the
  randomness drawn is spent.\<close>

theorem event_always_settles:
  assumes "ledger_ok s" and "unused sid s" and "table_init spec ctx g = (st, g')"
    and "\<forall>mv\<in>set mvs. own_move sid mv"
    and "z = foldl (play spec sid cfg) \<lparr>felt = st, bank = s, dice = g'\<rparr> mvs"
    and "may_trigger spec (table_ctx sid cfg roster at) (tbl_round (felt z)) p"
    and "ws_event spec (table_ctx sid cfg roster at) (dice z) (tbl_round (felt z)) (tbl_bets (felt z))
           = ((r, ds), g2)"
  shows "\<exists>s'. play spec sid cfg z (Act roster p Event at) =
     \<lparr>felt = \<lparr>tbl_round = r, tbl_bets = filter (\<lambda>b. decided ds (bet_ref b) = None) (tbl_bets (felt z)),
               tbl_seq = tbl_seq (felt z), tbl_last = ds\<rparr>,
      bank = s', dice = g2\<rparr>"
proof -
  let ?ctx = "table_ctx sid cfg roster at"
  have z: "escrowed (session_id ?ctx) (ws_currency spec (game_config ?ctx)) z"
    using escrowed_plays [OF escrowed_start [OF assms(1-3)] assms(4)] assms(5)
    by (simp add: table_ctx_def)
  obtain res where res: "table_event spec ?ctx (dice z) (felt z) p = Inr res"
      "fst (fst res) = \<lparr>tbl_round = r, tbl_bets = filter (\<lambda>b. decided ds (bet_ref b) = None) (tbl_bets (felt z)),
         tbl_seq = tbl_seq (felt z), tbl_last = ds\<rparr>" "snd res = g2"
    using assms(6,7) by (simp add: table_event_def Let_def)
  from escrowed_event [OF z res(1), of False at] res show ?thesis
    by (auto simp: table_apply_def)
qed

theorem event_always_settles_witness:
  "\<exists>s' r ds g2. play craps_spec ''t'' sample_rules \<lparr>felt = fresh_felt, bank = rich_bank, dice = sample_rng\<rparr>
       (Act [''ann''] ''ann'' Event 6) =
     \<lparr>felt = \<lparr>tbl_round = r, tbl_bets = [], tbl_seq = 0, tbl_last = ds\<rparr>, bank = s', dice = g2\<rparr>"
proof -
  let ?z = "\<lparr>felt = fresh_felt, bank = rich_bank, dice = sample_rng\<rparr>"
  let ?ctx = "table_ctx ''t'' sample_rules [''ann''] 6"
  have z: "?z = foldl (play craps_spec ''t'' sample_rules) ?z []" by simp
  have may: "may_trigger craps_spec ?ctx (tbl_round (felt ?z)) ''ann''"
    by (simp add: may_trigger_def craps_driver_def table_ctx_def fresh_felt_def)
  obtain r ds g2 where ev: "ws_event craps_spec ?ctx (dice ?z) (tbl_round (felt ?z)) (tbl_bets (felt ?z)) = ((r, ds), g2)"
    by (metis prod.collapse)
  from event_always_settles [OF rich_bank_ok sample_init _ z may ev] show ?thesis
    by (auto simp: fresh_felt_def)
qed

text \<open>A bet is accepted without a stake when its hold ref is already in the ledger. The next
  bet's ref is counted from the table's own state, so a hold that settled for a transition whose
  state was never stored (the object was evicted between the two writes) leaves that ref taken,
  and the next player's hold is answered as a replay: the bet enters the book for its full amount
  while the ledger, and that player's balance, are untouched.\<close>

theorem bet_on_taken_ref_is_unstaked:
  assumes "find_entry (bank z) (bet_ref_of (session_id ctx) (tbl_seq (felt z))) \<noteq> None"
    and "ws_place spec ctx (tbl_round (felt z)) p b (tbl_bets (felt z)) = Inr (n, d)" and "0 < n"
    and "table_apply spec ctx (dice z) (felt z) p (Bet b) = Inr res"
  shows "commit_table False at z res = (\<lparr>felt = fst (fst res), bank = bank z, dice = dice z\<rparr>, True)
    \<and> (\<exists>x. tbl_bets (fst (fst res)) = tbl_bets (felt z) @ [x] \<and> bet_user x = p \<and> bet_amount x = n)"
proof -
  let ?r = "bet_ref_of (session_id ctx) (tbl_seq (felt z))"
  have res: "snd (fst res) = [E_hold p (ws_currency spec (game_config ctx)) (JSInt n) ?r]"
    "snd res = dice z"
    "\<exists>x. tbl_bets (fst (fst res)) = tbl_bets (felt z) @ [x] \<and> bet_user x = p \<and> bet_amount x = n"
    using assms(2,4) by (auto simp: table_apply_def table_bet_def Let_def)
  have abort: "d1_batch (bank z) (hold_stmts p c n ?r at) = Inl UNIQUE" for c
    by (rule taken_aborts(3)) (use assms(1) in \<open>simp add: find_entry_None_iff\<close>)
  have "apply_effect False at (bank z) (E_hold p c (JSInt n) ?r) = Inr (bank z)" for c
    using assms(3) unfolding apply_effect_def effect_op.simps ledger_step.simps place_hold_def
      answer_after_def assert_amount.simps
    by (simp only: if_False not_le [symmetric] and_then_Inr run_replay [OF abort] sum.case) simp
  then have "settle_all (apply_effect False at) (bank z) (snd (fst res)) = (bank z, None)"
    by (simp add: res(1))
  moreover obtain st es where "res = ((st, es), dice z)" using res(2) by (metis prod.collapse)
  ultimately have "commit_table False at z res = (\<lparr>felt = fst (fst res), bank = bank z, dice = dice z\<rparr>, True)"
    by (simp add: commit_table_def composed_effects)
  with res(3) show ?thesis by simp
qed

definition stale_bank :: ledger_db where
  "stale_bank = keep_on_error rich_bank
     (ledger_step rich_bank (Op_hold ''ann'' ''chips'' (JSInt 4) (bet_ref_of ''t'' 0) 2))"

theorem bet_on_taken_ref_is_unstaked_witness:
  "\<exists>st g. commit_table False 5 \<lparr>felt = fresh_felt, bank = stale_bank, dice = sample_rng\<rparr> ((st,
       [E_hold ''bob'' ''chips'' (JSInt 100) (bet_ref_of ''t'' 0)]), sample_rng)
     = (\<lparr>felt = st, bank = stale_bank, dice = g\<rparr>, True)
     \<and> balance_of stale_bank (''bob'', ''chips'') = 0 \<and> staked_by ''bob'' st = 100"
proof -
  let ?z = "\<lparr>felt = fresh_felt, bank = stale_bank, dice = sample_rng\<rparr>"
  let ?ctx = "table_ctx ''t'' sample_rules [''bob''] 5"
  have bank: "stale_bank = moved rich_bank (''ann'', ''chips'') 0 4 2
      (entry (bet_ref_of ''t'' 0) ''ann'' ''chips'' Hold 4 None None 2)
      \<lparr>holds := [new_hold (bet_ref_of ''t'' 0) ''ann'' ''chips'' 4 2]\<rparr>"
    by (simp add: stale_bank_def rich_bank_eq place_hold_def hold_stmts_def run_def answer_after_def
        exec_stmt.simps moved_def row_of_def empty_ledger_def new_account_def adjust_row_def
        solvent_row_def Let_def bet_ref_of_def)
  have "entries stale_bank = entries rich_bank @ [entry (bet_ref_of ''t'' 0) ''ann'' ''chips'' Hold 4 None None 2]"
    unfolding bank by (simp add: moved_def)
  then have taken: "find_entry (bank ?z) (bet_ref_of (session_id ?ctx) (tbl_seq (felt ?z))) \<noteq> None"
    by (simp add: find_entry_None_iff table_ctx_def fresh_felt_def)
  let ?b = "\<lparr>cb_type = Pass, cb_amount = 100\<rparr>"
  have place: "ws_place craps_spec ?ctx (tbl_round (felt ?z)) ''bob'' ?b (tbl_bets (felt ?z)) = Inr (100, Pass)"
    by (simp add: craps_place_def table_ctx_def sample_rules_def fresh_felt_def)
  obtain st where st: "table_apply craps_spec ?ctx (dice ?z) (felt ?z) ''bob'' (Bet ?b)
      = Inr ((st, [E_hold ''bob'' ''chips'' (JSInt 100) (bet_ref_of ''t'' 0)]), sample_rng)"
      "tbl_bets st = [\<lparr>bet_user = ''bob'', bet_ref = bet_ref_of ''t'' 0, bet_amount = 100, bet_data = Pass\<rparr>]"
    using place by (simp add: table_apply_def table_bet_def Let_def table_ctx_def fresh_felt_def sample_rules_def)
  from bet_on_taken_ref_is_unstaked [OF taken place _ st(1), of 5] st(2)
  have "commit_table False 5 ?z ((st, [E_hold ''bob'' ''chips'' (JSInt 100) (bet_ref_of ''t'' 0)]), sample_rng)
      = (\<lparr>felt = st, bank = stale_bank, dice = sample_rng\<rparr>, True)" by simp
  moreover have "balance_of stale_bank (''bob'', ''chips'') = 0"
    by (simp add: bank balance_of_def moved_def rich_bank_eq empty_ledger_def)
  ultimately show ?thesis using st(2) by (auto simp: staked_by_def)
qed


section \<open>Craps\<close>

text \<open>Craps never leaves its rules, whatever is played: in every reached state the phase and the
  point agree (no point on the come-out, one of 4, 5, 6, 8, 9, 10 otherwise), the last roll is two
  dice of one to six, and no player has two pending bets of one type.\<close>

theorem craps_state_sound:
  "craps_ok (felt (foldl (play craps_spec sid cfg)
     \<lparr>felt = fst (table_init craps_spec ctx g), bank = s, dice = snd (table_init craps_spec ctx g)\<rparr> mvs))"
  by (rule craps_plays_ok) (simp add: sample_init fresh_felt_def craps_ok_def round_ok_def one_each_def)

text \<open>What a decided bet is worth to its player.\<close>

definition bet_net :: "bet_decision list \<Rightarrow> int \<Rightarrow> int" where
  "bet_net ds stake =
     (case ds of [] \<Rightarrow> 0
      | d # _ \<Rightarrow> (case dec_result d of Win \<Rightarrow> dec_payout d | Lose \<Rightarrow> - stake | Push \<Rightarrow> 0))"

definition roll_net :: "craps_round \<Rightarrow> craps_bet_type \<Rightarrow> int \<Rightarrow> int \<Rightarrow> int" where
  "roll_net r kd stake pips =
     bet_net (craps_decision r pips \<lparr>bet_user = [], bet_ref = [], bet_amount = stake, bet_data = kd\<rparr>) stake"

text \<open>The table cannot be hedged, and the house keeps its edge. Equal pass and don't-pass bets
  are decided by the same rolls and together pay nothing, except that a come-out twelve costs the
  pass bet while the other is pushed; and over the thirty-six rolls a field bet returns exactly
  two stakes less than it wins.\<close>

theorem craps_house_edge:
  "roll_net r Pass n pips + roll_net r Dont_pass n pips
      = (if cr_phase r = Come_out \<and> pips = 12 then - n else 0)
   \<and> (craps_decision r pips (b\<lparr>bet_data := Pass\<rparr>) = [] \<longleftrightarrow> craps_decision r pips (b\<lparr>bet_data := Dont_pass\<rparr>) = [])
   \<and> (\<Sum>d1\<leftarrow>[1..6]. \<Sum>d2\<leftarrow>[1..6]. roll_net r Field n (d1 + d2)) = - 2 * n"
  by (simp add: roll_net_def bet_net_def craps_decision_def pass_outcome_def field_win_def upto.simps)

section \<open>The random stream\<close>

text \<open>No two of a session's first \<open>2 ^ 32\<close> draws are the same 32 bits, whatever the seed: the
  mixing of a counter is a bijection of the words.\<close>

theorem draws_never_repeat:
  assumes "i < 2 ^ 32" and "j < 2 ^ 32" and "i \<noteq> j"
  shows "draw (seed_to_base s) i \<noteq> draw (seed_to_base s) j"
  using draw_inj assms by blast

theorem draws_never_repeat_witness:
  "draw (seed_to_base ''ab'') 0 \<noteq> draw (seed_to_base ''ab'') 1"
  using draws_never_repeat [of 0 1 "''ab''"] by simp

text \<open>The first draws of a state, and the state after them.\<close>

fun draws :: "nat \<Rightarrow> rng_state \<Rightarrow> u32 list \<times> rng_state" where
  "draws 0 g = ([], g)"
| "draws (Suc n) g = (let (t, g1) = next_draw g; (ts, g2) = draws n g1 in (t # ts, g2))"

lemma draws_eq: "draws n g = (map (draw (seed_to_base (seed g))) [cursor g..<cursor g + n], g\<lparr>cursor := cursor g + n\<rparr>)"
proof (induction n arbitrary: g)
  case (Suc n)
  have "[cursor g..<cursor g + Suc n] = cursor g # [cursor g + 1..<cursor g + 1 + n]"
    by (simp add: upt_conv_Cons del: upt_Suc)
  with Suc show ?case by (simp add: next_draw_def)
qed simp

text \<open>The stream is resumed exactly where it was persisted: drawing some values, storing the
  cursor \<open>spent\<close> answers and drawing more gives the same values as drawing them all at once. Every
  \<open>int\<close> lies between its bounds, so a die shows one to six.\<close>

theorem stream_resumes:
  assumes "lo \<le> hi"
  shows "fst (draws (m + n) g) = fst (draws m g) @ fst (draws n (g\<lparr>cursor := spent (snd (draws m g))\<rparr>))
    \<and> lo \<le> fst (rng_int lo hi g) \<and> fst (rng_int lo hi g) \<le> hi
    \<and> spent (snd (rng_int lo hi g)) = spent g + 1"
proof -
  have "fst (draws (m + n) g) = fst (draws m g) @ fst (draws n (g\<lparr>cursor := spent (snd (draws m g))\<rparr>))"
    using upt_add_eq_append [of "cursor g" "cursor g + m" n]
    by (simp add: draws_eq spent_def add.assoc)
  moreover obtain v g' where r: "rng_int lo hi g = (v, g')" by force
  ultimately show ?thesis
    using rng_int_bounds [OF assms r] by (simp add: spent_def)
qed

theorem stream_resumes_witness:
  "fst (draws (2 + 1) sample_rng) = fst (draws 2 sample_rng) @ [draw (seed_to_base ''ab'') 2]
     \<and> fst (rng_int 1 6 sample_rng) \<le> 6"
  using stream_resumes [of 1 6 2 1 sample_rng]
  by (simp add: draws_eq spent_def sample_rng_def numeral_2_eq_2)

end
