(* ===== verification/Session.thy ===== *)
theory Session
  imports Game_Model
begin

text \<open>
  The session Durable Object of \<open>packages/multiplayer/src/session/durableObject.ts\<close>: its storage, the
  rows it keeps in D1, and every transition. Transitions are serialized by the object, so each is
  one step; each D1 call in it may fail, and what was stored before it stays stored.
\<close>

section \<open>State\<close>

datatype session_mode = Match | Table
datatype session_phase = Phase_open | Phase_active | Phase_resolved | Phase_abandoned

record 'c game_snapshot =
  gs_key :: string
  gs_kind :: string
  gs_mode :: session_mode
  gs_players :: nat
  gs_turn_timeout :: "int option"
  gs_rules :: 'c

record 'c session_meta =
  meta_session :: string
  meta_game :: "'c game_snapshot"
  meta_phase :: session_phase
  meta_members :: "user_id list"
  meta_joined :: "user_id list option"
  meta_created :: millis
  meta_deadline :: "millis option"
  meta_rng :: rng_state

record session_outcome =
  so_status :: session_phase
  so_scores :: "(user_id \<times> int) list option"
  so_winner :: "user_id option"
  so_draw :: bool
  so_resolved :: millis
  so_reason :: "string option"

record 'v session_view =
  vs_session :: string
  vs_game :: string
  vs_kind :: string
  vs_phase :: session_phase
  vs_players :: "user_id list"
  vs_outcome :: "session_outcome option"
  vs_state :: "'v option"
  vs_seed_hash :: string
  vs_seed :: "string option"

text \<open>The session's row among the durable results, and its row in the index of sessions in flight.\<close>

record result_row =
  rr_game :: string
  rr_status :: session_phase
  rr_players :: "user_id list"
  rr_scores :: "(user_id \<times> int) list option"
  rr_winner :: "user_id option"
  rr_draw :: bool
  rr_created :: millis
  rr_resolved :: millis

record index_row =
  ix_game :: string
  ix_phase :: session_phase
  ix_players :: "user_id list"
  ix_opened :: millis

text \<open>The object's storage keys, its alarm, its rows in D1, and the ledger it settles through.\<close>

record ('c, 's) session_world =
  w_meta :: "'c session_meta option"
  w_state :: "'s option"
  w_outcome :: "session_outcome option"
  w_closed :: "string option"
  w_alarm :: "millis option"
  w_index :: "index_row option"
  w_result :: "result_row option"
  w_ledger :: ledger_db

datatype session_error =
    Session_not_found | Not_a_member | Session_transition | Session_full | Game_not_found
  | Refused game_error | Unsettled settle_error | D1_failed | Corrupt

text \<open>
  What a transition meets: the clock, which D1 calls fail, at which of its ledger effects the ledger
  fails, whether a ledger is composed.
\<close>

datatype d1_call = Index_put | Index_remove | Result_write

record session_env =
  env_now :: millis
  env_down :: "d1_call \<Rightarrow> bool"
  env_ledger_down :: "ledger_effect \<Rightarrow> bool"
  env_ledger :: bool

type_synonym ('c, 's, 'a) session_proc = "(('c, 's) session_world, session_error, 'a) proc"

definition is_terminal :: "session_phase \<Rightarrow> bool" where
  "is_terminal ph \<longleftrightarrow> ph = Phase_resolved \<or> ph = Phase_abandoned"

text \<open>\<open>[...new Set(xs)]\<close>: first occurrences, in order.\<close>

definition unique :: "'a list \<Rightarrow> 'a list" where
  "unique xs = rev (remdups (rev xs))"

definition ever_joined :: "'c session_meta \<Rightarrow> user_id list" where
  "ever_joined m = unique ((case meta_joined m of None \<Rightarrow> [] | Some js \<Rightarrow> js) @ meta_members m)"

section \<open>Helpers\<close>

definition session_model ::
  "('c, 's, 'p, 'v) game_model list \<Rightarrow> 'c session_meta \<Rightarrow> ('c, 's, ('c, 's, 'p, 'v) game_model) session_proc" where
  "session_model reg m =
     (case resolve_model (gs_kind (meta_game m)) reg of None \<Rightarrow> raise Game_not_found | Some gm \<Rightarrow> give gm)"

definition make_context :: "'c session_meta \<Rightarrow> session_env \<Rightarrow> 'c game_ctx" where
  "make_context m env =
     \<lparr>session_id = meta_session m, game_config = gs_rules (meta_game m), players = meta_members m,
      now = env_now env\<rparr>"

definition spend :: "'c session_meta \<Rightarrow> rng_state \<Rightarrow> 'c session_meta" where
  "spend m g = m\<lparr>meta_rng := (meta_rng m)\<lparr>cursor := spent g\<rparr>\<rparr>"

definition load_state :: "('c, 's, 's) session_proc" where
  "load_state = seq (look w_state) (\<lambda>s. case s of None \<Rightarrow> raise Corrupt | Some x \<Rightarrow> give x)"

definition d1_write ::
  "session_env \<Rightarrow> d1_call \<Rightarrow> (('c, 's) session_world \<Rightarrow> ('c, 's) session_world) \<Rightarrow> ('c, 's, unit) session_proc" where
  "d1_write env call f = (if env_down env call then raise D1_failed else store f)"

text \<open>
  A model's effects, settled in order: one the ledger refuses, or fails at, stops the rest, and
  what was settled before it stays settled.
\<close>

definition settle :: "session_env \<Rightarrow> bool \<Rightarrow> ledger_effect list \<Rightarrow> ('c, 's, unit) session_proc" where
  "settle env settling_out es =
     (\<lambda>w. let reached = (if env_ledger env then takeWhile (\<lambda>e. \<not> env_ledger_down env e) es else es)
          in case apply_ledger_effects (env_ledger env) settling_out (env_now env) (w_ledger w) reached of
              (db, Some e) \<Rightarrow> (Inl (Unsettled e), w\<lparr>w_ledger := db\<rparr>)
            | (db, None) \<Rightarrow>
                ((if reached = es then Inr () else Inl D1_failed), w\<lparr>w_ledger := db\<rparr>))"

definition put_meta :: "'c session_meta \<Rightarrow> ('c, 's, unit) session_proc" where
  "put_meta m = store (\<lambda>w. w\<lparr>w_meta := Some m\<rparr>)"

definition put_state :: "'s \<Rightarrow> ('c, 's, unit) session_proc" where
  "put_state s = store (\<lambda>w. w\<lparr>w_state := Some s\<rparr>)"

text \<open>The view: what leaves the object, redacted by the model, the seed only once terminal.\<close>

definition snapshot_of ::
  "('c, 's, 'p, 'v) game_model \<Rightarrow> session_env \<Rightarrow> 'c session_meta \<Rightarrow> ('c, 's) session_world \<Rightarrow> user_id
     \<Rightarrow> 'v session_view" where
  "snapshot_of gm env m w viewer =
     (let terminal = is_terminal (meta_phase m)
      in \<lparr>vs_session = meta_session m, vs_game = gs_key (meta_game m), vs_kind = gs_kind (meta_game m),
          vs_phase = meta_phase m, vs_players = meta_members m, vs_outcome = w_outcome w,
          vs_state = map_option (\<lambda>s. gm_redact gm (make_context m env) s viewer terminal) (w_state w),
          vs_seed_hash = seed_hash (meta_rng m),
          vs_seed = (if terminal then Some (seed (meta_rng m)) else None)\<rparr>)"

definition snapshot ::
  "('c, 's, 'p, 'v) game_model list \<Rightarrow> session_env \<Rightarrow> user_id \<Rightarrow> ('c, 's, 'v session_view) session_proc" where
  "snapshot reg env viewer =
     seq (look w_meta) (\<lambda>meta. case meta of
         None \<Rightarrow> raise Session_not_found
       | Some m \<Rightarrow> seq (session_model reg m) (\<lambda>gm. look (\<lambda>w. snapshot_of gm env m w viewer)))"

definition member_meta :: "bool \<Rightarrow> user_id \<Rightarrow> ('c, 's, 'c session_meta) session_proc" where
  "member_meta former p =
     seq (look w_meta) (\<lambda>meta. case meta of
         None \<Rightarrow> raise Session_not_found
       | Some m \<Rightarrow> seq (demand Not_a_member (p \<in> set (if former then ever_joined m else meta_members m)))
                     (\<lambda>_. give m))"

definition departed_view :: "'c session_meta \<Rightarrow> 'v session_view" where
  "departed_view m =
     \<lparr>vs_session = meta_session m, vs_game = gs_key (meta_game m), vs_kind = gs_kind (meta_game m),
      vs_phase = meta_phase m, vs_players = [], vs_outcome = None, vs_state = None,
      vs_seed_hash = seed_hash (meta_rng m), vs_seed = None\<rparr>"

definition index_session :: "session_env \<Rightarrow> 'c session_meta \<Rightarrow> ('c, 's, unit) session_proc" where
  "index_session env m =
     (if is_terminal (meta_phase m) then give ()
      else d1_write env Index_put (\<lambda>w. w\<lparr>w_index := Some
        \<lparr>ix_game = gs_key (meta_game m),
         ix_phase = (if meta_phase m = Phase_open then Phase_open else Phase_active),
         ix_players = meta_members m, ix_opened = meta_created m\<rparr>\<rparr>))"

section \<open>Terminal transitions\<close>

definition row_of_outcome :: "'c session_meta \<Rightarrow> session_outcome \<Rightarrow> result_row" where
  "row_of_outcome m out =
     \<lparr>rr_game = gs_key (meta_game m), rr_status = so_status out, rr_players = meta_members m,
      rr_scores = so_scores out, rr_winner = so_winner out, rr_draw = so_draw out,
      rr_created = meta_created m, rr_resolved = so_resolved out\<rparr>"

text \<open>\<open>onConflict(sessionId).doNothing()\<close>: the first result written is the one kept.\<close>

definition write_result :: "session_env \<Rightarrow> 'c session_meta \<Rightarrow> session_outcome \<Rightarrow> ('c, 's, unit) session_proc" where
  "write_result env m out =
     d1_write env Result_write (\<lambda>w. case w_result w of
         Some _ \<Rightarrow> w
       | None \<Rightarrow> w\<lparr>w_result := Some (row_of_outcome m out)\<rparr>)"

definition end_in_flight :: "session_env \<Rightarrow> 'c session_meta \<Rightarrow> session_outcome \<Rightarrow> ('c, 's, unit) session_proc" where
  "end_in_flight env m out =
     seq (d1_write env Index_remove (\<lambda>w. w\<lparr>w_index := None\<rparr>)) (\<lambda>_.
     seq (put_meta (m\<lparr>meta_phase := so_status out, meta_deadline := None\<rparr>)) (\<lambda>_.
     seq (store (\<lambda>w. w\<lparr>w_outcome := Some out\<rparr>)) (\<lambda>_.
       store (\<lambda>w. w\<lparr>w_alarm := None\<rparr>))))"

definition commit_terminal :: "session_env \<Rightarrow> 'c session_meta \<Rightarrow> session_outcome \<Rightarrow> ('c, 's, unit) session_proc" where
  "commit_terminal env m out = seq (write_result env m out) (\<lambda>_. end_in_flight env m out)"

definition unscored :: "session_phase \<Rightarrow> session_env \<Rightarrow> string option \<Rightarrow> session_outcome" where
  "unscored ph env reason =
     \<lparr>so_status = ph, so_scores = None, so_winner = None, so_draw = False, so_resolved = env_now env,
      so_reason = reason\<rparr>"

definition resolve_session :: "session_env \<Rightarrow> 'c session_meta \<Rightarrow> model_outcome \<Rightarrow> ('c, 's, unit) session_proc" where
  "resolve_session env m out =
     (if is_terminal (meta_phase m) then give ()
      else commit_terminal env m
        \<lparr>so_status = Phase_resolved, so_scores = Some (out_scores out), so_winner = out_winner out,
         so_draw = out_draw out, so_resolved = env_now env, so_reason = None\<rparr>)"

definition abandon_session :: "session_env \<Rightarrow> 'c session_meta \<Rightarrow> ('c, 's, unit) session_proc" where
  "abandon_session env m =
     (if is_terminal (meta_phase m) then give ()
      else commit_terminal env m (unscored Phase_abandoned env None))"

text \<open>Each seat as its player's leaving would settle it; the roster stays as it was.\<close>

fun settle_out_seats ::
  "session_env \<Rightarrow> ('c game_ctx \<Rightarrow> rng_state \<Rightarrow> 's \<Rightarrow> user_id \<Rightarrow> 's applied_result) \<Rightarrow> 'c session_meta \<Rightarrow> 's
     \<Rightarrow> user_id list \<Rightarrow> ('c, 's, 'c session_meta) session_proc" where
  "settle_out_seats env leave m s [] = give m"
| "settle_out_seats env leave m s (p # ps) =
     (let remaining = m\<lparr>meta_members := filter (\<lambda>x. x \<noteq> p) (meta_members m)\<rparr>;
          ((s', es), g) = leave (make_context remaining env) (meta_rng remaining) s p
      in seq (settle env True es) (\<lambda>_.
         seq (put_state s') (\<lambda>_. settle_out_seats env leave (spend remaining g) s' ps)))"

definition settle_out ::
  "('c, 's, 'p, 'v) game_model list \<Rightarrow> session_env \<Rightarrow> 'c session_meta \<Rightarrow> ('c, 's, 'c session_meta) session_proc" where
  "settle_out reg env m =
     seq (session_model reg m) (\<lambda>gm. case gm_on_leave gm of
         None \<Rightarrow> give m
       | Some leave \<Rightarrow> seq load_state (\<lambda>s.
           seq (settle_out_seats env leave m s (meta_members m)) (\<lambda>m'.
             give (m'\<lparr>meta_members := meta_members m\<rparr>))))"

section \<open>Transitions\<close>

definition apply_create ::
  "('c, 's, 'p, 'v) game_model list \<Rightarrow> string \<Rightarrow> rng_state \<Rightarrow> session_env \<Rightarrow> 'c game_snapshot \<Rightarrow> user_id
     \<Rightarrow> ('c, 's, 'v session_view) session_proc" where
  "apply_create reg sid rng env game p =
     seq (look w_meta) (\<lambda>existing. seq (demand Session_transition (existing = None)) (\<lambda>_.
       (let m = \<lparr>meta_session = sid, meta_game = game,
                 meta_phase = (if gs_mode game = Table then Phase_active else Phase_open),
                 meta_members = [p], meta_joined = Some [p], meta_created = env_now env,
                 meta_deadline = None, meta_rng = rng\<rparr>
        in seq (if gs_mode game = Table
                then seq (session_model reg m) (\<lambda>gm.
                  (let (s, g) = gm_init gm (make_context m env) (meta_rng m)
                   in seq (put_state s) (\<lambda>_. give (spend m g))))
                else give m) (\<lambda>m.
           seq (index_session env m) (\<lambda>_. seq (put_meta m) (\<lambda>_. snapshot reg env p))))))"

definition seat_player ::
  "('c, 's, 'p, 'v) game_model list \<Rightarrow> session_env \<Rightarrow> 'c session_meta \<Rightarrow> user_id
     \<Rightarrow> ('c, 's, 'c session_meta) session_proc" where
  "seat_player reg env m p =
     (if gs_mode (meta_game m) = Table then
        seq (session_model reg m) (\<lambda>gm. case gm_on_join gm of
            None \<Rightarrow> give m
          | Some join \<Rightarrow> seq load_state (\<lambda>s.
              (let ((s', es), g) = join (make_context m env) (meta_rng m) s p
               in seq (settle env False es) (\<lambda>_. seq (put_state s') (\<lambda>_. give (spend m g))))))
      else if length (meta_members m) = gs_players (meta_game m) then
        seq (session_model reg m) (\<lambda>gm.
          (let (s, g) = gm_init gm (make_context m env) (meta_rng m); m = (spend m g)\<lparr>meta_phase := Phase_active\<rparr>
           in seq (put_state s) (\<lambda>_. case gs_turn_timeout (meta_game m) of
                None \<Rightarrow> give m
              | Some t \<Rightarrow>
                  seq (store (\<lambda>w. w\<lparr>w_alarm := Some (env_now env + t)\<rparr>)) (\<lambda>_.
                    give (m\<lparr>meta_deadline := Some (env_now env + t)\<rparr>)))))
      else give m)"

definition apply_join ::
  "('c, 's, 'p, 'v) game_model list \<Rightarrow> session_env \<Rightarrow> user_id \<Rightarrow> ('c, 's, 'v session_view) session_proc" where
  "apply_join reg env p =
     seq (look w_meta) (\<lambda>meta. case meta of
         None \<Rightarrow> raise Session_not_found
       | Some m \<Rightarrow>
           if p \<in> set (meta_members m) then snapshot reg env p
           else seq (demand Session_transition (\<not> is_terminal (meta_phase m))) (\<lambda>_.
             seq (demand Session_full (length (meta_members m) < gs_players (meta_game m))) (\<lambda>_.
               (let m1 = m\<lparr>meta_members := meta_members m @ [p]\<rparr>; m2 = m1\<lparr>meta_joined := Some (ever_joined m1)\<rparr>
                in seq (seat_player reg env m2 p) (\<lambda>m3.
                   seq (index_session env m3) (\<lambda>_.
                   seq (put_meta m3) (\<lambda>_. snapshot reg env p)))))))"

definition apply_action ::
  "('c, 's, 'p, 'v) game_model list \<Rightarrow> session_env \<Rightarrow> user_id \<Rightarrow> 'p \<Rightarrow> ('c, 's, 'v session_view) session_proc" where
  "apply_action reg env p payload =
     seq (member_meta False p) (\<lambda>m.
     seq (demand Session_transition (meta_phase m = Phase_active)) (\<lambda>_.
     seq (session_model reg m) (\<lambda>gm.
     seq load_state (\<lambda>s.
     seq (demand (Refused Malformed) (gm_accepts gm payload)) (\<lambda>_.
       (case gm_apply gm (make_context m env) (meta_rng m) s p payload of
          Inl e \<Rightarrow> raise (Refused e)
        | Inr ((s', es), g) \<Rightarrow>
            seq (settle env False es) (\<lambda>_.
            seq (put_state s') (\<lambda>_.
            seq (if gs_mode (meta_game m) = Match \<and> gm_complete gm (make_context m env) s'
                 then (let (out, es') = gm_resolve gm (make_context m env) s'
                       in seq (settle env False es') (\<lambda>_. resolve_session env (spend m g) out))
                 else put_meta (spend m g)) (\<lambda>_.
            snapshot reg env p)))))))))"

definition apply_leave ::
  "('c, 's, 'p, 'v) game_model list \<Rightarrow> session_env \<Rightarrow> user_id \<Rightarrow> ('c, 's, 'v session_view) session_proc" where
  "apply_leave reg env p =
     seq (member_meta True p) (\<lambda>m.
     seq (demand Session_transition (gs_mode (meta_game m) = Table)) (\<lambda>_.
       if p \<notin> set (meta_members m) then give (departed_view m)
       else if is_terminal (meta_phase m) then snapshot reg env p
       else
         (let m1 = m\<lparr>meta_joined := Some (ever_joined m),
                     meta_members := filter (\<lambda>x. x \<noteq> p) (meta_members m)\<rparr>
          in seq (session_model reg m1) (\<lambda>gm.
             seq (case gm_on_leave gm of
                    None \<Rightarrow> give m1
                  | Some leave \<Rightarrow> seq load_state (\<lambda>s.
                      (let ((s', es), g) = leave (make_context m1 env) (meta_rng m1) s p
                       in seq (settle env False es) (\<lambda>_. seq (put_state s') (\<lambda>_. give (spend m1 g)))))) (\<lambda>m2.
             seq (if meta_members m2 = [] then commit_terminal env m2 (unscored Phase_resolved env None)
                  else seq (index_session env m2) (\<lambda>_. put_meta m2)) (\<lambda>_.
             snapshot reg env p))))))"

definition apply_close ::
  "('c, 's, 'p, 'v) game_model list \<Rightarrow> session_env \<Rightarrow> user_id \<Rightarrow> ('c, 's, 'v session_view) session_proc" where
  "apply_close reg env p =
     seq (member_meta False p) (\<lambda>m.
     seq (demand Session_transition (gs_mode (meta_game m) = Table)) (\<lambda>_.
       if is_terminal (meta_phase m) then snapshot reg env p
       else seq (settle_out reg env m) (\<lambda>m'.
            seq (commit_terminal env m' (unscored Phase_resolved env None)) (\<lambda>_.
            snapshot reg env p))))"

text \<open>An operator's close: answered as a replay under the key that closed it.\<close>

definition apply_operator_close ::
  "('c, 's, 'p, 'v) game_model list \<Rightarrow> session_env \<Rightarrow> string \<Rightarrow> string \<Rightarrow> ('c, 's, bool) session_proc" where
  "apply_operator_close reg env key reason =
     seq (look w_meta) (\<lambda>meta. case meta of
         None \<Rightarrow> raise Session_not_found
       | Some m \<Rightarrow> seq (look w_closed) (\<lambda>closed.
           if closed = Some key then give True
           else seq (demand Session_transition (\<not> is_terminal (meta_phase m))) (\<lambda>_.
             seq (if gs_mode (meta_game m) = Table then settle_out reg env m else give m) (\<lambda>m'.
             seq (end_in_flight env m' (unscored Phase_abandoned env (Some reason))) (\<lambda>_.
             seq (store (\<lambda>w. w\<lparr>w_closed := Some key\<rparr>)) (\<lambda>_. give False))))))"

definition on_deadline ::
  "('c, 's, 'p, 'v) game_model list \<Rightarrow> session_env \<Rightarrow> ('c, 's, unit) session_proc" where
  "on_deadline reg env =
     seq (look w_meta) (\<lambda>meta. case meta of
         None \<Rightarrow> give ()
       | Some m \<Rightarrow>
           if is_terminal (meta_phase m) \<or> meta_deadline m = None then give ()
           else seq (session_model reg m) (\<lambda>gm. seq (look w_state) (\<lambda>s. case s of
               Some x \<Rightarrow>
                 if gm_complete gm (make_context m env) x
                 then (let (out, es) = gm_resolve gm (make_context m env) x
                       in seq (settle env False es) (\<lambda>_. resolve_session env m out))
                 else abandon_session env m
             | None \<Rightarrow> abandon_session env m)))"

definition apply_view ::
  "('c, 's, 'p, 'v) game_model list \<Rightarrow> session_env \<Rightarrow> user_id \<Rightarrow> ('c, 's, 'v session_view) session_proc" where
  "apply_view reg env p = seq (member_meta False p) (\<lambda>_. snapshot reg env p)"

definition session_result :: "user_id \<Rightarrow> ('c, 's, result_row option) session_proc" where
  "session_result p = seq (member_meta True p) (\<lambda>_. look w_result)"

text \<open>The frames a change pushes: each connected socket whose user is still a member, its own view.\<close>

definition broadcast ::
  "('c, 's, 'p, 'v) game_model \<Rightarrow> session_env \<Rightarrow> user_id list \<Rightarrow> ('c, 's) session_world
     \<Rightarrow> (user_id \<times> 'v session_view) list" where
  "broadcast gm env sockets w =
     (case w_meta w of
        None \<Rightarrow> []
      | Some m \<Rightarrow> map (\<lambda>u. (u, snapshot_of gm env m w u)) (filter (\<lambda>u. u \<in> set (meta_members m)) sockets))"

end
