(* ===== verification/Session_Invariant.thy ===== *)
theory Session_Invariant
  imports Session
begin

text \<open>
  What a session keeps true of its storage and its rows, whichever of its D1 calls fail, and that
  a session that ended never changes again.
\<close>

section \<open>Every transition as one step\<close>

datatype ('c, 'p) session_op =
    Create "'c game_snapshot" user_id
  | Join user_id
  | Action user_id 'p
  | Leave_seat user_id
  | Close_table user_id
  | Operator_close string string
  | Deadline
  | View user_id

text \<open>
  The session's id and the state its randomness was minted in are fixed when it is created. A step
  answers with the caller's view, where its transition answers with one.
\<close>

definition with_view :: "('c, 's, 'v) session_proc \<Rightarrow> ('c, 's, 'v option) session_proc" where
  "with_view m = seq m (\<lambda>v. give (Some v))"

definition without_view :: "('c, 's, 'a) session_proc \<Rightarrow> ('c, 's, 'v option) session_proc" where
  "without_view m = seq m (\<lambda>_. give None)"

fun session_step ::
  "('c, 's, 'p, 'v) game_model list \<Rightarrow> string \<Rightarrow> rng_state \<Rightarrow> session_env \<times> ('c, 'p) session_op
     \<Rightarrow> ('c, 's, 'v session_view option) session_proc" where
  "session_step reg sid rng (env, Create game p) = with_view (apply_create reg sid rng env game p)"
| "session_step reg sid rng (env, Join p) = with_view (apply_join reg env p)"
| "session_step reg sid rng (env, Action p a) = with_view (apply_action reg env p a)"
| "session_step reg sid rng (env, Leave_seat p) = with_view (apply_leave reg env p)"
| "session_step reg sid rng (env, Close_table p) = with_view (apply_close reg env p)"
| "session_step reg sid rng (env, Operator_close k r) = without_view (apply_operator_close reg env k r)"
| "session_step reg sid rng (env, Deadline) = without_view (on_deadline reg env)"
| "session_step reg sid rng (env, View p) = with_view (apply_view reg env p)"

text \<open>A session's life: its steps in order, whatever each answers.\<close>

definition session_run ::
  "('c, 's, 'p, 'v) game_model list \<Rightarrow> string \<Rightarrow> rng_state \<Rightarrow> ('c, 's) session_world
     \<Rightarrow> (session_env \<times> ('c, 'p) session_op) list \<Rightarrow> ('c, 's) session_world" where
  "session_run reg sid rng w steps = foldl (\<lambda>w x. snd (session_step reg sid rng x w)) w steps"

section \<open>Rules for the helpers\<close>

lemma wp_with_view [simp]:
  "wp (with_view m) Qv E w = wp m (\<lambda>v. Qv (Some v)) E w"
  by (simp add: with_view_def wp_def seq_def give_def split: prod.splits sum.splits)

lemma wp_without_view [simp]:
  "wp (without_view m) Qv E w = wp m (\<lambda>_. Qv None) E w"
  by (simp add: without_view_def wp_def seq_def give_def split: prod.splits sum.splits)


lemma wp_session_model [simp]:
  "wp (session_model reg m) Q E w =
     (case resolve_model (gs_kind (meta_game m)) reg of None \<Rightarrow> E Game_not_found w | Some gm \<Rightarrow> Q gm w)"
  by (simp add: session_model_def split: option.split)

lemma wp_load_state [simp]:
  "wp load_state Q E w = (case w_state w of None \<Rightarrow> E Corrupt w | Some s \<Rightarrow> Q s w)"
  by (simp add: load_state_def split: option.split)

lemma wp_d1_write [simp]:
  "wp (d1_write env call f) Q E w = (if env_down env call then E D1_failed w else Q () (f w))"
  by (simp add: d1_write_def)

lemma wp_put [simp]:
  "wp (put_meta m) Q E w = Q () (w\<lparr>w_meta := Some m\<rparr>)"
  "wp (put_state s) Q E w = Q () (w\<lparr>w_state := Some s\<rparr>)"
  by (simp_all add: put_meta_def put_state_def)

lemma wp_snapshot [simp]:
  "wp (snapshot reg env p) Q E w =
     (case w_meta w of
        None \<Rightarrow> E Session_not_found w
      | Some m \<Rightarrow> (case resolve_model (gs_kind (meta_game m)) reg of
            None \<Rightarrow> E Game_not_found w | Some gm \<Rightarrow> Q (snapshot_of gm env m w p) w))"
  by (simp add: snapshot_def split: option.split)

lemma wp_member_meta [simp]:
  "wp (member_meta former p) Q E w =
     (case w_meta w of
        None \<Rightarrow> E Session_not_found w
      | Some m \<Rightarrow> if p \<in> set (if former then ever_joined m else meta_members m) then Q m w else E Not_a_member w)"
  by (simp add: member_meta_def split: option.split)

text \<open>Settling effects touches the ledger alone.\<close>

lemma wp_settle:
  "(\<And>db. Q () (w\<lparr>w_ledger := db\<rparr>)) \<Longrightarrow> (\<And>e db. E e (w\<lparr>w_ledger := db\<rparr>)) \<Longrightarrow> wp (settle env so es) Q E w"
proof -
  assume q: "\<And>db. Q () (w\<lparr>w_ledger := db\<rparr>)" and e: "\<And>e db. E e (w\<lparr>w_ledger := db\<rparr>)"
  show ?thesis
    using q e by (auto simp: settle_def wp_def Let_def split: prod.split option.split)
qed

section \<open>The end is final\<close>

definition ended :: "('c, 's) session_world \<Rightarrow> bool" where
  "ended w \<longleftrightarrow> (\<exists>m. w_meta w = Some m \<and> is_terminal (meta_phase m))"

lemma terminal_not_active [simp]: "is_terminal ph \<Longrightarrow> ph \<noteq> Phase_active"
  by (auto simp: is_terminal_def)

lemma ended_step:
  assumes "ended w" shows "snd (session_step reg sid rng x w) = w"
proof -
  from assms obtain m where m: "w_meta w = Some m" "is_terminal (meta_phase m)"
    by (auto simp: ended_def)
  obtain env op where x: "x = (env, op)" by force
  have "wp (session_step reg sid rng x) (\<lambda>_ w'. w' = w) (\<lambda>_ w'. w' = w) w"
    using m
    by (cases op)
      (auto simp: x apply_create_def apply_join_def apply_action_def apply_leave_def apply_close_def
        apply_operator_close_def on_deadline_def apply_view_def Let_def split: option.split)
  then show ?thesis by (simp only: wp_snd)
qed

lemma ended_run: "ended w \<Longrightarrow> session_run reg sid rng w steps = w"
  by (induction steps arbitrary: w) (simp_all add: session_run_def ended_step)

section \<open>What every session keeps true\<close>

text \<open>
  \<open>clean\<close> marks a life in which no removal from the index ever failed.
\<close>

definition in_flight_ok :: "bool \<Rightarrow> ('c, 's) session_world \<Rightarrow> 'c session_meta \<Rightarrow> bool" where
  "in_flight_ok clean w m \<longleftrightarrow>
     w_outcome w = None \<and> w_closed w = None \<and> meta_members m \<noteq> [] \<and>
     (clean \<longrightarrow> w_result w = None) \<and>
     w_index w = Some \<lparr>ix_game = gs_key (meta_game m), ix_phase = meta_phase m,
                       ix_players = meta_members m, ix_opened = meta_created m\<rparr> \<and>
     (gs_mode (meta_game m) = Table \<longrightarrow> meta_phase m = Phase_active) \<and>
     (meta_phase m = Phase_active \<longrightarrow> w_state w \<noteq> None) \<and>
     (gs_mode (meta_game m) = Match \<and> meta_phase m = Phase_active \<longrightarrow>
        length (meta_members m) = gs_players (meta_game m))"

definition ended_ok :: "bool \<Rightarrow> ('c, 's) session_world \<Rightarrow> 'c session_meta \<Rightarrow> bool" where
  "ended_ok clean w m \<longleftrightarrow>
     (\<exists>out. w_outcome w = Some out \<and> so_status out = meta_phase m \<and>
          (clean \<and> w_closed w = None \<longrightarrow> w_result w = Some (row_of_outcome m out))) \<and>
     w_index w = None \<and> w_alarm w = None \<and> meta_deadline m = None \<and>
     (w_closed w = None \<longrightarrow> w_result w \<noteq> None)"

definition session_ok :: "bool \<Rightarrow> string \<Rightarrow> rng_state \<Rightarrow> ('c, 's) session_world \<Rightarrow> bool" where
  "session_ok clean sid rng w \<longleftrightarrow>
     (case w_meta w of
        None \<Rightarrow> w_outcome w = None \<and> w_closed w = None \<and> w_index w = None \<and> w_result w = None
      | Some m \<Rightarrow>
          meta_session m = sid \<and> seed (meta_rng m) = seed rng \<and> seed_hash (meta_rng m) = seed_hash rng \<and>
          distinct (meta_members m) \<and> length (meta_members m) \<le> max 1 (gs_players (meta_game m)) \<and>
          (if is_terminal (meta_phase m) then ended_ok clean w m else in_flight_ok clean w m))"

lemma is_terminal_simps [simp]:
  "is_terminal Phase_resolved" "is_terminal Phase_abandoned"
  "\<not> is_terminal Phase_open" "\<not> is_terminal Phase_active"
  by (simp_all add: is_terminal_def)

lemma spend_simps [simp]:
  "meta_session (spend m g) = meta_session m" "meta_game (spend m g) = meta_game m"
  "meta_phase (spend m g) = meta_phase m" "meta_members (spend m g) = meta_members m"
  "meta_joined (spend m g) = meta_joined m" "meta_created (spend m g) = meta_created m"
  "meta_deadline (spend m g) = meta_deadline m"
  "seed (meta_rng (spend m g)) = seed (meta_rng m)"
  "seed_hash (meta_rng (spend m g)) = seed_hash (meta_rng m)"
  by (simp_all add: spend_def)

text \<open>Storing a state or a ledger keeps the invariant; so does a table's settling out.\<close>

lemma session_ok_ledger [simp]: "session_ok clean sid rng (w\<lparr>w_ledger := db\<rparr>) = session_ok clean sid rng w"
  by (simp add: session_ok_def in_flight_ok_def ended_ok_def split: option.split)

lemma session_ok_state: "session_ok clean sid rng w \<Longrightarrow> session_ok clean sid rng (w\<lparr>w_state := Some s\<rparr>)"
  unfolding session_ok_def in_flight_ok_def ended_ok_def by (cases "w_meta w") (auto split: if_splits)

lemma session_ok_alarm:
  "session_ok clean sid rng w \<Longrightarrow> \<not> ended w \<Longrightarrow> session_ok clean sid rng (w\<lparr>w_alarm := a\<rparr>)"
  unfolding session_ok_def in_flight_ok_def ended_ok_def ended_def by (cases "w_meta w") (auto split: if_splits)

lemma session_ok_result:
  "session_ok False sid rng w \<Longrightarrow> w_meta w \<noteq> None \<Longrightarrow> session_ok False sid rng (w\<lparr>w_result := Some r\<rparr>)"
  unfolding session_ok_def in_flight_ok_def ended_ok_def by (cases "w_meta w") (auto split: if_splits)

text \<open>
  How a session ends: the result first, then the index, then the rest at once. Whatever fails, the
  session is still well formed.
\<close>

lemma session_ok_end:
  assumes "session_ok clean sid rng w" and "w_meta w = Some m" and "\<not> is_terminal (meta_phase m)"
    and "meta_session m' = meta_session m" and "meta_game m' = meta_game m"
    and "seed (meta_rng m') = seed (meta_rng m)" and "seed_hash (meta_rng m') = seed_hash (meta_rng m)"
    and "distinct (meta_members m')" and "length (meta_members m') \<le> length (meta_members m)"
    and "is_terminal (so_status out)"
    and "r = Some row" and "clean \<longrightarrow> row = row_of_outcome m' out"
  shows "session_ok clean sid rng (w\<lparr>w_result := r, w_index := None, w_meta := Some (m'\<lparr>meta_phase :=
           so_status out, meta_deadline := None\<rparr>), w_outcome := Some out, w_alarm := None\<rparr>)"
  using assms unfolding session_ok_def ended_ok_def by (auto simp: row_of_outcome_def)

lemma wp_end_in_flight:
  "wp (end_in_flight env m out) Q E w =
     (if env_down env Index_remove then E D1_failed w
      else Q () (w\<lparr>w_index := None, w_meta := Some (m\<lparr>meta_phase := so_status out,
             meta_deadline := None\<rparr>), w_outcome := Some out, w_alarm := None\<rparr>))"
  by (simp add: end_in_flight_def)

lemma wp_commit_ok:
  assumes ok: "session_ok clean sid rng w" "w_meta w = Some m" "\<not> is_terminal (meta_phase m)"
    and same: "meta_session m' = meta_session m" "meta_game m' = meta_game m"
      "seed (meta_rng m') = seed (meta_rng m)" "seed_hash (meta_rng m') = seed_hash (meta_rng m)"
      "distinct (meta_members m')" "length (meta_members m') \<le> length (meta_members m)"
    and out: "is_terminal (so_status out)" and up: "clean \<longrightarrow> \<not> env_down env Index_remove"
    and Q: "\<And>w'. session_ok clean sid rng w' \<Longrightarrow> Q () w'" and E: "\<And>e w'. session_ok clean sid rng w' \<Longrightarrow> E e w'"
  shows "wp (commit_terminal env m' out) Q E w"
proof -
  have fin: "session_ok clean sid rng (w\<lparr>w_result := r, w_index := None, w_meta := Some (m'\<lparr>meta_phase :=
           so_status out, meta_deadline := None\<rparr>), w_outcome := Some out, w_alarm := None\<rparr>)"
    if "r = Some row" "clean \<longrightarrow> row = row_of_outcome m' out" for r row
    using session_ok_end [OF ok same out that] .
  show ?thesis
  proof (cases "w_result w")
    case None
    have "session_ok clean sid rng (w\<lparr>w_result := Some r\<rparr>)" if "env_down env Index_remove" for r
      using session_ok_result [of sid rng w] ok(1,2) that up by (cases clean) auto
    with None fin [OF refl, of "row_of_outcome m' out"] show ?thesis
      unfolding commit_terminal_def write_result_def
      by (simp add: wp_end_in_flight ok E Q)
  next
    case (Some row)
    have "\<not> clean"
      using ok Some by (auto simp: session_ok_def in_flight_ok_def)
    with fin [OF Some] have "session_ok clean sid rng (w\<lparr>w_index := None, w_meta := Some (m'\<lparr>meta_phase :=
           so_status out, meta_deadline := None\<rparr>), w_outcome := Some out, w_alarm := None\<rparr>)"
      by (cases w) simp
    then show ?thesis
      unfolding commit_terminal_def write_result_def
      by (simp add: wp_end_in_flight E [OF ok(1)] Q Some)
  qed
qed

lemma wp_index_session:
  "wp (index_session env m) Q E w =
     (if is_terminal (meta_phase m) then Q () w
      else if env_down env Index_put then E D1_failed w
      else Q () (w\<lparr>w_index := Some \<lparr>ix_game = gs_key (meta_game m),
         ix_phase = meta_phase m, ix_players = meta_members m, ix_opened = meta_created m\<rparr>\<rparr>))"
  by (cases "meta_phase m") (simp_all add: index_session_def)

section \<open>Every transition keeps it\<close>

text \<open>Settling a table out changes its model's state and the ledger, and spends randomness.\<close>

lemma wp_settle_out_seats:
  assumes "session_ok clean sid rng w" and "w_meta w = Some m0" and "meta_session m = meta_session m0"
    and "meta_game m = meta_game m0" and "seed (meta_rng m) = seed (meta_rng m0)"
    and "seed_hash (meta_rng m) = seed_hash (meta_rng m0)" and "meta_phase m = meta_phase m0"
    and Q: "\<And>m' w'. session_ok clean sid rng w' \<Longrightarrow> w_meta w' = Some m0 \<Longrightarrow> meta_session m' = meta_session m0 \<Longrightarrow>
        meta_game m' = meta_game m0 \<Longrightarrow> seed (meta_rng m') = seed (meta_rng m0) \<Longrightarrow>
        seed_hash (meta_rng m') = seed_hash (meta_rng m0) \<Longrightarrow> meta_phase m' = meta_phase m0 \<Longrightarrow> Q m' w'"
    and E: "\<And>e w'. session_ok clean sid rng w' \<Longrightarrow> E e w'"
  shows "wp (settle_out_seats env leave m s ps) Q E w"
  using assms(1-7)
proof (induction ps arbitrary: m s w)
  case Nil
  then show ?case by (simp add: Q)
next
  case (Cons p ps)
  show ?case
    by (auto simp: Let_def split: prod.split intro!: wp_settle Cons.IH session_ok_state E)
      (use Cons.prems in simp_all)
qed

lemma wp_settle_out:
  assumes "session_ok clean sid rng w" and "w_meta w = Some m"
    and "\<And>m' w'. session_ok clean sid rng w' \<Longrightarrow> w_meta w' = Some m \<Longrightarrow> meta_session m' = meta_session m \<Longrightarrow>
        meta_game m' = meta_game m \<Longrightarrow> seed (meta_rng m') = seed (meta_rng m) \<Longrightarrow>
        seed_hash (meta_rng m') = seed_hash (meta_rng m) \<Longrightarrow> meta_phase m' = meta_phase m \<Longrightarrow>
        meta_members m' = meta_members m \<Longrightarrow> Q m' w'"
    and "\<And>e w'. session_ok clean sid rng w' \<Longrightarrow> E e w'"
  shows "wp (settle_out reg env m) Q E w"
  unfolding settle_out_def using assms
  by (auto split: option.split intro!: wp_settle_out_seats [where m0 = m])

lemma session_ok_meta:
  assumes "session_ok clean sid rng w" and "w_meta w = Some m"
  shows "meta_session m = sid" "seed (meta_rng m) = seed rng" "seed_hash (meta_rng m) = seed_hash rng"
    "distinct (meta_members m)" "length (meta_members m) \<le> max 1 (gs_players (meta_game m))"
    "\<not> is_terminal (meta_phase m) \<Longrightarrow> in_flight_ok clean w m"
  using assms by (auto simp: session_ok_def)

lemma create_ok:
  "session_ok clean sid rng w \<Longrightarrow>
   wp (apply_create reg sid rng env game p) (\<lambda>_. session_ok clean sid rng) (\<lambda>_. session_ok clean sid rng) w"
  by (auto simp: apply_create_def Let_def wp_index_session session_ok_def in_flight_ok_def
      split: option.split prod.split)

text \<open>Replacing the roster and the index of a session in flight together.\<close>

lemma session_ok_reseat:
  assumes "session_ok clean sid rng w" and "w_meta w = Some m" and "\<not> is_terminal (meta_phase m)"
    and "meta_session m' = meta_session m" and "meta_game m' = meta_game m"
    and "seed (meta_rng m') = seed (meta_rng m)" and "seed_hash (meta_rng m') = seed_hash (meta_rng m)"
    and "distinct (meta_members m')" and "length (meta_members m') \<le> max 1 (gs_players (meta_game m))"
    and "meta_members m' \<noteq> []" and "\<not> is_terminal (meta_phase m')"
    and "meta_phase m' = Phase_active \<longrightarrow> w_state w \<noteq> None"
    and "gs_mode (meta_game m) = Table \<longrightarrow> meta_phase m' = Phase_active"
    and "gs_mode (meta_game m) = Match \<and> meta_phase m' = Phase_active \<longrightarrow>
           length (meta_members m') = gs_players (meta_game m)"
  shows "session_ok clean sid rng (w\<lparr>w_index := Some \<lparr>ix_game = gs_key (meta_game m),
           ix_phase = meta_phase m', ix_players = meta_members m', ix_opened = meta_created m'\<rparr>,
           w_meta := Some m'\<rparr>)"
  using assms unfolding session_ok_def in_flight_ok_def by auto

lemma not_table [simp]: "x \<noteq> Table \<longleftrightarrow> x = Match"
  by (cases x) simp_all

lemma wp_reseat:
  assumes "session_ok clean sid rng w" and "w_meta w = Some m" and "\<not> is_terminal (meta_phase m)"
    and "meta_session m' = meta_session m" and "meta_game m' = meta_game m"
    and "seed (meta_rng m') = seed (meta_rng m)" and "seed_hash (meta_rng m') = seed_hash (meta_rng m)"
    and "distinct (meta_members m')" and "length (meta_members m') \<le> max 1 (gs_players (meta_game m))"
    and "meta_members m' \<noteq> []" and "\<not> is_terminal (meta_phase m')"
    and "meta_phase m' = Phase_active \<longrightarrow> w_state w \<noteq> None"
    and "gs_mode (meta_game m) = Table \<longrightarrow> meta_phase m' = Phase_active"
    and "gs_mode (meta_game m) = Match \<and> meta_phase m' = Phase_active \<longrightarrow>
           length (meta_members m') = gs_players (meta_game m)"
  shows "wp (seq (index_session env m') (\<lambda>_. put_meta m')) (\<lambda>_. session_ok clean sid rng)
           (\<lambda>_. session_ok clean sid rng) w"
proof -
  note re = session_ok_reseat [OF assms]
  show ?thesis
    by (simp add: wp_index_session assms(1,5,11) re)
qed

lemma wp_seq_snapshot:
  assumes "wp m (\<lambda>_. session_ok clean sid rng) (\<lambda>_. session_ok clean sid rng) w"
  shows "wp (seq m (\<lambda>_. snapshot reg env p)) (\<lambda>_. session_ok clean sid rng) (\<lambda>_. session_ok clean sid rng) w"
  unfolding wp_seq by (rule wp_mono [OF assms]) (auto split: option.split)

lemma seq_assoc: "seq (seq m f) g = seq m (\<lambda>x. seq (f x) g)"
  by (rule ext) (simp add: seq_def split: prod.split sum.split)

lemma wp_seat_player:
  assumes "session_ok clean sid rng w" and "w_meta w = Some m0" and "\<not> is_terminal (meta_phase m0)"
    and "meta_game m = meta_game m0" and "meta_phase m = meta_phase m0"
    and Q: "\<And>m' w'. session_ok clean sid rng w' \<Longrightarrow> w_meta w' = Some m0 \<Longrightarrow>
        meta_session m' = meta_session m \<Longrightarrow> meta_game m' = meta_game m \<Longrightarrow>
        seed (meta_rng m') = seed (meta_rng m) \<Longrightarrow> seed_hash (meta_rng m') = seed_hash (meta_rng m) \<Longrightarrow>
        meta_members m' = meta_members m \<Longrightarrow>
        meta_phase m' = meta_phase m \<or> meta_phase m' = Phase_active \<and> w_state w' \<noteq> None \<and>
          length (meta_members m) = gs_players (meta_game m) \<Longrightarrow> 
        (w_state w \<noteq> None \<longrightarrow> w_state w' \<noteq> None) \<Longrightarrow> Q m' w'"
    and E: "\<And>e w'. session_ok clean sid rng w' \<Longrightarrow> E e w'"
  shows "wp (seat_player reg env m p) Q E w"
proof -
  have "\<not> ended v" if "w_meta v = Some m0" for v
    using that assms(3) by (simp add: ended_def)
  then show ?thesis
    unfolding seat_player_def using assms(1-5)
    by (auto simp: Let_def split: option.split prod.split
        intro!: wp_settle session_ok_state session_ok_alarm Q E)
      (auto simp: ended_def)
qed

lemma join_ok:
  fixes w :: "('c, 's) session_world"
  assumes ok: "session_ok clean sid rng w"
  shows "wp (apply_join reg env p) (\<lambda>_. session_ok clean sid rng) (\<lambda>_. session_ok clean sid rng) w"
proof (cases "w_meta w")
  case None
  with ok show ?thesis by (simp add: apply_join_def)
next
  case (Some m)
  note facts = session_ok_meta [OF ok Some]
  define m2 where "m2 = (let m1 = m\<lparr>meta_members := meta_members m @ [p]\<rparr>
     in m1\<lparr>meta_joined := Some (ever_joined m1)\<rparr>)"
  have m2: "meta_session m2 = meta_session m" "meta_game m2 = meta_game m" "meta_rng m2 = meta_rng m"
      "meta_phase m2 = meta_phase m" "meta_members m2 = meta_members m @ [p]"
    by (simp_all add: m2_def Let_def)
  have *: "wp (seq (seat_player reg env m2 p) (\<lambda>m3. seq (index_session env m3) (\<lambda>_. put_meta m3)))
          (\<lambda>_. session_ok clean sid rng) (\<lambda>_. session_ok clean sid rng) w"
    if "\<not> is_terminal (meta_phase m)" "length (meta_members m) < gs_players (meta_game m)"
      "p \<notin> set (meta_members m)"
  proof -
    have ifo: "in_flight_ok clean w m" using facts(6) that(1) .
    show ?thesis
      unfolding wp_seq
    proof (rule wp_seat_player [OF ok Some that(1) m2(2,4)])
      fix m' :: "'c session_meta" and w'
      assume "session_ok clean sid rng w'" "w_meta w' = Some m"
        and same: "meta_session m' = meta_session m2" "meta_game m' = meta_game m2"
          "seed (meta_rng m') = seed (meta_rng m2)" "seed_hash (meta_rng m') = seed_hash (meta_rng m2)"
          "meta_members m' = meta_members m2"
        and ph: "meta_phase m' = meta_phase m2 \<or> meta_phase m' = Phase_active \<and> w_state w' \<noteq> None \<and>
          length (meta_members m2) = gs_players (meta_game m2)"
        and st: "w_state w \<noteq> None \<longrightarrow> w_state w' \<noteq> None"
      have act: "meta_phase m \<noteq> Phase_active \<or> w_state w \<noteq> None \<and> gs_mode (meta_game m) = Table"
        using ifo that(2) by (cases "gs_mode (meta_game m)") (auto simp: in_flight_ok_def)
      have tbl: "gs_mode (meta_game m) = Table \<longrightarrow> meta_phase m = Phase_active"
        using ifo by (simp add: in_flight_ok_def)
      have ph': "meta_phase m' = meta_phase m \<or> meta_phase m' = Phase_active"
        using ph m2 by auto
      have "wp (seq (index_session env m') (\<lambda>_. put_meta m')) (\<lambda>_. session_ok clean sid rng)
              (\<lambda>_. session_ok clean sid rng) w'"
      proof (rule wp_reseat [OF \<open>session_ok clean sid rng w'\<close> \<open>w_meta w' = Some m\<close> that(1)])
        show "\<not> is_terminal (meta_phase m')" using ph' that(1) by auto
        show "meta_phase m' = Phase_active \<longrightarrow> w_state w' \<noteq> None"
          using ph act st m2(4) by metis
        show "gs_mode (meta_game m) = Table \<longrightarrow> meta_phase m' = Phase_active"
          using ph' tbl by auto
        show "gs_mode (meta_game m) = Match \<and> meta_phase m' = Phase_active \<longrightarrow>
           length (meta_members m') = gs_players (meta_game m)"
          using ph act same(5) m2(2,4) by auto
      qed (use same m2 that facts(4,5) in auto)
      then show "wp (index_session env m') (\<lambda>x. wp (put_meta m') (\<lambda>_. session_ok clean sid rng)
              (\<lambda>_. session_ok clean sid rng)) (\<lambda>_. session_ok clean sid rng) w'"
        by (simp only: wp_seq)
    qed
  qed
  have "wp (seq (seat_player reg env m2 p) (\<lambda>m3. seq (index_session env m3) (\<lambda>_. seq (put_meta m3)
          (\<lambda>_. snapshot reg env p)))) (\<lambda>_. session_ok clean sid rng) (\<lambda>_. session_ok clean sid rng) w"
    if "\<not> is_terminal (meta_phase m)" "length (meta_members m) < gs_players (meta_game m)"
      "p \<notin> set (meta_members m)"
    using wp_seq_snapshot [OF * [OF that]] by (simp only: seq_assoc)
  moreover have "wp (apply_join reg env p) Q E w =
    (if p \<in> set (meta_members m) then wp (snapshot reg env p) Q E w
     else if is_terminal (meta_phase m) then E Session_transition w
     else if length (meta_members m) < gs_players (meta_game m) then
       wp (seq (seat_player reg env m2 p) (\<lambda>m3. seq (index_session env m3) (\<lambda>_. seq (put_meta m3)
          (\<lambda>_. snapshot reg env p)))) Q E w
     else E Session_full w)" for Q E
    unfolding apply_join_def m2_def Let_def by (simp add: Some del: wp_snapshot)
  ultimately show ?thesis
    using ok Some by (auto simp del: wp_seq split: option.split)
qed

text \<open>An answer read from the storage changes nothing.\<close>

lemma view_ok:
  "session_ok clean sid rng w \<Longrightarrow>
   wp (apply_view reg env p) (\<lambda>_. session_ok clean sid rng) (\<lambda>_. session_ok clean sid rng) w"
  by (auto simp: apply_view_def split: option.split)

lemma session_ok_respend:
  assumes "session_ok clean sid rng w" and "w_meta w = Some m"
  shows "session_ok clean sid rng (w\<lparr>w_meta := Some (spend m g)\<rparr>)"
  using assms unfolding session_ok_def in_flight_ok_def ended_ok_def row_of_outcome_def
  by (auto split: if_splits option.splits)

lemma wp_resolve_ok:
  assumes "session_ok clean sid rng w" and "w_meta w = Some m0" and "\<not> is_terminal (meta_phase m0)"
    and "meta_session m = meta_session m0" "meta_game m = meta_game m0"
      "seed (meta_rng m) = seed (meta_rng m0)" "seed_hash (meta_rng m) = seed_hash (meta_rng m0)"
      "meta_members m = meta_members m0"
    and "clean \<longrightarrow> \<not> env_down env Index_remove"
  shows "wp (resolve_session env m out) (\<lambda>_. session_ok clean sid rng) (\<lambda>_. session_ok clean sid rng) w"
    "wp (abandon_session env m) (\<lambda>_. session_ok clean sid rng) (\<lambda>_. session_ok clean sid rng) w"
  unfolding resolve_session_def abandon_session_def unscored_def
  using assms session_ok_meta(4) [OF assms(1,2)]
  by (auto intro!: wp_commit_ok [where m = m0])

lemma deadline_ok:
  assumes ok: "session_ok clean sid rng w" and up: "clean \<longrightarrow> \<not> env_down env Index_remove"
  shows "wp (on_deadline reg env) (\<lambda>_. session_ok clean sid rng) (\<lambda>_. session_ok clean sid rng) w"
proof (cases "w_meta w")
  case None
  with ok show ?thesis by (simp add: on_deadline_def)
next
  case (Some m)
  then show ?thesis
    unfolding on_deadline_def using ok up
    by (auto split: option.split prod.split intro!: wp_settle wp_resolve_ok [where ?m0.0 = m])
qed

lemma action_ok:
  assumes ok: "session_ok clean sid rng w" and up: "clean \<longrightarrow> \<not> env_down env Index_remove"
  shows "wp (apply_action reg env p a) (\<lambda>_. session_ok clean sid rng) (\<lambda>_. session_ok clean sid rng) w"
proof (cases "w_meta w")
  case None
  with ok show ?thesis by (simp add: apply_action_def)
next
  case (Some m)
  have resolved: "wp (resolve_session env (spend m g) out)
      (\<lambda>_. wp (snapshot reg env p) (\<lambda>_. session_ok clean sid rng) (\<lambda>_. session_ok clean sid rng))
      (\<lambda>_. session_ok clean sid rng) w'"
    if "session_ok clean sid rng w'" "w_meta w' = Some m" "meta_phase m = Phase_active" for w' g out
    by (rule wp_mono, rule wp_resolve_ok(1) [OF that(1,2)])
      (use that up in \<open>auto split: option.split\<close>)
  show ?thesis
    unfolding apply_action_def using ok Some
    by (auto split: option.split prod.split sum.split
        simp del: wp_snapshot intro!: wp_settle resolved session_ok_state)
      (auto split: option.split intro!: session_ok_respend session_ok_state)
qed

lemma members_filter_ok:
  "length (filter f xs) \<le> length xs" "distinct xs \<Longrightarrow> distinct (filter f xs)"
  by simp_all

lemma close_ok:
  assumes ok: "session_ok clean sid rng w" and up: "clean \<longrightarrow> \<not> env_down env Index_remove"
  shows "wp (apply_close reg env p) (\<lambda>_. session_ok clean sid rng) (\<lambda>_. session_ok clean sid rng) w"
proof (cases "w_meta w")
  case None
  with ok show ?thesis by (simp add: apply_close_def)
next
  case (Some m)
  have ended: "wp (seq (commit_terminal env m' (unscored Phase_resolved env None)) (\<lambda>_. snapshot reg env p))
      (\<lambda>_. session_ok clean sid rng) (\<lambda>_. session_ok clean sid rng) w'"
    if "session_ok clean sid rng w'" "w_meta w' = Some m" "\<not> is_terminal (meta_phase m)"
      "meta_session m' = meta_session m" "meta_game m' = meta_game m"
      "seed (meta_rng m') = seed (meta_rng m)" "seed_hash (meta_rng m') = seed_hash (meta_rng m)"
      "meta_members m' = meta_members m" for w' m'
    using that up session_ok_meta(4) [OF ok Some]
    by (intro wp_seq_snapshot wp_commit_ok [where m = m]) (auto simp: unscored_def)
  have "wp (seq (settle_out reg env m) (\<lambda>m'. seq (commit_terminal env m' (unscored Phase_resolved env None))
      (\<lambda>_. snapshot reg env p))) (\<lambda>_. session_ok clean sid rng) (\<lambda>_. session_ok clean sid rng) w"
    if "\<not> is_terminal (meta_phase m)"
    unfolding wp_seq [of "settle_out reg env m"]
    by (rule wp_settle_out [OF ok Some]) (use that in \<open>auto simp del: wp_seq intro!: ended\<close>)
  moreover have "wp (apply_close reg env p) Q E w =
    (if p \<notin> set (meta_members m) then E Not_a_member w
     else if gs_mode (meta_game m) \<noteq> Table then E Session_transition w
     else if is_terminal (meta_phase m) then wp (snapshot reg env p) Q E w
     else wp (seq (settle_out reg env m) (\<lambda>m'. seq (commit_terminal env m' (unscored Phase_resolved env None))
      (\<lambda>_. snapshot reg env p))) Q E w)" for Q E
    unfolding apply_close_def by (simp add: Some del: wp_snapshot)
  ultimately show ?thesis
    using ok Some by (auto simp del: wp_seq split: option.split)
qed

lemma operator_close_ok:
  assumes ok: "session_ok clean sid rng w"
  shows "wp (apply_operator_close reg env key reason) (\<lambda>_. session_ok clean sid rng) (\<lambda>_. session_ok clean sid rng) w"
proof (cases "w_meta w")
  case None
  with ok show ?thesis by (simp add: apply_operator_close_def)
next
  case (Some m)
  define fin where "fin = (\<lambda>m'. seq (end_in_flight env m' (unscored Phase_abandoned env (Some reason)))
      (\<lambda>_. seq (store (\<lambda>w. w\<lparr>w_closed := Some key\<rparr>)) (\<lambda>_. give False))
      :: ('a, 'b) session_world \<Rightarrow> (session_error + bool) \<times> ('a, 'b) session_world)"
  have fin: "wp (fin m') (\<lambda>_. session_ok clean sid rng) (\<lambda>_. session_ok clean sid rng) w'"
    if "session_ok clean sid rng w'" "w_meta w' = Some m" "\<not> is_terminal (meta_phase m)"
      "meta_session m' = meta_session m" "meta_game m' = meta_game m"
      "seed (meta_rng m') = seed (meta_rng m)" "seed_hash (meta_rng m') = seed_hash (meta_rng m)"
      "meta_members m' = meta_members m" for w' m'
    using that session_ok_meta [OF ok Some]
    by (auto simp: fin_def unscored_def session_ok_def ended_ok_def wp_end_in_flight)
  have "wp (seq (if gs_mode (meta_game m) = Table then settle_out reg env m else give m) fin)
      (\<lambda>_. session_ok clean sid rng) (\<lambda>_. session_ok clean sid rng) w" if "\<not> is_terminal (meta_phase m)"
    using fin [OF ok Some that] fin that
    by (cases "gs_mode (meta_game m) = Table") (auto intro!: wp_settle_out [OF ok Some])
  moreover have "wp (apply_operator_close reg env key reason) Q E w =
    (if w_closed w = Some key then Q True w
     else if is_terminal (meta_phase m) then E Session_transition w
     else wp (seq (if gs_mode (meta_game m) = Table then settle_out reg env m else give m) fin) Q E w)" for Q E
    unfolding apply_operator_close_def fin_def by (simp add: Some)
  ultimately show ?thesis
    using ok by (auto simp del: wp_seq)
qed

lemma not_match [simp]: "x \<noteq> Match \<longleftrightarrow> x = Table"
  by (cases x) simp_all

lemma leave_ok:
  fixes w :: "('c, 's) session_world" and reg :: "('c, 's, 'p, 'v) game_model list"
  assumes ok: "session_ok clean sid rng w" and up: "clean \<longrightarrow> \<not> env_down env Index_remove"
  shows "wp (apply_leave reg env p) (\<lambda>_. session_ok clean sid rng) (\<lambda>_. session_ok clean sid rng) w"
proof (cases "w_meta w")
  case None
  with ok show ?thesis by (simp add: apply_leave_def)
next
  case (Some m)
  note facts = session_ok_meta [OF ok Some]
  define m1 where "m1 = m\<lparr>meta_joined := Some (ever_joined m),
                     meta_members := filter (\<lambda>x. x \<noteq> p) (meta_members m)\<rparr>"
  define seat where "seat = (\<lambda>gm :: ('c, 's, 'p, 'v) game_model. (case gm_on_leave gm of
        None \<Rightarrow> give m1
      | Some leave \<Rightarrow> seq load_state (\<lambda>s.
          (let ((s', es), g) = leave (make_context m1 env) (meta_rng m1) s p
           in seq (settle env False es) (\<lambda>_. seq (put_state s') (\<lambda>_. give (spend m1 g))))))
      :: ('c, 's, 'c session_meta) session_proc)"
  define fin where "fin = (\<lambda>m2. (if meta_members m2 = []
           then commit_terminal env m2 (unscored Phase_resolved env None)
           else seq (index_session env m2) (\<lambda>_. put_meta m2))
         :: ('c, 's, unit) session_proc)"
  define rest where "rest = (\<lambda>m2. seq (fin m2) (\<lambda>_. snapshot reg env p))"
  have m1: "meta_session m1 = meta_session m" "meta_game m1 = meta_game m" "meta_rng m1 = meta_rng m"
      "meta_phase m1 = meta_phase m" "meta_members m1 = filter (\<lambda>x. x \<noteq> p) (meta_members m)"
    by (simp_all add: m1_def)
  have rest: "wp (rest m2) (\<lambda>_. session_ok clean sid rng) (\<lambda>_. session_ok clean sid rng) w'"
    if "session_ok clean sid rng w'" "w_meta w' = Some m" "\<not> is_terminal (meta_phase m)"
      and table: "gs_mode (meta_game m) = Table" and same: "meta_session m2 = meta_session m1"
      "meta_game m2 = meta_game m1" "meta_phase m2 = meta_phase m1" "meta_members m2 = meta_members m1"
      "seed (meta_rng m2) = seed (meta_rng m1)" "seed_hash (meta_rng m2) = seed_hash (meta_rng m1)"
      and st: "w_state w' \<noteq> None" for w' m2
    unfolding rest_def
  proof (rule wp_seq_snapshot, cases "meta_members m2 = []")
    case True
    then have "wp (commit_terminal env m2 (unscored Phase_resolved env None))
        (\<lambda>_. session_ok clean sid rng) (\<lambda>_. session_ok clean sid rng) w'"
      by (intro wp_commit_ok [OF that(1-3)]) (simp_all add: same m1 unscored_def up)
    then show "wp (fin m2) (\<lambda>_. session_ok clean sid rng) (\<lambda>_. session_ok clean sid rng) w'"
      by (simp add: fin_def True)
  next
    case False
    have "length (meta_members m2) \<le> length (meta_members m)" by (simp add: same m1)
    with facts(5) have len: "length (meta_members m2) \<le> max 1 (gs_players (meta_game m))" by linarith
    have "wp (seq (index_session env m2) (\<lambda>_. put_meta m2))
        (\<lambda>_. session_ok clean sid rng) (\<lambda>_. session_ok clean sid rng) w'"
      using facts(4,6) that(3) table
      by (intro wp_reseat [OF that(1-3)] len False)
        (simp_all add: same m1 in_flight_ok_def st)
    then show "wp (fin m2) (\<lambda>_. session_ok clean sid rng) (\<lambda>_. session_ok clean sid rng) w'"
      by (simp add: fin_def False del: wp_seq)
  qed
  have "wp (seq (session_model reg m) (\<lambda>gm. seq (seat gm) rest))
      (\<lambda>_. session_ok clean sid rng) (\<lambda>_. session_ok clean sid rng) w"
    if "\<not> is_terminal (meta_phase m)" "gs_mode (meta_game m) = Table"
  proof -
    have "w_state w \<noteq> None" using facts(6) that by (simp add: in_flight_ok_def)
    have "wp (seq (seat gm) rest)
      (\<lambda>_. session_ok clean sid rng) (\<lambda>_. session_ok clean sid rng) w" for gm
      unfolding seat_def Let_def
      using rest [OF ok Some that] ok Some that \<open>w_state w \<noteq> None\<close>
      by (auto split: option.split prod.split intro!: wp_settle rest session_ok_state)
    then show ?thesis using ok by (simp split: option.split)
  qed
  moreover have "wp (apply_leave reg env p) Q E w =
    (if p \<notin> set (ever_joined m) then E Not_a_member w
     else if gs_mode (meta_game m) \<noteq> Table then E Session_transition w
     else if p \<notin> set (meta_members m) then Q (departed_view m) w
     else if is_terminal (meta_phase m) then wp (snapshot reg env p) Q E w
     else wp (seq (session_model reg m) (\<lambda>gm. seq (seat gm) rest)) Q E w)" for Q E
    unfolding apply_leave_def seat_def rest_def fin_def m1_def Let_def
    by (simp add: Some del: wp_snapshot)
  ultimately show ?thesis
    using ok Some by (auto simp del: wp_seq split: option.split)
qed

lemma session_step_ok:
  assumes "session_ok clean sid rng w" and "clean \<longrightarrow> \<not> env_down (fst x) Index_remove"
  shows "session_ok clean sid rng (snd (session_step reg sid rng x w))"
proof -
  obtain env op where x: "x = (env, op)" by force
  have "clean \<longrightarrow> \<not> env_down env Index_remove" using assms(2) x by simp
  then have "wp (session_step reg sid rng x) (\<lambda>_. session_ok clean sid rng) (\<lambda>_. session_ok clean sid rng) w"
    unfolding x
    by (cases op)
      (simp_all add: create_ok join_ok action_ok leave_ok close_ok operator_close_ok deadline_ok view_ok assms del: wp_seq)
  then show ?thesis by (simp only: wp_snd)
qed

definition session_next ::
  "('c, 's, 'p, 'v) game_model list \<Rightarrow> string \<Rightarrow> rng_state \<Rightarrow> ('c, 's) session_world
     \<Rightarrow> session_env \<times> ('c, 'p) session_op \<Rightarrow> session_error + ('c, 's) session_world" where
  "session_next reg sid rng w x = Inr (snd (session_step reg sid rng x w))"

interpretation sessions: invariant_system "session_next reg sid rng" "session_ok False sid rng"
  for reg :: "('c, 's, 'p, 'v) game_model list" and sid rng
  by unfold_locales (auto simp: session_next_def intro: session_step_ok)

lemma session_run_eq: "session_run reg sid rng w steps = invariant_system.run (session_next reg sid rng) w steps"
  unfolding session_run_def sessions.run_def by (simp add: session_next_def)

text \<open>The world before a session is created: no storage, no rows, the ledger as it stands.\<close>

definition unborn :: "ledger_db \<Rightarrow> ('c, 's) session_world" where
  "unborn db = \<lparr>w_meta = None, w_state = None, w_outcome = None, w_closed = None, w_alarm = None,
                w_index = None, w_result = None, w_ledger = db\<rparr>"

lemma unborn_ok [simp]: "session_ok clean sid rng (unborn db)"
  by (simp add: session_ok_def unborn_def)

lemma session_run_ok: "session_ok False sid rng (session_run reg sid rng (unborn db) steps)"
  unfolding session_run_eq by (rule sessions.run_inv) simp

lemma session_run_append [simp]:
  "session_run reg sid rng w (xs @ ys) = session_run reg sid rng (session_run reg sid rng w xs) ys"
  by (simp add: session_run_def)

lemma session_run_clean:
  assumes "\<forall>x\<in>set steps. \<not> env_down (fst x) Index_remove"
  shows "session_ok True sid rng (session_run reg sid rng (unborn db) steps)"
  using assms
proof (induction steps rule: rev_induct)
  case (snoc x xs)
  then show ?case
    using session_step_ok [of True sid rng _ x reg] by (simp add: session_run_def)
qed (simp add: session_run_def)

section \<open>A session keeps the ledger's books\<close>

text \<open>A handler that, whatever it answers, leaves a sound ledger sound.\<close>

definition keeps_books :: "('c, 's, 'a) session_proc \<Rightarrow> bool" where
  "keeps_books m \<longleftrightarrow> (\<forall>w. ledger_ok (w_ledger w) \<longrightarrow> ledger_ok (w_ledger (snd (m w))))"

named_theorems books \<open>handlers that keep the ledger's books\<close>

lemma books_base [books]:
  "keeps_books (give x)" "keeps_books (raise e)" "keeps_books (look f)" "keeps_books (demand e b)"
  "keeps_books (put_meta m)" "keeps_books (put_state s)"
  by (simp_all add: keeps_books_def proc_defs put_meta_def put_state_def)

lemma books_store [books]: "(\<And>w. w_ledger (f w) = w_ledger w) \<Longrightarrow> keeps_books (store f)"
  by (simp add: keeps_books_def store_def)

lemma books_seq [books]: "keeps_books m \<Longrightarrow> (\<And>x. keeps_books (f x)) \<Longrightarrow> keeps_books (seq m f)"
  by (auto simp: keeps_books_def seq_def split: prod.split sum.split)

lemma books_cases [books]:
  "(b \<Longrightarrow> keeps_books m) \<Longrightarrow> (\<not> b \<Longrightarrow> keeps_books n) \<Longrightarrow> keeps_books (if b then m else n)"
  "keeps_books m \<Longrightarrow> (\<And>y. keeps_books (f y)) \<Longrightarrow> keeps_books (case x of None \<Rightarrow> m | Some y \<Rightarrow> f y)"
  "(\<And>y z. keeps_books (g y z)) \<Longrightarrow> keeps_books (case q of (y, z) \<Rightarrow> g y z)"
  "(\<And>y z u. keeps_books (g' y z u)) \<Longrightarrow> keeps_books ((case q' of (y, z) \<Rightarrow> g' y z) u')"
  "(\<And>y. keeps_books (h y)) \<Longrightarrow> (\<And>y. keeps_books (k y)) \<Longrightarrow> keeps_books (case s of Inl y \<Rightarrow> h y | Inr y \<Rightarrow> k y)"
  by (auto split: option.split prod.split sum.split)

lemma books_settle [books]: "keeps_books (settle env so es)"
  using apply_ledger_effects_ok
  by (fastforce simp: keeps_books_def settle_def Let_def split: prod.split option.split)

lemma books_helpers [books]:
  "keeps_books (session_model reg m)" "keeps_books load_state" "keeps_books (snapshot reg env p)"
  "keeps_books (member_meta former p)" "keeps_books (index_session env m)"
  "keeps_books (write_result env m out)" "keeps_books (end_in_flight env m out)"
  unfolding session_model_def load_state_def snapshot_def member_meta_def index_session_def write_result_def
    end_in_flight_def d1_write_def
  by (intro books; simp split: option.split)+

lemma books_seats [books]: "keeps_books (settle_out_seats env leave m s ps)"
  by (induction ps arbitrary: m s) (auto simp: Let_def split: prod.split intro!: books)

lemma books_terminal [books]:
  "keeps_books (commit_terminal env m out)" "keeps_books (resolve_session env m mo)"
  "keeps_books (abandon_session env m)" "keeps_books (settle_out reg env m)"
  unfolding commit_terminal_def resolve_session_def abandon_session_def settle_out_def
  by (intro books)+

lemma books_transitions [books]:
  "keeps_books (apply_create reg sid rng env game p)" "keeps_books (apply_join reg env p)"
  "keeps_books (apply_action reg env p a)" "keeps_books (apply_leave reg env p)"
  "keeps_books (apply_close reg env p)" "keeps_books (apply_operator_close reg env key r)"
  "keeps_books (on_deadline reg env)" "keeps_books (apply_view reg env p)"
  unfolding apply_create_def apply_join_def seat_player_def apply_action_def apply_leave_def apply_close_def
    apply_operator_close_def on_deadline_def apply_view_def Let_def
  by (intro books; simp?)+

lemma session_step_books:
  assumes "ledger_ok (w_ledger w)" shows "ledger_ok (w_ledger (snd (session_step reg sid rng x w)))"
proof -
  obtain env op where x: "x = (env, op)" by force
  have "keeps_books (session_step reg sid rng (env, op))"
    by (cases op) (simp_all add: with_view_def without_view_def, (intro books)+)
  then show ?thesis using assms x by (simp add: keeps_books_def)
qed

lemma session_run_books:
  "ledger_ok (w_ledger w) \<Longrightarrow> ledger_ok (w_ledger (session_run reg sid rng w steps))"
  by (induction steps arbitrary: w) (simp_all add: session_run_def session_step_books)

end
