(* ===== verification/Turn_Based.thy ===== *)
theory Turn_Based
  imports Game_Model
begin

text \<open>
  The turn-based pattern of \<open>packages/multiplayer/src/game/patterns/turnBased.ts\<close>, and the contract
  a game meets for the pattern to keep its invariant.
\<close>

section \<open>The pattern\<close>

record ('c, 'g, 'p, 'm, 'w) turn_spec =
  ts_kind :: string
  ts_min_players :: "nat option"
  ts_max_players :: "nat option"
  ts_parse :: "'p \<Rightarrow> 'm option"  \<comment> \<open>the move's schema\<close>
  ts_start :: "'c game_ctx \<Rightarrow> rng_state \<Rightarrow> 'g \<times> rng_state"
  ts_play :: "'c game_ctx \<Rightarrow> rng_state \<Rightarrow> 'g \<Rightarrow> user_id \<Rightarrow> 'm \<Rightarrow> game_error + 'g applied_result"
  ts_end :: "'c game_ctx \<Rightarrow> 'g \<Rightarrow> bool"
  ts_score :: "'c game_ctx \<Rightarrow> 'g \<Rightarrow> model_outcome \<times> ledger_effect list"
  ts_view :: "'c game_ctx \<Rightarrow> 'g \<Rightarrow> user_id \<Rightarrow> 'w"

record 'g turn_state =
  turn_index :: nat
  turn_game :: 'g

record 'w turn_view =
  vw_turn :: "user_id option"
  vw_your_turn :: bool
  vw_game :: 'w

text \<open>\<open>ctx.players[turnIndex]\<close>, undefined past the roster.\<close>

definition current_player :: "user_id list \<Rightarrow> nat \<Rightarrow> user_id option" where
  "current_player ps i = (if i < length ps then Some (ps ! i) else None)"

definition turn_init ::
  "('c, 'g, 'p, 'm, 'w) turn_spec \<Rightarrow> 'c game_ctx \<Rightarrow> rng_state \<Rightarrow> 'g turn_state \<times> rng_state" where
  "turn_init spec ctx r =
     (let (g, r') = ts_start spec ctx r in (\<lparr>turn_index = 0, turn_game = g\<rparr>, r'))"

definition turn_apply ::
  "('c, 'g, 'p, 'm, 'w) turn_spec \<Rightarrow> 'c game_ctx \<Rightarrow> rng_state \<Rightarrow> 'g turn_state \<Rightarrow> user_id \<Rightarrow> 'p
     \<Rightarrow> game_error + 'g turn_state applied_result" where
  "turn_apply spec ctx r st p action =
     (if current_player (players ctx) (turn_index st) \<noteq> Some p then Inl Invalid_transition
      else
        (case ts_parse spec action of
           None \<Rightarrow> Inl Malformed
         | Some m \<Rightarrow>
             and_then (ts_play spec ctx r (turn_game st) p m) (\<lambda>((g, es), r').
               Inr ((\<lparr>turn_index = (turn_index st + 1) mod length (players ctx), turn_game = g\<rparr>, es), r'))))"

definition turn_redact ::
  "('c, 'g, 'p, 'm, 'w) turn_spec \<Rightarrow> 'c game_ctx \<Rightarrow> 'g turn_state \<Rightarrow> user_id \<Rightarrow> bool \<Rightarrow> 'w turn_view" where
  "turn_redact spec ctx st viewer revealed =
     (let turn = current_player (players ctx) (turn_index st)
      in \<lparr>vw_turn = turn, vw_your_turn = (turn = Some viewer),
          vw_game = ts_view spec ctx (turn_game st) viewer\<rparr>)"

definition turn_based ::
  "('c, 'g, 'p, 'm, 'w) turn_spec \<Rightarrow> ('c, 'g turn_state, 'p, 'w turn_view) game_model" where
  "turn_based spec =
     \<lparr>gm_kind = ts_kind spec, gm_min_players = ts_min_players spec,
      gm_max_players = ts_max_players spec, gm_moves_balances = False,
      gm_accepts = (\<lambda>a. ts_parse spec a \<noteq> None),
      gm_init = turn_init spec, gm_apply = turn_apply spec,
      gm_complete = (\<lambda>ctx st. ts_end spec ctx (turn_game st)),
      gm_resolve = (\<lambda>ctx st. ts_score spec ctx (turn_game st)),
      gm_redact = turn_redact spec, gm_on_join = None, gm_on_leave = None\<rparr>"

section \<open>The contract of a turn-based game\<close>

text \<open>
  A game whose start and whose moves, by the roster's players in turn, keep an invariant of the
  rules, the roster, the number of moves made and the position. The pattern makes it an invariant
  of whole matches, with the turn always that of the move count.
\<close>

locale turn_rules =
  fixes spec :: "('c, 'g, 'p, 'm, 'w) turn_spec"
    and inv :: "'c \<Rightarrow> user_id list \<Rightarrow> nat \<Rightarrow> 'g \<Rightarrow> bool"
  assumes start_inv: "players ctx \<noteq> [] \<Longrightarrow> inv (game_config ctx) (players ctx) 0 (fst (ts_start spec ctx r))"
    and play_inv: "inv (game_config ctx) (players ctx) k g \<Longrightarrow> players ctx \<noteq> [] \<Longrightarrow>
      ts_play spec ctx r g (players ctx ! (k mod length (players ctx))) m = Inr ((g', es), r') \<Longrightarrow>
      inv (game_config ctx) (players ctx) (Suc k) g'"
begin

definition match_inv :: "'c \<Rightarrow> user_id list \<Rightarrow> nat \<Rightarrow> 'g turn_state \<Rightarrow> bool" where
  "match_inv cfg ps k st \<longleftrightarrow> ps \<noteq> [] \<and> turn_index st = k mod length ps \<and> inv cfg ps k (turn_game st)"

lemma match_start:
  "players ctx \<noteq> [] \<Longrightarrow> match_inv (game_config ctx) (players ctx) 0 (fst (turn_init spec ctx r))"
  using start_inv [of ctx r] by (auto simp: match_inv_def turn_init_def split: prod.split)

lemma match_apply:
  assumes "match_inv (game_config ctx) (players ctx) k st"
    and "turn_apply spec ctx r st p a = Inr ((st', es), r')"
  shows "match_inv (game_config ctx) (players ctx) (Suc k) st' \<and> p = players ctx ! (k mod length (players ctx))"
proof -
  from assms have p: "p = players ctx ! (k mod length (players ctx))" and ne: "players ctx \<noteq> []"
    by (auto simp: turn_apply_def match_inv_def current_player_def split: if_splits)
  from assms(2) obtain m g' where "ts_play spec ctx r (turn_game st) p m = Inr ((g', es), r')"
    and st': "st' = \<lparr>turn_index = (turn_index st + 1) mod length (players ctx), turn_game = g'\<rparr>"
    by (auto simp: turn_apply_def and_then_eq_Inr split: if_splits option.splits)
  with play_inv p assms(1) ne show ?thesis
    by (auto simp: match_inv_def mod_Suc_eq)
qed

end

text \<open>A match: the accepted actions of a list, with the players who made them.\<close>

fun play_match ::
  "('c, 'g, 'p, 'm, 'w) turn_spec \<Rightarrow> 'c game_ctx \<Rightarrow> rng_state \<Rightarrow> 'g turn_state \<Rightarrow> (user_id \<times> 'p) list
     \<Rightarrow> user_id list \<times> 'g turn_state \<times> rng_state" where
  "play_match spec ctx r st [] = ([], st, r)"
| "play_match spec ctx r st ((p, a) # as) =
     (case turn_apply spec ctx r st p a of
        Inl _ \<Rightarrow> play_match spec ctx r st as
      | Inr ((st', es), r') \<Rightarrow> (let (ps, out) = play_match spec ctx r' st' as in (p # ps, out)))"

context turn_rules
begin

lemma match_moves:
  assumes "match_inv (game_config ctx) (players ctx) k st"
    and "play_match spec ctx r st as = (movers, st', r')"
  shows "match_inv (game_config ctx) (players ctx) (k + length movers) st'
    \<and> (\<forall>i<length movers. movers ! i = players ctx ! ((k + i) mod length (players ctx)))"
  using assms
proof (induction as arbitrary: k r st movers)
  case Nil
  then show ?case by simp
next
  case (Cons a as)
  obtain p act where a: "a = (p, act)" by force
  show ?case
  proof (cases "turn_apply spec ctx r st p act")
    case (Inl e)
    with Cons a show ?thesis by simp
  next
    case (Inr res)
    obtain st1 es r1 where res: "res = ((st1, es), r1)" by (metis prod.collapse)
    note m = match_apply [OF Cons.prems(1) Inr [unfolded res]]
    from Cons.prems(2) a Inr res obtain ms where ms: "play_match spec ctx r1 st1 as = (ms, st', r')"
        "movers = p # ms" by (auto simp: Let_def split: prod.splits)
    from Cons.IH [OF conjunct1 [OF m] ms(1)] m ms(2) show ?thesis
      by (auto simp: nth_Cons split: nat.split)
  qed
qed

end

end
