(* ===== verification/Connect_N.thy ===== *)
theory Connect_N
  imports Turn_Based
begin

text \<open>
  Connect-N, \<open>packages/multiplayer/src/game/games/connectN.ts\<close>: the board, a move, and the search
  for a winning line, which is shown to find one exactly when there is one.
\<close>

section \<open>The game\<close>

record connect_config =
  cn_rows :: nat
  cn_cols :: nat
  cn_connect :: nat

definition connect_config_ok :: "connect_config \<Rightarrow> bool" where
  "connect_config_ok c \<longleftrightarrow> 1 \<le> cn_rows c \<and> 1 \<le> cn_cols c \<and> 2 \<le> cn_connect c
     \<and> cn_connect c \<le> max (cn_rows c) (cn_cols c)"

type_synonym board = "user_id option list list"

record board_state =
  bd_board :: board
  bd_moves :: nat

record grid_move =
  gr_row :: int
  gr_col :: int

text \<open>\<open>board[r]?.[c]\<close>: out of range on either axis, and an unclaimed cell, are no owner.\<close>

definition cell :: "board \<Rightarrow> int \<Rightarrow> int \<Rightarrow> user_id option" where
  "cell b r c =
     (if 0 \<le> r \<and> nat r < length b \<and> 0 \<le> c \<and> nat c < length (b ! nat r) then b ! nat r ! nat c else None)"

text \<open>The inner \<open>while\<close>: how far the owner's cells run from one cell in one direction.\<close>

function run_length :: "board \<Rightarrow> user_id \<Rightarrow> int \<Rightarrow> int \<Rightarrow> int \<Rightarrow> int \<Rightarrow> nat \<Rightarrow> nat \<Rightarrow> nat" where
  "run_length b owner r c dr dc connect k =
     (if k < connect \<and> cell b (r + dr * int k) (c + dc * int k) = Some owner
      then run_length b owner r c dr dc connect (Suc k) else k)"
  by pat_completeness auto
termination by (relation "measure (\<lambda>(b, owner, r, c, dr, dc, connect, k). connect - k)") auto

declare run_length.simps [simp del]

definition directions :: "(int \<times> int) list" where
  "directions = [(0, 1), (1, 0), (1, 1), (1, -1)]"

text \<open>An empty owner is falsy in the source and skipped, as an unclaimed cell is.\<close>

definition wins_from :: "board \<Rightarrow> nat \<Rightarrow> int \<times> int \<Rightarrow> user_id option" where
  "wins_from b connect pos =
     (let (r, c) = pos
      in case cell b r c of
           None \<Rightarrow> None
         | Some owner \<Rightarrow>
             if owner = [] then None
             else if list_ex (\<lambda>(dr, dc). connect \<le> run_length b owner r c dr dc connect 1) directions
             then Some owner else None)"

fun first_some :: "('a \<Rightarrow> 'b option) \<Rightarrow> 'a list \<Rightarrow> 'b option" where
  "first_some f [] = None"
| "first_some f (x # xs) = (case f x of None \<Rightarrow> first_some f xs | Some y \<Rightarrow> Some y)"

definition positions :: "board \<Rightarrow> (int \<times> int) list" where
  "positions b =
     concat (map (\<lambda>r. map (\<lambda>c. (int r, int c)) [0..<(case b of [] \<Rightarrow> 0 | row # _ \<Rightarrow> length row)])
       [0..<length b])"

definition find_winner :: "board \<Rightarrow> nat \<Rightarrow> user_id option" where
  "find_winner b connect = first_some (wins_from b connect) (positions b)"

definition connect_start :: "connect_config game_ctx \<Rightarrow> rng_state \<Rightarrow> board_state \<times> rng_state" where
  "connect_start ctx g =
     (\<lparr>bd_board = replicate (cn_rows (game_config ctx)) (replicate (cn_cols (game_config ctx)) None),
       bd_moves = 0\<rparr>, g)"

definition claimed :: "user_id option \<Rightarrow> bool" where
  "claimed x \<longleftrightarrow> x \<noteq> None \<and> x \<noteq> Some []"

definition connect_play ::
  "connect_config game_ctx \<Rightarrow> rng_state \<Rightarrow> board_state \<Rightarrow> user_id \<Rightarrow> grid_move
     \<Rightarrow> game_error + board_state applied_result" where
  "connect_play ctx g st p m =
     (let row = gr_row m; col = gr_col m; cfg = game_config ctx
      in if row < 0 \<or> row \<ge> int (cn_rows cfg) \<or> col < 0 \<or> col \<ge> int (cn_cols cfg) then Inl Invalid_move
         else if claimed (cell (bd_board st) row col) then Inl Invalid_move
         else Inr ((\<lparr>bd_board = (bd_board st)[nat row := (bd_board st ! nat row)[nat col := Some p]],
                     bd_moves = bd_moves st + 1\<rparr>, []), g))"

definition connect_end :: "connect_config game_ctx \<Rightarrow> board_state \<Rightarrow> bool" where
  "connect_end ctx st \<longleftrightarrow> find_winner (bd_board st) (cn_connect (game_config ctx)) \<noteq> None
     \<or> bd_moves st \<ge> cn_rows (game_config ctx) * cn_cols (game_config ctx)"

definition connect_score :: "connect_config game_ctx \<Rightarrow> board_state \<Rightarrow> model_outcome \<times> ledger_effect list" where
  "connect_score ctx st =
     (let winner = find_winner (bd_board st) (cn_connect (game_config ctx))
      in (\<lparr>out_scores = map (\<lambda>p. (p, if Some p = winner then 1 else 0)) (players ctx),
           out_winner = winner, out_draw = (winner = None)\<rparr>, []))"

definition connect_spec ::
  "(connect_config, board_state, grid_move option, grid_move, board_state) turn_spec" where
  "connect_spec =
     \<lparr>ts_kind = ''connect-n'', ts_min_players = Some 2, ts_max_players = None,
      ts_parse = id, ts_start = connect_start, ts_play = connect_play,
      ts_end = connect_end, ts_score = connect_score, ts_view = (\<lambda>_ g _. g)\<rparr>"

definition connect_n_game where
  "connect_n_game = turn_based connect_spec"

section \<open>A winning line\<close>

text \<open>The reference: \<open>connect\<close> cells in a row of one player, in any of the eight directions.\<close>

definition has_line :: "board \<Rightarrow> nat \<Rightarrow> user_id \<Rightarrow> bool" where
  "has_line b connect p \<longleftrightarrow> (\<exists>r c dr dc. dr \<in> {-1, 0, 1} \<and> dc \<in> {-1, 0, 1} \<and> (dr, dc) \<noteq> (0, 0)
     \<and> (\<forall>k<connect. cell b (r + dr * int k) (c + dc * int k) = Some p))"

lemma run_length_full:
  "k \<le> connect \<Longrightarrow> connect \<le> run_length b p r c dr dc connect k \<longleftrightarrow>
     (\<forall>j. k \<le> j \<longrightarrow> j < connect \<longrightarrow> cell b (r + dr * int j) (c + dc * int j) = Some p)"
proof (induction b p r c dr dc connect k rule: run_length.induct)
  case (1 b p r c dr dc connect k)
  show ?case
  proof (cases "k < connect \<and> cell b (r + dr * int k) (c + dc * int k) = Some p")
    case True
    then have "connect \<le> run_length b p r c dr dc connect k \<longleftrightarrow>
       (\<forall>j. Suc k \<le> j \<longrightarrow> j < connect \<longrightarrow> cell b (r + dr * int j) (c + dc * int j) = Some p)"
      using 1 by (subst run_length.simps) simp
    with True show ?thesis by (metis Suc_leI Suc_leD le_neq_implies_less)
  next
    case False
    then have "run_length b p r c dr dc connect k = k" by (subst run_length.simps) auto
    with False 1(2) show ?thesis by (auto simp: not_less)
  qed
qed

lemma wins_from_iff:
  assumes "1 \<le> connect"
  shows "wins_from b connect (r, c) = Some p \<longleftrightarrow> p \<noteq> [] \<and>
    (\<exists>d\<in>set directions. \<forall>k<connect. cell b (r + fst d * int k) (c + snd d * int k) = Some p)"
proof -
  have full: "connect \<le> run_length b q r c dr dc connect 1 \<longleftrightarrow>
      (\<forall>k<connect. cell b (r + dr * int k) (c + dc * int k) = Some q)" if "cell b r c = Some q" for q dr dc
  proof -
    have "(\<forall>j. 1 \<le> j \<longrightarrow> j < connect \<longrightarrow> cell b (r + dr * int j) (c + dc * int j) = Some q) \<longleftrightarrow>
        (\<forall>k<connect. cell b (r + dr * int k) (c + dc * int k) = Some q)"
    proof (intro iffI allI impI)
      fix k assume "\<forall>j. 1 \<le> j \<longrightarrow> j < connect \<longrightarrow> cell b (r + dr * int j) (c + dc * int j) = Some q"
        and "k < connect"
      then show "cell b (r + dr * int k) (c + dc * int k) = Some q" using that by (cases "k = 0") auto
    qed auto
    then show ?thesis using run_length_full [OF assms] by simp
  qed
  have start: "cell b r c = Some p" if "\<forall>k<connect. cell b (r + fst d * int k) (c + snd d * int k) = Some p" for d
    using that [rule_format, of 0] assms by simp
  show ?thesis
  proof (cases "cell b r c = Some p")
    case True
    then have "wins_from b connect (r, c) = Some p \<longleftrightarrow> p \<noteq> [] \<and>
        (\<exists>d\<in>set directions. connect \<le> run_length b p r c (fst d) (snd d) connect 1)"
      by (simp add: wins_from_def list_ex_iff case_prod_unfold Let_def)
    with full [OF True] show ?thesis by simp
  next
    case False
    then have "wins_from b connect (r, c) \<noteq> Some p"
      by (auto simp: wins_from_def Let_def split: option.splits)
    with False start show ?thesis by blast
  qed
qed

lemma first_some_SomeD: "first_some f xs = Some y \<Longrightarrow> \<exists>x\<in>set xs. f x = Some y"
  by (induction xs) (auto split: option.splits)

lemma first_some_None: "first_some f xs = None \<longleftrightarrow> (\<forall>x\<in>set xs. f x = None)"
  by (induction xs) (auto split: option.splits)

text \<open>A rectangular board, whose every owned cell is among the positions searched.\<close>

definition rectangular :: "nat \<Rightarrow> nat \<Rightarrow> board \<Rightarrow> bool" where
  "rectangular rows cols b \<longleftrightarrow> length b = rows \<and> (\<forall>row\<in>set b. length row = cols)"

lemma positions_rectangular:
  assumes "rectangular rows cols b" and "cell b r c \<noteq> None"
  shows "(r, c) \<in> set (positions b)"
proof -
  have r: "0 \<le> r" "nat r < length b" "0 \<le> c" "nat c < length (b ! nat r)"
    using assms(2) by (auto simp: cell_def split: if_splits)
  then have "length (b ! nat r) = cols" "b \<noteq> []" using assms(1) by (auto simp: rectangular_def)
  moreover obtain row rest where "b = row # rest" using \<open>b \<noteq> []\<close> by (cases b) auto
  moreover have "length row = cols" using assms(1) calculation by (simp add: rectangular_def)
  ultimately show ?thesis
    using r by (auto simp: positions_def intro!: bexI [of _ "nat r"] image_eqI [of _ _ "nat c"])
qed

text \<open>A line in any of the eight directions is a line in one of the four searched.\<close>

lemma line_reversed:
  assumes "\<forall>k<connect. cell b (r + dr * int k) (c + dc * int k) = Some p" and "1 \<le> connect"
  shows "\<forall>k<connect. cell b ((r + dr * int (connect - 1)) + (- dr) * int k)
      ((c + dc * int (connect - 1)) + (- dc) * int k) = Some p"
proof (intro allI impI)
  fix k assume k: "k < connect"
  then have e: "int (connect - 1 - k) = int (connect - 1) - int k" by simp
  have "cell b (r + dr * int (connect - 1 - k)) (c + dc * int (connect - 1 - k)) = Some p"
    using assms(1) [rule_format, of "connect - 1 - k"] k by linarith
  then show "cell b ((r + dr * int (connect - 1)) + (- dr) * int k)
      ((c + dc * int (connect - 1)) + (- dc) * int k) = Some p"
    unfolding e by (simp add: right_diff_distrib algebra_simps)
qed

lemma searched_directions:
  "dr \<in> {-1, 0, 1} \<Longrightarrow> dc \<in> {-1, 0, 1} \<Longrightarrow> (dr, dc) \<noteq> (0, 0) \<Longrightarrow>
     (dr, dc) \<in> set directions \<or> (- dr, - dc) \<in> set directions" for dr dc :: int
  by (auto simp: directions_def)

lemma has_line_searched:
  assumes "1 \<le> connect"
  shows "has_line b connect p \<longleftrightarrow>
    (\<exists>r c. \<exists>d\<in>set directions. \<forall>k<connect. cell b (r + fst d * int k) (c + snd d * int k) = Some p)"
    (is "?L \<longleftrightarrow> ?R")
proof
  assume ?L
  then obtain r c dr dc where d: "dr \<in> {-1, 0, 1}" "dc \<in> {-1, 0, 1}" "(dr, dc) \<noteq> (0, 0)"
    and line: "\<forall>k<connect. cell b (r + dr * int k) (c + dc * int k) = Some p"
    unfolding has_line_def by blast
  from searched_directions [OF d] show ?R
  proof
    assume "(dr, dc) \<in> set directions"
    with line show ?R by force
  next
    assume "(- dr, - dc) \<in> set directions"
    with line_reversed [OF line assms] show ?R by force
  qed
next
  assume ?R
  then obtain r c d where "d \<in> set directions"
    "\<forall>k<connect. cell b (r + fst d * int k) (c + snd d * int k) = Some p" by blast
  moreover from this(1) have "fst d \<in> {-1, 0, 1} \<and> snd d \<in> {-1, 0, 1} \<and> (fst d, snd d) \<noteq> (0, 0)"
    by (auto simp: directions_def)
  ultimately show ?L unfolding has_line_def by blast
qed

lemma find_winner_line:
  assumes "1 \<le> connect" and "find_winner b connect = Some p"
  shows "has_line b connect p \<and> p \<noteq> []"
proof -
  from first_some_SomeD [OF assms(2) [unfolded find_winner_def]]
  obtain r c where "wins_from b connect (r, c) = Some p" by auto
  then show ?thesis using wins_from_iff [OF assms(1)] has_line_searched [OF assms(1)] by blast
qed

lemma find_winner_None:
  assumes "1 \<le> connect" and "rectangular rows cols b"
  shows "find_winner b connect = None \<longleftrightarrow> (\<forall>p. p \<noteq> [] \<longrightarrow> \<not> has_line b connect p)"
proof
  assume none: "find_winner b connect = None"
  show "\<forall>p. p \<noteq> [] \<longrightarrow> \<not> has_line b connect p"
  proof (intro allI impI notI)
    fix p assume p: "p \<noteq> []" and "has_line b connect p"
    then obtain r c d where d: "d \<in> set directions"
      and line: "\<forall>k<connect. cell b (r + fst d * int k) (c + snd d * int k) = Some p"
      using has_line_searched [OF assms(1)] by blast
    from line [rule_format, of 0] assms(1) have "cell b r c \<noteq> None" by simp
    from positions_rectangular [OF assms(2) this] none
    have "wins_from b connect (r, c) = None" by (simp add: find_winner_def first_some_None)
    with wins_from_iff [OF assms(1), of b r c p] p d line show False by auto
  qed
next
  assume "\<forall>p. p \<noteq> [] \<longrightarrow> \<not> has_line b connect p"
  with find_winner_line [OF assms(1)] show "find_winner b connect = None"
    by (cases "find_winner b connect") blast+
qed

section \<open>Boards\<close>

definition claims :: "user_id \<Rightarrow> board \<Rightarrow> nat" where
  "claims p b = sum_list (map (\<lambda>row. count_list row (Some p)) b)"

lemma count_list_update_fresh:
  "i < length xs \<Longrightarrow> xs ! i \<noteq> x \<Longrightarrow> count_list (xs[i := y]) x = count_list xs x + (if y = x then 1 else 0)"
proof (induction xs arbitrary: i)
  case (Cons a xs)
  then show ?case by (cases i) auto
qed simp

lemma claims_update:
  assumes "i < length b" "j < length (b ! i)" "b ! i ! j = None"
  shows "claims q (b[i := (b ! i)[j := Some p]]) = claims q b + (if p = q then 1 else 0)"
proof -
  have "count_list ((b ! i)[j := Some p]) (Some q) = count_list (b ! i) (Some q) + (if p = q then 1 else 0)"
    using count_list_update_fresh [of j "b ! i" "Some q" "Some p"] assms by simp
  moreover have "count_list (b ! i) (Some q) \<le> claims q b"
    using assms(1) by (auto simp: claims_def intro!: member_le_sum_list)
  ultimately show ?thesis
    using assms(1) by (simp add: claims_def map_update sum_list_update)
qed

text \<open>
  A position reached: the board is the configured rectangle, only the roster's players own cells,
  and the cells each has claimed are exactly the moves the turn order gave them.
\<close>

definition turns_taken :: "nat \<Rightarrow> nat \<Rightarrow> nat \<Rightarrow> nat" where
  "turns_taken n i k = length (filter (\<lambda>j. j mod n = i) [0..<k])"

definition connect_inv :: "connect_config \<Rightarrow> user_id list \<Rightarrow> nat \<Rightarrow> board_state \<Rightarrow> bool" where
  "connect_inv cfg ps k st \<longleftrightarrow> bd_moves st = k
     \<and> rectangular (cn_rows cfg) (cn_cols cfg) (bd_board st)
     \<and> (\<forall>row\<in>set (bd_board st). \<forall>p. Some p \<in> set row \<longrightarrow> p \<in> set ps)
     \<and> (distinct ps \<longrightarrow> [] \<notin> set ps \<longrightarrow>
          (\<forall>i<length ps. claims (ps ! i) (bd_board st) = turns_taken (length ps) i k))"

lemma rectangular_update:
  "rectangular rows cols b \<Longrightarrow> i < rows \<Longrightarrow> rectangular rows cols (b[i := (b ! i)[j := x]])"
  by (auto simp: rectangular_def dest!: subsetD [OF set_update_subset_insert])

lemma connect_start_inv:
  "connect_inv (game_config ctx) (players ctx) 0 (fst (connect_start ctx g))"
proof -
  have "claims p (replicate m (replicate n None)) = 0" for p m n
    by (induction m) (simp_all add: claims_def count_list_0_iff)
  then show ?thesis
    by (auto simp: connect_inv_def connect_start_def rectangular_def turns_taken_def)
qed

lemma connect_play_inv:
  assumes inv: "connect_inv (game_config ctx) (players ctx) k st" and ne: "players ctx \<noteq> []"
    and play: "connect_play ctx g st (players ctx ! (k mod length (players ctx))) m = Inr ((st', es), g')"
  shows "connect_inv (game_config ctx) (players ctx) (Suc k) st'"
proof -
  let ?ps = "players ctx" and ?b = "bd_board st"
  let ?p = "?ps ! (k mod length ?ps)" and ?i = "nat (gr_row m)" and ?j = "nat (gr_col m)"
  have pin: "?p \<in> set ?ps" and kn: "k mod length ?ps < length ?ps" using ne by auto
  have rect: "rectangular (cn_rows (game_config ctx)) (cn_cols (game_config ctx)) ?b"
    and own: "\<forall>row\<in>set ?b. \<forall>p. Some p \<in> set row \<longrightarrow> p \<in> set ?ps"
    using inv by (auto simp: connect_inv_def)
  from play have rng: "0 \<le> gr_row m" "?i < cn_rows (game_config ctx)" "0 \<le> gr_col m" "?j < cn_cols (game_config ctx)"
    and free: "\<not> claimed (cell ?b (gr_row m) (gr_col m))"
    and st': "st' = \<lparr>bd_board = ?b[?i := (?b ! ?i)[?j := Some ?p]], bd_moves = bd_moves st + 1\<rparr>"
    by (auto simp: connect_play_def Let_def split: if_splits)
  have i: "?i < length ?b" and j: "?j < length (?b ! ?i)"
    using rect rng by (auto simp: rectangular_def)
  have "Some q \<in> set row \<Longrightarrow> q \<in> set ?ps" if "row \<in> set (?b[?i := (?b ! ?i)[?j := Some ?p]])" for row q
  proof -
    assume q: "Some q \<in> set row"
    from that have "row \<in> set ?b \<or> row = (?b ! ?i)[?j := Some ?p]" using set_update_subset_insert by fast
    then show "q \<in> set ?ps"
    proof
      assume "row = (?b ! ?i)[?j := Some ?p]"
      with q have "Some q \<in> set (?b ! ?i) \<or> q = ?p" using set_update_subset_insert by fastforce
      with own pin i show ?thesis by auto
    qed (use own q in auto)
  qed
  moreover have "claims (?ps ! n) (?b[?i := (?b ! ?i)[?j := Some ?p]]) = turns_taken (length ?ps) n (Suc k)"
    if d: "distinct ?ps" "[] \<notin> set ?ps" and n: "n < length ?ps" for n
  proof -
    have "?b ! ?i ! ?j = None"
    proof (rule ccontr)
      assume "?b ! ?i ! ?j \<noteq> None"
      then obtain q where q: "?b ! ?i ! ?j = Some q" by auto
      then have "Some q \<in> set (?b ! ?i)" "?b ! ?i \<in> set ?b" using i j nth_mem by metis+
      with own d(2) have "q \<noteq> []" by blast
      with q free i j rng show False by (simp add: claimed_def cell_def)
    qed
    from claims_update [OF i j this] inv d n
    have "claims (?ps ! n) (?b[?i := (?b ! ?i)[?j := Some ?p]])
        = turns_taken (length ?ps) n k + (if ?p = ?ps ! n then 1 else 0)" by (simp add: connect_inv_def)
    moreover have "?p = ?ps ! n \<longleftrightarrow> k mod length ?ps = n" using d(1) n kn nth_eq_iff_index_eq by blast
    ultimately show ?thesis by (simp add: turns_taken_def)
  qed
  ultimately show ?thesis
    using inv rectangular_update [OF rect rng(2)] by (auto simp: connect_inv_def st')
qed

interpretation connect: turn_rules connect_spec connect_inv
  by unfold_locales
    (auto simp: connect_spec_def connect_start_inv intro: connect_play_inv)

end
