(* ===== verification/Session_Properties.thy ===== *)
theory Session_Properties
  imports Session_Invariant Connect_N
begin

text \<open>
  The properties of a session over its whole life, whatever is asked of it and whichever of its
  calls fail.
\<close>

section \<open>What leaves the object\<close>

text \<open>An answered view is the session's at the moment it is answered.\<close>

definition answered_view :: "'v session_view \<Rightarrow> ('c, 's) session_world \<Rightarrow> bool" where
  "answered_view v w \<longleftrightarrow> (\<exists>m. w_meta w = Some m \<and> vs_session v = meta_session m
     \<and> vs_phase v = meta_phase m \<and> vs_seed_hash v = seed_hash (meta_rng m)
     \<and> (vs_seed v \<noteq> None \<longrightarrow> is_terminal (meta_phase m) \<and> vs_seed v = Some (seed (meta_rng m))))"

lemma wp_seq_any:
  "(\<And>x w'. wp (f x) Q (\<lambda>_ _. True) w') \<Longrightarrow> wp (seq m f) Q (\<lambda>_ _. True) w"
  unfolding wp_seq by (simp add: wp_def [of m] split: prod.split sum.split)

lemma wp_anything: "wp m (\<lambda>_ _. True) (\<lambda>_ _. True) w"
  by (simp add: wp_def split: prod.split sum.split)

lemma wp_snapshot_answered: "wp (snapshot reg env p) answered_view (\<lambda>_ _. True) w"
  by (auto simp: answered_view_def snapshot_of_def Let_def split: option.split)

lemma wp_answered:
  "wp (apply_create reg sid rng env game p) answered_view (\<lambda>_ _. True) w"
  "wp (apply_join reg env p) answered_view (\<lambda>_ _. True) w"
  "wp (apply_action reg env p a) answered_view (\<lambda>_ _. True) w"
  "wp (apply_close reg env p) answered_view (\<lambda>_ _. True) w"
  "wp (apply_view reg env p) answered_view (\<lambda>_ _. True) w"
  unfolding apply_create_def apply_join_def apply_action_def apply_close_def apply_view_def
  by (auto simp: Let_def simp del: wp_seq wp_snapshot split: option.split prod.split sum.split
      intro!: wp_seq_any wp_snapshot_answered)

lemma wp_leave_answered: "wp (apply_leave reg env p) answered_view (\<lambda>_ _. True) w"
proof -
  have "wp (seq m (\<lambda>m2. seq (f m2) (\<lambda>_. snapshot reg env p))) answered_view (\<lambda>_ _. True) w'" for m f w'
    by (intro wp_seq_any wp_snapshot_answered)
  then show ?thesis
    unfolding apply_leave_def wp_seq [of "member_meta True p"] wp_member_meta
    by (auto simp: wp_seq [of "demand e b" for e b] answered_view_def departed_view_def Let_def wp_snapshot_answered
        simp del: wp_seq wp_snapshot split: option.split intro!: wp_seq_any)
qed

section \<open>A duel\<close>

text \<open>Two players, a board of two by two, two in a row to win: the concrete life of the witnesses.\<close>

definition all_up :: "millis \<Rightarrow> session_env" where
  "all_up at = \<lparr>env_now = at, env_down = (\<lambda>_. False), env_ledger_down = (\<lambda>_. False), env_ledger = False\<rparr>"

definition index_down :: "millis \<Rightarrow> session_env" where
  "index_down at = (all_up at)\<lparr>env_down := (\<lambda>c. c = Index_remove)\<rparr>"

definition duel :: "connect_config game_snapshot" where
  "duel = \<lparr>gs_key = ''duel'', gs_kind = ''connect-n'', gs_mode = Match, gs_players = 2,
     gs_turn_timeout = None, gs_rules = \<lparr>cn_rows = 2, cn_cols = 2, cn_connect = 2\<rparr>\<rparr>"

definition duel_rng :: rng_state where
  "duel_rng = \<lparr>seed = ''s'', seed_hash = ''h'', cursor = 0\<rparr>"

definition claim_at :: "user_id \<Rightarrow> int \<Rightarrow> int \<Rightarrow> (connect_config, grid_move option) session_op" where
  "claim_at p r c = Action p (Some \<lparr>gr_row = r, gr_col = c\<rparr>)"

definition duel_life :: "(session_env \<times> (connect_config, grid_move option) session_op) list
    \<Rightarrow> (connect_config, board_state turn_state) session_world" where
  "duel_life steps = session_run [connect_n_game] ''s1'' duel_rng (unborn empty_ledger) steps"

definition duel_opening :: "(session_env \<times> (connect_config, grid_move option) session_op) list" where
  "duel_opening = [(all_up 1, Create duel ''x''), (all_up 2, Join ''o''), (all_up 3, claim_at ''x'' 1 0),
     (all_up 4, claim_at ''o'' 0 0)]"

definition duel_won :: "(session_env \<times> (connect_config, grid_move option) session_op) list" where
  "duel_won = duel_opening @ [(all_up 5, claim_at ''x'' 1 1)]"

lemma duel_won_result:
  "map_option meta_phase (w_meta (duel_life duel_won)) = Some Phase_resolved"
  "map_option so_winner (w_outcome (duel_life duel_won)) = Some (Some ''x'')"
  "w_closed (duel_life duel_won) = None"
  by code_simp+

section \<open>The properties\<close>



text \<open>C13: A session that ended is final: no request, deadline or operator's close, in any number
  and with any failures, changes anything it stored, its rows in D1 or the ledger.\<close>

theorem ended_session_is_final:
  assumes "w_meta w = Some m" and "is_terminal (meta_phase m)"
  shows "session_run reg sid rng w steps = w"
  by (rule ended_run) (use assms in \<open>simp add: ended_def\<close>)

theorem ended_session_is_final_witness:
  "session_run [connect_n_game] ''s1'' duel_rng (duel_life duel_won)
     [(all_up 6, claim_at ''o'' 0 1), (all_up 7, Operator_close ''k'' ''r''), (all_up 8, Deadline)]
   = duel_life duel_won"
proof -
  obtain m where m: "w_meta (duel_life duel_won) = Some m" "is_terminal (meta_phase m)"
    using duel_won_result(1) by auto
  show ?thesis by (rule ended_session_is_final [OF m])
qed

text \<open>As long as no removal from the index of sessions in flight fails, the durable result is
  the outcome the session answers with (status, scores, winner, draw, the roster it ended with),
  unless an operator closed it; result writes that fail and are retried included.\<close>

theorem result_matches_outcome:
  assumes "\<forall>x\<in>set steps. \<not> env_down (fst x) Index_remove"
    and "w = session_run reg sid rng (unborn db) steps" and "w_outcome w = Some out" and "w_closed w = None"
  shows "\<exists>m. w_meta w = Some m \<and> w_result w = Some (row_of_outcome m out)"
proof -
  have "session_ok True sid rng w" unfolding assms(2) by (rule session_run_clean [OF assms(1)])
  with assms(3,4) show ?thesis
    by (auto simp: session_ok_def ended_ok_def in_flight_ok_def split: option.splits if_splits)
qed

theorem result_matches_outcome_witness:
  "\<exists>m out. w_meta (duel_life duel_won) = Some m \<and> w_result (duel_life duel_won) = Some (row_of_outcome m out)"
proof -
  have up: "\<forall>x\<in>set duel_won. \<not> env_down (fst x) Index_remove"
    by (simp add: duel_won_def duel_opening_def all_up_def)
  obtain out where "w_outcome (duel_life duel_won) = Some out" using duel_won_result(2) by auto
  from result_matches_outcome [OF up duel_life_def this duel_won_result(3)] show ?thesis by blast
qed


text \<open>C14: Every view a session answers carries the hash its randomness was committed with when it
  was created, and the seed behind that hash only once the session has ended, when nothing can
  change any more.\<close>

theorem seed_hidden_until_end:
  assumes "session_step reg sid rng x (session_run reg sid rng (unborn db) steps) = (Inr (Some v), w)"
  shows "vs_session v = sid \<and> vs_seed_hash v = seed_hash rng
    \<and> (case vs_seed v of None \<Rightarrow> True
       | Some sd \<Rightarrow> sd = seed rng \<and> is_terminal (vs_phase v) \<and> (\<forall>more. session_run reg sid rng w more = w))"
proof -
  obtain env op where x: "x = (env, op)" by force
  have "wp (session_step reg sid rng x) (\<lambda>v w'. \<forall>u. v = Some u \<longrightarrow> answered_view u w') (\<lambda>_ _. True)
      (session_run reg sid rng (unborn db) steps)"
    unfolding x by (cases op) (simp_all add: wp_answered wp_leave_answered wp_anything)
  with assms have v: "answered_view v w" by (simp add: wp_def)
  then obtain m where m: "w_meta w = Some m" "vs_session v = meta_session m" "vs_phase v = meta_phase m"
      "vs_seed_hash v = seed_hash (meta_rng m)"
      "vs_seed v \<noteq> None \<longrightarrow> is_terminal (meta_phase m) \<and> vs_seed v = Some (seed (meta_rng m))"
    by (auto simp: answered_view_def)
  have "session_ok False sid rng w"
    using session_step_ok [OF session_run_ok [of sid rng reg db steps], of x reg] assms by simp
  note s = session_ok_meta(1-3) [OF this m(1)]
  have "session_run reg sid rng w more = w" if "is_terminal (meta_phase m)" for more
    by (rule ended_run) (use m that in \<open>simp add: ended_def\<close>)
  with m s show ?thesis by (auto split: option.split)
qed

theorem seed_hidden_until_end_witness:
  "\<exists>v w. session_step [connect_n_game] ''s1'' duel_rng (all_up 6, View ''o'') (duel_life duel_won) = (Inr (Some v), w)
     \<and> vs_seed_hash v = ''h'' \<and> vs_seed v = Some ''s''"
proof -
  define r where "r = session_step [connect_n_game] ''s1'' duel_rng (all_up 6, View ''o'') (duel_life duel_won)"
  have "case fst r of Inr (Some v) \<Rightarrow> vs_seed v = Some ''s'' | _ \<Rightarrow> False" unfolding r_def by code_simp
  then obtain v where v: "fst r = Inr (Some v)" "vs_seed v = Some ''s''"
    by (auto split: sum.splits option.splits)
  then have r: "session_step [connect_n_game] ''s1'' duel_rng (all_up 6, View ''o'') (duel_life duel_won)
      = (Inr (Some v), snd r)" unfolding r_def by (metis prod.collapse)
  from seed_hidden_until_end [OF this [unfolded duel_life_def]] v show ?thesis
    unfolding r by (auto simp: duel_rng_def)
qed

end
