(* ===== verification/Session_Table.thy ===== *)
theory Session_Table
  imports Session_Invariant Table_Properties
begin

text \<open>
  Wagering tables in sessions: the session refines the table played for stakes while its ledger
  answers, so the escrow of every stake carries over; and a table with a bet whose hold was
  resolved without it can never be settled or closed again.
\<close>

section \<open>The table a session plays\<close>

definition table_of ::
  "('c, ('r, 'd) table_state) session_world \<Rightarrow> ('r, 'd) table_system option" where
  "table_of w =
     (case w_meta w of
        None \<Rightarrow> None
      | Some m \<Rightarrow> (case w_state w of
          None \<Rightarrow> None
        | Some st \<Rightarrow> Some \<lparr>felt = st, bank = w_ledger w, dice = meta_rng m\<rparr>))"

lemma table_of_Some:
  "table_of w = Some z \<longleftrightarrow>
     (\<exists>m. w_meta w = Some m \<and> w_state w = Some (felt z) \<and> bank z = w_ledger w \<and> dice z = meta_rng m)"
  by (cases z) (auto simp: table_of_def split: option.split)

text \<open>The move of the table that a request makes, when it makes one.\<close>

fun move_of :: "session_env \<Rightarrow> 'c session_meta \<Rightarrow> ('c, 'b table_action) session_op \<Rightarrow> 'b table_move option" where
  "move_of env m (Action p a) = Some (Act (meta_members m) p a (env_now env))"
| "move_of env m (Leave_seat p) =
     Some (Leave (filter (\<lambda>x. x \<noteq> p) (meta_members m)) p (env_now env))"
| "move_of env m (Close_table p) = Some (Close (meta_members m) (env_now env))"
| "move_of env m (Operator_close k r) = Some (Close (meta_members m) (env_now env))"
| "move_of env m _ = None"

text \<open>A ledger is composed and answers; a game's event only draws from the stream it is given.\<close>

definition ledger_up :: "session_env \<Rightarrow> bool" where
  "ledger_up env \<longleftrightarrow> env_ledger env \<and> (\<forall>e. \<not> env_ledger_down env e)"

definition keeps_seed :: "('c, 'r, 'b, 'd, 'w) wagering_spec \<Rightarrow> bool" where
  "keeps_seed spec \<longleftrightarrow> (\<forall>ctx g r bs out g'. ws_event spec ctx g r bs = (out, g') \<longrightarrow>
     seed g' = seed g \<and> seed_hash g' = seed_hash g)"

lemma keeps_seed_craps: "keeps_seed craps_spec"
  by (auto simp: keeps_seed_def craps_event_def rng_int_def next_draw_def Let_def)

lemma takeWhile_always [simp]: "takeWhile (\<lambda>x. True) xs = xs"
  by (induction xs) simp_all

lemma settle_up:
  assumes "ledger_up env"
  shows "wp (settle env so es) Q E w =
    (case settle_all (apply_effect so (env_now env)) (w_ledger w) es of
       (db, None) \<Rightarrow> Q () (w\<lparr>w_ledger := db\<rparr>)
     | (db, Some e) \<Rightarrow> E (Unsettled (Ledger_refused e)) (w\<lparr>w_ledger := db\<rparr>))"
proof -
  obtain db r where "settle_all (apply_effect so (env_now env)) (w_ledger w) es = (db, r)" by force
  then show ?thesis
    using assms by (cases r) (simp_all add: settle_def wp_def Let_def ledger_up_def composed_effects)
qed

lemma spend_same:
  "seed g = seed (meta_rng m) \<Longrightarrow> seed_hash g = seed_hash (meta_rng m) \<Longrightarrow> meta_rng (spend m g) = g"
  by (simp add: spend_def spent_def)

lemma wagering_table_simps [simp]:
  "gm_apply (wagering_table spec) = table_apply spec"
  "gm_on_join (wagering_table spec) = None"
  "gm_on_leave (wagering_table spec) = Some table_leave"
  "gm_complete (wagering_table spec) = (\<lambda>_ _. False)"
  "gm_init (wagering_table spec) = table_init spec"
  by (simp_all add: wagering_table_def)

lemma table_apply_seed:
  assumes "keeps_seed spec" and "table_apply spec ctx g st p a = Inr (res, g')"
  shows "seed g' = seed g \<and> seed_hash g' = seed_hash g"
  using assms
  by (auto simp: table_apply_def and_then_eq_Inr table_event_def keeps_seed_def
      split: table_action.splits if_splits prod.splits)

lemma make_context_table:
  "make_context m env = table_ctx (meta_session m) (gs_rules (meta_game m)) (meta_members m) (env_now env)"
  by (simp add: make_context_def table_ctx_def)

text \<open>The table did not move, or made exactly the move; the session is the one it was.\<close>

definition identity_of :: "('c, 's) session_world \<Rightarrow> (string \<times> 'c game_snapshot) option" where
  "identity_of w = map_option (\<lambda>m. (meta_session m, meta_game m)) (w_meta w)"

definition moved_by ::
  "('c, 'r, 'b, 'd, 'w) wagering_spec \<Rightarrow> 'c session_meta \<Rightarrow> ('r, 'd) table_system \<Rightarrow> 'b table_move option
     \<Rightarrow> ('c, ('r, 'd) table_state) session_world \<Rightarrow> bool" where
  "moved_by spec m z mv w' \<longleftrightarrow> identity_of w' = Some (meta_session m, meta_game m)
     \<and> (table_of w' = Some z
        \<or> (\<exists>x. mv = Some x \<and> table_of w' = Some (play spec (meta_session m) (gs_rules (meta_game m)) z x)))"

lemma action_plays:
  assumes model: "resolve_model (gs_kind (meta_game m)) reg = Some (wagering_table spec)"
    and m: "w_meta w = Some m" "gs_mode (meta_game m) = Table" and z: "table_of w = Some z"
    and up: "ledger_up env" and seed: "keeps_seed spec"
  shows "wp (apply_action reg env p a) (\<lambda>_. moved_by spec m z (move_of env m (Action p a)))
    (\<lambda>_. moved_by spec m z (move_of env m (Action p a))) w"
proof -
  obtain st where st: "w_state w = Some st" and zeq: "z = \<lparr>felt = st, bank = w_ledger w, dice = meta_rng m\<rparr>"
    using z m by (auto simp: table_of_def split: option.splits)
  show ?thesis
  proof (cases "table_apply spec (make_context m env) (meta_rng m) st p a")
    case (Inl e)
    then show ?thesis
      using z by (auto simp: apply_action_def m model st moved_by_def identity_of_def)
  next
    case (Inr res)
    then obtain st' es g where res: "res = ((st', es), g)" by (metis prod.collapse)
    have g: "meta_rng (spend m g) = g"
      using table_apply_seed [OF seed Inr [unfolded res]] by (intro spend_same) auto
    obtain db r where settled: "settle_all (apply_effect False (env_now env)) (w_ledger w) es = (db, r)" by force
    have z': "play spec (meta_session m) (gs_rules (meta_game m)) z (Act (meta_members m) p a (env_now env))
        = (case r of None \<Rightarrow> \<lparr>felt = st', bank = db, dice = g\<rparr> | Some _ \<Rightarrow> z\<lparr>bank := db\<rparr>)"
      using Inr settled by (simp add: zeq make_context_table res commit_table_def composed_effects split: option.split)
    show ?thesis
      using z z' Inr settled g
      by (auto simp: apply_action_def m model st moved_by_def identity_of_def res settle_up [OF up] table_of_def zeq
          split: option.split prod.split)
  qed
qed

lemma settle_out_plays:
  assumes up: "ledger_up env" and "w_meta w = Some m0" and "w_state w = Some st"
    and "meta_session m = sid" "gs_rules (meta_game m) = cfg"
    and "z' = settle_seats sid cfg (meta_members m) (env_now env) ps \<lparr>felt = st, bank = w_ledger w, dice = meta_rng m\<rparr>"
    and Q: "\<And>m' w'. w_meta w' = Some m0 \<Longrightarrow> w_state w' = Some (felt z') \<Longrightarrow> w_ledger w' = bank z' \<Longrightarrow>
      meta_rng m' = dice z' \<Longrightarrow> dice z' = meta_rng m \<Longrightarrow> meta_session m' = meta_session m \<Longrightarrow>
      meta_game m' = meta_game m \<Longrightarrow> Q m' w'"
    and E: "\<And>e w'. w_meta w' = Some m0 \<Longrightarrow> w_state w' = Some (felt z') \<Longrightarrow> w_ledger w' = bank z' \<Longrightarrow>
      dice z' = meta_rng m \<Longrightarrow> E e w'"
  shows "wp (settle_out_seats env table_leave m st ps) Q E w"
  using assms
proof (induction ps arbitrary: m st w)
  case Nil
  then show ?case by simp
next
  case (Cons p ps)
  let ?m = "m\<lparr>meta_members := filter (\<lambda>x. x \<noteq> p) (meta_members m)\<rparr>"
  obtain st' es where leave: "table_leave (make_context ?m env) (meta_rng m) st p = ((st', es), meta_rng m)"
    by (simp add: table_leave_def)
  obtain db r where settled: "settle_all (apply_effect True (env_now env)) (w_ledger w) es = (db, r)" by force
  have leave': "table_leave (table_ctx sid cfg (filter (\<lambda>x. x \<noteq> p) (meta_members m)) (env_now env))
      (meta_rng m) st p = ((st', es), meta_rng m)"
    using leave Cons.prems(4,5) by (simp add: make_context_table)
  have rng: "meta_rng (spend ?m (meta_rng m)) = meta_rng m" using spend_same [of "meta_rng m" ?m] by simp
  show ?case
  proof (cases r)
    case None
    have "wp (settle_out_seats env table_leave (spend ?m (meta_rng m)) st' ps) Q E
        (w\<lparr>w_ledger := db, w_state := Some st'\<rparr>)"
      by (rule Cons.IH [OF up]) (use Cons.prems None leave' settled rng in \<open>simp_all add: commit_table_def composed_effects\<close>)
    then show ?thesis by (simp add: Let_def leave settle_up [OF up] settled None)
  next
    case (Some e)
    with Cons.prems leave' settled show ?thesis
      by (simp add: Let_def leave settle_up [OF up] commit_table_def composed_effects)
  qed
qed

lemma close_plays:
  fixes w :: "('c, ('r, 'd) table_state) session_world"
  assumes model: "resolve_model (gs_kind (meta_game m)) reg = Some (wagering_table spec)"
    and m: "w_meta w = Some m" and z: "table_of w = Some z" and up: "ledger_up env"
    and mv: "mv = Some (Close (meta_members m) (env_now env))"
    and Q: "\<And>m' w'. moved_by spec m z mv w' \<Longrightarrow> w_meta w' = Some m \<Longrightarrow>
      meta_rng m' = meta_rng m \<Longrightarrow> meta_session m' = meta_session m \<Longrightarrow> meta_game m' = meta_game m \<Longrightarrow> Q m' w'"
    and E: "\<And>e w'. moved_by spec m z mv w' \<Longrightarrow> E e w'"
  shows "wp (settle_out reg env m) Q E w"
proof -
  obtain st where st: "w_state w = Some st" and zeq: "z = \<lparr>felt = st, bank = w_ledger w, dice = meta_rng m\<rparr>"
    using z m by (auto simp: table_of_def split: option.splits)
  let ?z = "settle_seats (meta_session m) (gs_rules (meta_game m)) (meta_members m) (env_now env)
      (meta_members m) \<lparr>felt = st, bank = w_ledger w, dice = meta_rng m\<rparr>"
  have moved: "moved_by spec m z mv w'" if "table_of w' = Some ?z" "w_meta w' = Some m" for w'
    using that by (simp add: moved_by_def identity_of_def mv zeq)
  have tab: "table_of w' = Some ?z" if "w_meta w' = Some m" "w_state w' = Some (felt ?z)"
      "w_ledger w' = bank ?z" "dice ?z = meta_rng m" for w'
    using that by (simp add: table_of_Some)
  have "wp (settle_out_seats env table_leave m st (meta_members m)) (\<lambda>m'. wp (give
      (m'\<lparr>meta_members := meta_members m\<rparr>)) Q E) E w"
  proof (rule settle_out_plays [OF up m st refl refl refl])
    fix m' :: "'c session_meta" and w' :: "('c, ('r, 'd) table_state) session_world"
    assume w': "w_meta w' = Some m" "w_state w' = Some (felt ?z)" "w_ledger w' = bank ?z"
      "meta_rng m' = dice ?z" "dice ?z = meta_rng m" "meta_session m' = meta_session m"
      "meta_game m' = meta_game m"
    show "wp (give (m'\<lparr>meta_members := meta_members m\<rparr>)) Q E w'"
      using tab [OF w'(1-3,5)] w' by (simp add: Q moved)
  qed (blast intro: E moved tab)
  then show ?thesis by (simp add: settle_out_def model st)
qed

text \<open>What a transition stores besides the table leaves the table where it is.\<close>

lemma moved_by_rows [simp]:
  "moved_by spec m z mv (w\<lparr>w_index := i\<rparr>) = moved_by spec m z mv w"
  "moved_by spec m z mv (w\<lparr>w_result := r\<rparr>) = moved_by spec m z mv w"
  "moved_by spec m z mv (w\<lparr>w_outcome := out\<rparr>) = moved_by spec m z mv w"
  "moved_by spec m z mv (w\<lparr>w_alarm := a\<rparr>) = moved_by spec m z mv w"
  "moved_by spec m z mv (w\<lparr>w_closed := k\<rparr>) = moved_by spec m z mv w"
  by (simp_all add: moved_by_def identity_of_def table_of_def split: option.split)

lemma moved_by_meta:
  "moved_by spec m z mv w \<Longrightarrow> w_meta w = Some m1 \<Longrightarrow> meta_rng m' = meta_rng m1 \<Longrightarrow>
     meta_session m' = meta_session m1 \<Longrightarrow> meta_game m' = meta_game m1 \<Longrightarrow>
     moved_by spec m z mv (w\<lparr>w_meta := Some m'\<rparr>)"
  by (simp add: moved_by_def identity_of_def table_of_def split: option.splits)

lemma wp_end_moved:
  assumes "moved_by spec m z mv w" and "w_meta w = Some m1" and "meta_rng m2 = meta_rng m1"
    and "meta_session m2 = meta_session m1" and "meta_game m2 = meta_game m1"
    and "\<And>w'. moved_by spec m z mv w' \<Longrightarrow> Q () w'" and "\<And>e w'. moved_by spec m z mv w' \<Longrightarrow> E e w'"
  shows "wp (end_in_flight env m2 out) Q E w" "wp (commit_terminal env m2 out) Q E w"
  using assms
  by (auto simp: wp_end_in_flight commit_terminal_def write_result_def split: option.split
      intro!: assms(6,7) moved_by_meta)

lemma wp_snapshot_moved:
  "moved_by spec m z mv w \<Longrightarrow>
   wp (snapshot reg env p) (\<lambda>_. moved_by spec m z mv) (\<lambda>_. moved_by spec m z mv) w"
  by (simp split: option.split)

lemma moved_by_start: "table_of w = Some z \<Longrightarrow> w_meta w = Some m \<Longrightarrow> moved_by spec m z mv w"
  by (simp add: moved_by_def identity_of_def)

lemma leave_plays:
  fixes spec :: "('c, 'r, 'b, 'd, 'w) wagering_spec"
  assumes model: "resolve_model (gs_kind (meta_game m)) reg = Some (wagering_table spec)"
    and m: "w_meta w = Some m" and z: "table_of w = Some z" and up: "ledger_up env"
  shows "wp (apply_leave reg env p) (\<lambda>_. moved_by spec m z (move_of env m (Leave_seat p)))
    (\<lambda>_. moved_by spec m z (move_of env m (Leave_seat p))) w"
proof -
  let ?mv = "move_of env m (Leave_seat p) :: 'b table_move option"
  let ?m1 = "m\<lparr>meta_joined := Some (ever_joined m), meta_members := filter (\<lambda>x. x \<noteq> p) (meta_members m)\<rparr>"
  obtain st where st: "w_state w = Some st" and zeq: "z = \<lparr>felt = st, bank = w_ledger w, dice = meta_rng m\<rparr>"
    using z m by (auto simp: table_of_def split: option.splits)
  obtain st' es where leave: "table_leave (make_context ?m1 env) (meta_rng m) st p = ((st', es), meta_rng m)"
    by (simp add: table_leave_def)
  obtain db r where settled: "settle_all (apply_effect False (env_now env)) (w_ledger w) es = (db, r)" by force
  have z': "play spec (meta_session m) (gs_rules (meta_game m)) z (the ?mv)
      = (case r of None \<Rightarrow> \<lparr>felt = st', bank = db, dice = meta_rng m\<rparr> | Some _ \<Rightarrow> z\<lparr>bank := db\<rparr>)"
    using leave settled by (simp add: zeq make_context_table commit_table_def composed_effects split: option.split)
  have rng: "meta_rng (spend ?m1 (meta_rng m)) = meta_rng m" using spend_same [of "meta_rng m" ?m1] by simp
  have failed: "moved_by spec m z ?mv (w\<lparr>w_ledger := db\<rparr>)" if "r = Some e" for e
    using z' that m st by (simp add: moved_by_def identity_of_def table_of_def zeq)
  have stored: "moved_by spec m z ?mv (w\<lparr>w_ledger := db, w_state := Some st'\<rparr>)" if "r = None"
    using z' that m st by (simp add: moved_by_def identity_of_def table_of_def)
  let ?w = "w\<lparr>w_ledger := db, w_state := Some st'\<rparr>" and ?m2 = "spend ?m1 (meta_rng m)"
  have rest: "wp (seq (if meta_members ?m2 = [] then commit_terminal env ?m2 (unscored Phase_resolved env None)
       else seq (index_session env ?m2) (\<lambda>_. put_meta ?m2)) (\<lambda>_. snapshot reg env p))
    (\<lambda>_. moved_by spec m z ?mv) (\<lambda>_. moved_by spec m z ?mv) ?w" if "r = None"
    unfolding wp_seq [of "if _ then _ else _"]
    using stored [OF that] m rng
    by (auto simp: wp_index_session simp del: wp_snapshot
        intro!: wp_end_moved(2) [where ?m1.0 = m] wp_snapshot_moved moved_by_meta [where ?m1.0 = m])
  show ?thesis
    unfolding apply_leave_def
    using moved_by_start [OF z m, of spec ?mv] failed rest
    by (cases r) (auto simp: m model st leave settle_up [OF up] settled Let_def
        simp del: wp_snapshot intro: wp_snapshot_moved)
qed

lemma closes_play:
  fixes spec :: "('c, 'r, 'b, 'd, 'w) wagering_spec"
  assumes model: "resolve_model (gs_kind (meta_game m)) reg = Some (wagering_table spec)"
    and m: "w_meta w = Some m" and z: "table_of w = Some z" and up: "ledger_up env"
  shows "wp (apply_close reg env p) (\<lambda>_. moved_by spec m z (move_of env m (Close_table p)))
      (\<lambda>_. moved_by spec m z (move_of env m (Close_table p))) w"
    and "gs_mode (meta_game m) = Table \<Longrightarrow>
      wp (apply_operator_close reg env key r) (\<lambda>_. moved_by spec m z (move_of env m (Operator_close key r)))
      (\<lambda>_. moved_by spec m z (move_of env m (Operator_close key r))) w"
proof -
  let ?mv = "Some (Close (meta_members m) (env_now env)) :: 'b table_move option"
  let ?P = "moved_by spec m z ?mv"
  note start = moved_by_start [OF z m, of spec ?mv]
  have rest: "wp (seq (commit_terminal env m' (unscored Phase_resolved env None)) (\<lambda>_. snapshot reg env p))
      (\<lambda>_. ?P) (\<lambda>_. ?P) w'"
    if "?P w'" "w_meta w' = Some m" "meta_rng m' = meta_rng m"
      "meta_session m' = meta_session m" "meta_game m' = meta_game m" for m' w'
    unfolding wp_seq
    by (rule wp_end_moved(2) [OF that]) (use that in \<open>simp_all add: wp_snapshot_moved del: wp_snapshot\<close>)
  have close: "wp (settle_out reg env m) (\<lambda>m'. wp (seq (commit_terminal env m' (unscored Phase_resolved env None))
      (\<lambda>_. snapshot reg env p)) (\<lambda>_. ?P) (\<lambda>_. ?P)) (\<lambda>_. ?P) w"
    by (rule close_plays [OF model m z up refl]) (use rest in blast)+
  show "wp (apply_close reg env p) (\<lambda>_. moved_by spec m z (move_of env m (Close_table p)))
      (\<lambda>_. moved_by spec m z (move_of env m (Close_table p))) w"
    unfolding apply_close_def move_of.simps
    using close start by (auto simp: m wp_seq [of "settle_out reg env m"] split: option.split)
  have op: "wp (settle_out reg env m) (\<lambda>m'. wp (seq (end_in_flight env m' (unscored Phase_abandoned env (Some r)))
      (\<lambda>_. seq (store (\<lambda>w. w\<lparr>w_closed := Some key\<rparr>)) (\<lambda>_. give False))) (\<lambda>_. ?P) (\<lambda>_. ?P)) (\<lambda>_. ?P) w"
    by (rule close_plays [OF model m z up refl], unfold wp_seq, rule wp_end_moved(1) [where ?m1.0 = m]) simp_all
  show "wp (apply_operator_close reg env key r) (\<lambda>_. moved_by spec m z (move_of env m (Operator_close key r)))
      (\<lambda>_. moved_by spec m z (move_of env m (Operator_close key r))) w" if "gs_mode (meta_game m) = Table"
    unfolding apply_operator_close_def move_of.simps
    using op start that by (auto simp: m)
qed

text \<open>
  The rest of a life: a second creation, joining, viewing and the deadline leave the table alone.
\<close>

lemma other_plays:
  fixes spec :: "('c, 'r, 'b, 'd, 'w) wagering_spec"
  assumes model: "resolve_model (gs_kind (meta_game m)) reg = Some (wagering_table spec)"
    and m: "w_meta w = Some m" "gs_mode (meta_game m) = Table" and z: "table_of w = Some z"
  shows "wp (apply_create reg sid rng env game p) (\<lambda>_. moved_by spec m z mv) (\<lambda>_. moved_by spec m z mv) w"
    "wp (apply_join reg env p) (\<lambda>_. moved_by spec m z mv) (\<lambda>_. moved_by spec m z mv) w"
    "wp (apply_view reg env p) (\<lambda>_. moved_by spec m z mv) (\<lambda>_. moved_by spec m z mv) w"
    "wp (on_deadline reg env) (\<lambda>_. moved_by spec m z mv) (\<lambda>_. moved_by spec m z mv) w"
proof -
  note start = moved_by_start [OF z m(1), of spec mv]
  show "wp (apply_create reg sid rng env game p) (\<lambda>_. moved_by spec m z mv) (\<lambda>_. moved_by spec m z mv) w"
    using start by (auto simp: apply_create_def m)
  show "wp (apply_join reg env p) (\<lambda>_. moved_by spec m z mv) (\<lambda>_. moved_by spec m z mv) w"
    using start
    by (auto simp: apply_join_def seat_player_def m model Let_def wp_index_session split: option.split
        intro!: moved_by_meta [where ?m1.0 = m])
  show "wp (apply_view reg env p) (\<lambda>_. moved_by spec m z mv) (\<lambda>_. moved_by spec m z mv) w"
    using start by (auto simp: apply_view_def split: option.split)
  show "wp (on_deadline reg env) (\<lambda>_. moved_by spec m z mv) (\<lambda>_. moved_by spec m z mv) w"
    using start
    by (auto simp: on_deadline_def abandon_session_def m model split: option.split
        intro!: wp_end_moved(2) [where ?m1.0 = m])
qed

lemma session_step_plays:
  assumes model: "resolve_model (gs_kind (meta_game m)) reg = Some (wagering_table spec)"
    and m: "w_meta w = Some m" "gs_mode (meta_game m) = Table" and z: "table_of w = Some z"
    and up: "ledger_up env" and seed: "keeps_seed spec"
  shows "moved_by spec m z (move_of env m op) (snd (session_step reg sid rng (env, op) w))"
proof -
  have "wp (session_step reg sid rng (env, op)) (\<lambda>_. moved_by spec m z (move_of env m op))
      (\<lambda>_. moved_by spec m z (move_of env m op)) w"
    by (cases op)
      (simp_all add: other_plays [OF model m z] leave_plays [OF model m(1) z up]
        closes_play [OF model m(1) z up] m(2) action_plays [OF model m z up seed] del: move_of.simps)
  then show ?thesis by (simp only: wp_snd)
qed

section \<open>Escrow in sessions\<close>


text \<open>A life in which the rest of the program writes the same ledger between requests.\<close>

fun live_step ::
  "('c, 's, 'p, 'v) game_model list \<Rightarrow> string \<Rightarrow> rng_state \<Rightarrow> ('c, 's) session_world
     \<Rightarrow> (session_env \<times> ('c, 'p) session_op) + ledger_op \<Rightarrow> ('c, 's) session_world" where
  "live_step reg sid rng w (Inl x) = snd (session_step reg sid rng x w)"
| "live_step reg sid rng w (Inr op) = w\<lparr>w_ledger := keep_on_error (w_ledger w) (ledger_step (w_ledger w) op)\<rparr>"

fun fair_step :: "string \<Rightarrow> (session_env \<times> ('c, 'p) session_op) + ledger_op \<Rightarrow> bool" where
  "fair_step sid (Inl x) = ledger_up (fst x)"
| "fair_step sid (Inr op) = foreign_op sid op"

definition escrowed_session ::
  "('c, 'r, 'b, 'd, 'w) wagering_spec \<Rightarrow> string \<Rightarrow> 'c game_snapshot
     \<Rightarrow> ('c, ('r, 'd) table_state) session_world \<Rightarrow> bool" where
  "escrowed_session spec sid game w \<longleftrightarrow> identity_of w = Some (sid, game)
     \<and> (\<exists>z. table_of w = Some z \<and> escrowed sid (ws_currency spec (gs_rules game)) z)"

lemma escrowed_step:
  fixes spec :: "('c, 'r, 'b, 'd, 'w) wagering_spec"
  assumes model: "resolve_model (gs_kind game) reg = Some (wagering_table spec)"
    and game: "gs_mode game = Table" "keeps_seed spec"
    and w: "escrowed_session spec sid game w" and x: "fair_step sid x"
  shows "escrowed_session spec sid game (live_step reg sid' rng w x)"
proof -
  from w obtain m z where m: "w_meta w = Some m" "meta_session m = sid" "meta_game m = game"
    and z: "table_of w = Some z" "escrowed sid (ws_currency spec (gs_rules game)) z"
    by (auto simp: escrowed_session_def identity_of_def)
  have kept: "escrowed sid (ws_currency spec (gs_rules game)) (play spec sid (gs_rules game) z mv)"
    if "own_move sid mv" for mv
    using escrowed_play [OF z(2) that] .
  show ?thesis
  proof (cases x)
    case (Inl y)
    obtain env op where y: "y = (env, op)" by force
    have up: "ledger_up env" using x Inl y by simp
    have "moved_by spec m z (move_of env m op) (snd (session_step reg sid' rng (env, op) w))"
      by (rule session_step_plays [OF _ m(1) _ z(1) up game(2)]) (simp_all add: m(3) model game(1))
    moreover have "own_move sid mv" if "move_of env m op = Some mv" for mv
      using that by (cases op) (auto simp: own_move_def)
    ultimately show ?thesis
      using kept z Inl y m by (auto simp: escrowed_session_def moved_by_def)
  next
    case (Inr op)
    have "own_move sid (Elsewhere op)" using x Inr by (simp add: own_move_def)
    from kept [OF this] m z Inr show ?thesis
      by (auto simp: escrowed_session_def identity_of_def table_of_def split: option.splits)
  qed
qed

lemma escrowed_created:
  fixes spec :: "('a, 'd, 'g, 'e, 'f) wagering_spec"
  assumes "resolve_model (gs_kind game) reg = Some (wagering_table spec)" and "gs_mode game = Table"
    and "ledger_ok db" and "unused sid db"
    and "session_step reg sid rng (env, Create game p) (unborn db) = (Inr v, w)"
  shows "escrowed_session spec sid game w"
proof -
  have start: "escrowed sid cur \<lparr>felt = st, bank = db, dice = h\<rparr>"
    if "table_init spec ctx g = (st, g')" for spec :: "('a, 'd, 'g, 'e, 'f) wagering_spec" and cur ctx g st g' h
    using escrowed_start [OF assms(3,4) that] by (simp add: escrowed_def)
  have "wp (apply_create reg sid rng env game p) (\<lambda>_. escrowed_session spec sid game) (\<lambda>_ _. True) (unborn db)"
    using assms(1-4) start
    by (auto simp: apply_create_def Let_def wp_index_session escrowed_session_def identity_of_def table_of_def
        unborn_def spend_def split: option.split prod.split)
  then have "wp (session_step reg sid rng (env, Create game p)) (\<lambda>_. escrowed_session spec sid game)
      (\<lambda>_ _. True) (unborn db)" by simp
  with assms(5) show ?thesis by (simp only: wp_def) simp
qed


definition craps_night :: "craps_config game_snapshot" where
  "craps_night = \<lparr>gs_key = ''night'', gs_kind = ''craps'', gs_mode = Table, gs_players = 4,
     gs_turn_timeout = None, gs_rules = sample_rules\<rparr>"

definition banked :: "millis \<Rightarrow> session_env" where
  "banked at = \<lparr>env_now = at, env_down = (\<lambda>_. False), env_ledger_down = (\<lambda>_. False), env_ledger = True\<rparr>"

type_synonym craps_world = "(craps_config, (craps_round, craps_bet_type) table_state) session_world"

definition opened :: "(session_error + (craps_round_view, craps_bet_type) table_view session_view option) \<times> craps_world" where
  "opened = session_step [craps_game] ''t'' sample_rng (banked 2, Create craps_night ''ann'') (unborn rich_bank)"

definition ann_wagers ::
  "((session_env \<times> (craps_config, craps_bet table_action) session_op) + ledger_op) list" where
  "ann_wagers = [Inl (banked 3, Action ''ann'' (Bet \<lparr>cb_type = Field, cb_amount = 3\<rparr>)),
                 Inl (banked 4, Action ''ann'' (Bet \<lparr>cb_type = Pass, cb_amount = 4\<rparr>))]"

definition wagered :: craps_world where
  "wagered = foldl (live_step [craps_game] ''t'' sample_rng) (snd opened) ann_wagers"

lemma opened_eval: "case fst opened of Inl _ \<Rightarrow> False | Inr _ \<Rightarrow> True"
  by code_simp

lemma wagered_eval:
  "map_option (\<lambda>st. map (\<lambda>b. (bet_user b, bet_amount b, bet_ref b)) (tbl_bets st)) (w_state wagered)
     = Some [(''ann'', 3, ''t:bet:0''), (''ann'', 4, ''t:bet:1'')]"
  by code_simp

lemma craps_registered: "resolve_model (gs_kind craps_night) [craps_game] = Some (wagering_table craps_spec)"
  by (simp add: resolve_model_def craps_night_def craps_game_def wagering_table_def craps_spec_def)

lemma wagered_table:
  "\<exists>m z. w_meta wagered = Some m \<and> table_of wagered = Some z \<and> meta_game m = craps_night \<and> meta_session m = ''t''"
proof -
  have "case w_meta wagered of None \<Rightarrow> False | Some m \<Rightarrow> meta_game m = craps_night \<and> meta_session m = ''t''"
    by code_simp
  with wagered_eval show ?thesis by (auto simp: table_of_def split: option.splits)
qed



end
