(* ===== verification/Wedged_Table.thy ===== *)
theory Wedged_Table
  imports Session_Table
begin

text \<open>
  What a table becomes when one of a transition's ledger effects fails after others settled: a bet
  whose hold is resolved stays on the felt, and every way of taking it off starts by resolving
  that hold again.
\<close>

section \<open>A resolved hold stays resolved\<close>

definition hold_spent :: "ledger_db \<Rightarrow> ref \<Rightarrow> bool" where
  "hold_spent db r \<longleftrightarrow> ledger_ok db \<and> (\<exists>h\<in>set (holds db). hold_ref h = r \<and> hold_status h \<noteq> Open)"

lemma hold_spent_extends: "hold_spent db r \<Longrightarrow> ledger_ok db' \<Longrightarrow> extends db db' \<Longrightarrow> hold_spent db' r"
  unfolding hold_spent_def extends_def by metis

lemma hold_spent_find:
  assumes "hold_spent db r"
  obtains h where "find_hold db r = Some h" "hold_status h \<noteq> Open"
proof -
  from assms obtain h where h: "h \<in> set (holds db)" "hold_ref h = r" "hold_status h \<noteq> Open"
    by (auto simp: hold_spent_def)
  have "distinct (map hold_ref (holds db))" using assms ledger_okD(2) by (auto simp: hold_spent_def)
  from find_unique_key [OF this h(1)] h(2,3) that show ?thesis by (simp add: find_hold_def)
qed

fun resolves :: "ref \<Rightarrow> ledger_effect \<Rightarrow> bool" where
  "resolves r (E_release q) = (q = r)"
| "resolves r (E_capture q n m) = (q = r)"
| "resolves r _ = False"

lemma apply_effect_spent:
  assumes "hold_spent db r" and "resolves r e"
  shows "apply_effect so at db e = Inl Hold_not_open"
proof -
  obtain h where "find_hold db r = Some h" "hold_status h \<noteq> Open" by (rule hold_spent_find [OF assms(1)])
  then have "require_open_hold db r = Inl Hold_not_open" by (simp add: require_open_hold_def)
  with assms(2) show ?thesis
    by (cases e) (simp_all add: apply_effect_def ledger_release_def ledger_capture_def)
qed

lemma settle_all_spent:
  assumes "hold_spent db r" and "settle_all (apply_effect so at) db es = (db', x)"
  shows "hold_spent db' r \<and> (x = None \<longrightarrow> \<not> list_ex (resolves r) es)"
  using assms
proof (induction es arbitrary: db)
  case (Cons e es)
  show ?case
  proof (cases "apply_effect so at db e")
    case (Inl err)
    with Cons.prems show ?thesis by auto
  next
    case (Inr db1)
    have ok: "ledger_ok db1 \<and> extends db db1"
      using apply_effect_ok [OF _ Inr] Cons.prems(1) by (simp add: hold_spent_def)
    have "\<not> resolves r e" using apply_effect_spent [OF Cons.prems(1)] Inr by auto
    moreover have "hold_spent db1 r" using hold_spent_extends [OF Cons.prems(1)] ok by blast
    ultimately show ?thesis using Cons.IH [of db1] Cons.prems(2) Inr by simp
  qed
qed simp

lemma wp_settle_spent:
  assumes r: "hold_spent (w_ledger w) r"
    and Q: "\<And>db. hold_spent db r \<Longrightarrow> \<not> list_ex (resolves r) es \<Longrightarrow> Q () (w\<lparr>w_ledger := db\<rparr>)"
    and E: "\<And>e db. hold_spent db r \<Longrightarrow> E e (w\<lparr>w_ledger := db\<rparr>)"
  shows "wp (settle env so es) Q E w"
proof -
  define reached where "reached = (if env_ledger env then takeWhile (\<lambda>e. \<not> env_ledger_down env e) es else es)"
  obtain db x where out: "apply_ledger_effects (env_ledger env) so (env_now env) (w_ledger w) reached = (db, x)"
    by force
  then have "hold_spent db r \<and> (x = None \<longrightarrow> \<not> list_ex (resolves r) reached)"
    using settle_all_spent [OF r] r by (auto simp: apply_ledger_effects_def split: if_splits prod.splits)
  then show ?thesis
    using out Q E unfolding settle_def wp_def reached_def [symmetric]
    by (cases x) (auto simp: Let_def)
qed

section \<open>A wedged table\<close>

text \<open>A table in flight with a bet on its felt whose hold is resolved already.\<close>

definition wedged ::
  "'c game_snapshot \<Rightarrow> 'd pending_bet
     \<Rightarrow> ('c, ('r, 'd) table_state) session_world \<Rightarrow> bool" where
  "wedged game b w \<longleftrightarrow>
     (\<exists>m st. w_meta w = Some m \<and> meta_game m = game \<and> meta_phase m = Phase_active \<and> meta_deadline m = None
        \<and> w_closed w = None \<and> bet_user b \<in> set (meta_members m) \<and> w_state w = Some st \<and> b \<in> set (tbl_bets st)
        \<and> hold_spent (w_ledger w) (bet_ref b))"

lemma wedged_rows [simp]:
  "wedged game b (w\<lparr>w_index := i\<rparr>) = wedged game b w"
  "wedged game b (w\<lparr>w_result := r\<rparr>) = wedged game b w"
  by (simp_all add: wedged_def)

lemma wedged_ledger:
  "wedged game b w \<Longrightarrow> hold_spent db (bet_ref b) \<Longrightarrow> wedged game b (w\<lparr>w_ledger := db\<rparr>)"
  by (auto simp: wedged_def)

lemma wedged_state:
  "wedged game b w \<Longrightarrow> b \<in> set (tbl_bets st) \<Longrightarrow> wedged game b (w\<lparr>w_state := Some st\<rparr>)"
  by (auto simp: wedged_def)

text \<open>Any action leaves the bet on the felt, unless its effects resolve the hold again.\<close>

lemma table_apply_keeps_bet:
  assumes "table_apply spec ctx g st p a = Inr ((st', es), g')" and "b \<in> set (tbl_bets st)"
    and "\<not> list_ex (resolves (bet_ref b)) es"
  shows "b \<in> set (tbl_bets st')"
proof (cases a)
  case Event
  with assms(1) obtain ds where ds: "tbl_bets st' = filter (\<lambda>b. decided ds (bet_ref b) = None) (tbl_bets st)"
      "es = concat (map (bet_effects (ws_kind spec) (ws_currency spec (game_config ctx)) ds) (tbl_bets st))"
    by (auto simp: table_apply_def table_event_def Let_def split: if_splits prod.splits)
  have "decided ds (bet_ref b) = None"
  proof (rule ccontr)
    assume "decided ds (bet_ref b) \<noteq> None"
    then have "list_ex (resolves (bet_ref b)) (bet_effects (ws_kind spec) (ws_currency spec (game_config ctx)) ds b)"
      by (auto simp: bet_effects_def)
    with ds(2) assms(2,3) show False by (auto simp: list_ex_iff)
  qed
  with ds(1) assms(2) show ?thesis by simp
next
  case (Bet x)
  with assms(1,2) show ?thesis by (auto simp: table_apply_def table_bet_def and_then_eq_Inr Let_def)
next
  case Unrecognized
  with assms(1) show ?thesis by (simp add: table_apply_def)
qed

lemma table_leave_keeps_bet:
  assumes "table_leave ctx g st p = ((st', es), g')" and "b \<in> set (tbl_bets st)"
  shows "if p = bet_user b then list_ex (resolves (bet_ref b)) es else b \<in> set (tbl_bets st')"
  using assms by (auto simp: table_leave_def list_ex_iff)

lemma wedged_meta:
  assumes "wedged game b w" and "meta_game m' = game" and "meta_phase m' = Phase_active"
    and "meta_deadline m' = None" and "bet_user b \<in> set (meta_members m')"
  shows "wedged game b (w\<lparr>w_meta := Some m'\<rparr>)"
  using assms by (auto simp: wedged_def)

lemma wp_snapshot_wedged:
  "wedged game b w \<Longrightarrow> wp (snapshot reg env p) (\<lambda>_. wedged game b) (\<lambda>_. wedged game b) w"
  by (simp split: option.split)

lemma wedged_spent: "wedged game b w \<Longrightarrow> hold_spent (w_ledger w) (bet_ref b)"
  by (auto simp: wedged_def)

text \<open>What each transition does to a wedged table; settling its seats out never succeeds.\<close>

lemma action_wedged:
  assumes model: "resolve_model (gs_kind game) reg = Some (wagering_table spec)" and game: "gs_mode game = Table"
    and w: "wedged game b w"
  shows "wp (apply_action reg env p a) (\<lambda>_. wedged game b) (\<lambda>_. wedged game b) w"
proof -
  from w obtain m st where m: "w_meta w = Some m" "meta_game m = game" "meta_phase m = Phase_active"
      "meta_deadline m = None" "bet_user b \<in> set (meta_members m)"
    and st: "w_state w = Some st" "b \<in> set (tbl_bets st)"
    by (auto simp: wedged_def)
  have rest: "wp (settle env False es) (\<lambda>_. wp (seq (put_state st') (\<lambda>_. seq (put_meta (spend m g))
      (\<lambda>_. snapshot reg env p))) (\<lambda>_. wedged game b) (\<lambda>_. wedged game b)) (\<lambda>_. wedged game b) w"
    if "table_apply spec (make_context m env) (meta_rng m) st p a = Inr ((st', es), g)" for st' es g
  proof (rule wp_settle_spent [OF wedged_spent [OF w]])
    fix db
    assume db: "hold_spent db (bet_ref b)" and "\<not> list_ex (resolves (bet_ref b)) es"
    from table_apply_keeps_bet [OF that st(2) this(2)]
    have "wedged game b (w\<lparr>w_ledger := db, w_state := Some st'\<rparr>)"
      by (intro wedged_state wedged_ledger w db)
    then have "wedged game b (w\<lparr>w_ledger := db, w_state := Some st', w_meta := Some (spend m g)\<rparr>)"
      by (rule wedged_meta) (simp_all add: m)
    then show "wp (seq (put_state st') (\<lambda>_. seq (put_meta (spend m g)) (\<lambda>_. snapshot reg env p)))
        (\<lambda>_. wedged game b) (\<lambda>_. wedged game b) (w\<lparr>w_ledger := db\<rparr>)"
      by (simp add: wp_snapshot_wedged del: wp_snapshot)
  qed (intro wedged_ledger w)
  show ?thesis
    unfolding apply_action_def
    using w rest by (auto simp: m model game st simp del: wp_snapshot split: sum.split prod.split)
qed

lemma seats_wedged:
  assumes "wedged game b w" and "w_state w = Some st" and "b \<in> set (tbl_bets st)"
    and "\<And>m' w'. bet_user b \<notin> set ps \<Longrightarrow> wedged game b w' \<Longrightarrow> Q m' w'"
    and E: "\<And>e w'. wedged game b w' \<Longrightarrow> E e w'"
  shows "wp (settle_out_seats env table_leave m st ps) Q E w"
  using assms
proof (induction ps arbitrary: m st w)
  case (Cons p ps)
  let ?m = "m\<lparr>meta_members := filter (\<lambda>x. x \<noteq> p) (meta_members m)\<rparr>"
  obtain st' es g where leave: "table_leave (make_context ?m env) (meta_rng m) st p = ((st', es), g)"
    by (metis prod.collapse)
  note keep = table_leave_keeps_bet [OF leave Cons.prems(3)]
  have "wp (settle env True es) (\<lambda>_. wp (seq (put_state st') (\<lambda>_. settle_out_seats env table_leave (spend ?m g) st' ps))
      Q E) E w"
  proof (rule wp_settle_spent [OF wedged_spent [OF Cons.prems(1)]])
    fix db
    assume db: "hold_spent db (bet_ref b)" and nr: "\<not> list_ex (resolves (bet_ref b)) es"
    with keep have p: "p \<noteq> bet_user b" "b \<in> set (tbl_bets st')" by (auto split: if_splits)
    have "wp (settle_out_seats env table_leave (spend ?m g) st' ps) Q E (w\<lparr>w_ledger := db, w_state := Some st'\<rparr>)"
      by (rule Cons.IH) (use p db Cons.prems in \<open>auto intro: wedged_state wedged_ledger\<close>)
    then show "wp (seq (put_state st') (\<lambda>_. settle_out_seats env table_leave (spend ?m g) st' ps)) Q E
        (w\<lparr>w_ledger := db\<rparr>)" by simp
  qed (intro E wedged_ledger Cons.prems(1))
  then show ?case by (simp add: Let_def leave)
qed simp

lemma settle_out_wedged:
  assumes model: "resolve_model (gs_kind game) reg = Some (wagering_table spec)" and w: "wedged game b w"
    and "w_meta w = Some m" and E: "\<And>e w'. wedged game b w' \<Longrightarrow> E e w'"
  shows "wp (settle_out reg env m) Q E w"
proof -
  from w assms(3) obtain st where st: "w_state w = Some st" "b \<in> set (tbl_bets st)" and g: "meta_game m = game"
    and u: "bet_user b \<in> set (meta_members m)" by (auto simp: wedged_def)
  show ?thesis
    by (simp add: settle_out_def g model st(1)) (rule seats_wedged [OF w st _ E], use u in auto)
qed

lemma leave_wedged:
  assumes model: "resolve_model (gs_kind game) reg = Some (wagering_table spec)" and w: "wedged game b w"
  shows "wp (apply_leave reg env p) (\<lambda>_ w'. p \<noteq> bet_user b \<and> wedged game b w') (\<lambda>_. wedged game b) w"
proof -
  from w obtain m st where m: "w_meta w = Some m" "meta_game m = game" "meta_phase m = Phase_active"
      "meta_deadline m = None" "bet_user b \<in> set (meta_members m)"
    and st: "w_state w = Some st" "b \<in> set (tbl_bets st)"
    by (auto simp: wedged_def)
  let ?m1 = "m\<lparr>meta_joined := Some (ever_joined m), meta_members := filter (\<lambda>x. x \<noteq> p) (meta_members m)\<rparr>"
  obtain st' es g where leave: "table_leave (make_context ?m1 env) (meta_rng m) st p = ((st', es), g)"
    by (metis prod.collapse)
  note keep = table_leave_keeps_bet [OF leave st(2)]
  let ?m2 = "spend ?m1 g"
  let ?rest = "seq (put_state st') (\<lambda>_. seq (give ?m2) (\<lambda>m2. seq (if meta_members m2 = []
       then commit_terminal env m2 (unscored Phase_resolved env None)
       else seq (index_session env m2) (\<lambda>_. put_meta m2)) (\<lambda>_. snapshot reg env p)))"
  have rest: "wp (settle env False es) (\<lambda>_. wp ?rest (\<lambda>_ w'. p \<noteq> bet_user b \<and> wedged game b w') (\<lambda>_. wedged game b))
      (\<lambda>_. wedged game b) w"
  proof (rule wp_settle_spent [OF wedged_spent [OF w]])
    fix db
    assume db: "hold_spent db (bet_ref b)" and nr: "\<not> list_ex (resolves (bet_ref b)) es"
    with keep have p: "p \<noteq> bet_user b" "b \<in> set (tbl_bets st')" by (auto split: if_splits)
    have w1: "wedged game b (w\<lparr>w_ledger := db, w_state := Some st'\<rparr>)"
      by (intro wedged_state wedged_ledger w db p(2))
    have "filter (\<lambda>x. x \<noteq> p) (meta_members m) \<noteq> []" using m(5) p(1) by (auto simp: filter_empty_conv)
    moreover have "wedged game b (w\<lparr>w_ledger := db, w_state := Some st', w_index := i, w_meta := Some ?m2\<rparr>)" for i
      by (rule wedged_meta) (use w1 m p(1) in simp_all)
    ultimately show "wp ?rest (\<lambda>_ w'. p \<noteq> bet_user b \<and> wedged game b w') (\<lambda>_. wedged game b) (w\<lparr>w_ledger := db\<rparr>)"
      using p w1 m by (auto simp: wp_index_session split: option.split)
  qed (intro wedged_ledger w)
  have "m\<lparr>meta_members := filter (\<lambda>x. x \<noteq> p) (meta_members m), meta_joined := Some (ever_joined m)\<rparr> = ?m1"
    by simp
  then show ?thesis
    unfolding apply_leave_def
    using w rest m(5) by (auto simp: m model st leave Let_def seq_assoc simp del: wp_snapshot split: option.split)
qed

lemma closes_wedged:
  assumes model: "resolve_model (gs_kind game) reg = Some (wagering_table spec)" and game: "gs_mode game = Table"
    and w: "wedged game b w"
  shows "wp (apply_close reg env p) (\<lambda>_ _. False) (\<lambda>_. wedged game b) w"
    "wp (apply_operator_close reg env key r) (\<lambda>_ _. False) (\<lambda>_. wedged game b) w"
proof -
  from w obtain m where m: "w_meta w = Some m" "meta_game m = game" "meta_phase m = Phase_active"
    by (auto simp: wedged_def)
  have "wedged game b w \<Longrightarrow> wp (settle_out reg env m) Q (\<lambda>_. wedged game b) w" for Q
    by (rule settle_out_wedged [OF model w m(1)])
  then show "wp (apply_close reg env p) (\<lambda>_ _. False) (\<lambda>_. wedged game b) w"
    using w by (auto simp: apply_close_def m game)
  have "w_closed w = None" using w by (auto simp: wedged_def)
  then show "wp (apply_operator_close reg env key r) (\<lambda>_ _. False) (\<lambda>_. wedged game b) w"
    using settle_out_wedged [OF model w m(1)] w by (auto simp: apply_operator_close_def m game)
qed

lemma others_wedged:
  assumes model: "resolve_model (gs_kind game) reg = Some (wagering_table spec)" and game: "gs_mode game = Table"
    and w: "wedged game b w"
  shows "wp (apply_create reg sid rng env gs p) (\<lambda>_. wedged game b) (\<lambda>_. wedged game b) w"
    "wp (apply_join reg env p) (\<lambda>_. wedged game b) (\<lambda>_. wedged game b) w"
    "wp (apply_view reg env p) (\<lambda>_. wedged game b) (\<lambda>_. wedged game b) w"
    "wp (on_deadline reg env) (\<lambda>_. wedged game b) (\<lambda>_. wedged game b) w"
proof -
  from w obtain m where m: "w_meta w = Some m" "meta_game m = game" "meta_phase m = Phase_active"
      "meta_deadline m = None" "bet_user b \<in> set (meta_members m)"
    by (auto simp: wedged_def)
  show "wp (apply_create reg sid rng env gs p) (\<lambda>_. wedged game b) (\<lambda>_. wedged game b) w"
    using w by (simp add: apply_create_def m)
  show "wp (apply_join reg env p) (\<lambda>_. wedged game b) (\<lambda>_. wedged game b) w"
    using w by (auto simp: apply_join_def seat_player_def m model game Let_def wp_index_session
        split: option.split intro!: wedged_meta)
  show "wp (apply_view reg env p) (\<lambda>_. wedged game b) (\<lambda>_. wedged game b) w"
    using w by (auto simp: apply_view_def split: option.split)
  show "wp (on_deadline reg env) (\<lambda>_. wedged game b) (\<lambda>_. wedged game b) w"
    using w by (simp add: on_deadline_def m)
qed

lemma wp_weaken: "wp m Q E w \<Longrightarrow> (\<And>x w'. Q x w' \<Longrightarrow> P w') \<Longrightarrow> (\<And>e w'. E e w' \<Longrightarrow> P w') \<Longrightarrow> wp m (\<lambda>_. P) (\<lambda>_. P) w"
  by (rule wp_mono)

lemma wedged_step:
  assumes model: "resolve_model (gs_kind game) reg = Some (wagering_table spec)" and game: "gs_mode game = Table"
    and w: "wedged game b w"
  shows "wedged game b (live_step reg sid rng w x)"
proof (cases x)
  case (Inl y)
  obtain env op where y: "y = (env, op)" by force
  have leave: "wp (apply_leave reg env p) (\<lambda>_. wedged game b) (\<lambda>_. wedged game b) w" for p
    by (rule wp_weaken [OF leave_wedged [OF model w]]) auto
  have close: "wp (apply_close reg env p) (\<lambda>_. wedged game b) (\<lambda>_. wedged game b) w"
      "wp (apply_operator_close reg env key r) (\<lambda>_. wedged game b) (\<lambda>_. wedged game b) w" for p key r
    by (rule wp_weaken [OF closes_wedged(1) [OF model game w]], simp_all)
      (rule wp_weaken [OF closes_wedged(2) [OF model game w]], simp_all)
  have "wp (session_step reg sid rng (env, op)) (\<lambda>_. wedged game b) (\<lambda>_. wedged game b) w"
    by (cases op) (simp_all add: others_wedged [OF model game w] leave close action_wedged [OF model game w])
  then show ?thesis using Inl y by (simp only: wp_snd live_step.simps)
next
  case (Inr op)
  have ok: "ledger_ok (w_ledger w)" using wedged_spent [OF w] by (simp add: hold_spent_def)
  have "hold_spent (keep_on_error (w_ledger w) (ledger_step (w_ledger w) op)) (bet_ref b)"
  proof (cases "ledger_step (w_ledger w) op")
    case (Inr db)
    then show ?thesis
      using hold_spent_extends [OF wedged_spent [OF w]] ledger_ops.step_inv [OF ok Inr] ledger_step_extends [OF ok Inr]
      by simp
  qed (use wedged_spent [OF w] in simp)
  with Inr wedged_ledger [OF w] show ?thesis by simp
qed

section \<open>The properties\<close>

text \<open>Whatever is asked of a session and whatever fails in it, half-way through a settlement
  included, the ledger it settles through stays sound: entries sum to balances, open holds to
  reservations, and nothing is overdrawn.\<close>

theorem session_keeps_ledger:
  assumes "ledger_ok (w_ledger w)"
  shows "account_sound (w_ledger (session_run reg sid rng w steps)) k"
  by (rule ledger_ok_account_sound [OF session_run_books [OF assms]])

theorem session_keeps_ledger_witness:
  "account_sound (w_ledger (session_run [craps_game] ''t'' sample_rng (unborn rich_bank)
     [(banked 2, Create craps_night ''ann'')])) (''ann'', ''chips'')"
  by (rule session_keeps_ledger) (simp add: unborn_def rich_bank_ok(1))

lemma wp_fails: "wp m (\<lambda>_ _. False) E w \<Longrightarrow> \<exists>e. fst (m w) = Inl e"
  by (auto simp: wp_def split: prod.splits sum.splits)


text \<open>An operator releases a pending bet's hold through the ledger's admin surface.\<close>

definition tampered :: craps_world where
  "tampered = live_step [craps_game] ''t'' sample_rng wagered (Inr (Op_managed_release ''t:bet:0'' None None 6))"

lemma tampered_eval:
  "map_option (\<lambda>m. (meta_game m, meta_phase m, meta_deadline m, meta_members m)) (w_meta tampered)
     = Some (craps_night, Phase_active, None, [''ann''])"
  "w_closed tampered = None"
  "map hold_ref (filter (\<lambda>h. hold_status h \<noteq> Open) (holds (w_ledger tampered))) = [''t:bet:0'']"
  "map_option (\<lambda>st. map (\<lambda>b. (bet_user b, bet_ref b)) (tbl_bets st)) (w_state tampered)
     = Some [(''ann'', ''t:bet:0''), (''ann'', ''t:bet:1'')]"
  by code_simp+

lemma wagered_ledger_ok: "ledger_ok (w_ledger wagered)"
proof -
  have "ledger_ok (w_ledger (snd opened))"
    unfolding opened_def by (rule session_step_books) (simp add: unborn_def rich_bank_ok(1))
  then show ?thesis
    unfolding wagered_def ann_wagers_def foldl.simps live_step.simps by (intro session_step_books)
qed


lemma resolving_spends:
  assumes "ledger_ok db" and "resolves r e" and "apply_effect False at db e = Inr db'"
  shows "hold_spent db' r"
proof -
  have ok: "ledger_ok db'" using apply_effect_ok [OF assms(1,3)] by blast
  have step: "ledger_step db (effect_op at e) = Inr db'"
    using assms(3) by (auto simp: apply_effect_def split: sum.splits ledger_effect.splits)
  have "\<exists>h. find_hold db' r = Some h \<and> hold_status h \<noteq> Open"
    using answered_after [OF assms(1) step] assms(2) by (cases e) auto
  then show ?thesis using ok find_hold_SomeD unfolding hold_spent_def by blast
qed

lemma settling_spends:
  assumes "ledger_ok db" and "list_ex (resolves r) es" and "settle_all (apply_effect False at) db es = (db', None)"
  shows "hold_spent db' r"
  using assms
proof (induction es arbitrary: db)
  case (Cons e es)
  from Cons.prems(3) obtain db1 where e: "apply_effect False at db e = Inr db1"
    and es: "settle_all (apply_effect False at) db1 es = (db', None)" by (auto split: sum.splits)
  have ok: "ledger_ok db1" using apply_effect_ok [OF Cons.prems(1) e] by blast
  show ?case
  proof (cases "resolves r e")
    case True
    from resolving_spends [OF Cons.prems(1) this e] settle_all_spent [OF _ es] show ?thesis by blast
  next
    case False
    with Cons.IH [OF ok _ es] Cons.prems(2) show ?thesis by simp
  qed
qed simp

text \<open>C16: One failure of the ledger half-way through a roll is enough. When the effects of an
  action settle up to one the ledger fails at, and a pending bet's hold was resolved before it, the
  action is refused, the felt is left as it was with that bet on it, and the table is wedged: the
  retry the refusal invites settles the same holds again and can never succeed.\<close>

theorem partial_settlement_wedges:
  assumes model: "resolve_model (gs_kind game) reg = Some (wagering_table spec)" and game: "gs_mode game = Table"
    and m: "w_meta w = Some m" "meta_game m = game" "meta_phase m = Phase_active" "meta_deadline m = None"
      "w_closed w = None" "w_state w = Some st" "p \<in> set (meta_members m)"
    and b: "b \<in> set (tbl_bets st)" "bet_user b \<in> set (meta_members m)"
    and ledger: "ledger_ok (w_ledger w)" "env_ledger env"
    and act: "a \<noteq> Unrecognized" "table_apply spec (make_context m env) (meta_rng m) st p a = Inr ((st', es), g)"
    and settled: "settled = takeWhile (\<lambda>e. \<not> env_ledger_down env e) es" "settled \<noteq> es"
      "list_ex (resolves (bet_ref b)) settled"
      "settle_all (apply_effect False (env_now env)) (w_ledger w) settled = (db, None)"
  shows "apply_action reg env p a w = (Inl D1_failed, w\<lparr>w_ledger := db\<rparr>) \<and> wedged game b (w\<lparr>w_ledger := db\<rparr>)"
proof -
  have "settle env False es w = (Inl D1_failed, w\<lparr>w_ledger := db\<rparr>)"
    using ledger(2) settled(4) settled(2) unfolding settle_def Let_def settled(1) [symmetric]
    by (simp add: composed_effects settled(1) [symmetric] del: takeWhile_eq_all_conv)
  then have "apply_action reg env p a w = (Inl D1_failed, w\<lparr>w_ledger := db\<rparr>)"
    using m model game act
    by (simp add: apply_action_def member_meta_def session_model_def load_state_def proc_defs wagering_table_def)
  moreover have "hold_spent db (bet_ref b)"
    by (rule settling_spends [OF ledger(1) settled(3,4)])
  ultimately show ?thesis using m b by (simp add: wedged_def)
qed

text \<open>The roll at the two wagers: a nine, on which the field bet pays and the pass bet stands.\<close>

definition wagered_felt :: "(craps_round, craps_bet_type) table_state" where
  "wagered_felt = \<lparr>tbl_round = \<lparr>cr_phase = Come_out, cr_point = None, cr_shooter = 0, cr_last = None\<rparr>,
     tbl_bets = [\<lparr>bet_user = ''ann'', bet_ref = ''t:bet:0'', bet_amount = 3, bet_data = Field\<rparr>,
                 \<lparr>bet_user = ''ann'', bet_ref = ''t:bet:1'', bet_amount = 4, bet_data = Pass\<rparr>],
     tbl_seq = 2, tbl_last = []\<rparr>"

definition payout_down :: session_env where
  "payout_down = (banked 9)\<lparr>env_ledger_down := (\<lambda>e. case e of E_credit _ _ _ _ _ \<Rightarrow> True | _ \<Rightarrow> False)\<rparr>"

lemma wagered_world:
  "w_state wagered = Some wagered_felt" "w_closed wagered = None"
  "w_meta wagered = Some \<lparr>meta_session = ''t'', meta_game = craps_night, meta_phase = Phase_active,
     meta_members = [''ann''], meta_joined = Some [''ann''], meta_created = 2, meta_deadline = None,
     meta_rng = sample_rng\<rparr>"
  by code_simp+

lemma sample_draws:
  "draw (seed_to_base ''ab'') 0 = 4035680441" "draw (seed_to_base ''ab'') (Suc 0) = 1476027537"
proof -
  have b: "seed_to_base ''ab'' = 424046158"
    by (simp add: seed_to_base_def seed_round_def Let_def of_char_def push_bit_eq_mult drop_bit_eq_div)
  show "draw (seed_to_base ''ab'') 0 = 4035680441" "draw (seed_to_base ''ab'') (Suc 0) = 1476027537"
    unfolding b by (simp_all add: draw_def xorshift_def Let_def)
qed

lemma sample_roll:
  "rng_int 1 6 sample_rng = (6, sample_rng\<lparr>cursor := Suc 0\<rparr>)"
  "rng_int 1 6 (sample_rng\<lparr>cursor := Suc 0\<rparr>) = (3, sample_rng\<lparr>cursor := 2\<rparr>)"
  by (simp_all add: rng_int_def next_draw_def sample_rng_def sample_draws floor_scaled_def)

lemma wagered_roll:
  "\<exists>st. table_apply craps_spec (table_ctx ''t'' sample_rules [''ann''] 9) sample_rng wagered_felt ''ann'' Event =
     Inr ((st, [E_release ''t:bet:0'', E_credit ''ann'' ''chips'' (JSInt 3) ''t:bet:0:win'' (Some ''craps win'')]),
       sample_rng\<lparr>cursor := 2\<rparr>)"
  by (simp add: table_apply_def table_event_def may_trigger_def craps_driver_def craps_event_def sample_roll
      table_ctx_def wagered_felt_def sample_rules_def craps_decision_def pass_outcome_def field_win_def
      bet_effects_def decided_def win_ref_def Let_def)

theorem partial_settlement_wedges_witness:
  "\<exists>b db. fst (apply_action [craps_game] payout_down ''ann'' Event wagered) = Inl D1_failed
     \<and> bet_ref b = ''t:bet:0'' \<and> wedged craps_night b (wagered\<lparr>w_ledger := db\<rparr>)"
proof -
  let ?m = "\<lparr>meta_session = ''t'', meta_game = craps_night, meta_phase = Phase_active, meta_members = [''ann''],
     meta_joined = Some [''ann''], meta_created = 2, meta_deadline = None, meta_rng = sample_rng\<rparr>
     :: craps_config session_meta"
  let ?b = "\<lparr>bet_user = ''ann'', bet_ref = ''t:bet:0'', bet_amount = 3, bet_data = Field\<rparr>"
  let ?es = "[E_release ''t:bet:0'', E_credit ''ann'' ''chips'' (JSInt 3) ''t:bet:0:win'' (Some ''craps win'')]"
  have ctx: "make_context ?m payout_down = table_ctx ''t'' sample_rules [''ann''] 9"
    by (simp add: make_context_table craps_night_def payout_down_def banked_def)
  obtain st where roll: "table_apply craps_spec (make_context ?m payout_down) (meta_rng ?m) wagered_felt ''ann'' Event
      = Inr ((st, ?es), sample_rng\<lparr>cursor := 2\<rparr>)"
    unfolding ctx using wagered_roll by auto
  have reached: "takeWhile (\<lambda>e. \<not> env_ledger_down payout_down e) ?es = [E_release ''t:bet:0'']"
    by (simp add: payout_down_def)
  have "snd (settle_all (apply_effect False 9) (w_ledger wagered) [E_release ''t:bet:0'']) = None"
    by code_simp
  then obtain db where db: "settle_all (apply_effect False (env_now payout_down)) (w_ledger wagered)
      [E_release ''t:bet:0''] = (db, None)"
    by (cases "settle_all (apply_effect False 9) (w_ledger wagered) [E_release ''t:bet:0'']")
      (simp add: payout_down_def banked_def)
  have t: "gs_mode craps_night = Table" "env_ledger payout_down" by (simp_all add: craps_night_def payout_down_def banked_def)
  have "apply_action [craps_game] payout_down ''ann'' Event wagered = (Inl D1_failed, wagered\<lparr>w_ledger := db\<rparr>)
      \<and> wedged craps_night ?b (wagered\<lparr>w_ledger := db\<rparr>)"
    by (rule partial_settlement_wedges [OF craps_registered t(1) wagered_world(3) _ _ _ wagered_world(2,1) _ _ _
          wagered_ledger_ok t(2) _ roll reached [symmetric] _ _ db])
      (simp_all add: wagered_felt_def)
  then show ?thesis by (intro exI [of _ ?b] exI [of _ db]) simp
qed

end
