(* ===== verification/Simultaneous.thy ===== *)
theory Simultaneous
  imports Game_Model
begin

text \<open>
  The simultaneous pattern of \<open>packages/multiplayer/src/game/patterns/simultaneous.ts\<close>, the contract
  of a game whose players hold secrets, and Battle, \<open>games/battle.ts\<close>, built on it.
\<close>

section \<open>The pattern\<close>

record ('c, 'p, 'm) simultaneous_spec =
  ss_kind :: string
  ss_min_players :: "nat option"
  ss_max_players :: "nat option"
  ss_parse :: "'p \<Rightarrow> 'm option"  \<comment> \<open>the submission's schema\<close>
  ss_validate :: "'c \<Rightarrow> 'm \<Rightarrow> 'c game_ctx \<Rightarrow> game_error + unit"
  ss_score :: "'c game_ctx \<Rightarrow> (user_id \<Rightarrow> 'm option) \<Rightarrow> model_outcome \<times> ledger_effect list"

record 'm simultaneous_state =
  submissions :: "user_id \<Rightarrow> 'm option"

record 'm seat_view =
  seat_user :: user_id
  seat_submitted :: bool
  seat_submission :: "'m option"

record 'm simultaneous_view =
  sv_you :: "'m seat_view"
  sv_opponents :: "'m seat_view list"

definition simultaneous_init :: "'c game_ctx \<Rightarrow> rng_state \<Rightarrow> 'm simultaneous_state \<times> rng_state" where
  "simultaneous_init ctx g = (\<lparr>submissions = (\<lambda>_. None)\<rparr>, g)"

definition simultaneous_apply ::
  "('c, 'p, 'm) simultaneous_spec \<Rightarrow> 'c game_ctx \<Rightarrow> rng_state \<Rightarrow> 'm simultaneous_state \<Rightarrow> user_id \<Rightarrow> 'p
     \<Rightarrow> game_error + 'm simultaneous_state applied_result" where
  "simultaneous_apply spec ctx g st p action =
     (if submissions st p \<noteq> None then Inl Invalid_transition
      else
        (case ss_parse spec action of
           None \<Rightarrow> Inl Malformed
         | Some m \<Rightarrow>
             and_then (ss_validate spec (game_config ctx) m ctx) (\<lambda>_.
               Inr ((\<lparr>submissions = (submissions st)(p \<mapsto> m)\<rparr>, []), g))))"

definition simultaneous_complete :: "'c game_ctx \<Rightarrow> 'm simultaneous_state \<Rightarrow> bool" where
  "simultaneous_complete ctx st \<longleftrightarrow> list_all (\<lambda>p. submissions st p \<noteq> None) (players ctx)"

definition simultaneous_redact ::
  "'c game_ctx \<Rightarrow> 'm simultaneous_state \<Rightarrow> user_id \<Rightarrow> bool \<Rightarrow> 'm simultaneous_view" where
  "simultaneous_redact ctx st viewer revealed =
     \<lparr>sv_you = \<lparr>seat_user = viewer, seat_submitted = (submissions st viewer \<noteq> None),
               seat_submission = submissions st viewer\<rparr>,
      sv_opponents = map (\<lambda>m. \<lparr>seat_user = m, seat_submitted = (submissions st m \<noteq> None),
               seat_submission = (if revealed then submissions st m else None)\<rparr>)
        (filter (\<lambda>m. m \<noteq> viewer) (players ctx))\<rparr>"

definition simultaneous ::
  "('c, 'p, 'm) simultaneous_spec \<Rightarrow> ('c, 'm simultaneous_state, 'p, 'm simultaneous_view) game_model" where
  "simultaneous spec =
     \<lparr>gm_kind = ss_kind spec, gm_min_players = ss_min_players spec,
      gm_max_players = ss_max_players spec, gm_moves_balances = False,
      gm_accepts = (\<lambda>a. ss_parse spec a \<noteq> None),
      gm_init = simultaneous_init, gm_apply = simultaneous_apply spec,
      gm_complete = simultaneous_complete, gm_resolve = (\<lambda>ctx st. ss_score spec ctx (submissions st)),
      gm_redact = simultaneous_redact, gm_on_join = None, gm_on_leave = None\<rparr>"

section \<open>The contract of a game with secrets\<close>

text \<open>
  What \<open>redact\<close> owes: until the reveal, a view is a function of the viewer's own secret and of who
  holds one. A client that only ever shows redacted views then shows nothing of anyone's secret,
  however many views it shows and whatever happens between them.
\<close>

locale hidden_state =
  fixes redact :: "'c game_ctx \<Rightarrow> 's \<Rightarrow> user_id \<Rightarrow> bool \<Rightarrow> 'v"
    and secret :: "'s \<Rightarrow> user_id \<Rightarrow> 'x option"
  assumes redact_hides:
    "secret s viewer = secret s' viewer \<Longrightarrow>
     (\<And>p. p \<in> set (players ctx) \<Longrightarrow> secret s p = None \<longleftrightarrow> secret s' p = None) \<Longrightarrow>
     redact ctx s viewer False = redact ctx s' viewer False"
begin

text \<open>Two runs of states that agree on a player's own secrets and on who has committed.\<close>

definition alike :: "user_id \<Rightarrow> user_id list \<Rightarrow> 's \<Rightarrow> 's \<Rightarrow> bool" where
  "alike viewer ps s s' \<longleftrightarrow> secret s viewer = secret s' viewer
     \<and> (\<forall>p\<in>set ps. secret s p = None \<longleftrightarrow> secret s' p = None)"

lemma views_alike:
  "list_all2 (alike viewer (players ctx)) ss ss' \<Longrightarrow>
     map (\<lambda>s. redact ctx s viewer False) ss = map (\<lambda>s. redact ctx s viewer False) ss'"
  by (induction ss ss' rule: list_all2_induct) (auto simp: alike_def intro: redact_hides)

end

interpretation sealed: hidden_state simultaneous_redact submissions
proof unfold_locales
  fix s s' :: "'m simultaneous_state" and viewer and ctx :: "'c game_ctx"
  assume "submissions s viewer = submissions s' viewer"
    and "\<And>p. p \<in> set (players ctx) \<Longrightarrow> submissions s p = None \<longleftrightarrow> submissions s' p = None"
  then show "simultaneous_redact ctx s viewer False = simultaneous_redact ctx s' viewer False"
    unfolding simultaneous_redact_def by (simp del: not_None_eq)
qed

section \<open>Battle\<close>

record offense_move =
  om_name :: string
  om_power :: int

record defense_move =
  dm_name :: string
  dm_blocks :: string

record battle_config =
  bc_offense_pick :: nat
  bc_offense :: "offense_move list"
  bc_defense_pick :: nat
  bc_defense :: "defense_move list"

text \<open>What the config's schema and its check accept; powers are integers here.\<close>

definition battle_config_ok :: "battle_config \<Rightarrow> bool" where
  "battle_config_ok c \<longleftrightarrow>
     list_all (\<lambda>m. om_name m \<noteq> [] \<and> 0 \<le> om_power m) (bc_offense c)
     \<and> list_all (\<lambda>m. dm_name m \<noteq> [] \<and> dm_blocks m \<noteq> []) (bc_defense c)
     \<and> distinct (map om_name (bc_offense c))
     \<and> bc_offense_pick c \<le> length (remdups (map om_name (bc_offense c)))
     \<and> distinct (map dm_name (bc_defense c))
     \<and> bc_defense_pick c \<le> length (remdups (map dm_name (bc_defense c)))
     \<and> list_all (\<lambda>m. dm_blocks m \<in> set (map om_name (bc_offense c))) (bc_defense c)"

record battle_move =
  bm_offense :: "string list"
  bm_defense :: "string list"

definition assert_picks :: "string list \<Rightarrow> nat \<Rightarrow> string list \<Rightarrow> game_error + unit" where
  "assert_picks picks pick allowed =
     (if length picks \<noteq> pick then Inl Invalid_move
      else if length (remdups picks) \<noteq> length picks then Inl Invalid_move
      else if list_ex (\<lambda>n. n \<notin> set allowed) picks then Inl Invalid_move
      else Inr ())"

definition validate_move :: "battle_config \<Rightarrow> battle_move \<Rightarrow> game_error + unit" where
  "validate_move c m =
     and_then (assert_picks (bm_offense m) (bc_offense_pick c) (map om_name (bc_offense c)))
       (\<lambda>_. assert_picks (bm_defense m) (bc_defense_pick c) (map dm_name (bc_defense c)))"

text \<open>\<open>new Map(\<dots>)\<close>: of two moves of one name the later is kept.\<close>

definition power_of :: "battle_config \<Rightarrow> string \<Rightarrow> int" where
  "power_of c n = (case map_of (rev (map (\<lambda>m. (om_name m, om_power m)) (bc_offense c))) n of
     None \<Rightarrow> 0 | Some p \<Rightarrow> p)"

definition blocks_of :: "battle_config \<Rightarrow> string \<Rightarrow> string list" where
  "blocks_of c n = (case map_of (rev (map (\<lambda>m. (dm_name m, dm_blocks m)) (bc_defense c))) n of
     None \<Rightarrow> [] | Some b \<Rightarrow> if b = [] then [] else [b])"

definition defense_of :: "(user_id \<Rightarrow> battle_move option) \<Rightarrow> user_id \<Rightarrow> string list" where
  "defense_of subs p = (case subs p of None \<Rightarrow> [] | Some m \<Rightarrow> bm_defense m)"

definition offense_of :: "(user_id \<Rightarrow> battle_move option) \<Rightarrow> user_id \<Rightarrow> string list" where
  "offense_of subs p = (case subs p of None \<Rightarrow> [] | Some m \<Rightarrow> bm_offense m)"

definition blocked_for ::
  "battle_config \<Rightarrow> (user_id \<Rightarrow> battle_move option) \<Rightarrow> user_id list \<Rightarrow> user_id \<Rightarrow> string list" where
  "blocked_for c subs ps me =
     concat (map (\<lambda>other. if other = me then []
       else concat (map (blocks_of c) (defense_of subs other))) ps)"

definition score_for ::
  "battle_config \<Rightarrow> (user_id \<Rightarrow> battle_move option) \<Rightarrow> user_id list \<Rightarrow> user_id \<Rightarrow> int" where
  "score_for c subs ps me =
     foldl (\<lambda>acc move. acc + (if move \<in> set (blocked_for c subs ps me) then 0 else power_of c move))
       0 (offense_of subs me)"

definition score_battle ::
  "battle_config \<Rightarrow> (user_id \<Rightarrow> battle_move option) \<Rightarrow> user_id list \<Rightarrow> model_outcome" where
  "score_battle c subs ps =
     (let score = score_for c subs ps;
          top = fold max (map score (tl ps)) (case ps of [] \<Rightarrow> 0 | p # _ \<Rightarrow> score p);
          leaders = filter (\<lambda>p. score p = top) ps;
          draw = (length leaders \<noteq> 1)
      in \<lparr>out_scores = map (\<lambda>p. (p, score p)) ps,
          out_winner = (if draw then None else Some (hd leaders)), out_draw = draw\<rparr>)"

definition battle_spec :: "(battle_config, battle_move option, battle_move) simultaneous_spec" where
  "battle_spec =
     \<lparr>ss_kind = ''battle'', ss_min_players = Some 2, ss_max_players = None, ss_parse = id,
      ss_validate = (\<lambda>c m _. validate_move c m),
      ss_score = (\<lambda>ctx subs. (score_battle (game_config ctx) subs (players ctx), []))\<rparr>"

definition battle_game where
  "battle_game = simultaneous battle_spec"

section \<open>Scores\<close>

lemma assert_picks_iff:
  "assert_picks picks n allowed = Inr () \<longleftrightarrow> length picks = n \<and> distinct picks \<and> set picks \<subseteq> set allowed"
  by (auto simp: assert_picks_def list_ex_iff length_remdups_card_conv card_distinct distinct_card)

lemma foldl_add_sum: "foldl (\<lambda>acc x. acc + f x) (a::int) xs = a + sum_list (map f xs)"
  by (induction xs arbitrary: a) simp_all

lemma sum_list_unless: "sum_list (map (\<lambda>x. if P x then 0 else (f x::int)) xs) = sum_list (map f (filter (\<lambda>x. \<not> P x) xs))"
  by (induction xs) simp_all

lemma score_for_sum:
  "score_for c subs ps me =
     sum_list (map (power_of c) (filter (\<lambda>m. m \<notin> set (blocked_for c subs ps me)) (offense_of subs me)))"
  unfolding score_for_def foldl_add_sum by (simp add: sum_list_unless)

text \<open>The outcome over the roster's scores.\<close>

lemma score_battle_top:
  fixes f :: "user_id \<Rightarrow> int"
  assumes "ps \<noteq> []"
  shows "fold max (map f (tl ps)) (case ps of [] \<Rightarrow> 0 | p # _ \<Rightarrow> f p) = Max (f ` set ps)"
  using assms by (cases ps) (simp_all add: Max.set_eq_fold [symmetric])

lemma distinct_singleton: "distinct xs \<Longrightarrow> xs = [w] \<longleftrightarrow> set xs = {w}"
proof (cases xs)
  case (Cons a as)
  assume "distinct xs"
  then show ?thesis using Cons by (cases as) auto
qed simp

lemma leaders_top:
  assumes "ps \<noteq> []" "distinct ps"
  shows "filter (\<lambda>p. f p = Max (f ` set ps)) ps = [w] \<longleftrightarrow>
    w \<in> set ps \<and> (\<forall>p\<in>set ps. p \<noteq> w \<longrightarrow> f p < (f w :: int))"
proof -
  let ?L = "filter (\<lambda>p. f p = Max (f ` set ps)) ps"
  have d: "distinct ?L" using assms(2) by simp
  have "?L = [w] \<longleftrightarrow> set ?L = {w}"
    using distinct_singleton [OF d] .
  also have "\<dots> \<longleftrightarrow> w \<in> set ps \<and> f w = Max (f ` set ps) \<and> (\<forall>p\<in>set ps. f p = Max (f ` set ps) \<longrightarrow> p = w)"
    by auto
  also have "\<dots> \<longleftrightarrow> w \<in> set ps \<and> (\<forall>p\<in>set ps. p \<noteq> w \<longrightarrow> f p < f w)"
  proof -
    have le: "f p \<le> Max (f ` set ps)" if "p \<in> set ps" for p using that by simp
    have "Max (f ` set ps) \<in> f ` set ps" using assms(1) by simp
    then obtain q where q: "q \<in> set ps" "f q = Max (f ` set ps)" by auto
    show ?thesis using le q by (metis less_le not_less)
  qed
  finally show ?thesis .
qed

end
