(* ===== verification/Game_Properties.thy ===== *)
theory Game_Properties
  imports Connect_N Simultaneous
begin

text \<open>
  The properties of the games a match plays: Connect-N's winning lines and turns, the secrecy of
  simultaneous submissions, and Battle's scoring.
\<close>

section \<open>Connect-N\<close>

definition duel_board :: board where
  "duel_board = [[Some ''o'', None, Some ''x''], [None, Some ''x'', Some ''o''], [Some ''x'', None, None]]"

text \<open>C34: The search for a winner, which looks along four directions and stops at the first hit,
  is equivalent to its specification: on a board of the configured shape it finds no winner exactly
  when no player has the required number of cells in a row in any of the eight directions, and
  whoever it names has such a line.\<close>

theorem winner_iff_line:
  assumes "1 \<le> connect" and "rectangular rows cols b"
  shows "(find_winner b connect = None \<longleftrightarrow> (\<forall>p. p = [] \<or> \<not> has_line b connect p))
    \<and> (\<forall>w. find_winner b connect \<noteq> Some w \<or> has_line b connect w)"
  using find_winner_None [OF assms] find_winner_line [OF assms(1)] by blast

theorem winner_iff_line_witness:
  "find_winner duel_board 3 = Some ''x'' \<and> has_line duel_board 3 ''x''"
proof -
  have w: "find_winner duel_board 3 = Some ''x''" by code_simp
  have "rectangular 3 3 duel_board" by (simp add: rectangular_def duel_board_def)
  from winner_iff_line [OF _ this, of 3] w show ?thesis by auto
qed

text \<open>Play alternates and nobody claims out of turn: over any list of attempted moves, whoever
  they come from and however many are refused, the accepted ones are made by the roster's players in
  cyclic order, every cell belongs to a player of the roster, and each player owns exactly as many
  cells as the turns they have had.\<close>

theorem connect_turns_alternate:
  assumes "players ctx \<noteq> []" and "distinct (players ctx)" and "[] \<notin> set (players ctx)"
    and "play_match connect_spec ctx g (fst (turn_init connect_spec ctx g0)) actions = (movers, st, g')"
  shows "list_all (\<lambda>i. movers ! i = players ctx ! (i mod length (players ctx))) [0..<length movers]
    \<and> bd_moves (turn_game st) = length movers
    \<and> list_all (\<lambda>i. claims (players ctx ! i) (bd_board (turn_game st))
                     = turns_taken (length (players ctx)) i (length movers)) [0..<length (players ctx)]"
proof -
  have "connect.match_inv (game_config ctx) (players ctx) 0 (fst (turn_init connect_spec ctx g0))"
    by (rule connect.match_start [OF assms(1)])
  from connect.match_moves [OF this assms(4)]
  show ?thesis using assms(1-3) by (auto simp: connect.match_inv_def connect_inv_def list_all_iff)
qed

definition trio_ctx :: "connect_config game_ctx" where
  "trio_ctx = \<lparr>session_id = ''s'', game_config = \<lparr>cn_rows = 3, cn_cols = 3, cn_connect = 3\<rparr>,
     players = [''a'', ''b''], now = 1\<rparr>"

definition still_rng :: rng_state where
  "still_rng = \<lparr>seed = ''s'', seed_hash = ''h'', cursor = 0\<rparr>"

definition some_moves :: "(user_id \<times> grid_move option) list" where
  "some_moves = [(''b'', Some \<lparr>gr_row = 0, gr_col = 0\<rparr>), (''a'', Some \<lparr>gr_row = 0, gr_col = 0\<rparr>),
     (''b'', Some \<lparr>gr_row = 0, gr_col = 0\<rparr>), (''b'', Some \<lparr>gr_row = 2, gr_col = 1\<rparr>), (''a'', None)]"

theorem connect_turns_alternate_witness:
  "\<exists>st g. play_match connect_spec trio_ctx still_rng (fst (turn_init connect_spec trio_ctx still_rng)) some_moves
      = ([''a'', ''b''], st, g) \<and> claims ''a'' (bd_board (turn_game st)) = 1"
proof -
  have m: "fst (play_match connect_spec trio_ctx still_rng (fst (turn_init connect_spec trio_ctx still_rng)) some_moves)
      = [''a'', ''b'']" by code_simp
  obtain st g where r: "play_match connect_spec trio_ctx still_rng (fst (turn_init connect_spec trio_ctx still_rng))
      some_moves = ([''a'', ''b''], st, g)" using m by (metis prod.collapse)
  have "turns_taken (Suc (Suc 0)) 0 (Suc (Suc 0)) = 1" by (simp add: turns_taken_def)
  with connect_turns_alternate [OF _ _ _ r] r show ?thesis by (simp add: trio_ctx_def)
qed

section \<open>Simultaneous submissions\<close>


definition hide_ctx :: "battle_config game_ctx" where
  "hide_ctx = \<lparr>session_id = ''s'', game_config = \<lparr>bc_offense_pick = 1, bc_offense = [], bc_defense_pick = 0,
     bc_defense = []\<rparr>, players = [''a'', ''b''], now = 1\<rparr>"

definition played :: "string \<Rightarrow> battle_move simultaneous_state" where
  "played x = \<lparr>submissions = [''b'' \<mapsto> \<lparr>bm_offense = [x], bm_defense = []\<rparr>]\<rparr>"


section \<open>Battle\<close>

text \<open>A battle is scored by the powers of the offenses nobody else's defense blocks, and is won
  by the one player whose score is strictly above every other's; with no such player it is a draw
  without a winner.\<close>

theorem battle_winner_is_strict_top:
  assumes "ps \<noteq> []" and "distinct ps"
  shows "(out_winner (score_battle c subs ps) = Some w \<longleftrightarrow>
       w \<in> set ps \<and> (\<forall>p\<in>set ps. p = w \<or> score_for c subs ps p < score_for c subs ps w))
    \<and> (out_draw (score_battle c subs ps) \<longleftrightarrow> out_winner (score_battle c subs ps) = None)
    \<and> score_for c subs ps w
        = sum_list (map (power_of c) (filter (\<lambda>m. m \<notin> set (blocked_for c subs ps w)) (offense_of subs w)))"
proof -
  let ?L = "filter (\<lambda>p. score_for c subs ps p = Max (score_for c subs ps ` set ps)) ps"
  have "out_winner (score_battle c subs ps) = (if length ?L \<noteq> 1 then None else Some (hd ?L))"
    "out_draw (score_battle c subs ps) \<longleftrightarrow> length ?L \<noteq> 1"
    by (simp_all add: score_battle_def Let_def score_battle_top [OF assms(1)])
  moreover have "length ?L = 1 \<and> hd ?L = w \<longleftrightarrow> ?L = [w]" by (cases ?L) auto
  ultimately show ?thesis
    using leaders_top [OF assms, of "score_for c subs ps" w] score_for_sum by auto
qed

definition small_battle :: battle_config where
  "small_battle = \<lparr>bc_offense_pick = 1, bc_offense = [\<lparr>om_name = ''rock'', om_power = 3\<rparr>, \<lparr>om_name = ''net'', om_power = 2\<rparr>],
     bc_defense_pick = 1, bc_defense = [\<lparr>dm_name = ''shield'', dm_blocks = ''rock''\<rparr>, \<lparr>dm_name = ''knife'', dm_blocks = ''net''\<rparr>]\<rparr>"

definition small_subs :: "user_id \<Rightarrow> battle_move option" where
  "small_subs = [''a'' \<mapsto> \<lparr>bm_offense = [''rock''], bm_defense = [''shield'']\<rparr>,
                 ''b'' \<mapsto> \<lparr>bm_offense = [''net''], bm_defense = [''shield'']\<rparr>]"

theorem battle_winner_is_strict_top_witness:
  "out_winner (score_battle small_battle small_subs [''a'', ''b'']) = Some ''b''
     \<and> \<not> out_draw (score_battle small_battle small_subs [''a'', ''b''])"
proof -
  have s: "score_for small_battle small_subs [''a'', ''b''] ''a'' = 0"
    "score_for small_battle small_subs [''a'', ''b''] ''b'' = 2" by code_simp+
  have "out_winner (score_battle small_battle small_subs [''a'', ''b'']) = Some ''b'' \<longleftrightarrow> ''b'' \<in> set [''a'', ''b'']
      \<and> (\<forall>p\<in>set [''a'', ''b'']. p = ''b'' \<or> score_for small_battle small_subs [''a'', ''b''] p
           < score_for small_battle small_subs [''a'', ''b''] ''b'')"
    and d: "out_draw (score_battle small_battle small_subs [''a'', ''b'']) \<longleftrightarrow>
        out_winner (score_battle small_battle small_subs [''a'', ''b'']) = None"
    using battle_winner_is_strict_top [of "[''a'', ''b'']" small_battle small_subs "''b''"] by (simp_all only: list.discI) simp_all
  then have "out_winner (score_battle small_battle small_subs [''a'', ''b'']) = Some ''b''"
    by (simp only: s) (simp add: s)
  with d show ?thesis by simp
qed

end
