(* ===== verification/Matchmaking.thy ===== *)
theory Matchmaking
  imports Pithy_Prelude "HOL-Library.Multiset" Complex_Main
begin

text \<open>
  The pairing rule of the open queue (\<open>packages/matchmaking/src/queue/matching.ts\<close>): how a ticket's
  skill window widens with its wait, who may share a roster, and the greedy sweep that forms full
  rosters. Skills and bands are exact rationals, an unbounded band is \<open>None\<close>.
\<close>

section \<open>Tickets\<close>

record queue_settings =
  initial_band :: rat
  widen_per_second :: rat
  max_wait_seconds :: int
  sweep_seconds :: int

record 'r match_snapshot =
  ms_kind :: string
  ms_is_table :: bool
  ms_turn_timeout :: "int option"
  ms_rules :: 'r

record 'r ticket =
  t_user :: user_id
  t_skill :: "rat option"
  t_region :: string
  t_players :: int
  t_snapshot :: "'r match_snapshot"
  t_settings :: queue_settings
  t_enqueued_at :: millis

section \<open>The skill window\<close>

definition band :: "'r ticket \<Rightarrow> millis \<Rightarrow> rat option" where
  "band t now =
     (if t_skill t = None then None
      else let elapsed = now - t_enqueued_at t; s = t_settings t in
        if elapsed \<ge> max_wait_seconds s * 1000 then None
        else Some (initial_band s + widen_per_second s * (of_int elapsed / 1000)))"

text \<open>\<open>skillBand\<close> answers the finite width, or null: the same option.\<close>

definition skill_band :: "'r ticket \<Rightarrow> millis \<Rightarrow> rat option" where
  "skill_band t now = (case band t now of Some width \<Rightarrow> Some width | None \<Rightarrow> None)"

text \<open>\<open>gap <= Math.max(a, b)\<close> where either may be infinite.\<close>

definition within_wider :: "rat \<Rightarrow> rat option \<Rightarrow> rat option \<Rightarrow> bool" where
  "within_wider gap a b =
     (case (a, b) of (Some x, Some y) \<Rightarrow> gap \<le> max x y | _ \<Rightarrow> True)"

definition compatible :: "'r ticket \<Rightarrow> 'r ticket \<Rightarrow> millis \<Rightarrow> bool" where
  "compatible a b now =
     (case (t_skill a, t_skill b) of
        (Some x, Some y) \<Rightarrow> within_wider \<bar>x - y\<bar> (band a now) (band b now)
      | _ \<Rightarrow> True)"

section \<open>Forming rosters\<close>

text \<open>Buckets by region, in the order the regions first appear.\<close>

fun bucket_push :: "'r ticket \<Rightarrow> (string \<times> 'r ticket list) list \<Rightarrow> (string \<times> 'r ticket list) list" where
  "bucket_push t [] = [(t_region t, [t])]"
| "bucket_push t ((r, b) # bs) =
     (if r = t_region t then (r, b @ [t]) # bs else (r, b) # bucket_push t bs)"

definition by_region :: "'r ticket list \<Rightarrow> (string \<times> 'r ticket list) list" where
  "by_region waiting = foldl (\<lambda>bs t. bucket_push t bs) [] waiting"

text \<open>
  The inner loop: candidates in wait order join the roster while it is short and they fit every
  member. The result is the roster and the tickets not chosen, in order.
\<close>

fun fill :: "int \<Rightarrow> millis \<Rightarrow> 'r ticket list \<Rightarrow> 'r ticket list \<Rightarrow> 'r ticket list \<times> 'r ticket list" where
  "fill need now roster [] = (roster, [])"
| "fill need now roster (c # cs) =
     (if int (length roster) < need \<and> (\<forall>m\<in>set roster. compatible m c now)
      then fill need now (roster @ [c]) cs
      else let (r, left) = fill need now roster cs in (r, c # left))"

lemma fill_left_shorter: "length (snd (fill need now roster cs)) \<le> length cs"
  by (induction cs arbitrary: roster) (auto simp: case_prod_beta intro: le_SucI)

text \<open>The pool loop: the oldest waiter's roster is formed, or that waiter is passed over.\<close>

function form_pool :: "millis \<Rightarrow> 'r ticket list \<Rightarrow> 'r ticket list list" where
  "form_pool now [] = []"
| "form_pool now (anchor # pool) =
     (let (roster, left) = fill (t_players anchor) now [anchor] pool in
      if int (length roster) = t_players anchor then roster # form_pool now left
      else form_pool now pool)"
  by pat_completeness auto
termination
proof (relation "measure (\<lambda>(now, pool). length pool)", goal_cases)
  case (2 now anchor pool x roster left)
  then show ?case
    using fill_left_shorter [of "t_players anchor" now "[anchor]" pool]
    by (metis case_prod_conv in_measure le_imp_less_Suc length_Cons snd_conv)
qed auto

definition form_rosters :: "'r ticket list \<Rightarrow> millis \<Rightarrow> 'r ticket list list" where
  "form_rosters waiting now =
     concat (map (\<lambda>(r, bucket). form_pool now (sort_key t_enqueued_at bucket)) (by_region waiting))"

definition form_matches :: "'r ticket list \<Rightarrow> millis \<Rightarrow> user_id list list" where
  "form_matches waiting now = map (map t_user) (form_rosters waiting now)"

section \<open>What the rule guarantees\<close>

lemma within_wider_sym: "within_wider g a b = within_wider g b a"
  by (auto simp: within_wider_def max.commute split: option.splits)

lemma compatible_sym: "compatible a b now = compatible b a now"
  by (simp add: compatible_def within_wider_sym abs_minus_commute split: option.splits)

text \<open>A wider wait never narrows the window.\<close>

lemma within_wider_mono:
  assumes "within_wider g a b"
    and "\<And>x y. a = Some x \<Longrightarrow> a' = Some y \<Longrightarrow> x \<le> y" and "a = None \<Longrightarrow> a' = None"
    and "\<And>x y. b = Some x \<Longrightarrow> b' = Some y \<Longrightarrow> x \<le> y" and "b = None \<Longrightarrow> b' = None"
  shows "within_wider g a' b'"
  using assms by (force simp: within_wider_def max_def split: option.splits if_splits)

lemma band_widens:
  assumes "now \<le> later" and "0 \<le> widen_per_second (t_settings t)"
  shows "(case (band t now, band t later) of
            (Some x, Some y) \<Rightarrow> x \<le> y | (None, Some y) \<Rightarrow> False | _ \<Rightarrow> True)"
proof -
  have "widen_per_second (t_settings t) * (of_int (now - t_enqueued_at t) / 1000)
      \<le> widen_per_second (t_settings t) * (of_int (later - t_enqueued_at t) / 1000)"
    using assms by (intro mult_left_mono divide_right_mono) auto
  then show ?thesis using assms(1) by (simp add: band_def Let_def)
qed

text \<open>A roster is sound when its members fit one another.\<close>

definition mutual :: "millis \<Rightarrow> 'r ticket list \<Rightarrow> bool" where
  "mutual now roster = (\<forall>a\<in>set roster. \<forall>b\<in>set roster. a \<noteq> b \<longrightarrow> compatible a b now)"

lemma mutual_append:
  "mutual now (roster @ [c]) \<longleftrightarrow> mutual now roster \<and> (\<forall>m\<in>set roster. m \<noteq> c \<longrightarrow> compatible m c now)"
  unfolding mutual_def by (auto simp: compatible_sym)

lemma fill_splits:
  "fill need now roster cs = (r, left) \<Longrightarrow> mset r + mset left = mset roster + mset cs"
proof (induction cs arbitrary: roster r left)
  case (Cons c cs)
  then show ?case by (cases "fill need now roster cs") (auto simp: Let_def split: if_splits)
qed simp

lemma fill_mutual:
  "fill need now roster cs = (r, left) \<Longrightarrow> mutual now roster \<Longrightarrow> mutual now r"
proof (induction cs arbitrary: roster r left)
  case (Cons c cs)
  then show ?case
    by (cases "fill need now roster cs") (auto simp: Let_def mutual_append split: if_splits)
qed simp

lemma fill_keeps_front:
  "fill need now roster cs = (r, left) \<Longrightarrow> \<exists>more. r = roster @ more"
proof (induction cs arbitrary: roster r left)
  case (Cons c cs)
  then show ?case by (cases "fill need now roster cs") (fastforce simp: Let_def split: if_splits)
qed simp

lemma fill_passes_over:
  "fill need now roster cs = (r, left) \<Longrightarrow> int (length r) < need \<Longrightarrow> c \<in> set left
     \<Longrightarrow> \<exists>m\<in>set r. \<not> compatible m c now"
proof (induction cs arbitrary: roster r left)
  case (Cons d cs)
  show ?case
  proof (cases "int (length roster) < need \<and> (\<forall>m\<in>set roster. compatible m d now)")
    case True
    with Cons show ?thesis by simp
  next
    case False
    obtain r' left' where f: "fill need now roster cs = (r', left')" by fastforce
    with Cons.prems(1) have r: "r = r'" "left = d # left'"
      unfolding fill.simps if_not_P [OF False] by simp_all
    obtain more where "r = roster @ more" using fill_keeps_front [OF f] r by auto
    with False Cons.prems(2) have "\<exists>m\<in>set r. \<not> compatible m d now" by auto
    with Cons.IH [OF f] Cons.prems r show ?thesis by auto
  qed
qed simp

lemma fill_full:
  "fill need now roster cs = (r, left) \<Longrightarrow> int (length roster) \<le> need \<Longrightarrow> int (length r) \<le> need"
proof (induction cs arbitrary: roster r left)
  case (Cons c cs)
  then show ?case
    by (cases "fill need now roster cs") (auto simp: Let_def split: if_splits)
qed simp

text \<open>What a pool's rosters are made of, and what they leave.\<close>

function left_pool :: "millis \<Rightarrow> 'r ticket list \<Rightarrow> 'r ticket list" where
  "left_pool now [] = []"
| "left_pool now (anchor # pool) =
     (let (roster, left) = fill (t_players anchor) now [anchor] pool in
      if int (length roster) = t_players anchor then left_pool now left
      else anchor # left_pool now pool)"
  by pat_completeness auto
termination
proof (relation "measure (\<lambda>(now, pool). length pool)", goal_cases)
  case (2 now anchor pool x roster left)
  then show ?case
    using fill_left_shorter [of "t_players anchor" now "[anchor]" pool]
    by (metis case_prod_conv in_measure le_imp_less_Suc length_Cons snd_conv)
qed auto

lemma pool_formed:
  "fill (t_players a) now [a] pool = (r, left) \<Longrightarrow> int (length r) = t_players a \<Longrightarrow>
     form_pool now (a # pool) = r # form_pool now left \<and> left_pool now (a # pool) = left_pool now left"
  by simp

lemma pool_passed:
  "fill (t_players a) now [a] pool = (r, left) \<Longrightarrow> int (length r) \<noteq> t_players a \<Longrightarrow>
     form_pool now (a # pool) = form_pool now pool \<and> left_pool now (a # pool) = a # left_pool now pool"
  by simp

declare form_pool.simps(2) [simp del] left_pool.simps(2) [simp del]

lemma pool_induct [case_names Nil Formed Passed]:
  assumes nil: "P []"
    and formed: "\<And>a pool r left. fill (t_players a) now [a] pool = (r, left) \<Longrightarrow>
      int (length r) = t_players a \<Longrightarrow> P left \<Longrightarrow> P (a # pool)"
    and passed: "\<And>a pool r left. fill (t_players a) now [a] pool = (r, left) \<Longrightarrow>
      int (length r) \<noteq> t_players a \<Longrightarrow> P pool \<Longrightarrow> P (a # pool)"
  shows "P pool"
proof (induction pool rule: length_induct)
  case (1 pool)
  show ?case
  proof (cases pool)
    case Nil
    with nil show ?thesis by simp
  next
    case (Cons a rest)
    obtain r left where f: "fill (t_players a) now [a] rest = (r, left)" by fastforce
    have "length left \<le> length rest" using fill_left_shorter [of "t_players a" now "[a]" rest] f by simp
    then show ?thesis
      using 1 Cons formed [OF f] passed [OF f] by (cases "int (length r) = t_players a") auto
  qed
qed

lemma pool_splits: "mset (concat (form_pool now pool)) + mset (left_pool now pool) = mset pool"
proof (induction pool rule: pool_induct [where now = now])
  case (Formed a pool r left)
  have "mset r + mset left = add_mset a (mset pool)" using fill_splits [OF Formed(1)] by simp
  then show ?case using pool_formed [OF Formed(1,2)] Formed(3) by (simp add: add.assoc)
next
  case (Passed a pool r left)
  then show ?case using pool_passed [OF Passed(1,2)] by simp
qed simp

lemma pool_rosters:
  assumes "roster \<in> set (form_pool now pool)"
  shows "roster \<noteq> [] \<and> int (length roster) = t_players (hd roster) \<and> mutual now roster"
  using assms
proof (induction pool rule: pool_induct [where now = now])
  case (Formed a pool r left)
  obtain more where r: "r = a # more" using fill_keeps_front [OF Formed(1)] by auto
  have "mutual now r" by (rule fill_mutual [OF Formed(1)]) (simp add: mutual_def)
  then show ?case using Formed pool_formed [OF Formed(1,2)] r by auto
next
  case (Passed a pool r left)
  then show ?case using pool_passed [OF Passed(1,2)] by simp
qed simp

lemma fill_left_subset:
  assumes "fill need now [a] pool = (r, left)"
  shows "set left \<subseteq> set (a # pool)"
proof -
  have "set_mset (mset r + mset left) = set_mset (mset [a] + mset pool)"
    using fill_splits [OF assms] by (rule arg_cong)
  then show ?thesis by auto
qed

lemma left_pool_subset: "set (left_pool now pool) \<subseteq> set pool"
  using pool_splits [of now pool] by (metis mset_subset_eq_add_right set_mset_mono set_mset_mset)

text \<open>
  In a game for two, nobody is left waiting beside someone they could play: of the tickets left,
  no two are compatible.
\<close>

lemma pool_leaves_no_pair:
  assumes "\<forall>t\<in>set pool. t_players t = 2"
    and "a \<in> set (left_pool now pool)" and "b \<in> set (left_pool now pool)" and "a \<noteq> b"
  shows "\<not> compatible a b now"
  using assms
proof (induction pool arbitrary: a b rule: pool_induct [where now = now])
  case (Formed x pool r left)
  have "set left \<subseteq> set (x # pool)"
    by (rule fill_left_subset [OF Formed(1)])
  with Formed(4) have two: "\<forall>t\<in>set left. t_players t = 2" by auto
  from Formed(5,6) pool_formed [OF Formed(1,2)]
  have "a \<in> set (left_pool now left)" "b \<in> set (left_pool now left)" by simp_all
  then show ?case by (rule Formed(3) [OF two _ _ Formed(7)])
next
  case (Passed x pool r left)
  have players: "t_players x = 2" using Passed(4) by simp
  obtain more where r: "r = x # more" using fill_keeps_front [OF Passed(1)] by auto
  have short: "int (length r) < t_players x"
    using Passed(2) fill_full [OF Passed(1)] players by simp
  with r players have alone: "r = [x]" by simp
  with fill_splits [OF Passed(1)] have "mset left = mset pool" by simp
  then have left: "set left = set pool" by (rule mset_eq_setD)
  have no: "\<not> compatible x c now" if "c \<in> set pool" for c
  proof -
    have "c \<in> set left" using that left by simp
    from fill_passes_over [OF Passed(1) short this] show ?thesis by (simp add: alone)
  qed
  have IH: "\<not> compatible y z now"
    if "y \<in> set (left_pool now pool)" "z \<in> set (left_pool now pool)" "y \<noteq> z" for y z
    by (rule Passed(3)) (use Passed(4) that in auto)
  have sub: "set (left_pool now pool) \<subseteq> set pool" by (rule left_pool_subset)
  have ab: "a = x \<or> a \<in> set (left_pool now pool)" "b = x \<or> b \<in> set (left_pool now pool)"
    using Passed(5,6) pool_passed [OF Passed(1,2)] by auto
  show ?case
  proof (cases "a = x")
    case True
    with ab(2) Passed(7) sub no show ?thesis by auto
  next
    case False
    show ?thesis
    proof (cases "b = x")
      case True
      with ab(1) False sub no [of a] show ?thesis by (auto simp: compatible_sym [of a])
    next
      case b: False
      show ?thesis by (rule IH) (use ab False b Passed(7) in auto)
    qed
  qed
qed simp

section \<open>Across regions\<close>

definition buckets_sound :: "(string \<times> 'r ticket list) list \<Rightarrow> bool" where
  "buckets_sound bs \<longleftrightarrow> distinct (map fst bs) \<and> (\<forall>(r, b)\<in>set bs. \<forall>t\<in>set b. t_region t = r)"

lemma bucket_push_keys:
  "fst ` set (bucket_push t bs) = insert (t_region t) (fst ` set bs)"
  by (induction t bs rule: bucket_push.induct) auto

lemma bucket_push_sound: "buckets_sound bs \<Longrightarrow> buckets_sound (bucket_push t bs)"
proof (induction t bs rule: bucket_push.induct)
  case (2 t r b bs)
  then show ?case
    by (auto simp: buckets_sound_def bucket_push_keys simp flip: set_map)
      (auto simp: bucket_push_keys image_iff)
qed (simp add: buckets_sound_def)

lemma bucket_push_mset:
  "mset (concat (map snd (bucket_push t bs))) = add_mset t (mset (concat (map snd bs)))"
  by (induction t bs rule: bucket_push.induct) auto

lemma by_region_append: "by_region (ws @ [t]) = bucket_push t (by_region ws)"
  by (simp add: by_region_def)

lemma by_region_sound: "buckets_sound (by_region ws)"
  by (induction ws rule: rev_induct)
    (simp_all add: by_region_append bucket_push_sound, simp add: by_region_def buckets_sound_def)

lemma by_region_mset: "mset (concat (map snd (by_region ws))) = mset ws"
  by (induction ws rule: rev_induct)
    (simp_all add: by_region_append bucket_push_mset, simp add: by_region_def)

lemma bucket_region:
  "buckets_sound bs \<Longrightarrow> (r, b) \<in> set bs \<Longrightarrow> t \<in> set b \<Longrightarrow> t_region t = r"
  by (auto simp: buckets_sound_def)

definition left_waiting :: "'r ticket list \<Rightarrow> millis \<Rightarrow> 'r ticket list" where
  "left_waiting waiting now =
     concat (map (\<lambda>(r, bucket). left_pool now (sort_key t_enqueued_at bucket)) (by_region waiting))"

lemma union_pairs:
  fixes a b c d e f :: "'a multiset"
  shows "a + b = c \<Longrightarrow> d + e = f \<Longrightarrow> (a + d) + (b + e) = c + f"
  by (metis add.assoc add.left_commute)

lemma buckets_split:
  "mset (concat (concat (map (\<lambda>(r, b). form_pool now (sort_key t_enqueued_at b)) bs)))
     + mset (concat (map (\<lambda>(r, b). left_pool now (sort_key t_enqueued_at b)) bs))
     = mset (concat (map snd bs))"
proof (induction bs)
  case (Cons rb bs)
  obtain r b where rb: "rb = (r, b)" by fastforce
  have "mset (concat (form_pool now (sort_key t_enqueued_at b))) + mset (left_pool now (sort_key t_enqueued_at b))
      = mset b"
    using pool_splits [of now "sort_key t_enqueued_at b"] by simp
  from union_pairs [OF this Cons.IH] show ?case by (simp add: rb)
qed simp

lemma rosters_split:
  "mset (concat (form_rosters ws now)) + mset (left_waiting ws now) = mset ws"
  unfolding form_rosters_def left_waiting_def buckets_split by (rule by_region_mset)

lemma roster_sound:
  assumes "roster \<in> set (form_rosters ws now)"
  shows "roster \<noteq> []" and "int (length roster) = t_players (hd roster)" and "mutual now roster"
    and "\<forall>a\<in>set roster. \<forall>b\<in>set roster. t_region a = t_region b" and "set roster \<subseteq> set ws"
proof -
  obtain r b where rb: "(r, b) \<in> set (by_region ws)"
    and in_pool: "roster \<in> set (form_pool now (sort_key t_enqueued_at b))"
    using assms by (auto simp: form_rosters_def)
  from pool_rosters [OF in_pool] show "roster \<noteq> []" "int (length roster) = t_players (hd roster)"
    "mutual now roster" by simp_all
  have "set_mset (mset (concat (form_pool now (sort_key t_enqueued_at b)))) \<subseteq> set b"
    using arg_cong [OF pool_splits [of now "sort_key t_enqueued_at b"], of set_mset] by auto
  with in_pool have sub: "set roster \<subseteq> set b" by auto
  have "t_region t = r" if "t \<in> set roster" for t
    by (rule bucket_region [OF by_region_sound rb]) (use that sub in auto)
  then show "\<forall>a\<in>set roster. \<forall>b\<in>set roster. t_region a = t_region b" by simp
  have "set_mset (mset (concat (form_rosters ws now))) \<subseteq> set_mset (mset ws)"
    using rosters_split [of ws now] by (metis mset_subset_eq_add_left set_mset_mono)
  with assms show "set roster \<subseteq> set ws" by auto
qed

lemma users_split:
  "mset (concat (form_matches ws now)) + mset (map t_user (left_waiting ws now)) = mset (map t_user ws)"
proof -
  have "mset (map t_user (concat (form_rosters ws now)) @ map t_user (left_waiting ws now)) = mset (map t_user ws)"
    using arg_cong [OF rosters_split [of ws now], of "image_mset t_user"] by simp
  then show ?thesis by (simp add: form_matches_def map_concat)
qed

lemma matched_once:
  assumes "distinct (map t_user ws)"
  shows "distinct (concat (form_matches ws now))"
    and "set (concat (form_matches ws now)) \<union> set (map t_user (left_waiting ws now)) = t_user ` set ws"
    and "set (concat (form_matches ws now)) \<inter> set (map t_user (left_waiting ws now)) = {}"
proof -
  have ms: "mset (concat (form_matches ws now) @ map t_user (left_waiting ws now)) = mset (map t_user ws)"
    using users_split [of ws now] by (simp only: mset_append)
  then have "distinct (concat (form_matches ws now) @ map t_user (left_waiting ws now))"
    using assms mset_eq_imp_distinct_iff by blast
  then show "distinct (concat (form_matches ws now))"
    and "set (concat (form_matches ws now)) \<inter> set (map t_user (left_waiting ws now)) = {}" by auto
  from mset_eq_setD [OF ms]
  show "set (concat (form_matches ws now)) \<union> set (map t_user (left_waiting ws now)) = t_user ` set ws"
    by simp
qed

text \<open>The tickets left waiting are those whose users no roster names.\<close>

lemma left_waiting_users:
  assumes "distinct (map t_user ws)"
  shows "set (left_waiting ws now) = {t \<in> set ws. t_user t \<notin> set (concat (form_matches ws now))}"
proof (intro set_eqI iffI)
  have sub: "set_mset (mset (left_waiting ws now)) \<subseteq> set_mset (mset ws)"
    using rosters_split [of ws now] by (metis mset_subset_eq_add_right set_mset_mono)
  fix t
  {
    assume t: "t \<in> set (left_waiting ws now)"
    then have "t \<in> set ws" using sub by auto
    moreover have "t_user t \<notin> set (concat (form_matches ws now))"
      using matched_once(3) [OF assms, of now] t by (auto simp del: set_concat)
    ultimately show "t \<in> {t \<in> set ws. t_user t \<notin> set (concat (form_matches ws now))}" by simp
  }
  assume t: "t \<in> {t \<in> set ws. t_user t \<notin> set (concat (form_matches ws now))}"
  then have "t \<in> set ws" and no: "t_user t \<notin> set (concat (form_matches ws now))" by simp_all
  have "set_mset (mset (concat (form_rosters ws now)) + mset (left_waiting ws now)) = set_mset (mset ws)"
    using rosters_split by (rule arg_cong)
  with \<open>t \<in> set ws\<close> have "t \<in> set (concat (form_rosters ws now)) \<or> t \<in> set (left_waiting ws now)"
    by (auto simp del: set_concat)
  moreover have "t \<notin> set (concat (form_rosters ws now))" using no by (auto simp: form_matches_def)
  ultimately show "t \<in> set (left_waiting ws now)" by simp
qed

lemma left_waiting_no_pair:
  assumes "\<forall>t\<in>set ws. t_players t = 2"
    and a: "a \<in> set (left_waiting ws now)" and b: "b \<in> set (left_waiting ws now)"
    and "a \<noteq> b" and reg: "t_region a = t_region b"
  shows "\<not> compatible a b now"
proof -
  obtain r c where rc: "(r, c) \<in> set (by_region ws)" "a \<in> set (left_pool now (sort_key t_enqueued_at c))"
    using a by (auto simp: left_waiting_def)
  obtain q d where qd: "(q, d) \<in> set (by_region ws)" "b \<in> set (left_pool now (sort_key t_enqueued_at d))"
    using b by (auto simp: left_waiting_def)
  have mem: "a \<in> set c" "b \<in> set d"
    using rc(2) qd(2) left_pool_subset [of now "sort_key t_enqueued_at c"]
      left_pool_subset [of now "sort_key t_enqueued_at d"] by auto
  then have "r = q"
    using bucket_region [OF by_region_sound rc(1)] bucket_region [OF by_region_sound qd(1)] reg by simp
  then have "c = d"
    using by_region_sound [of ws] rc(1) qd(1) by (auto simp: buckets_sound_def dest: eq_key_imp_eq_value)
  have "set_mset (mset (concat (map snd (by_region ws)))) = set_mset (mset ws)"
    using by_region_mset by (rule arg_cong)
  with rc(1) have "set c \<subseteq> set ws" by fastforce
  with assms(1) have two: "\<forall>t\<in>set (sort_key t_enqueued_at c). t_players t = 2" by auto
  show ?thesis
    by (rule pool_leaves_no_pair [OF two rc(2) _ \<open>a \<noteq> b\<close>]) (use qd(2) \<open>c = d\<close> in simp)
qed

end
