(* ===== verification/Match_Queue.thy ===== *)
theory Match_Queue
  imports Matchmaking "HOL-Library.AList"
begin

text \<open>
  The open-queue coordinator (\<open>packages/matchmaking/src/queue/durableObject.ts\<close>), one Durable
  Object per game. Its mutations run one after another (\<open>serialize\<close>), so each is one step; the
  session a roster is minted into comes from the multiplayer namespace, which may be unbound or
  fail, and every mint and every push is logged beside the object's storage.
\<close>

section \<open>Storage\<close>

record stored_match =
  sm_session :: "string option"
  sm_roster :: "user_id list"
  sm_game :: string
  sm_at :: millis

record drop_record =
  dr_user :: user_id
  dr_at :: millis

text \<open>
  \<open>match:\<close> and \<open>drop:\<close> records are kept by what follows their prefix; the drop records are listed,
  so they are an association list.
\<close>

record 'r queue_world =
  q_waiting :: "'r ticket list"
  q_game :: "string option"
  q_matches :: "user_id \<Rightarrow> stored_match option"
  q_drops :: "(string \<times> drop_record) list"
  q_alarm :: "millis option"
  q_minted :: "(string \<times> user_id list) list"
  q_pushed :: "(user_id \<times> string \<times> string) list"

definition empty_queue :: "'r queue_world" where
  "empty_queue = \<lparr>q_waiting = [], q_game = None, q_matches = (\<lambda>_. None), q_drops = [],
     q_alarm = None, q_minted = [], q_pushed = []\<rparr>"

text \<open>
  What a call meets: the clock, the session namespace (\<open>None\<close> when it is not bound, a mint that
  throws answers \<open>None\<close>), and whether presence is bound.
\<close>

record 'r queue_env =
  qe_now :: millis
  qe_mint :: "('r match_snapshot \<Rightarrow> int \<Rightarrow> user_id list \<Rightarrow> string option) option"
  qe_presence :: bool

record 'r queue_ticket =
  qt_user :: user_id
  qt_skill :: "rat option"
  qt_region :: string
  qt_game :: string
  qt_players :: int
  qt_settings :: queue_settings
  qt_snapshot :: "'r match_snapshot"

datatype queue_error = Key_reused | Not_queued | Mint_failed

datatype queue_status = Queued millis | Matched "string option"

type_synonym ('r, 'a) queue_proc = "('r queue_world, queue_error, 'a) proc"

section \<open>Reads\<close>

definition read_waiting :: "('r, 'r ticket list) queue_proc" where
  "read_waiting = look q_waiting"

definition read_match :: "user_id \<Rightarrow> ('r, stored_match option) queue_proc" where
  "read_match u = look (\<lambda>w. q_matches w u)"

definition read_game_key :: "('r, string) queue_proc" where
  "read_game_key = look (\<lambda>w. case q_game w of None \<Rightarrow> '''' | Some k \<Rightarrow> k)"

definition read_drops :: "('r, (string \<times> drop_record) list) queue_proc" where
  "read_drops = look q_drops"

section \<open>Recording matches\<close>

definition mint :: "'r queue_env \<Rightarrow> 'r match_snapshot \<Rightarrow> int \<Rightarrow> user_id list \<Rightarrow> ('r, string option) queue_proc" where
  "mint env snap players roster =
     (case qe_mint env of
        None \<Rightarrow> give None
      | Some f \<Rightarrow>
          (case f snap players roster of
             None \<Rightarrow> raise Mint_failed
           | Some sid \<Rightarrow>
               seq (store (\<lambda>w. w\<lparr>q_minted := q_minted w @ [(sid, roster)]\<rparr>)) (\<lambda>_. give (Some sid))))"

definition set_all :: "user_id list \<Rightarrow> stored_match \<Rightarrow> (user_id \<times> stored_match) list \<Rightarrow> (user_id \<times> stored_match) list" where
  "set_all roster record matched = foldl (\<lambda>m u. AList.update u record m) matched roster"

fun mint_rosters ::
  "'r queue_env \<Rightarrow> 'r ticket list \<Rightarrow> string \<Rightarrow> user_id list list \<Rightarrow> (user_id \<times> stored_match) list
     \<Rightarrow> ('r, (user_id \<times> stored_match) list) queue_proc" where
  "mint_rosters env waiting game [] matched = give matched"
| "mint_rosters env waiting game (roster # rosters) matched =
     (case roster of
        [] \<Rightarrow> mint_rosters env waiting game rosters matched
      | u # _ \<Rightarrow>
          (case find (\<lambda>t. t_user t = u) waiting of
             None \<Rightarrow> mint_rosters env waiting game rosters matched
           | Some anchor \<Rightarrow>
               seq (mint env (t_snapshot anchor) (t_players anchor) roster) (\<lambda>sid.
                 mint_rosters env waiting game rosters
                   (set_all roster \<lparr>sm_session = sid, sm_roster = roster, sm_game = game, sm_at = qe_now env\<rparr> matched))))"

text \<open>A push that fails is swallowed, so the log holds the pushes sent, not those received.\<close>

definition push_presence :: "'r queue_env \<Rightarrow> (user_id \<times> stored_match) list \<Rightarrow> ('r, unit) queue_proc" where
  "push_presence env matched =
     store (\<lambda>w. if \<not> qe_presence env then w
       else w\<lparr>q_pushed := q_pushed w @ concat (map (\<lambda>(u, r). case sm_session r of
          None \<Rightarrow> [] | Some sid \<Rightarrow> if sid = '''' then [] else [(u, sid, sm_game r)]) matched)\<rparr>)"

definition put_matches :: "(user_id \<times> stored_match) list \<Rightarrow> ('r, unit) queue_proc" where
  "put_matches matched =
     store (\<lambda>w. w\<lparr>q_matches := foldl (\<lambda>f (u, r). f(u \<mapsto> r)) (q_matches w) matched\<rparr>)"

definition put_waiting :: "'r ticket list \<Rightarrow> ('r, unit) queue_proc" where
  "put_waiting ts = store (\<lambda>w. w\<lparr>q_waiting := ts\<rparr>)"

definition set_alarm :: "millis option \<Rightarrow> ('r, unit) queue_proc" where
  "set_alarm a = store (\<lambda>w. w\<lparr>q_alarm := a\<rparr>)"

definition apply_matches ::
  "'r queue_env \<Rightarrow> 'r ticket list \<Rightarrow> ('r, (user_id \<times> stored_match) list \<times> 'r ticket list) queue_proc" where
  "apply_matches env waiting =
     seq read_game_key (\<lambda>game.
     seq (mint_rosters env waiting game (form_matches waiting (qe_now env)) []) (\<lambda>matched.
     let remaining = [t \<leftarrow> waiting. map_of matched (t_user t) = None] in
     seq (put_matches matched) (\<lambda>_.
     seq (put_waiting remaining) (\<lambda>_.
     seq (push_presence env matched) (\<lambda>_.
     give (matched, remaining))))))"

definition reconcile_alarm :: "'r queue_env \<Rightarrow> 'r ticket list \<Rightarrow> ('r, unit) queue_proc" where
  "reconcile_alarm env remaining =
     set_alarm (case remaining of
        [] \<Rightarrow> None
      | first # _ \<Rightarrow> Some (qe_now env + sweep_seconds (t_settings first) * 1000))"

section \<open>The calls\<close>

definition enqueue_now :: "'r queue_env \<Rightarrow> 'r queue_ticket \<Rightarrow> ('r, queue_status) queue_proc" where
  "enqueue_now env tk =
     seq (read_match (qt_user tk)) (\<lambda>existing.
     case existing of
       Some m \<Rightarrow> give (Matched (sm_session m))
     | None \<Rightarrow>
         seq (store (\<lambda>w. w\<lparr>q_game := Some (qt_game tk)\<rparr>)) (\<lambda>_.
         seq read_waiting (\<lambda>ws.
         let waiting = [t \<leftarrow> ws. t_user t \<noteq> qt_user tk]
               @ [\<lparr>t_user = qt_user tk, t_skill = qt_skill tk, t_region = qt_region tk, t_players = qt_players tk,
                   t_snapshot = qt_snapshot tk, t_settings = qt_settings tk, t_enqueued_at = qe_now env\<rparr>] in
         seq (apply_matches env waiting) (\<lambda>(matched, remaining).
         seq (reconcile_alarm env remaining) (\<lambda>_.
         case map_of matched (qt_user tk) of
           Some m \<Rightarrow> give (Matched (sm_session m))
         | None \<Rightarrow> give (Queued 0))))))"

text \<open>Removing a player's ticket, and the alarm with the last one.\<close>

definition put_remaining :: "'r ticket list \<Rightarrow> ('r, unit) queue_proc" where
  "put_remaining remaining =
     seq (put_waiting remaining) (\<lambda>_. if remaining = [] then set_alarm None else give ())"

definition leave :: "user_id \<Rightarrow> ('r, unit) queue_proc" where
  "leave u =
     seq read_waiting (\<lambda>ws.
     let remaining = [t \<leftarrow> ws. t_user t \<noteq> u] in
     if length remaining = length ws then give () else put_remaining remaining)"

definition drop_retention :: millis where
  "drop_retention = 24 * 60 * 60 * 1000"

definition prune_drop_keys :: "'r queue_env \<Rightarrow> ('r, unit) queue_proc" where
  "prune_drop_keys env =
     store (\<lambda>w. w\<lparr>q_drops := [(k, r) \<leftarrow> q_drops w. \<not> (qe_now env - dr_at r > drop_retention)]\<rparr>)"

text \<open>The answer is \<open>replayed\<close>.\<close>

definition drop_now :: "'r queue_env \<Rightarrow> user_id \<Rightarrow> string \<Rightarrow> ('r, bool) queue_proc" where
  "drop_now env u key =
     seq read_drops (\<lambda>drops.
     case map_of drops key of
       Some record \<Rightarrow> if dr_user record = u then give True else raise Key_reused
     | None \<Rightarrow>
         seq read_waiting (\<lambda>ws.
         let remaining = [t \<leftarrow> ws. t_user t \<noteq> u] in
         if length remaining = length ws then raise Not_queued
         else
           seq (put_waiting remaining) (\<lambda>_.
           seq (store (\<lambda>w. w\<lparr>q_drops := AList.update key \<lparr>dr_user = u, dr_at = qe_now env\<rparr> (q_drops w)\<rparr>)) (\<lambda>_.
           seq (if remaining = [] then set_alarm None else give ()) (\<lambda>_.
           seq (prune_drop_keys env) (\<lambda>_.
           give False))))))"

definition status :: "'r queue_env \<Rightarrow> user_id \<Rightarrow> ('r, queue_status) queue_proc" where
  "status env u =
     seq (read_match u) (\<lambda>m.
     case m of
       Some r \<Rightarrow>
         seq (store (\<lambda>w. w\<lparr>q_matches := (q_matches w)(u := None)\<rparr>)) (\<lambda>_. give (Matched (sm_session r)))
     | None \<Rightarrow>
         seq read_waiting (\<lambda>ws.
         case find (\<lambda>t. t_user t = u) ws of
           Some mine \<Rightarrow> give (Queued (qe_now env - t_enqueued_at mine))
         | None \<Rightarrow> raise Not_queued))"

definition sweep :: "'r queue_env \<Rightarrow> ('r, unit) queue_proc" where
  "sweep env =
     seq read_waiting (\<lambda>ws.
     if ws = [] then set_alarm None
     else
       seq (apply_matches env ws) (\<lambda>(matched, remaining).
       reconcile_alarm env remaining))"

text \<open>The platform clears the alarm it fires before it runs the handler.\<close>

definition on_alarm :: "'r queue_env \<Rightarrow> ('r, unit) queue_proc" where
  "on_alarm env = seq (set_alarm None) (\<lambda>_. sweep env)"

definition forget :: "user_id \<Rightarrow> ('r, unit) queue_proc" where
  "forget u =
     seq read_waiting (\<lambda>ws.
     let remaining = [t \<leftarrow> ws. t_user t \<noteq> u] in
     seq (if length remaining \<noteq> length ws then put_remaining remaining else give ()) (\<lambda>_.
     seq read_drops (\<lambda>drops.
     store (\<lambda>w. w\<lparr>q_matches := (q_matches w)(u := None),
                  q_drops := [(k, r) \<leftarrow> drops. dr_user r \<noteq> u]\<rparr>))))"

section \<open>What a management client and an access request read\<close>

record waiting_entry =
  we_user :: user_id
  we_region :: string
  we_skill :: "rat option"
  we_band :: "rat option"
  we_enqueued_at :: millis

definition waiting_entries :: "'r queue_env \<Rightarrow> ('r, waiting_entry list) queue_proc" where
  "waiting_entries env =
     seq read_waiting (\<lambda>ws.
     give (map (\<lambda>t. \<lparr>we_user = t_user t, we_region = t_region t, we_skill = t_skill t,
         we_band = skill_band t (qe_now env), we_enqueued_at = t_enqueued_at t\<rparr>) (sort_key t_enqueued_at ws)))"

record queue_holding =
  qh_waiting :: "(string \<times> rat option \<times> millis) option"
  qh_match :: "(string option \<times> string \<times> millis) option"
  qh_drops :: "millis list"

definition held_for :: "user_id \<Rightarrow> ('r, queue_holding) queue_proc" where
  "held_for u =
     seq read_waiting (\<lambda>ws.
     seq (read_match u) (\<lambda>m.
     seq read_drops (\<lambda>drops.
     give \<lparr>qh_waiting = map_option (\<lambda>t. (t_region t, t_skill t, t_enqueued_at t)) (find (\<lambda>t. t_user t = u) ws),
           qh_match = map_option (\<lambda>r. (sm_session r, sm_game r, sm_at r)) m,
           qh_drops = sort (map dr_at [r \<leftarrow> map snd drops. dr_user r = u])\<rparr>)))"

section \<open>A queue's life\<close>

datatype 'r queue_op =
    Enqueue "'r queue_ticket"
  | Leave user_id
  | Drop user_id string
  | Status user_id
  | Alarm
  | Forget user_id

fun queue_step :: "'r queue_env \<Rightarrow> 'r queue_op \<Rightarrow> ('r, unit) queue_proc" where
  "queue_step env (Enqueue tk) = seq (enqueue_now env tk) (\<lambda>_. give ())"
| "queue_step env (Leave u) = leave u"
| "queue_step env (Drop u key) = seq (drop_now env u key) (\<lambda>_. give ())"
| "queue_step env (Status u) = seq (status env u) (\<lambda>_. give ())"
| "queue_step env Alarm = on_alarm env"
| "queue_step env (Forget u) = forget u"

definition queue_run :: "('r queue_env \<times> 'r queue_op) list \<Rightarrow> 'r queue_world \<Rightarrow> 'r queue_world" where
  "queue_run steps w = foldl (\<lambda>w (env, op). snd (queue_step env op w)) w steps"

end
