(* ===== verification/Match_Queue_Invariant.thy ===== *)
theory Match_Queue_Invariant
  imports Match_Queue
begin

text \<open>
  What the coordinator keeps true of its storage, whatever is asked of it and whichever of its
  mints fail.
\<close>

section \<open>Recording the rosters\<close>

text \<open>A recorded match names a roster its player is in, and a session minted for that roster.\<close>

definition match_ok :: "(string \<times> user_id list) list \<Rightarrow> user_id \<Rightarrow> stored_match \<Rightarrow> bool" where
  "match_ok minted u r \<longleftrightarrow> u \<in> set (sm_roster r) \<and>
     (\<forall>sid. sm_session r = Some sid \<longrightarrow> (sid, sm_roster r) \<in> set minted)"

lemma match_ok_mono: "match_ok minted u r \<Longrightarrow> match_ok (minted @ later) u r"
  by (auto simp: match_ok_def)

lemma set_update_subset: "set (AList.update k v al) \<subseteq> insert (k, v) (set al)"
  by (induction al) auto

lemma set_all_keys [simp]: "fst ` set (set_all roster r m) = fst ` set m \<union> set roster"
  by (induction roster arbitrary: m) (auto simp: set_all_def dom_update)

lemma set_all_entries: "set (set_all roster r m) \<subseteq> set m \<union> {(u, r) |u. u \<in> set roster}"
proof (induction roster arbitrary: m)
  case (Cons a roster)
  have "set_all (a # roster) r m = set_all roster r (AList.update a r m)" by (simp add: set_all_def)
  then show ?case using Cons [of "AList.update a r m"] set_update_subset [of a r m] by auto
qed (simp add: set_all_def)

lemma set_all_distinct: "distinct (map fst m) \<Longrightarrow> distinct (map fst (set_all roster r m))"
  by (induction roster arbitrary: m) (simp_all add: set_all_def distinct_update)

text \<open>What the loop returns: one entry per paired player, each a sound match.\<close>

definition matches_for ::
  "user_id set \<Rightarrow> (string \<times> user_id list) list \<Rightarrow> (user_id \<times> stored_match) list \<Rightarrow> bool" where
  "matches_for us minted m \<longleftrightarrow>
     fst ` set m = us \<and> distinct (map fst m) \<and> (\<forall>(u, r)\<in>set m. match_ok minted u r)"

lemma matches_for_set_all:
  assumes "matches_for us minted m" and "\<forall>u\<in>set roster. match_ok (minted @ x) u rec"
  shows "matches_for (us \<union> set roster) (minted @ x) (set_all roster rec m)"
proof -
  have "match_ok (minted @ x) u r" if "(u, r) \<in> set (set_all roster rec m)" for u r
  proof -
    from that set_all_entries [of roster rec m] have "(u, r) \<in> set m \<or> u \<in> set roster \<and> r = rec" by auto
    with assms show ?thesis by (auto simp: matches_for_def intro: match_ok_mono)
  qed
  with assms(1) show ?thesis by (auto simp: matches_for_def set_all_distinct)
qed

lemma wp_mint:
  "wp (mint env snap players roster) Q E w =
     (case qe_mint env of
        None \<Rightarrow> Q None w
      | Some f \<Rightarrow> (case f snap players roster of
          None \<Rightarrow> E Mint_failed w
        | Some sid \<Rightarrow> Q (Some sid) (w\<lparr>q_minted := q_minted w @ [(sid, roster)]\<rparr>)))"
  by (simp add: mint_def split: option.split)

definition minted_on :: "'r queue_world \<Rightarrow> (string \<times> user_id list) list \<Rightarrow> 'r queue_world" where
  "minted_on w x = w\<lparr>q_minted := q_minted w @ x\<rparr>"

lemma minted_on_fields [simp]:
  "q_waiting (minted_on w x) = q_waiting w" "q_game (minted_on w x) = q_game w"
  "q_matches (minted_on w x) = q_matches w" "q_drops (minted_on w x) = q_drops w"
  "q_alarm (minted_on w x) = q_alarm w" "q_minted (minted_on w x) = q_minted w @ x"
  "q_pushed (minted_on w x) = q_pushed w"
  by (simp_all add: minted_on_def)

lemma minted_on_simps [simp]:
  "minted_on w [] = w" "minted_on (minted_on w x) y = minted_on w (x @ y)"
  "w\<lparr>q_minted := q_minted w @ x\<rparr> = minted_on w x"
  by (simp_all add: minted_on_def)

text \<open>A mint fails only where the namespace is bound and answers with an error.\<close>

definition mint_may_fail :: "'r queue_env \<Rightarrow> bool" where
  "mint_may_fail env \<longleftrightarrow> (\<exists>f snap players roster. qe_mint env = Some f \<and> f snap players roster = None)"

lemma wp_mint_rosters:
  assumes "\<forall>r\<in>set rosters. r \<noteq> [] \<and> hd r \<in> t_user ` set waiting"
    and "matches_for us (q_minted w) matched"
  shows "wp (mint_rosters env waiting game rosters matched)
     (\<lambda>m w'. \<exists>x. w' = minted_on w x \<and> matches_for (us \<union> set (concat rosters)) (q_minted w') m)
     (\<lambda>e w'. e = Mint_failed \<and> mint_may_fail env \<and> (\<exists>x. w' = minted_on w x)) w"
  using assms
proof (induction rosters arbitrary: us matched w)
  case Nil
  then show ?case by (auto intro: exI [of _ "[]"])
next
  case (Cons roster rosters)
  then obtain u rest where roster: "roster = u # rest" by (cases roster) auto
  with Cons.prems(1) obtain a where a: "find (\<lambda>t. t_user t = u) waiting = Some a"
    by (cases "find (\<lambda>t. t_user t = u) waiting") (auto simp: find_none_iff)
  have next_step: "wp (mint_rosters env waiting game rosters (set_all roster rec matched))
     (\<lambda>m w'. \<exists>x. w' = minted_on w x \<and> matches_for (us \<union> set (concat (roster # rosters))) (q_minted w') m)
     (\<lambda>e w'. e = Mint_failed \<and> mint_may_fail env \<and> (\<exists>x. w' = minted_on w x)) (minted_on w x)"
    if ok: "\<forall>u\<in>set roster. match_ok (q_minted w @ x) u rec" for rec x
  proof (rule wp_mono [OF Cons.IH])
    show "\<forall>r\<in>set rosters. r \<noteq> [] \<and> hd r \<in> t_user ` set waiting" using Cons.prems(1) by simp
    show "matches_for (us \<union> set roster) (q_minted (minted_on w x)) (set_all roster rec matched)"
      using matches_for_set_all [OF Cons.prems(2) ok] by simp
  qed (auto simp: Un_assoc)
  show ?case
  proof (cases "qe_mint env")
    case None
    have "match_ok (q_minted w @ []) v \<lparr>sm_session = None, sm_roster = roster, sm_game = game, sm_at = qe_now env\<rparr>"
      if "v \<in> set roster" for v
      using that by (simp add: match_ok_def)
    then show ?thesis
      using next_step [of "[]" "\<lparr>sm_session = None, sm_roster = roster, sm_game = game, sm_at = qe_now env\<rparr>"]
      by (simp add: roster a wp_mint None del: concat.simps)
  next
    case (Some f)
    show ?thesis
    proof (cases "f (t_snapshot a) (t_players a) roster")
      case None
      then show ?thesis
        by (auto simp: roster a wp_mint Some mint_may_fail_def intro: exI [of _ "[]"])
    next
      case sid: (Some sid)
      have "match_ok (q_minted w @ [(sid, roster)]) v
          \<lparr>sm_session = Some sid, sm_roster = roster, sm_game = game, sm_at = qe_now env\<rparr>"
        if "v \<in> set roster" for v
        using that by (simp add: match_ok_def)
      then show ?thesis
        using next_step [of "[(sid, roster)]" "\<lparr>sm_session = Some sid, sm_roster = roster, sm_game = game, sm_at = qe_now env\<rparr>"]
          sid
        by (simp add: roster a wp_mint Some del: concat.simps)
    qed
  qed
qed

section \<open>Pairing everyone waiting\<close>

definition paired :: "'r ticket list \<Rightarrow> millis \<Rightarrow> user_id set" where
  "paired ws now = set (concat (form_matches ws now))"

definition remaining_of :: "'r ticket list \<Rightarrow> millis \<Rightarrow> 'r ticket list" where
  "remaining_of ws now = [t \<leftarrow> ws. t_user t \<notin> paired ws now]"

lemma rosters_have_anchors:
  "\<forall>r\<in>set (form_matches ws now). r \<noteq> [] \<and> hd r \<in> t_user ` set ws"
proof
  fix r
  assume "r \<in> set (form_matches ws now)"
  then obtain roster where roster: "roster \<in> set (form_rosters ws now)" "r = map t_user roster"
    by (auto simp: form_matches_def)
  from roster_sound(1,5) [OF roster(1)] have "hd roster \<in> set ws" "roster \<noteq> []"
    by (auto dest: list.set_sel(1))
  then show "r \<noteq> [] \<and> hd r \<in> t_user ` set ws" by (simp add: roster(2) hd_map)
qed

definition add_matches :: "(user_id \<times> stored_match) list \<Rightarrow> (user_id \<Rightarrow> stored_match option) \<Rightarrow> user_id \<Rightarrow> stored_match option" where
  "add_matches matched f = foldl (\<lambda>f (u, r). f(u \<mapsto> r)) f matched"

lemma add_matches_entries:
  "add_matches matched f u = Some r \<Longrightarrow> (u, r) \<in> set matched \<or> f u = Some r"
  unfolding add_matches_def by (induction matched arbitrary: f) (fastforce split: if_splits)+

lemma add_matches_other: "u \<notin> fst ` set matched \<Longrightarrow> add_matches matched f u = f u"
  unfolding add_matches_def by (induction matched arbitrary: f) auto

lemma add_matches_map_of:
  "distinct (map fst matched) \<Longrightarrow> map_of matched u = Some r \<Longrightarrow> add_matches matched f u = Some r"
proof (induction matched arbitrary: f)
  case (Cons a matched)
  have step: "add_matches (a # matched) f = add_matches matched (f(fst a \<mapsto> snd a))"
    by (simp add: add_matches_def case_prod_beta)
  then show ?case
    using Cons add_matches_other [of u matched "f(fst a \<mapsto> snd a)"] by (auto split: if_splits)
qed simp

lemma add_matches_some: "u \<in> fst ` set matched \<or> f u \<noteq> None \<Longrightarrow> add_matches matched f u \<noteq> None"
proof (induction matched arbitrary: f)
  case (Cons a matched)
  have "add_matches (a # matched) f = add_matches matched (f(fst a \<mapsto> snd a))"
    by (simp add: add_matches_def case_prod_beta)
  moreover have "u \<in> fst ` set matched \<or> (f(fst a \<mapsto> snd a)) u \<noteq> None" using Cons.prems by auto
  ultimately show ?case using Cons.IH by metis
qed (simp add: add_matches_def)

definition pushes :: "'r queue_env \<Rightarrow> (user_id \<times> stored_match) list \<Rightarrow> (user_id \<times> string \<times> string) list" where
  "pushes env matched =
     (if \<not> qe_presence env then []
      else concat (map (\<lambda>(u, r). case sm_session r of
        None \<Rightarrow> [] | Some sid \<Rightarrow> if sid = '''' then [] else [(u, sid, sm_game r)]) matched))"

lemma wp_push_presence:
  "wp (push_presence env m) Q E w = Q () (w\<lparr>q_pushed := q_pushed w @ pushes env m\<rparr>)"
  by (simp add: push_presence_def pushes_def)

text \<open>
  A pairing that returns leaves each paired player a match and nobody else: its mints and pushes
  are logged, the tickets left are those of unpaired players. A pairing that fails leaves its
  storage as it was.
\<close>

lemma wp_apply_matches:
  "wp (apply_matches env ws)
     (\<lambda>(m, remaining) w'. remaining = remaining_of ws (qe_now env) \<and>
        (\<exists>x p. w' = (minted_on w x)\<lparr>q_matches := add_matches m (q_matches w),
           q_waiting := remaining_of ws (qe_now env), q_pushed := p\<rparr> \<and>
           matches_for (paired ws (qe_now env)) (q_minted w @ x) m))
     (\<lambda>e w'. e = Mint_failed \<and> mint_may_fail env \<and> (\<exists>x. w' = minted_on w x)) w"
proof -
  let ?game = "case q_game w of None \<Rightarrow> '''' | Some k \<Rightarrow> k"
  have rest: "[t \<leftarrow> ws. map_of m (t_user t) = None] = remaining_of ws (qe_now env)"
    if "fst ` set m = paired ws (qe_now env)" for m :: "(user_id \<times> stored_match) list"
    by (simp add: remaining_of_def map_of_eq_None_iff that cong: filter_cong)
  show ?thesis
    unfolding apply_matches_def wp_seq read_game_key_def wp_value
  proof (rule wp_mono [OF wp_mint_rosters [where us = "{}", OF rosters_have_anchors]], goal_cases)
    case 1
    show "matches_for {} (q_minted w) []" by (simp add: matches_for_def)
  next
    case (2 m w')
    then obtain x where w': "w' = minted_on w x" and ok: "matches_for (paired ws (qe_now env)) (q_minted w') m"
      by (auto simp: paired_def)
    then have dom: "fst ` set m = paired ws (qe_now env)" by (simp add: matches_for_def)
    show ?case
      using ok
      by (auto simp: Let_def put_matches_def put_waiting_def wp_push_presence rest [OF dom] dom w' simp flip: add_matches_def)
  next
    case (3 e w')
    then show ?case by simp
  qed
qed

section \<open>The invariant\<close>

definition queue_ok :: "'r queue_world \<Rightarrow> bool" where
  "queue_ok w \<longleftrightarrow>
     distinct (map t_user (q_waiting w)) \<and>
     (\<forall>t\<in>set (q_waiting w). q_matches w (t_user t) = None) \<and>
     (\<forall>u r. q_matches w u = Some r \<longrightarrow> match_ok (q_minted w) u r) \<and>
     (q_alarm w \<noteq> None \<longrightarrow> q_waiting w \<noteq> []) \<and>
     distinct (map fst (q_drops w))"

text \<open>Nobody waits without an alarm to pair them.\<close>

definition queue_awake :: "'r queue_world \<Rightarrow> bool" where
  "queue_awake w \<longleftrightarrow> (q_waiting w \<noteq> [] \<longrightarrow> q_alarm w \<noteq> None)"

lemma queue_ok_empty [simp]: "queue_ok empty_queue" "queue_awake empty_queue"
  by (simp_all add: queue_ok_def queue_awake_def empty_queue_def)

lemma queue_ok_minted [simp]: "queue_ok w \<Longrightarrow> queue_ok (minted_on w x)"
  by (auto simp: queue_ok_def intro: match_ok_mono)

lemma queue_awake_minted [simp]: "queue_awake (minted_on w x) = queue_awake w"
  by (simp add: queue_awake_def)

lemma remaining_subset: "set (remaining_of ws now) \<subseteq> set ws"
  by (auto simp: remaining_of_def)

lemma remaining_distinct: "distinct (map t_user ws) \<Longrightarrow> distinct (map t_user (remaining_of ws now))"
  by (simp add: remaining_of_def distinct_map_filter)

text \<open>The storage a pairing leaves, its alarm set.\<close>

definition paired_world ::
  "'r queue_env \<Rightarrow> 'r ticket list \<Rightarrow> (user_id \<times> stored_match) list \<Rightarrow> (string \<times> user_id list) list
     \<Rightarrow> (user_id \<times> string \<times> string) list \<Rightarrow> 'r queue_world \<Rightarrow> 'r queue_world" where
  "paired_world env ws m x p w =
     (minted_on w x)\<lparr>q_matches := add_matches m (q_matches w),
       q_waiting := remaining_of ws (qe_now env), q_pushed := p,
       q_alarm := (case remaining_of ws (qe_now env) of
          [] \<Rightarrow> None | t # ts \<Rightarrow> Some (qe_now env + sweep_seconds (t_settings t) * 1000))\<rparr>"

lemma paired_world_fields [simp]:
  "q_waiting (paired_world env ws m x p w) = remaining_of ws (qe_now env)"
  "q_matches (paired_world env ws m x p w) = add_matches m (q_matches w)"
  "q_drops (paired_world env ws m x p w) = q_drops w"
  "q_minted (paired_world env ws m x p w) = q_minted w @ x"
  by (simp_all add: paired_world_def)

lemma paired_world_awake [simp]:
  "q_alarm (paired_world env ws m x p w) = None \<longleftrightarrow> remaining_of ws (qe_now env) = []"
  "queue_awake (paired_world env ws m x p w)"
  by (simp_all add: paired_world_def queue_awake_def split: list.split)

definition may_pair :: "'r ticket list \<Rightarrow> 'r queue_world \<Rightarrow> bool" where
  "may_pair ws w \<longleftrightarrow> distinct (map t_user ws) \<and> (\<forall>t\<in>set ws. q_matches w (t_user t) = None) \<and>
     (\<forall>u r. q_matches w u = Some r \<longrightarrow> match_ok (q_minted w) u r) \<and> distinct (map fst (q_drops w))"

lemma paired_world_ok:
  assumes "may_pair ws w"
    and "matches_for (paired ws (qe_now env)) (q_minted w @ x) m"
  shows "queue_ok (paired_world env ws m x p w)"
proof -
  have "add_matches m (q_matches w) (t_user t) = None" if "t \<in> set (remaining_of ws (qe_now env))" for t
    using that assms(1,2) add_matches_other [of "t_user t" m "q_matches w"]
    by (simp add: remaining_of_def may_pair_def matches_for_def)
  moreover have "match_ok (q_minted w @ x) u r" if "add_matches m (q_matches w) u = Some r" for u r
    using add_matches_entries [OF that] assms(1,2) match_ok_mono by (fastforce simp: may_pair_def matches_for_def)
  ultimately show ?thesis
    using remaining_distinct [of ws "qe_now env"] assms(1) by (simp add: queue_ok_def may_pair_def)
qed

text \<open>Pair, then set the alarm: the tail of an enqueue and of a sweep.\<close>

lemma wp_pairing:
  assumes "may_pair ws w"
    and ret: "\<And>m x p. matches_for (paired ws (qe_now env)) (q_minted w @ x) m \<Longrightarrow> queue_ok (paired_world env ws m x p w) \<Longrightarrow>
      wp (f m) Q E (paired_world env ws m x p w)"
    and failed: "\<And>x. mint_may_fail env \<Longrightarrow> E Mint_failed (minted_on w x)"
  shows "wp (seq (apply_matches env ws) (\<lambda>(m, remaining). seq (reconcile_alarm env remaining) (\<lambda>_. f m))) Q E w"
  unfolding wp_seq
proof (rule wp_mono [OF wp_apply_matches], goal_cases)
  case (1 mr w')
  then obtain m x p where mr: "mr = (m, remaining_of ws (qe_now env))"
    and ok: "matches_for (paired ws (qe_now env)) (q_minted w @ x) m"
    and w': "w' = (minted_on w x)\<lparr>q_matches := add_matches m (q_matches w),
       q_waiting := remaining_of ws (qe_now env), q_pushed := p\<rparr>"
    by (cases mr) auto
  have "wp (f m) Q E (paired_world env ws m x p w)"
    by (rule ret [OF ok paired_world_ok [OF assms(1) ok]])
  then show ?case by (simp add: mr w' reconcile_alarm_def set_alarm_def paired_world_def)
next
  case (2 e w')
  with failed show ?case by auto
qed

lemma seq_unit: "seq m (\<lambda>_. give ()) = m"
  by (rule ext) (simp add: proc_defs split: prod.splits sum.splits)

section \<open>Every call keeps it\<close>

definition enqueued :: "'r queue_env \<Rightarrow> 'r queue_ticket \<Rightarrow> 'r ticket list \<Rightarrow> 'r ticket list" where
  "enqueued env tk ws = [t \<leftarrow> ws. t_user t \<noteq> qt_user tk]
     @ [\<lparr>t_user = qt_user tk, t_skill = qt_skill tk, t_region = qt_region tk, t_players = qt_players tk,
         t_snapshot = qt_snapshot tk, t_settings = qt_settings tk, t_enqueued_at = qe_now env\<rparr>]"

lemma enqueued_users: "t_user ` set (enqueued env tk ws) = insert (qt_user tk) (t_user ` set ws)"
  by (auto simp: enqueued_def image_iff)

lemma may_pair_enqueued:
  assumes "queue_ok w" "q_matches w (qt_user tk) = None"
  shows "may_pair (enqueued env tk (q_waiting w)) (w\<lparr>q_game := g\<rparr>)"
  using assms by (auto simp: queue_ok_def may_pair_def enqueued_def distinct_map_filter)

lemma wp_enqueue:
  assumes ok: "queue_ok w"
    and told: "\<And>m. q_matches w (qt_user tk) = Some m \<Longrightarrow> Q (Matched (sm_session m)) w"
    and ret: "\<And>w' m x p. q_matches w (qt_user tk) = None \<Longrightarrow>
      w' = paired_world env (enqueued env tk (q_waiting w)) m x p (w\<lparr>q_game := Some (qt_game tk)\<rparr>) \<Longrightarrow>
      matches_for (paired (enqueued env tk (q_waiting w)) (qe_now env)) (q_minted w') m \<Longrightarrow> queue_ok w' \<Longrightarrow>
      Q (case map_of m (qt_user tk) of Some r \<Rightarrow> Matched (sm_session r) | None \<Rightarrow> Queued 0) w'"
    and failed: "\<And>x. q_matches w (qt_user tk) = None \<Longrightarrow> mint_may_fail env \<Longrightarrow>
      E Mint_failed (minted_on (w\<lparr>q_game := Some (qt_game tk)\<rparr>) x)"
  shows "wp (enqueue_now env tk) Q E w"
proof (cases "q_matches w (qt_user tk)")
  case None
  let ?w = "w\<lparr>q_game := Some (qt_game tk)\<rparr>"
  have may: "may_pair (enqueued env tk (q_waiting w)) ?w"
    by (rule may_pair_enqueued [OF ok None])
  have "wp (seq (apply_matches env (enqueued env tk (q_waiting w))) (\<lambda>(matched, remaining).
      seq (reconcile_alarm env remaining) (\<lambda>_. case map_of matched (qt_user tk) of
        Some m \<Rightarrow> give (Matched (sm_session m)) | None \<Rightarrow> give (Queued 0)))) Q E ?w"
  proof (rule wp_pairing [OF may], goal_cases)
    case (1 m x p)
    have m: "matches_for (paired (enqueued env tk (q_waiting w)) (qe_now env))
        (q_minted (paired_world env (enqueued env tk (q_waiting w)) m x p ?w)) m"
      using 1(1) by simp
    from ret [OF None refl m 1(2)] show ?case by (simp split: option.splits)
  next
    case (2 x)
    from failed [OF None this] show ?case .
  qed
  then show ?thesis
    by (simp add: enqueue_now_def read_match_def read_waiting_def None Let_def enqueued_def)
next
  case (Some m)
  with told show ?thesis by (simp add: enqueue_now_def read_match_def)
qed

lemma wp_sweep:
  assumes ok: "queue_ok w"
    and idle: "q_waiting w = [] \<Longrightarrow> Q () (w\<lparr>q_alarm := None\<rparr>)"
    and ret: "\<And>w' m x p. q_waiting w \<noteq> [] \<Longrightarrow> w' = paired_world env (q_waiting w) m x p w \<Longrightarrow>
      matches_for (paired (q_waiting w) (qe_now env)) (q_minted w') m \<Longrightarrow> queue_ok w' \<Longrightarrow> Q () w'"
    and failed: "\<And>x. q_waiting w \<noteq> [] \<Longrightarrow> mint_may_fail env \<Longrightarrow> E Mint_failed (minted_on w x)"
  shows "wp (sweep env) Q E w"
proof (cases "q_waiting w = []")
  case True
  with idle show ?thesis by (simp add: sweep_def read_waiting_def set_alarm_def)
next
  case False
  have may: "may_pair (q_waiting w) w" using ok by (simp add: queue_ok_def may_pair_def)
  have "wp (seq (apply_matches env (q_waiting w)) (\<lambda>(m, remaining).
      seq (reconcile_alarm env remaining) (\<lambda>_. give ()))) Q E w"
    by (rule wp_pairing [OF may]) (use ret [OF False refl] failed [OF False] in auto)
  then have "wp (seq (apply_matches env (q_waiting w)) (\<lambda>(m, remaining). reconcile_alarm env remaining)) Q E w"
    by (simp only: seq_unit)
  with False show ?thesis by (simp add: sweep_def read_waiting_def)
qed

lemma distinct_fst_filter: "distinct (map fst xs) \<Longrightarrow> distinct (map fst (filter P xs))"
  by (simp add: distinct_map_filter)

lemma queue_ok_removed:
  assumes "queue_ok w" and "ts = [t \<leftarrow> q_waiting w. P t]" and "distinct (map fst ds)"
  shows "queue_ok (w\<lparr>q_waiting := ts, q_drops := ds, q_alarm := (if ts = [] then None else q_alarm w)\<rparr>)"
    and "queue_awake w \<Longrightarrow> queue_awake (w\<lparr>q_waiting := ts, q_drops := ds, q_alarm := (if ts = [] then None else q_alarm w)\<rparr>)"
  using assms by (auto simp: queue_ok_def queue_awake_def distinct_map_filter)

lemma queue_ok_unmatched:
  "queue_ok w \<Longrightarrow> queue_ok (w\<lparr>q_matches := (q_matches w)(u := None)\<rparr>)"
  "queue_awake (w\<lparr>q_matches := (q_matches w)(u := None)\<rparr>) = queue_awake w"
  by (auto simp: queue_ok_def queue_awake_def)

text \<open>Each call's storage after it, where it takes a player out.\<close>

definition without_ticket :: "user_id \<Rightarrow> 'r queue_world \<Rightarrow> 'r queue_world" where
  "without_ticket u w =
     (let ts = [t \<leftarrow> q_waiting w. t_user t \<noteq> u] in
      if length ts = length (q_waiting w) then w
      else w\<lparr>q_waiting := ts, q_alarm := (if ts = [] then None else q_alarm w)\<rparr>)"

lemma without_ticket_waiting [simp]:
  "q_waiting (without_ticket u w) = [t \<leftarrow> q_waiting w. t_user t \<noteq> u]"
  using length_filter_less [of _ "q_waiting w" "\<lambda>t. t_user t \<noteq> u"]
  by (auto simp: without_ticket_def Let_def intro!: filter_True [symmetric]) (metis filter_True less_irrefl)

lemma without_ticket_fields [simp]:
  "q_matches (without_ticket u w) = q_matches w" "q_drops (without_ticket u w) = q_drops w"
  "q_minted (without_ticket u w) = q_minted w" "q_game (without_ticket u w) = q_game w"
  by (simp_all add: without_ticket_def Let_def)

lemma without_ticket_ok:
  "queue_ok w \<Longrightarrow> queue_ok (without_ticket u w)"
  "queue_ok w \<Longrightarrow> queue_awake w \<Longrightarrow> queue_awake (without_ticket u w)"
  by (auto simp: without_ticket_def queue_ok_def queue_awake_def Let_def distinct_map_filter)

lemma put_remaining_simp:
  "wp (put_remaining ts) Q E w = Q () (w\<lparr>q_waiting := ts, q_alarm := (if ts = [] then None else q_alarm w)\<rparr>)"
  by (simp add: put_remaining_def put_waiting_def set_alarm_def)

lemma wp_leave: "wp (leave u) Q E w = Q () (without_ticket u w)"
  by (simp add: leave_def read_waiting_def Let_def put_remaining_simp without_ticket_def)

lemma wp_forget:
  "wp (forget u) Q E w = Q () ((without_ticket u w)\<lparr>q_matches := (q_matches w)(u := None),
     q_drops := [(k, r) \<leftarrow> q_drops w. dr_user r \<noteq> u]\<rparr>)"
  by (simp add: forget_def read_waiting_def read_drops_def Let_def put_remaining_simp without_ticket_def)

definition dropped_world :: "'r queue_env \<Rightarrow> user_id \<Rightarrow> string \<Rightarrow> 'r queue_world \<Rightarrow> 'r queue_world" where
  "dropped_world env u key w = (without_ticket u w)\<lparr>q_drops :=
     [(k, r) \<leftarrow> AList.update key \<lparr>dr_user = u, dr_at = qe_now env\<rparr> (q_drops w).
        \<not> (qe_now env - dr_at r > drop_retention)]\<rparr>"

lemma filter_same_length: "length (filter P xs) = length xs \<longleftrightarrow> (\<forall>x\<in>set xs. P x)"
  by (metis filter_True length_filter_less nat_less_le)

lemma wp_drop:
  "wp (drop_now env u key) Q E w =
     (case map_of (q_drops w) key of
        Some r \<Rightarrow> if dr_user r = u then Q True w else E Key_reused w
      | None \<Rightarrow> if u \<in> t_user ` set (q_waiting w) then Q False (dropped_world env u key w) else E Not_queued w)"
proof (cases "map_of (q_drops w) key")
  case None
  then show ?thesis
    by (auto simp: drop_now_def read_drops_def read_waiting_def Let_def put_waiting_def set_alarm_def
      prune_drop_keys_def dropped_world_def without_ticket_def filter_same_length image_iff)
qed (simp add: drop_now_def read_drops_def)

lemma wp_status:
  "wp (status env u) Q E w =
     (case q_matches w u of
        Some r \<Rightarrow> Q (Matched (sm_session r)) (w\<lparr>q_matches := (q_matches w)(u := None)\<rparr>)
      | None \<Rightarrow> (case find (\<lambda>t. t_user t = u) (q_waiting w) of
          Some t \<Rightarrow> Q (Queued (qe_now env - t_enqueued_at t)) w
        | None \<Rightarrow> E Not_queued w))"
  by (simp add: status_def read_match_def read_waiting_def split: option.split)

end
