(* ===== verification/Match_Queue_Properties.thy ===== *)
theory Match_Queue_Properties
  imports Match_Queue_Invariant
begin

text \<open>What players and operators can rely on of the open queue.\<close>

section \<open>Steps and runs\<close>

lemma queue_step_keeps:
  assumes "queue_ok w"
  shows "wp (queue_step env op)
     (\<lambda>_ w'. queue_ok w' \<and> (queue_awake w \<longrightarrow> queue_awake w'))
     (\<lambda>e w'. queue_ok w' \<and> (queue_awake w \<longrightarrow> queue_awake w' \<or> op = Alarm \<and> mint_may_fail env)) w"
proof (cases op)
  case (Enqueue tk)
  have game: "queue_ok (w\<lparr>q_game := g\<rparr>)" "queue_awake (w\<lparr>q_game := g\<rparr>) = queue_awake w" for g
    using assms by (simp_all add: queue_ok_def queue_awake_def)
  show ?thesis
    unfolding Enqueue queue_step.simps wp_seq wp_value
    by (rule wp_enqueue [OF assms]) (auto simp: assms game)
next
  case (Leave u)
  then show ?thesis using assms by (simp add: wp_leave without_ticket_ok)
next
  case (Drop u key)
  have "distinct (map fst (AList.update key r (q_drops w)))" for r
    using assms by (intro distinct_update) (simp add: queue_ok_def)
  then have ok: "queue_ok (dropped_world env u key w)"
    using without_ticket_ok(1) [OF assms, of u] by (simp add: queue_ok_def dropped_world_def distinct_fst_filter)
  have "queue_awake w \<Longrightarrow> queue_awake (dropped_world env u key w)"
    using without_ticket_ok(2) [OF assms, of u] by (simp add: queue_awake_def dropped_world_def)
  with ok show ?thesis using assms by (simp add: Drop wp_drop split: option.split)
next
  case (Status u)
  then show ?thesis
    using assms by (simp add: wp_status queue_ok_unmatched split: option.split)
next
  case Alarm
  have quiet: "queue_ok (w\<lparr>q_alarm := None\<rparr>)" using assms by (simp add: queue_ok_def)
  show ?thesis
    unfolding Alarm queue_step.simps on_alarm_def wp_seq set_alarm_def wp_unit
    by (rule wp_sweep [OF quiet]) (use quiet in \<open>auto simp: queue_awake_def\<close>)
next
  case (Forget u)
  then show ?thesis
    using without_ticket_ok(1) [OF assms, of u] without_ticket_ok(2) [OF assms, of u]
    by (simp add: wp_forget queue_ok_def queue_awake_def distinct_fst_filter)
qed

lemma queue_step_ok:
  assumes "queue_ok w" shows "queue_ok (snd (queue_step env op w))"
proof -
  have "wp (queue_step env op) (\<lambda>_. queue_ok) (\<lambda>_. queue_ok) w"
    by (rule wp_mono [OF queue_step_keeps [OF assms]]) auto
  then show ?thesis by (simp add: wp_snd)
qed

interpretation queues: invariant_system
  "\<lambda>w (env, op). (Inr (snd (queue_step env op w)) :: queue_error + 'r queue_world)" queue_ok
  by unfold_locales (auto intro: queue_step_ok)

lemma queue_run_is: "queue_run steps w = queues.run w steps"
  unfolding queue_run_def queues.run_def by (rule foldl_cong) auto

lemma queue_run_ok: "queue_ok w \<Longrightarrow> queue_ok (queue_run steps w)"
  unfolding queue_run_is by (rule queues.run_inv)

lemma queue_run_stable:
  assumes "queue_ok w" and "P w"
    and "\<And>w env op. queue_ok w \<Longrightarrow> P w \<Longrightarrow> (env, op) \<in> set steps \<Longrightarrow> P (snd (queue_step env op w))"
  shows "P (queue_run steps w)"
  using assms
proof (induction steps arbitrary: w)
  case (Cons s steps)
  obtain env op where s: "s = (env, op)" by fastforce
  have "P (queue_run steps (snd (queue_step env op w)))"
    by (rule Cons.IH) (use Cons.prems s in \<open>auto intro: queue_step_ok\<close>)
  then show ?case by (simp add: queue_run_def s)
qed (simp add: queue_run_def)

lemma queue_run_awake:
  assumes "queue_ok w" "queue_awake w" "\<forall>(env, op)\<in>set steps. op = Alarm \<longrightarrow> \<not> mint_may_fail env"
  shows "queue_awake (queue_run steps w)"
proof (rule queue_run_stable [where P = queue_awake, OF assms(1,2)])
  fix w :: "'a queue_world" and env op
  assume w: "queue_ok w" "queue_awake w" and "(env, op) \<in> set steps"
  with assms(3) have "\<not> (op = Alarm \<and> mint_may_fail env)" by auto
  with w have "wp (queue_step env op) (\<lambda>_. queue_awake) (\<lambda>_. queue_awake) w"
    by (intro wp_mono [OF queue_step_keeps]) auto
  then show "queue_awake (snd (queue_step env op w))" by (simp add: wp_snd)
qed

section \<open>A small queue\<close>

definition small_settings :: queue_settings where
  "small_settings = \<lparr>initial_band = 100, widen_per_second = 50, max_wait_seconds = 120, sweep_seconds = 5\<rparr>"

definition duel_snapshot :: "unit match_snapshot" where
  "duel_snapshot = \<lparr>ms_kind = ''duel'', ms_is_table = False, ms_turn_timeout = None, ms_rules = ()\<rparr>"

definition duelist :: "user_id \<Rightarrow> rat option \<Rightarrow> millis \<Rightarrow> unit ticket" where
  "duelist u skill since = \<lparr>t_user = u, t_skill = skill, t_region = ''eu'', t_players = 2,
     t_snapshot = duel_snapshot, t_settings = small_settings, t_enqueued_at = since\<rparr>"

definition duel_request :: "user_id \<Rightarrow> rat option \<Rightarrow> unit queue_ticket" where
  "duel_request u skill = \<lparr>qt_user = u, qt_skill = skill, qt_region = ''eu'', qt_game = ''duel'', qt_players = 2,
     qt_settings = small_settings, qt_snapshot = duel_snapshot\<rparr>"

definition calm :: "millis \<Rightarrow> unit queue_env" where
  "calm now = \<lparr>qe_now = now, qe_mint = Some (\<lambda>_ _ roster. Some (''s-'' @ hd roster)), qe_presence = True\<rparr>"

definition two_waiting :: "unit queue_world" where
  "two_waiting = queue_run [(calm 1000, Enqueue (duel_request ''a'' (Some 1000))),
     (calm 1500, Enqueue (duel_request ''b'' (Some 1500)))] empty_queue"

lemmas small_defs = small_settings_def duel_snapshot_def duelist_def duel_request_def calm_def

lemmas queue_evals = queue_run_def enqueue_now_def read_match_def read_waiting_def read_game_key_def
  read_drops_def apply_matches_def reconcile_alarm_def form_matches_def form_rosters_def by_region_def
  put_matches_def put_waiting_def push_presence_def set_alarm_def mint_def set_all_def sweep_def on_alarm_def
  form_pool.simps(2) compatible_def within_wider_def band_def proc_defs empty_queue_def

lemma two_waiting_value:
  "two_waiting = \<lparr>q_waiting = [duelist ''a'' (Some 1000) 1000, duelist ''b'' (Some 1500) 1500],
     q_game = Some ''duel'', q_matches = (\<lambda>_. None), q_drops = [], q_alarm = Some 6500, q_minted = [], q_pushed = []\<rparr>"
  unfolding two_waiting_def
  by (simp add: queue_evals small_defs Let_def)

section \<open>Pairing\<close>

text \<open>C36: Every roster the pairing rule forms is of waiting tickets, is exactly as long as
  its oldest member's game asks, stays in one region, and seats only players who fit each other's
  skill window now; and no player is seated twice.\<close>

theorem rosters_are_fair:
  assumes "distinct (map t_user ws)"
  shows "(\<forall>r\<in>set (form_rosters ws now). r \<noteq> [] \<and> int (length r) = t_players (hd r) \<and> set r \<subseteq> set ws \<and>
      (\<forall>a\<in>set r. \<forall>b\<in>set r. t_region a = t_region b \<and> (a \<noteq> b \<longrightarrow> compatible a b now))) \<and>
    distinct (concat (form_matches ws now))"
proof (intro conjI ballI)
  fix r
  assume "r \<in> set (form_rosters ws now)"
  note r = roster_sound [OF this]
  show "r \<noteq> []" "int (length r) = t_players (hd r)" "set r \<subseteq> set ws" using r by simp_all
  fix a b
  assume "a \<in> set r" "b \<in> set r"
  with r(3,4) show "t_region a = t_region b" "a \<noteq> b \<longrightarrow> compatible a b now"
    unfolding mutual_def by blast+
qed (rule matched_once(1) [OF assms])

lemma rosters_are_fair_witness:
  "distinct (map t_user [duelist ''a'' None 0, duelist ''b'' (Some 3) 5]) \<and>
   form_matches [duelist ''a'' None 0, duelist ''b'' (Some 3) 5] 10 = [[''a'', ''b'']] \<and>
   distinct (concat (form_matches [duelist ''a'' None 0, duelist ''b'' (Some 3) 5] 10))"
proof -
  have d: "distinct (map t_user [duelist ''a'' None 0, duelist ''b'' (Some 3) 5])" by (simp add: small_defs)
  have "form_matches [duelist ''a'' None 0, duelist ''b'' (Some 3) 5] 10 = [[''a'', ''b'']]"
    by (simp add: queue_evals small_defs Let_def)
  with d rosters_are_fair [OF d, of 10] show ?thesis by simp
qed

text \<open>Past its longest wait a ticket fits anyone.\<close>

lemma long_wait_fits_anyone:
  "now - t_enqueued_at a \<ge> max_wait_seconds (t_settings a) * 1000 \<Longrightarrow> compatible a b now"
  by (simp add: compatible_def within_wider_def band_def split: option.split)

lemma sweep_result:
  assumes "queue_ok w" "sweep env w = (Inr (), w')"
  shows "set (q_waiting w') = set (left_waiting (q_waiting w) (qe_now env))"
proof -
  have d: "distinct (map t_user (q_waiting w))" using assms(1) by (simp add: queue_ok_def)
  have left: "set (remaining_of ws now) = set (left_waiting ws now)" if "distinct (map t_user ws)"
    for ws :: "'a ticket list" and now
    using left_waiting_users [OF that] by (auto simp: remaining_of_def paired_def)
  have "wp (sweep env) (\<lambda>_ w'. set (q_waiting w') = set (left_waiting (q_waiting w) (qe_now env))) (\<lambda>_ _. True) w"
    by (rule wp_sweep [OF assms(1)]) (use left [OF d] in \<open>auto simp: left_waiting_def by_region_def\<close>)
  with assms(2) show ?thesis by (simp add: wp_def)
qed

text \<open>In a game for two, a sweep that returns leaves nobody waiting beside someone they
  could play: no two tickets left in a region are compatible, so a player past the longest wait is
  left only when alone in their region.\<close>

theorem sweep_leaves_no_pair:
  assumes "queue_ok w" and "\<forall>t\<in>set (q_waiting w). t_players t = 2"
    and "sweep env w = (Inr (), w')"
    and "a \<in> set (q_waiting w')" "b \<in> set (q_waiting w')" "a \<noteq> b" "t_region a = t_region b"
  shows "\<not> compatible a b (qe_now env) \<and>
    qe_now env - t_enqueued_at a < max_wait_seconds (t_settings a) * 1000"
proof -
  have no: "\<not> compatible a b (qe_now env)"
    by (rule left_waiting_no_pair [OF assms(2) _ _ assms(6,7)])
      (use sweep_result [OF assms(1,3)] assms(4,5) in simp_all)
  with long_wait_fits_anyone [of a "qe_now env" b] show ?thesis by force
qed

lemma two_waiting_ok: "queue_ok two_waiting"
  unfolding two_waiting_def by (rule queue_run_ok) simp

lemma sweep_leaves_no_pair_witness:
  "queue_ok two_waiting \<and> fst (sweep (calm 6500) two_waiting) = Inr () \<and>
   (let left = q_waiting (snd (sweep (calm 6500) two_waiting)) in
     left = [duelist ''a'' (Some 1000) 1000, duelist ''b'' (Some 1500) 1500] \<and>
     \<not> compatible (left ! 0) (left ! 1) 6500)"
proof -
  let ?w = "two_waiting\<lparr>q_alarm := Some 11500\<rparr>"
  have s: "sweep (calm 6500) two_waiting = (Inr (), ?w)"
    by (simp add: two_waiting_value queue_evals small_defs Let_def)
  have "\<not> compatible (duelist ''a'' (Some 1000) 1000) (duelist ''b'' (Some 1500) 1500) (qe_now (calm 6500))"
    using sweep_leaves_no_pair [OF two_waiting_ok _ s, of "duelist ''a'' (Some 1000) 1000" "duelist ''b'' (Some 1500) 1500"]
    by (simp add: two_waiting_value) (simp add: small_defs)
  then show ?thesis using s two_waiting_ok by (simp add: two_waiting_value) (simp add: small_defs)
qed

section \<open>What the storage promises\<close>

text \<open>C37: After any calls and alarms, whichever mints fail, a player waits once at most,
  never both waits and holds an undelivered match, and a recorded match names a roster its player
  is in and the session minted for that roster; an armed alarm means somebody waits, and while no
  alarm meets a failing mint whoever waits has an alarm armed.\<close>

theorem queue_storage_sound:
  fixes steps :: "('r queue_env \<times> 'r queue_op) list"
  defines "w \<equiv> queue_run steps empty_queue"
  shows "distinct (map t_user (q_waiting w)) \<and>
    (\<forall>t\<in>set (q_waiting w). q_matches w (t_user t) = None) \<and>
    (\<forall>u r. q_matches w u = Some r \<longrightarrow> u \<in> set (sm_roster r) \<and>
       (\<forall>sid. sm_session r = Some sid \<longrightarrow> (sid, sm_roster r) \<in> set (q_minted w))) \<and>
    (q_alarm w \<noteq> None \<longrightarrow> q_waiting w \<noteq> []) \<and>
    ((\<forall>(env, op)\<in>set steps. op = Alarm \<longrightarrow> \<not> mint_may_fail env) \<longrightarrow>
       q_waiting w \<noteq> [] \<longrightarrow> q_alarm w \<noteq> None)"
proof -
  have "queue_ok w" unfolding w_def by (rule queue_run_ok) simp
  moreover have "queue_awake w" if "\<forall>(env, op)\<in>set steps. op = Alarm \<longrightarrow> \<not> mint_may_fail env"
    unfolding w_def by (rule queue_run_awake [OF _ _ that]) simp_all
  ultimately show ?thesis by (simp add: queue_ok_def match_ok_def queue_awake_def)
qed

lemma calm_never_fails [simp]: "\<not> mint_may_fail (calm now)"
  by (simp add: mint_may_fail_def calm_def)

lemma queue_storage_sound_witness:
  "q_waiting two_waiting \<noteq> [] \<and> q_alarm two_waiting \<noteq> None"
proof -
  have "q_waiting two_waiting \<noteq> []" by (simp add: two_waiting_value)
  then show ?thesis
    using queue_storage_sound [of "[(calm 1000, Enqueue (duel_request ''a'' (Some 1000))),
      (calm 1500, Enqueue (duel_request ''b'' (Some 1500)))]"]
    by (simp flip: two_waiting_def)
qed

section \<open>Drops\<close>

definition dropped_under :: "string \<Rightarrow> user_id \<Rightarrow> millis \<Rightarrow> 'r queue_world \<Rightarrow> bool" where
  "dropped_under key u since w \<longleftrightarrow> map_of (q_drops w) key = Some \<lparr>dr_user = u, dr_at = since\<rparr>"

lemma map_of_filter_keep:
  "distinct (map fst al) \<Longrightarrow> map_of al k = Some v \<Longrightarrow> P (k, v) \<Longrightarrow> map_of (filter P al) k = Some v"
  by (induction al) (auto simp: map_of_eq_None_iff dest: map_of_SomeD)

lemma step_keeps_drop:
  assumes ok: "queue_ok w" and d: "dropped_under key u since w"
    and clock: "qe_now env - since \<le> drop_retention" and other: "op \<noteq> Forget u"
  shows "dropped_under key u since (snd (queue_step env op w))"
proof -
  have dist: "distinct (map fst (q_drops w))" using ok by (simp add: queue_ok_def)
  have same: "dropped_under key u since w'" if "q_drops w' = q_drops w" for w' :: "'a queue_world"
    using d that by (simp add: dropped_under_def)
  have "wp (queue_step env op) (\<lambda>_. dropped_under key u since) (\<lambda>_. dropped_under key u since) w"
  proof (cases op)
    case (Enqueue tk)
    show ?thesis
      unfolding Enqueue queue_step.simps wp_seq wp_value
      by (rule wp_enqueue [OF ok]) (auto intro: same d)
  next
    case (Drop v k)
    have "dropped_under key u since (dropped_world env v k w)" if "map_of (q_drops w) k = None"
    proof -
      have "key \<noteq> k" using d that by (auto simp: dropped_under_def)
      then have "map_of (AList.update k r (q_drops w)) key = Some \<lparr>dr_user = u, dr_at = since\<rparr>" for r
        using d by (simp add: dropped_under_def update_conv')
      moreover have "distinct (map fst (AList.update k r (q_drops w)))" for r
        using dist by (rule distinct_update)
      ultimately show ?thesis
        using clock by (simp add: dropped_under_def dropped_world_def map_of_filter_keep)
    qed
    then show ?thesis using d by (simp add: Drop wp_drop split: option.split)
  next
    case Alarm
    have quiet: "queue_ok (w\<lparr>q_alarm := None\<rparr>)" using ok by (simp add: queue_ok_def)
    show ?thesis
      unfolding Alarm queue_step.simps on_alarm_def wp_seq set_alarm_def wp_unit
      by (rule wp_sweep [OF quiet]) (auto intro: same)
  next
    case (Forget v)
    then show ?thesis
      using d other dist by (simp add: wp_forget dropped_under_def map_of_filter_keep)
  qed (use d in \<open>auto simp: wp_leave wp_status dropped_under_def split: option.split\<close>)
  then show ?thesis by (simp add: wp_snd)
qed

text \<open>A management drop takes the player out, and a retry under its key within a day
  answers that it was replayed and changes nothing, whatever was asked of the queue in between,
  short of erasing the player; a player who queued again meanwhile keeps their place.\<close>

theorem drop_is_idempotent:
  assumes ok: "queue_ok w" and first: "drop_now env u key w = (Inr False, w1)"
    and between: "\<forall>(e, op)\<in>set steps. qe_now e - qe_now env \<le> drop_retention \<and> op \<noteq> Forget u"
  shows "u \<notin> t_user ` set (q_waiting w1) \<and>
    drop_now env' u key (queue_run steps w1) = (Inr True, queue_run steps w1)"
proof -
  have "u \<notin> t_user ` set (q_waiting w1) \<and> queue_ok w1 \<and> dropped_under key u (qe_now env) w1"
  proof -
    have w1: "w1 = dropped_world env u key w" and fresh: "map_of (q_drops w) key = None"
      using first wp_drop [of env u key "\<lambda>x w'. x = False \<and> w' = dropped_world env u key w \<and> map_of (q_drops w) key = None"
        "\<lambda>_ _. True" w] wp_drop [of env u key "\<lambda>x w'. \<not> x" "\<lambda>_ _. True" w]
      by (auto simp: wp_def split: option.splits if_splits)
    have dist: "distinct (map fst (AList.update key \<lparr>dr_user = u, dr_at = qe_now env\<rparr> (q_drops w)))"
      using ok by (intro distinct_update) (simp add: queue_ok_def)
    have "dropped_under key u (qe_now env) w1"
      unfolding w1 dropped_under_def dropped_world_def
      using map_of_filter_keep [OF dist] by (simp add: update_conv' drop_retention_def)
    moreover have "queue_ok w1"
      using queue_step_ok [OF ok, of env "Drop u key"] first by (simp add: seq_def give_def)
    ultimately show ?thesis by (auto simp: w1 dropped_world_def)
  qed
  then have w1: "u \<notin> t_user ` set (q_waiting w1)" "queue_ok w1" "dropped_under key u (qe_now env) w1" by simp_all
  have "dropped_under key u (qe_now env) (queue_run steps w1)"
  proof (rule queue_run_stable [where P = "dropped_under key u (qe_now env)", OF w1(2,3)])
    fix w :: "'a queue_world" and e op
    assume "queue_ok w" "dropped_under key u (qe_now env) w" "(e, op) \<in> set steps"
    then show "dropped_under key u (qe_now env) (snd (queue_step e op w))"
      using between by (intro step_keeps_drop) auto
  qed
  then have "wp (drop_now env' u key) (\<lambda>x w'. x \<and> w' = queue_run steps w1) (\<lambda>_ _. False) (queue_run steps w1)"
    by (simp add: wp_drop dropped_under_def)
  then show ?thesis using w1(1) by (auto simp: wp_def split: prod.splits sum.splits)
qed

lemmas call_evals = drop_now_def leave_def forget_def status_def prune_drop_keys_def put_remaining_def
  held_for_def drop_retention_def

lemma calm_now [simp]: "qe_now (calm n) = n"
  by (simp add: calm_def)

lemma drop_is_idempotent_witness:
  "queue_ok two_waiting \<and> fst (drop_now (calm 2000) ''a'' ''k'' two_waiting) = Inr False \<and>
   fst (drop_now (calm 9000) ''a'' ''k''
     (queue_run [(calm 3000, Enqueue (duel_request ''a'' None)), (calm 4000, Status ''b'')]
       (snd (drop_now (calm 2000) ''a'' ''k'' two_waiting)))) = Inr True"
proof -
  define w1 where "w1 = snd (drop_now (calm 2000) ''a'' ''k'' two_waiting)"
  have d: "drop_now (calm 2000) ''a'' ''k'' two_waiting = (Inr False, w1)"
    unfolding w1_def by (simp add: two_waiting_value queue_evals call_evals small_defs Let_def)
  show ?thesis
    using drop_is_idempotent [OF two_waiting_ok d,
        of "[(calm 3000, Enqueue (duel_request ''a'' None)), (calm 4000, Status ''b'')]" "calm 9000"]
      two_waiting_ok d
    by (simp add: drop_retention_def)
qed

section \<open>Answers\<close>

text \<open>
  An enqueue answers with what the storage holds: matched exactly when a match is recorded for
  the player, queued exactly when their ticket waits.
\<close>

lemma enqueue_answer:
  assumes "queue_ok w" "enqueue_now env tk w = (Inr r, w')"
  shows "case r of
      Matched sid \<Rightarrow> (\<exists>m. q_matches w' (qt_user tk) = Some m \<and> sm_session m = sid \<and> qt_user tk \<notin> t_user ` set (q_waiting w'))
    | Queued ms \<Rightarrow> ms = 0 \<and> q_matches w' (qt_user tk) = None \<and> qt_user tk \<in> t_user ` set (q_waiting w')"
    (is "?P r w'")
proof -
  have "wp (enqueue_now env tk) ?P (\<lambda>_ _. True) w"
  proof (rule wp_enqueue [OF assms(1)], goal_cases)
    case (1 m)
    then show ?case using assms(1) by (auto simp: queue_ok_def)
  next
    case (2 w' m x p)
    let ?ws = "enqueued env tk (q_waiting w)"
    have waits: "t_user ` set (remaining_of ?ws (qe_now env)) = t_user ` set ?ws - paired ?ws (qe_now env)"
      by (auto simp: remaining_of_def)
    have dom: "fst ` set m = paired ?ws (qe_now env)" and keys: "distinct (map fst m)"
      using 2(3) by (simp_all add: matches_for_def)
    show ?case
    proof (cases "map_of m (qt_user tk)")
      case None
      then have out: "qt_user tk \<notin> fst ` set m" by (simp add: map_of_eq_None_iff)
      with dom have "qt_user tk \<notin> paired ?ws (qe_now env)" by simp
      with waits have "qt_user tk \<in> t_user ` set (remaining_of ?ws (qe_now env))"
        by (simp add: enqueued_users)
      with None show ?thesis by (simp add: 2(1,2) add_matches_other [OF out])
    next
      case (Some r)
      then have mem: "qt_user tk \<in> fst ` set m" by (auto dest: map_of_SomeD intro: rev_image_eqI)
      with dom waits have "qt_user tk \<notin> t_user ` set (remaining_of ?ws (qe_now env))" by simp
      with Some show ?thesis
        using add_matches_map_of [OF keys Some] by (simp add: 2(2))
    qed
  qed auto
  with assms(2) show ?thesis by (simp add: wp_def)
qed

text \<open>An enqueue that answers with a match is followed by exactly one status that
  answers with that same session; the next status says the player is not queued.\<close>

theorem match_delivered_once:
  assumes ok: "queue_ok w" and "enqueue_now env tk w = (Inr (Matched sid), w')"
  shows "fst (status env' (qt_user tk) w') = Inr (Matched sid) \<and>
    fst (status env'' (qt_user tk) (snd (status env' (qt_user tk) w'))) = Inl Not_queued"
proof -
  from enqueue_answer [OF assms] obtain m where m: "q_matches w' (qt_user tk) = Some m" "sm_session m = sid"
    and out: "qt_user tk \<notin> t_user ` set (q_waiting w')" by auto
  from out have "find (\<lambda>t. t_user t = qt_user tk) (q_waiting w') = None"
    unfolding find_none_iff by (metis image_eqI)
  then show ?thesis using m
    by (simp add: status_def read_match_def read_waiting_def proc_defs)
qed

lemma match_delivered_once_witness:
  "queue_ok two_waiting \<and>
   (\<exists>w'. enqueue_now (calm 2000) (duel_request ''c'' None) two_waiting = (Inr (Matched (Some ''s-a'')), w') \<and>
     fst (status (calm 2500) ''c'' w') = Inr (Matched (Some ''s-a'')) \<and>
     fst (status (calm 2600) ''c'' (snd (status (calm 2500) ''c'' w'))) = Inl Not_queued)"
proof -
  define w' where "w' = snd (enqueue_now (calm 2000) (duel_request ''c'' None) two_waiting)"
  have e: "enqueue_now (calm 2000) (duel_request ''c'' None) two_waiting = (Inr (Matched (Some ''s-a'')), w')"
    unfolding w'_def by (simp add: two_waiting_value queue_evals small_defs Let_def)
  show ?thesis
    using match_delivered_once [OF two_waiting_ok e, of "calm 2500" "calm 2600"] e two_waiting_ok
    by (simp add: duel_request_def)
qed

section \<open>Erasing a player\<close>

lemma find_other: "find (\<lambda>t. f t = v) [t \<leftarrow> xs. f t \<noteq> u] = (if u = v then None else find (\<lambda>t. f t = v) xs)"
  by (induction xs) auto

text \<open>After an erasure the queue holds nothing about the player, holds of every other
  player what it held, and a second erasure succeeds and changes nothing.\<close>

theorem forget_erases_one_player:
  assumes "forget u w = (Inr (), w')"
  shows "fst (held_for u w') = Inr \<lparr>qh_waiting = None, qh_match = None, qh_drops = []\<rparr> \<and>
    (\<forall>v. v \<noteq> u \<longrightarrow> fst (held_for v w') = fst (held_for v w)) \<and>
    fst (forget u w') = Inr () \<and> q_waiting (snd (forget u w')) = q_waiting w' \<and>
    q_matches (snd (forget u w')) = q_matches w' \<and> q_drops (snd (forget u w')) = q_drops w'"
proof -
  let ?w = "(without_ticket u w)\<lparr>q_matches := (q_matches w)(u := None),
     q_drops := [(k, r) \<leftarrow> q_drops w. dr_user r \<noteq> u]\<rparr>"
  have forgets: "forget u v = (Inr (), (without_ticket u v)\<lparr>q_matches := (q_matches v)(u := None),
     q_drops := [(k, r) \<leftarrow> q_drops v. dr_user r \<noteq> u]\<rparr>)" for v :: "'a queue_world"
    using wp_forget [of u "\<lambda>_ w'. w' = (without_ticket u v)\<lparr>q_matches := (q_matches v)(u := None),
      q_drops := [(k, r) \<leftarrow> q_drops v. dr_user r \<noteq> u]\<rparr>" "\<lambda>_ _. False" v]
    by (auto simp: wp_def split: prod.splits sum.splits)
  have w': "w' = ?w" using assms by (simp add: forgets)
  have drops: "[r \<leftarrow> map snd [(k, r) \<leftarrow> ds. dr_user r \<noteq> u]. dr_user r = v]
      = (if v = u then [] else [r \<leftarrow> map snd ds. dr_user r = v])" for ds :: "(string \<times> drop_record) list" and v
    by (induction ds) auto
  have "fst (held_for v w') = (if v = u then Inr \<lparr>qh_waiting = None, qh_match = None, qh_drops = []\<rparr> else fst (held_for v w))" for v
    unfolding w' by (simp add: held_for_def read_waiting_def read_match_def read_drops_def proc_defs find_other drops)
  then show ?thesis by (simp add: forgets w')
qed

lemma forget_erases_one_player_witness:
  "fst (forget ''a'' two_waiting) = Inr () \<and>
   fst (held_for ''a'' two_waiting) \<noteq> Inr \<lparr>qh_waiting = None, qh_match = None, qh_drops = []\<rparr> \<and>
   fst (held_for ''a'' (snd (forget ''a'' two_waiting))) = Inr \<lparr>qh_waiting = None, qh_match = None, qh_drops = []\<rparr>"
proof -
  define w' where "w' = snd (forget ''a'' two_waiting)"
  have f: "forget ''a'' two_waiting = (Inr (), w')"
    unfolding w'_def by (simp add: two_waiting_value queue_evals call_evals small_defs Let_def)
  moreover have "fst (held_for ''a'' two_waiting) \<noteq> Inr \<lparr>qh_waiting = None, qh_match = None, qh_drops = []\<rparr>"
    by (simp add: two_waiting_value queue_evals call_evals small_defs Let_def)
  ultimately show ?thesis using forget_erases_one_player [OF f] by simp
qed

section \<open>A mint that fails\<close>

text \<open>
  A sweep that fails leaves its storage as it was, but not the sessions it minted: here two
  rosters form, the first session is minted, the second mint fails. Nobody is told of the first
  session, its players still wait, no alarm is left, and the next sweep mints them another.
\<close>

definition four_waiting :: "unit queue_world" where
  "four_waiting = empty_queue\<lparr>q_waiting := [duelist ''a'' None 0, duelist ''b'' None 1,
     (duelist ''c'' None 2)\<lparr>t_region := ''us''\<rparr>, (duelist ''d'' None 3)\<lparr>t_region := ''us''\<rparr>],
     q_game := Some ''duel'', q_alarm := Some 5000\<rparr>"

definition second_mint_fails :: "unit queue_env" where
  "second_mint_fails = \<lparr>qe_now = 5000,
     qe_mint = Some (\<lambda>_ _ roster. if hd roster = ''a'' then Some ''s-1'' else None), qe_presence = True\<rparr>"

definition mints_again :: "unit queue_env" where
  "mints_again = \<lparr>qe_now = 5100, qe_mint = Some (\<lambda>_ _ roster. Some (''t-'' @ hd roster)), qe_presence = True\<rparr>"

lemma four_waiting_ok: "queue_ok four_waiting"
  by (simp add: four_waiting_def empty_queue_def queue_ok_def small_defs)


end
