(* ===== verification/Canonical_Json.thy ===== *)
theory Canonical_Json
  imports Pithy_Prelude
begin

text \<open>
  \<open>JSON.stringify\<close> of an array of scalars, the form every audit hash is computed over: strings with
  their escapes, integers, null. Two arrays with the same text are the same array, which is what
  lets a hash stand for the event it was taken of.
\<close>

section \<open>The text\<close>

datatype json = JNull | JNum int | JStr string

definition hex_digit :: "nat \<Rightarrow> char" where
  "hex_digit d = ''0123456789abcdef'' ! d"

definition quote_char :: char where "quote_char = CHR 0x22"
definition backslash :: char where "backslash = CHR 0x5C"

definition json_escape :: "char \<Rightarrow> string" where
  "json_escape c =
     (let n = of_char c :: nat in
      if c = quote_char \<or> c = backslash then [backslash, c]
      else if n = 8 then [backslash, CHR ''b'']
      else if n = 9 then [backslash, CHR ''t'']
      else if n = 10 then [backslash, CHR ''n'']
      else if n = 12 then [backslash, CHR ''f'']
      else if n = 13 then [backslash, CHR ''r'']
      else if n < 32 then backslash # ''u00'' @ [hex_digit (n div 16), hex_digit (n mod 16)]
      else [c])"

definition json_string :: "string \<Rightarrow> string" where
  "json_string s = quote_char # concat (map json_escape s) @ [quote_char]"

definition json_int :: "int \<Rightarrow> string" where
  "json_int n = (if n < 0 then CHR ''-'' # decimal (nat (- n)) else decimal (nat n))"

fun json_text :: "json \<Rightarrow> string" where
  "json_text JNull = ''null''"
| "json_text (JNum n) = json_int n"
| "json_text (JStr s) = json_string s"

text \<open>The elements after the first, each behind its comma, and the closing bracket.\<close>

fun json_more :: "json list \<Rightarrow> string" where
  "json_more [] = '']''"
| "json_more (x # xs) = CHR '','' # json_text x @ json_more xs"

fun json_array :: "json list \<Rightarrow> string" where
  "json_array [] = ''[]''"
| "json_array (x # xs) = CHR ''['' # json_text x @ json_more xs"

text \<open>An absent value is null.\<close>

definition json_opt :: "string option \<Rightarrow> json" where
  "json_opt v = (case v of None \<Rightarrow> JNull | Some s \<Rightarrow> JStr s)"

lemma json_opt_inj [simp]: "json_opt a = json_opt b \<longleftrightarrow> a = b"
  by (auto simp: json_opt_def split: option.splits)

section \<open>One text, one array\<close>

definition hex_value :: "char \<Rightarrow> nat" where
  "hex_value c = (let n = of_char c in if n < 58 then n - 48 else n - 87)"

lemma hex_value_digit: "d < 16 \<Longrightarrow> hex_value (hex_digit d) = d"
proof -
  assume "d < 16"
  then have "d = 0 \<or> d = 1 \<or> d = 2 \<or> d = 3 \<or> d = 4 \<or> d = 5 \<or> d = 6 \<or> d = 7 \<or> d = 8 \<or> d = 9
      \<or> d = 10 \<or> d = 11 \<or> d = 12 \<or> d = 13 \<or> d = 14 \<or> d = 15" by arith
  then show ?thesis by (elim disjE) (simp_all add: hex_value_def hex_digit_def Let_def)
qed

text \<open>Reading one escaped character back.\<close>

definition read_char :: "string \<Rightarrow> char \<times> string" where
  "read_char s =
     (if hd s \<noteq> backslash then (hd s, tl s)
      else let e = s ! 1; r = drop 2 s in
        if e = CHR ''b'' then (char_of (8::nat), r)
        else if e = CHR ''t'' then (char_of (9::nat), r)
        else if e = CHR ''n'' then (char_of (10::nat), r)
        else if e = CHR ''f'' then (char_of (12::nat), r)
        else if e = CHR ''r'' then (char_of (13::nat), r)
        else if e = CHR ''u'' then (char_of (16 * hex_value (s ! 4) + hex_value (s ! 5)), drop 6 s)
        else (e, r))"

lemma read_unicode:
  "read_char (backslash # CHR ''u'' # CHR ''0'' # CHR ''0'' # a # b # r)
     = (char_of (16 * hex_value a + hex_value b), r)"
  by (simp add: read_char_def Let_def)

lemma read_short:
  "read_char (backslash # CHR ''b'' # r) = (char_of (8::nat), r)"
  "read_char (backslash # CHR ''t'' # r) = (char_of (9::nat), r)"
  "read_char (backslash # CHR ''n'' # r) = (char_of (10::nat), r)"
  "read_char (backslash # CHR ''f'' # r) = (char_of (12::nat), r)"
  "read_char (backslash # CHR ''r'' # r) = (char_of (13::nat), r)"
  by (simp_all add: read_char_def Let_def)

lemma read_json_escape: "read_char (json_escape c @ r) = (c, r)"
proof -
  define n where "n = (of_char c :: nat)"
  have c: "c = char_of n" by (simp add: n_def)
  have special: "\<not> (c = quote_char \<or> c = backslash)" if "n < 32"
    using that by (auto simp: n_def quote_char_def backslash_def)
  consider (pair) "c = quote_char \<or> c = backslash" | (ctrl) "n < 32" | (plain) "c \<noteq> quote_char" "c \<noteq> backslash" "\<not> n < 32"
    by auto
  then show ?thesis
  proof cases
    case pair
    then show ?thesis by (auto simp: json_escape_def read_char_def quote_char_def backslash_def Let_def)
  next
    case ctrl
    have hex: "hex_value (hex_digit (n div 16)) = n div 16" "hex_value (hex_digit (n mod 16)) = n mod 16"
      using ctrl by (auto intro!: hex_value_digit)
    have esc: "json_escape c =
       (if n = 8 then [backslash, CHR ''b''] else if n = 9 then [backslash, CHR ''t'']
        else if n = 10 then [backslash, CHR ''n''] else if n = 12 then [backslash, CHR ''f'']
        else if n = 13 then [backslash, CHR ''r'']
        else [backslash, CHR ''u'', CHR ''0'', CHR ''0'', hex_digit (n div 16), hex_digit (n mod 16)])"
      using ctrl special [OF ctrl] by (simp add: json_escape_def n_def [symmetric] Let_def)
    have "read_char (json_escape c @ r) = (char_of n, r)"
      unfolding esc by (simp add: read_unicode read_short hex del: char_of_mod_256)
    then show ?thesis by (simp only: c [symmetric])
  next
    case plain
    then have "json_escape c = [c]" by (simp add: json_escape_def n_def [symmetric] Let_def)
    with plain show ?thesis by (simp add: read_char_def)
  qed
qed

lemma json_escape_inj: "json_escape c @ r = json_escape d @ r' \<Longrightarrow> c = d \<and> r = r'"
proof -
  assume eq: "json_escape c @ r = json_escape d @ r'"
  have "(c, r) = read_char (json_escape c @ r)" by (simp only: read_json_escape)
  also have "\<dots> = read_char (json_escape d @ r')" by (simp only: eq)
  also have "\<dots> = (d, r')" by (simp only: read_json_escape)
  finally show ?thesis by simp
qed

lemma json_escape_head: "json_escape c @ r \<noteq> quote_char # r'"
proof
  assume eq: "json_escape c @ r = quote_char # r'"
  have "read_char (quote_char # r') = (quote_char, r')"
    by (simp add: read_char_def quote_char_def backslash_def)
  moreover have "read_char (json_escape c @ r) = (c, r)" by (rule read_json_escape)
  ultimately have "c = quote_char" unfolding eq by simp
  then have "hd (json_escape c @ r) = backslash" by (simp add: json_escape_def)
  then show False unfolding eq by (simp add: quote_char_def backslash_def)
qed

lemma json_body_inj:
  "concat (map json_escape s) @ quote_char # r = concat (map json_escape t) @ quote_char # r' \<Longrightarrow> s = t \<and> r = r'"
proof (induction s arbitrary: t)
  case Nil
  show ?case
  proof (cases t)
    case (Cons d t')
    with Nil have "json_escape d @ (concat (map json_escape t') @ quote_char # r') = quote_char # r" by simp
    with json_escape_head show ?thesis by blast
  qed (use Nil in simp)
next
  case (Cons c s)
  show ?case
  proof (cases t)
    case Nil
    with Cons.prems have "json_escape c @ (concat (map json_escape s) @ quote_char # r) = quote_char # r'" by simp
    with json_escape_head show ?thesis by blast
  next
    case t: (Cons d t')
    with Cons.prems have "json_escape c @ concat (map json_escape s) @ quote_char # r
      = json_escape d @ concat (map json_escape t') @ quote_char # r'" by simp
    from json_escape_inj [OF this]
    have "c = d" "concat (map json_escape s) @ quote_char # r = concat (map json_escape t') @ quote_char # r'"
      by simp_all
    with Cons.IH [of t'] t show ?thesis by simp
  qed
qed

lemma json_string_inj: "json_string s @ r = json_string t @ r' \<Longrightarrow> s = t \<and> r = r'"
  unfolding json_string_def by (rule json_body_inj) simp

text \<open>A number ends where its digits do.\<close>

definition ends_number :: "string \<Rightarrow> bool" where
  "ends_number r \<longleftrightarrow> r = [] \<or> hd r \<notin> set ''0123456789''"

lemma decimal_prefix_inj:
  assumes "decimal a @ r = decimal b @ r'" "ends_number r" "ends_number r'"
  shows "a = b \<and> r = r'"
proof -
  let ?D = "\<lambda>c. c \<in> set ''0123456789''"
  have split: "takeWhile ?D (decimal n @ x) = decimal n" if "ends_number x" for n x
  proof -
    have "takeWhile ?D x = []" using that by (cases x) (auto simp: ends_number_def)
    moreover have "\<forall>c\<in>set (decimal n). ?D c" using decimal_digits [of n] by blast
    ultimately show ?thesis by (simp add: takeWhile_append)
  qed
  have "decimal a = decimal b" using split [OF assms(2), of a] split [OF assms(3), of b] assms(1) by simp
  with assms(1) show ?thesis using decimal_inj by simp
qed

lemma decimal_head: "hd (decimal n @ r) \<in> set ''0123456789''"
  using decimal_digits [of n] decimal_nonempty(1) [of n] by (cases "decimal n") auto

lemma json_int_inj:
  assumes "json_int a @ r = json_int b @ r'" "ends_number r" "ends_number r'"
  shows "a = b \<and> r = r'"
proof -
  have minus: "decimal n @ x \<noteq> CHR ''-'' # y" for n x y
  proof
    assume "decimal n @ x = CHR ''-'' # y"
    then have "hd (decimal n @ x) = CHR ''-''" by simp
    with decimal_head [of n x] show False by simp
  qed
  from assms minus show ?thesis
    by (auto simp: json_int_def split: if_splits dest!: decimal_prefix_inj) (metis minus)+
qed

lemma json_int_head: "hd (json_int n @ r) \<in> set ''-0123456789''"
  using decimal_head [of "nat n" r] by (auto simp: json_int_def)

text \<open>The first character tells the three kinds apart.\<close>

definition head_kind :: "char \<Rightarrow> nat" where
  "head_kind c = (if c = CHR ''n'' then 0 else if c = quote_char then 1
     else if c \<in> set ''-0123456789'' then 2 else 3)"

lemma head_kind_text:
  "head_kind (hd (json_text x @ q)) = (case x of JNull \<Rightarrow> 0 | JStr s \<Rightarrow> 1 | JNum n \<Rightarrow> 2)"
proof (cases x)
  case (JNum n)
  have "head_kind c = 2" if "c \<in> set ''-0123456789''" for c
    using that by (auto simp: head_kind_def quote_char_def)
  with JNum json_int_head [of n q] show ?thesis by simp
qed (simp_all add: head_kind_def json_string_def quote_char_def)

lemma json_text_inj:
  assumes "json_text x @ r = json_text y @ r'" "ends_number r" "ends_number r'"
  shows "x = y \<and> r = r'"
proof -
  have "head_kind (hd (json_text x @ r)) = head_kind (hd (json_text y @ r'))" using assms(1) by simp
  then have same: "(case x of JNull \<Rightarrow> 0 | JStr s \<Rightarrow> 1 | JNum n \<Rightarrow> (2::nat))
      = (case y of JNull \<Rightarrow> 0 | JStr s \<Rightarrow> 1 | JNum n \<Rightarrow> 2)" by (simp only: head_kind_text)
  show ?thesis
  proof (cases x)
    case JNull
    then show ?thesis using same assms(1) by (cases y) simp_all
  next
    case (JNum m)
    then show ?thesis using same assms json_int_inj [of m r _ r'] by (cases y) auto
  next
    case (JStr s)
    then show ?thesis using same assms(1) json_string_inj [of s r _ r'] by (cases y) auto
  qed
qed

lemma ends_number_more [simp]: "ends_number (json_more xs)" "ends_number (json_more xs @ r)"
  by (cases xs; simp add: ends_number_def)+

lemma json_more_inj: "json_more xs = json_more ys \<Longrightarrow> xs = ys"
proof (induction xs arbitrary: ys)
  case Nil
  then show ?case by (cases ys) auto
next
  case (Cons x xs)
  then obtain y zs where ys: "ys = y # zs" by (cases ys) auto
  with Cons.prems have "json_text x @ json_more xs = json_text y @ json_more zs" by simp
  from json_text_inj [OF this] Cons.IH ys show ?case by simp
qed

lemma json_array_inj: "json_array xs = json_array ys \<Longrightarrow> xs = ys"
proof -
  assume eq: "json_array xs = json_array ys"
  have no: "json_text x @ r \<noteq> '']''" for x r
  proof
    assume "json_text x @ r = '']''"
    then have "head_kind (hd (json_text x @ r)) = 3" by (simp add: head_kind_def quote_char_def)
    then show False by (simp only: head_kind_text split: json.splits)
  qed
  show ?thesis
  proof (cases xs; cases ys)
    fix x xs' y ys' assume "xs = x # xs'" "ys = y # ys'"
    with eq have "json_text x @ json_more xs' = json_text y @ json_more ys'" by simp
    from json_text_inj [OF this] json_more_inj \<open>xs = x # xs'\<close> \<open>ys = y # ys'\<close> show ?thesis by simp
  qed (use eq no in auto)
qed

end
