(* ===== verification/Audit_Chain.thy ===== *)
theory Audit_Chain
  imports Canonical_Json
begin

text \<open>
  The audit trail's hash chain (\<open>packages/core/src/audit/chain.ts\<close>): the canonical form, the
  commitments, and the verifier that walks one tenant's chain. SHA-256 is a parameter \<open>sha\<close>. A
  break carries its event, position and reason; its sentence is not modelled.
\<close>

section \<open>Events\<close>

type_synonym digest = string

text \<open>What an event says, and beside it the commitments to its personal values.\<close>

record event_core =
  ev_id :: string
  ev_occurred_at :: int
  ev_action :: string
  ev_outcome :: string
  ev_severity :: string
  ev_actor_type :: string
  ev_actor_id :: "string option"
  ev_actor_kind :: "string option"
  ev_session_id :: "string option"
  ev_resource_type :: "string option"
  ev_resource_id :: "string option"
  ev_request_id :: "string option"
  ev_tenant :: "string option"
  ev_project :: "string option"
  ev_environment :: "string option"
  ev_worker :: "string option"
  ev_version :: "string option"

record chained_fields = event_core +
  ev_ip_commitment :: "digest option"
  ev_user_agent_commitment :: "digest option"
  ev_metadata_commitment :: "digest option"

text \<open>A personal value is absent (\<open>None\<close>), null (\<open>Some None\<close>) or a string.\<close>

record chained_event = chained_fields +
  ce_seq :: int
  ce_prev :: "digest option"
  ce_hash :: digest
  ce_salt :: "string option"
  ce_ip :: "string option option"
  ce_user_agent :: "string option option"
  ce_metadata :: "string option option"

record chain_link =
  cl_seq :: int
  cl_hash :: digest

record checkpoint =
  cp_tenant :: "string option"
  cp_count :: int
  cp_head :: digest
  cp_taken_at :: string

record tombstone =
  ts_tenant :: "string option"
  ts_from :: int
  ts_through :: int
  ts_count :: int
  ts_prior :: "digest option"
  ts_first :: digest
  ts_last :: digest
  ts_pruned_at :: string

record chain_export =
  ex_tenant :: "string option"
  ex_since :: "string option"
  ex_until :: "string option"
  ex_exported_at :: string
  ex_detail :: bool
  ex_prior :: "chain_link option"
  ex_events :: "chained_event list"
  ex_checkpoints :: "checkpoint list"
  ex_tombstones :: "tombstone list option"
  ex_complete :: bool
  ex_before_chain :: int
  ex_outside_chain :: int
  ex_next_cursor :: "string option"

datatype break_reason = Edited | Commitment | Missing | Inserted | Unlinked | Off_checkpoint | Truncated

record chain_break =
  br_event :: "string option"
  br_position :: int
  br_reason :: break_reason

section \<open>The canonical form and its hashes\<close>

definition canonical_event :: "int \<Rightarrow> digest option \<Rightarrow> 'a chained_fields_scheme \<Rightarrow> string" where
  "canonical_event pos prev f = json_array
     [JStr ''pithy-audit-chain/1'', JNum pos, json_opt prev, JStr (ev_id f), JNum (ev_occurred_at f),
      JStr (ev_action f), JStr (ev_outcome f), JStr (ev_severity f), JStr (ev_actor_type f),
      json_opt (ev_actor_id f), json_opt (ev_actor_kind f), json_opt (ev_session_id f),
      json_opt (ev_resource_type f), json_opt (ev_resource_id f), json_opt (ev_request_id f),
      json_opt (ev_tenant f), json_opt (ev_project f), json_opt (ev_environment f),
      json_opt (ev_worker f), json_opt (ev_version f), json_opt (ev_ip_commitment f),
      json_opt (ev_user_agent_commitment f), json_opt (ev_metadata_commitment f)]"

definition commitment_text :: "string \<Rightarrow> string \<Rightarrow> string" where
  "commitment_text salt v = json_array [JStr salt, JStr v]"

definition commitment :: "(string \<Rightarrow> digest) \<Rightarrow> string \<Rightarrow> string option \<Rightarrow> digest option" where
  "commitment sha salt v = (case v of None \<Rightarrow> None | Some x \<Rightarrow> Some (sha (commitment_text salt x)))"

definition chain_hash :: "(string \<Rightarrow> digest) \<Rightarrow> int \<Rightarrow> digest option \<Rightarrow> 'a chained_fields_scheme \<Rightarrow> digest" where
  "chain_hash sha pos prev f = sha (canonical_event pos prev f)"

definition hashed_fields :: "'a chained_fields_scheme \<Rightarrow> chained_fields" where
  "hashed_fields e = \<lparr>ev_id = ev_id e, ev_occurred_at = ev_occurred_at e, ev_action = ev_action e,
     ev_outcome = ev_outcome e, ev_severity = ev_severity e, ev_actor_type = ev_actor_type e,
     ev_actor_id = ev_actor_id e, ev_actor_kind = ev_actor_kind e, ev_session_id = ev_session_id e,
     ev_resource_type = ev_resource_type e, ev_resource_id = ev_resource_id e, ev_request_id = ev_request_id e,
     ev_tenant = ev_tenant e, ev_project = ev_project e, ev_environment = ev_environment e,
     ev_worker = ev_worker e, ev_version = ev_version e, ev_ip_commitment = ev_ip_commitment e,
     ev_user_agent_commitment = ev_user_agent_commitment e, ev_metadata_commitment = ev_metadata_commitment e\<rparr>"

section \<open>The walk\<close>

record verifier_options =
  vo_tenant :: "string option"
  vo_prior :: "chain_link option"
  vo_checkpoints :: "checkpoint list"
  vo_tombstones :: "tombstone list"
  vo_values :: bool

record walk =
  wk_head :: "chain_link option"
  wk_checked :: nat
  wk_pruned :: int

definition start_walk :: "verifier_options \<Rightarrow> walk" where
  "start_walk opts = \<lparr>wk_head = vo_prior opts, wk_checked = 0, wk_pruned = 0\<rparr>"

definition own_checkpoints :: "verifier_options \<Rightarrow> checkpoint list" where
  "own_checkpoints opts = [c \<leftarrow> vo_checkpoints opts. cp_tenant c = vo_tenant opts]"

text \<open>A map filled in order: of two checkpoints at one count the later stands.\<close>

definition by_count :: "verifier_options \<Rightarrow> int \<Rightarrow> checkpoint option" where
  "by_count opts n = map_of (rev (map (\<lambda>c. (cp_count c, c)) (own_checkpoints opts))) n"

definition own_tombstones :: "verifier_options \<Rightarrow> tombstone list" where
  "own_tombstones opts = [t \<leftarrow> vo_tombstones opts. ts_tenant t = vo_tenant opts]"

definition head_seq :: "chain_link option \<Rightarrow> int" where
  "head_seq h = (case h of None \<Rightarrow> 0 | Some l \<Rightarrow> cl_seq l)"

definition head_hash :: "chain_link option \<Rightarrow> digest option" where
  "head_hash h = (case h of None \<Rightarrow> None | Some l \<Rightarrow> Some (cl_hash l))"

text \<open>Whether a checkpoint at a position disagrees with the hash there.\<close>

definition disagrees :: "verifier_options \<Rightarrow> int \<Rightarrow> digest \<Rightarrow> bool" where
  "disagrees opts n hash = (case by_count opts n of None \<Rightarrow> False | Some c \<Rightarrow> cp_head c \<noteq> hash)"

definition bridges :: "chain_link option \<Rightarrow> int \<Rightarrow> tombstone \<Rightarrow> bool" where
  "bridges head pos t \<longleftrightarrow> ts_from t = head_seq head + 1 \<and> ts_through t < pos
     \<and> ts_count t = ts_through t - ts_from t + 1 \<and> ts_prior t = head_hash head"

text \<open>
  The bridging loop: pruned runs crossed until none starts where the walk stands. It runs as long
  as the tombstones let it, so it may not return.
\<close>

partial_function (option) bridge ::
  "verifier_options \<Rightarrow> int \<Rightarrow> walk \<Rightarrow> (chain_break option \<times> walk) option" where
  "bridge opts pos wk =
     (if pos \<le> head_seq (wk_head wk) + 1 then Some (None, wk)
      else case find (bridges (wk_head wk) pos) (own_tombstones opts) of
        None \<Rightarrow> Some (None, wk)
      | Some run \<Rightarrow>
          if disagrees opts (ts_from run) (ts_first run) then
            Some (Some \<lparr>br_event = None, br_position = ts_from run, br_reason = Off_checkpoint\<rparr>, wk)
          else if disagrees opts (ts_through run) (ts_last run) then
            Some (Some \<lparr>br_event = None, br_position = ts_through run, br_reason = Off_checkpoint\<rparr>, wk)
          else bridge opts pos
            (wk\<lparr>wk_head := Some \<lparr>cl_seq = ts_through run, cl_hash = ts_last run\<rparr>,
               wk_pruned := wk_pruned wk + ts_count run\<rparr>))"

text \<open>The personal values an event carries, each with its commitment.\<close>

definition committed_values :: "chained_event \<Rightarrow> (string option option \<times> digest option) list" where
  "committed_values e = [(ce_ip e, ev_ip_commitment e), (ce_user_agent e, ev_user_agent_commitment e),
     (ce_metadata e, ev_metadata_commitment e)]"

definition commitment_fails :: "(string \<Rightarrow> digest) \<Rightarrow> bool \<Rightarrow> chained_event \<Rightarrow> bool" where
  "commitment_fails sha values e =
     (case ce_salt e of
        None \<Rightarrow> (\<exists>(v, c)\<in>set (committed_values e). v \<noteq> None) \<or> values
      | Some salt \<Rightarrow> (\<exists>(v, c)\<in>set (committed_values e).
          (case v of None \<Rightarrow> values | Some x \<Rightarrow> commitment sha salt x \<noteq> c)))"

definition break_at :: "chained_event \<Rightarrow> int \<Rightarrow> break_reason \<Rightarrow> chain_break option" where
  "break_at e n reason = Some \<lparr>br_event = Some (ev_id e), br_position = n, br_reason = reason\<rparr>"

text \<open>What follows the bridge, in the order that names the first thing wrong.\<close>

definition check_event ::
  "(string \<Rightarrow> digest) \<Rightarrow> verifier_options \<Rightarrow> chained_event \<Rightarrow> walk \<Rightarrow> chain_break option \<times> walk" where
  "check_event sha opts e wk =
     (let expected = head_seq (wk_head wk) + 1 in
      if ev_tenant e \<noteq> vo_tenant opts then (break_at e expected Inserted, wk)
      else if ce_seq e > expected then (break_at e expected Missing, wk)
      else if ce_seq e < expected then (break_at e expected Inserted, wk)
      else if ce_prev e \<noteq> head_hash (wk_head wk) then (break_at e (ce_seq e) Unlinked, wk)
      else if commitment_fails sha (vo_values opts) e then (break_at e (ce_seq e) Commitment, wk)
      else if chain_hash sha (ce_seq e) (ce_prev e) (hashed_fields e) \<noteq> ce_hash e
        then (break_at e (ce_seq e) Edited, wk)
      else if disagrees opts (ce_seq e) (ce_hash e) then (break_at e (ce_seq e) Off_checkpoint, wk)
      else (None, wk\<lparr>wk_head := Some \<lparr>cl_seq = ce_seq e, cl_hash = ce_hash e\<rparr>,
              wk_checked := wk_checked wk + 1\<rparr>))"

definition push ::
  "(string \<Rightarrow> digest) \<Rightarrow> verifier_options \<Rightarrow> chained_event \<Rightarrow> walk \<Rightarrow> (chain_break option \<times> walk) option" where
  "push sha opts e wk =
     (if ev_tenant e \<noteq> vo_tenant opts then Some (check_event sha opts e wk)
      else case bridge opts (ce_seq e) wk of
        None \<Rightarrow> None
      | Some (Some found, wk') \<Rightarrow> Some (Some found, wk')
      | Some (None, wk') \<Rightarrow> Some (check_event sha opts e wk'))"

definition finish :: "verifier_options \<Rightarrow> bool \<Rightarrow> walk \<Rightarrow> chain_break option" where
  "finish opts complete wk =
     (if \<not> complete then None
      else let last = head_seq (wk_head wk) in
        if [c \<leftarrow> own_checkpoints opts. cp_count c > last] = [] then None
        else Some \<lparr>br_event = None, br_position = last + 1, br_reason = Truncated\<rparr>)"

section \<open>Verifying an export\<close>

record verification =
  vf_intact :: bool
  vf_checked :: nat
  vf_checkpoints :: nat
  vf_pruned :: int
  vf_break :: "chain_break option"

definition verification_of :: "verifier_options \<Rightarrow> walk \<Rightarrow> chain_break option \<Rightarrow> verification" where
  "verification_of opts wk found = \<lparr>vf_intact = (found = None), vf_checked = wk_checked wk,
     vf_checkpoints = length (own_checkpoints opts), vf_pruned = wk_pruned wk, vf_break = found\<rparr>"

fun push_all ::
  "(string \<Rightarrow> digest) \<Rightarrow> verifier_options \<Rightarrow> chained_event list \<Rightarrow> walk \<Rightarrow> (chain_break option \<times> walk) option" where
  "push_all sha opts [] wk = Some (None, wk)"
| "push_all sha opts (e # es) wk =
     (case push sha opts e wk of
        None \<Rightarrow> None
      | Some (Some found, wk') \<Rightarrow> Some (Some found, wk')
      | Some (None, wk') \<Rightarrow> push_all sha opts es wk')"

definition export_options :: "chain_export \<Rightarrow> verifier_options" where
  "export_options doc = \<lparr>vo_tenant = ex_tenant doc, vo_prior = ex_prior doc,
     vo_checkpoints = ex_checkpoints doc,
     vo_tombstones = (case ex_tombstones doc of None \<Rightarrow> [] | Some ts \<Rightarrow> ts), vo_values = ex_detail doc\<rparr>"

definition verify_export :: "(string \<Rightarrow> digest) \<Rightarrow> chain_export \<Rightarrow> verification option" where
  "verify_export sha doc =
     (let opts = export_options doc in
      case push_all sha opts (ex_events doc) (start_walk opts) of
        None \<Rightarrow> None
      | Some (Some found, wk) \<Rightarrow> Some (verification_of opts wk (Some found))
      | Some (None, wk) \<Rightarrow> Some (verification_of opts wk (finish opts (ex_complete doc) wk)))"

section \<open>What the schema admits\<close>

text \<open>The parts of the parsed document's schema that the walk relies on: positions and counts from one.\<close>

definition parsed_export :: "chain_export \<Rightarrow> bool" where
  "parsed_export doc \<longleftrightarrow>
     (\<forall>e\<in>set (ex_events doc). ce_seq e \<ge> 1) \<and>
     (\<forall>c\<in>set (ex_checkpoints doc). cp_count c \<ge> 1) \<and>
     (\<forall>t\<in>set (vo_tombstones (export_options doc)). ts_from t \<ge> 1 \<and> ts_through t \<ge> 1 \<and> ts_count t \<ge> 1) \<and>
     (case ex_prior doc of None \<Rightarrow> True | Some l \<Rightarrow> cl_seq l \<ge> 1)"

end
