(* ===== verification/Audit_Store.thy ===== *)
theory Audit_Store
  imports Audit_Chain
begin

text \<open>
  The rows of \<open>pithy_audit_events\<close> and the append that chains them
  (\<open>packages/audit/src/chain/rows.ts\<close>, \<open>append.ts\<close>). D1 runs one statement at a time, so an append
  is a machine that makes one statement per step, and any number of them interleave.
\<close>

section \<open>Rows\<close>

record audit_row = event_core +
  ar_ip :: "string option"
  ar_user_agent :: "string option"
  ar_metadata :: "string option"
  ar_row :: nat
  ar_seq :: "int option"
  ar_prev :: "digest option"
  ar_hash :: "digest option"
  ar_salt :: "string option"

text \<open>The table, and the row id its next insert takes.\<close>

record audit_db =
  db_rows :: "audit_row list"
  db_next :: nat

definition empty_audit :: audit_db where
  "empty_audit = \<lparr>db_rows = [], db_next = 1\<rparr>"

definition chain_fields_of :: "(string \<Rightarrow> digest) \<Rightarrow> audit_row \<Rightarrow> string \<Rightarrow> chained_fields" where
  "chain_fields_of sha r salt = \<lparr>ev_id = ev_id r, ev_occurred_at = ev_occurred_at r, ev_action = ev_action r,
     ev_outcome = ev_outcome r, ev_severity = ev_severity r, ev_actor_type = ev_actor_type r,
     ev_actor_id = ev_actor_id r, ev_actor_kind = ev_actor_kind r, ev_session_id = ev_session_id r,
     ev_resource_type = ev_resource_type r, ev_resource_id = ev_resource_id r, ev_request_id = ev_request_id r,
     ev_tenant = ev_tenant r, ev_project = ev_project r, ev_environment = ev_environment r,
     ev_worker = ev_worker r, ev_version = ev_version r, ev_ip_commitment = commitment sha salt (ar_ip r),
     ev_user_agent_commitment = commitment sha salt (ar_user_agent r),
     ev_metadata_commitment = commitment sha salt (ar_metadata r)\<rparr>"

definition chained_event_of :: "(string \<Rightarrow> digest) \<Rightarrow> bool \<Rightarrow> audit_row \<Rightarrow> chained_event" where
  "chained_event_of sha detail r =
     (let salt = or_else '''' (ar_salt r); f = chain_fields_of sha r salt in
      chained_fields.extend f
        \<lparr>ce_seq = or_else 0 (ar_seq r), ce_prev = ar_prev r, ce_hash = or_else '''' (ar_hash r),
         ce_salt = (if detail then Some salt else None), ce_ip = (if detail then Some (ar_ip r) else None),
         ce_user_agent = (if detail then Some (ar_user_agent r) else None),
         ce_metadata = (if detail then Some (ar_metadata r) else None)\<rparr>)"

section \<open>Reading a chain\<close>

text \<open>One tenant's chained rows: \<open>whereChain\<close> over \<open>chainSeq is not null\<close>.\<close>

definition in_chain :: "string option \<Rightarrow> audit_row \<Rightarrow> bool" where
  "in_chain tenant r \<longleftrightarrow> ev_tenant r = tenant \<and> ar_seq r \<noteq> None"

definition row_seq :: "audit_row \<Rightarrow> int" where
  "row_seq r = or_else 0 (ar_seq r)"

definition link_of :: "audit_row option \<Rightarrow> chain_link option" where
  "link_of r = (case r of None \<Rightarrow> None | Some x \<Rightarrow>
     (case (ar_seq x, ar_hash x) of (Some p, Some h) \<Rightarrow> Some \<lparr>cl_seq = p, cl_hash = h\<rparr> | _ \<Rightarrow> None))"

definition first_row :: "audit_row list \<Rightarrow> audit_row option" where
  "first_row rs = (case rs of [] \<Rightarrow> None | r # _ \<Rightarrow> Some r)"

definition read_chain_head :: "audit_db \<Rightarrow> string option \<Rightarrow> chain_link option" where
  "read_chain_head db tenant =
     link_of (first_row (sort_key (\<lambda>r. - row_seq r) (filter (in_chain tenant) (db_rows db))))"

definition read_chain_link :: "audit_db \<Rightarrow> string option \<Rightarrow> int \<Rightarrow> chain_link option" where
  "read_chain_link db tenant p =
     link_of (find (\<lambda>r. ev_tenant r = tenant \<and> ar_seq r = Some p) (db_rows db))"

text \<open>
  A page in chain order, by position then row id. It resumes after a position or after one row, and
  takes what the filters admit; \<open>chainSeq\<close> is compared, so a row with none is never in it.
\<close>

record row_query =
  rq_tenant :: "string option"
  rq_after :: int
  rq_after_row :: "nat option"
  rq_limit :: nat
  rq_through :: "int option"
  rq_before :: "int option"
  rq_matching :: "(audit_row \<Rightarrow> bool) option"

definition row_after :: "row_query \<Rightarrow> audit_row \<Rightarrow> bool" where
  "row_after q r \<longleftrightarrow> in_chain (rq_tenant q) r \<and>
     (row_seq r > rq_after q \<or>
        (case rq_after_row q of None \<Rightarrow> False | Some i \<Rightarrow> row_seq r = rq_after q \<and> ar_row r > i)) \<and>
     optional (\<lambda>p. row_seq r \<le> p) (rq_through q) \<and> optional (\<lambda>t. ev_occurred_at r < t) (rq_before q) \<and>
     optional (\<lambda>ok. ok r) (rq_matching q)"

definition read_chain_rows :: "audit_db \<Rightarrow> row_query \<Rightarrow> audit_row list" where
  "read_chain_rows db q =
     take (rq_limit q) (sort_key row_seq (sort_key ar_row (filter (row_after q) (db_rows db))))"

section \<open>One append\<close>

text \<open>\<open>INSERT \<dots> SELECT \<dots> WHERE NOT EXISTS (an event at or past this position)\<close>: whether it inserted.\<close>

definition insert_if_free :: "audit_row \<Rightarrow> int \<Rightarrow> audit_db \<Rightarrow> bool \<times> audit_db" where
  "insert_if_free r p db =
     (if \<exists>x\<in>set (db_rows db). in_chain (ev_tenant r) x \<and> row_seq x \<ge> p then (False, db)
      else (True, \<lparr>db_rows = db_rows db @ [r\<lparr>ar_row := db_next db\<rparr>], db_next = db_next db + 1\<rparr>))"

datatype append_phase =
    Reading
  | Inserting int "digest option" digest
  | Checking
  | Landed
  | Stalled
  | Expired
  | Faulted

text \<open>An append: the event it records with the salt drawn for it, and where its loop stands.\<close>

record appender =
  ap_record :: audit_row
  ap_salt :: string
  ap_phase :: append_phase
  ap_stalls :: nat
  ap_last :: "int option"

definition start_append :: "audit_row \<Rightarrow> string \<Rightarrow> appender" where
  "start_append r salt = \<lparr>ap_record = r, ap_salt = salt, ap_phase = Reading, ap_stalls = 0, ap_last = None\<rparr>"

text \<open>
  What a statement meets: the answer arrives; or the connection fails, with the statement run or
  not, and \<open>withD1Retry\<close> runs it again or gives up.
\<close>

datatype d1_answer = Answered | Lost bool bool

record append_env =
  ae_answer :: d1_answer
  ae_expired :: bool

definition chain_append_stalls :: nat where
  "chain_append_stalls = 3"

definition stalls_at :: "appender \<Rightarrow> int \<Rightarrow> nat" where
  "stalls_at ap p = (case ap_last ap of None \<Rightarrow> ap_stalls ap
     | Some l \<Rightarrow> if p > l then 0 else ap_stalls ap + 1)"

definition row_at :: "appender \<Rightarrow> int \<Rightarrow> digest option \<Rightarrow> digest \<Rightarrow> audit_row" where
  "row_at ap p prev h = (ap_record ap)\<lparr>ar_seq := Some p, ar_prev := prev, ar_hash := Some h, ar_salt := Some (ap_salt ap)\<rparr>"

fun append_step :: "(string \<Rightarrow> digest) \<Rightarrow> append_env \<Rightarrow> appender \<times> audit_db \<Rightarrow> appender \<times> audit_db" where
  "append_step sha env (ap, db) =
     (case ap_phase ap of
        Reading \<Rightarrow>
          (let head = read_chain_head db (ev_tenant (ap_record ap)); p = head_seq head + 1; s = stalls_at ap p in
           if ap_last ap \<noteq> None \<and> s \<ge> chain_append_stalls then (ap\<lparr>ap_phase := Stalled, ap_stalls := s\<rparr>, db)
           else (ap\<lparr>ap_phase := Inserting p (head_hash head)
                      (chain_hash sha p (head_hash head) (chain_fields_of sha (ap_record ap) (ap_salt ap))),
                    ap_stalls := s, ap_last := Some p\<rparr>, db))
      | Inserting p prev h \<Rightarrow>
          (let (inserted, db') = insert_if_free (row_at ap p prev h) p db in
           case ae_answer env of
             Answered \<Rightarrow> (ap\<lparr>ap_phase := (if inserted then Landed else Checking)\<rparr>, db')
           | Lost executed retried \<Rightarrow>
               (if retried then ap else ap\<lparr>ap_phase := Faulted\<rparr>, if executed then db' else db))
      | Checking \<Rightarrow>
          (ap\<lparr>ap_phase := (if \<exists>x\<in>set (db_rows db). ev_id x = ev_id (ap_record ap) then Landed
             else if ae_expired env then Expired else Reading)\<rparr>, db)
      | _ \<Rightarrow> (ap, db))"

text \<open>Many appends at once: each entry of the schedule lets one of them make its next statement.\<close>

fun append_run ::
  "(string \<Rightarrow> digest) \<Rightarrow> (nat \<times> append_env) list \<Rightarrow> appender list \<times> audit_db \<Rightarrow> appender list \<times> audit_db" where
  "append_run sha [] s = s"
| "append_run sha ((i, env) # rest) (aps, db) =
     (if i < length aps then
        let (ap', db') = append_step sha env (aps ! i, db) in append_run sha rest (aps[i := ap'], db')
      else append_run sha rest (aps, db))"

end
