(* ===== verification/Audit_Chain_Laws.thy ===== *)
theory Audit_Chain_Laws
  imports Audit_Chain
begin

text \<open>
  The laws of the chain: one canonical text per event, a walk that returns, what the walk accepts,
  and what an accepted walk says of the trail it was taken from.
\<close>

section \<open>The canonical form\<close>

lemma canonical_event_inj:
  assumes "canonical_event p q f = canonical_event p' q' g"
  shows "p = p' \<and> q = q' \<and> hashed_fields f = hashed_fields g"
  using json_array_inj [OF assms [unfolded canonical_event_def]]
  by (simp add: hashed_fields_def)

lemma canonical_of_hashed [simp]: "canonical_event p q (hashed_fields f) = canonical_event p q f"
  by (simp add: canonical_event_def hashed_fields_def)

lemma hashed_of_hashed [simp]: "hashed_fields (hashed_fields f) = hashed_fields f"
  by (simp add: hashed_fields_def)

lemma commitment_text_inj: "commitment_text s v = commitment_text t w \<Longrightarrow> s = t \<and> v = w"
  unfolding commitment_text_def by (drule json_array_inj) simp

section \<open>The bridge returns\<close>

definition counted :: "verifier_options \<Rightarrow> bool" where
  "counted opts \<longleftrightarrow> (\<forall>t\<in>set (vo_tombstones opts). ts_count t \<ge> 1)"

lemma bridge_passes:
  assumes "counted opts" "find (bridges h p) (own_tombstones opts) = Some run"
  shows "head_seq h < ts_through run \<and> ts_through run < p \<and> run \<in> set (own_tombstones opts) \<and>
    ts_from run = head_seq h + 1 \<and> ts_prior run = head_hash h \<and> ts_from run \<le> ts_through run"
proof -
  from find_in_set [OF assms(2)] have run: "run \<in> set (own_tombstones opts)" "bridges h p run" by simp_all
  with assms(1) have "ts_count run \<ge> 1" by (simp add: counted_def own_tombstones_def)
  with run show ?thesis by (simp add: bridges_def)
qed

lemma head_seq_simps [simp]:
  "head_seq None = 0" "head_seq (Some l) = cl_seq l" "head_hash None = None" "head_hash (Some l) = Some (cl_hash l)"
  by (simp_all add: head_seq_def head_hash_def)

text \<open>The walk after one pruned run is crossed.\<close>

definition cross :: "tombstone \<Rightarrow> walk \<Rightarrow> walk" where
  "cross run wk = wk\<lparr>wk_head := Some \<lparr>cl_seq = ts_through run, cl_hash = ts_last run\<rparr>,
     wk_pruned := wk_pruned wk + ts_count run\<rparr>"

lemma cross_fields [simp]:
  "wk_head (cross run wk) = Some \<lparr>cl_seq = ts_through run, cl_hash = ts_last run\<rparr>"
  "wk_checked (cross run wk) = wk_checked wk" "wk_pruned (cross run wk) = wk_pruned wk + ts_count run"
  by (simp_all add: cross_def)

lemma bridge_unfold:
  "bridge opts p wk =
     (if p \<le> head_seq (wk_head wk) + 1 then Some (None, wk)
      else case find (bridges (wk_head wk) p) (own_tombstones opts) of
        None \<Rightarrow> Some (None, wk)
      | Some run \<Rightarrow>
          if disagrees opts (ts_from run) (ts_first run) then
            Some (Some \<lparr>br_event = None, br_position = ts_from run, br_reason = Off_checkpoint\<rparr>, wk)
          else if disagrees opts (ts_through run) (ts_last run) then
            Some (Some \<lparr>br_event = None, br_position = ts_through run, br_reason = Off_checkpoint\<rparr>, wk)
          else bridge opts p (cross run wk))"
  unfolding cross_def by (rule bridge.simps)

lemma bridge_induct [consumes 1, case_names Stay Broken Cross]:
  assumes counted: "counted opts"
    and stay: "\<And>wk. bridge opts p wk = Some (None, wk) \<Longrightarrow> P wk"
    and broken: "\<And>wk br. bridge opts p wk = Some (Some br, wk) \<Longrightarrow> P wk"
    and crossing: "\<And>wk run. run \<in> set (own_tombstones opts) \<Longrightarrow> bridge opts p wk = bridge opts p (cross run wk) \<Longrightarrow>
      ts_from run = head_seq (wk_head wk) + 1 \<Longrightarrow> ts_prior run = head_hash (wk_head wk) \<Longrightarrow>
      ts_from run \<le> ts_through run \<Longrightarrow> ts_through run < p \<Longrightarrow>
      \<not> disagrees opts (ts_through run) (ts_last run) \<Longrightarrow> P (cross run wk) \<Longrightarrow> P wk"
  shows "P wk"
proof (induction "nat (p - head_seq (wk_head wk))" arbitrary: wk rule: less_induct)
  case less
  show ?case
  proof (cases "p \<le> head_seq (wk_head wk) + 1 \<or> find (bridges (wk_head wk) p) (own_tombstones opts) = None")
    case True
    then have "bridge opts p wk = Some (None, wk)" by (subst bridge_unfold) auto
    then show ?thesis by (rule stay)
  next
    case False
    then obtain run where run: "find (bridges (wk_head wk) p) (own_tombstones opts) = Some run" by auto
    note f = bridge_passes [OF counted run]
    show ?thesis
    proof (cases "disagrees opts (ts_from run) (ts_first run) \<or> disagrees opts (ts_through run) (ts_last run)")
      case True
      have "\<exists>br. bridge opts p wk = Some (Some br, wk)"
        by (subst bridge_unfold) (use run False True in auto)
      then show ?thesis using broken by blast
    next
      case agree: False
      have step: "bridge opts p wk = bridge opts p (cross run wk)"
        by (subst bridge_unfold) (use run False agree in auto)
      have "P (cross run wk)" by (rule less) (use f in auto)
      then show ?thesis using f agree by (intro crossing [OF _ step]) auto
    qed
  qed
qed

lemma bridge_returns:
  assumes "counted opts" shows "\<exists>found wk'. bridge opts p wk = Some (found, wk')"
  using assms by (induction wk rule: bridge_induct [where p = p]) auto

lemma push_returns:
  assumes "counted opts" shows "\<exists>found wk'. push sha opts e wk = Some (found, wk')"
proof (cases "ev_tenant e = vo_tenant opts")
  case True
  obtain found wk' where b: "bridge opts (ce_seq e) wk = Some (found, wk')"
    using bridge_returns [OF assms] by blast
  obtain c d where "check_event sha opts e wk' = (c, d)" by fastforce
  with True b show ?thesis by (cases found) (simp_all add: push_def)
next
  case False
  obtain c d where "check_event sha opts e wk = (c, d)" by fastforce
  with False show ?thesis by (simp add: push_def)
qed

lemma push_all_returns:
  assumes "counted opts" shows "\<exists>found wk'. push_all sha opts es wk = Some (found, wk')"
proof (induction es arbitrary: wk)
  case (Cons e es)
  obtain found wk' where p: "push sha opts e wk = Some (found, wk')" using push_returns [OF assms] by blast
  with Cons [of wk'] show ?case by (cases found) auto
qed simp

section \<open>What the walk accepts\<close>

definition link_of_event :: "chained_event \<Rightarrow> chain_link" where
  "link_of_event e = \<lparr>cl_seq = ce_seq e, cl_hash = ce_hash e\<rparr>"

lemma link_of_event_simps [simp]: "cl_seq (link_of_event e) = ce_seq e" "cl_hash (link_of_event e) = ce_hash e"
  by (simp_all add: link_of_event_def)

definition next_event :: "(string \<Rightarrow> digest) \<Rightarrow> string option \<Rightarrow> chain_link option \<Rightarrow> chained_event \<Rightarrow> bool" where
  "next_event sha tenant h e \<longleftrightarrow> ev_tenant e = tenant \<and> ce_seq e = head_seq h + 1 \<and> ce_prev e = head_hash h
     \<and> ce_hash e = chain_hash sha (ce_seq e) (ce_prev e) e"

text \<open>A whole chain from a link: each event names its tenant, its position and the hash before it.\<close>

fun linked :: "(string \<Rightarrow> digest) \<Rightarrow> string option \<Rightarrow> chain_link option \<Rightarrow> chained_event list \<Rightarrow> bool" where
  "linked sha tenant h [] = True"
| "linked sha tenant h (e # es) = (next_event sha tenant h e \<and> linked sha tenant (Some (link_of_event e)) es)"

definition last_link :: "chain_link option \<Rightarrow> chained_event list \<Rightarrow> chain_link option" where
  "last_link h es = (if es = [] then h else Some (link_of_event (last es)))"

lemma last_link_simps [simp]:
  "last_link h [] = h" "last_link h (e # es) = last_link (Some (link_of_event e)) es"
  "last_link h (es @ [e]) = Some (link_of_event e)"
  by (simp_all add: last_link_def)

lemma linked_append: "linked sha t h (xs @ ys) \<longleftrightarrow> linked sha t h xs \<and> linked sha t (last_link h xs) ys"
  by (induction xs arbitrary: h) auto

lemma chain_hash_hashed [simp]: "chain_hash sha p q (hashed_fields e) = chain_hash sha p q e"
  by (simp add: chain_hash_def)

definition opens :: "(string \<Rightarrow> digest) \<Rightarrow> verifier_options \<Rightarrow> chained_event \<Rightarrow> bool" where
  "opens sha opts e \<longleftrightarrow> \<not> commitment_fails sha (vo_values opts) e \<and> \<not> disagrees opts (ce_seq e) (ce_hash e)"

definition step_over :: "chained_event \<Rightarrow> walk \<Rightarrow> walk" where
  "step_over e wk = wk\<lparr>wk_head := Some (link_of_event e), wk_checked := wk_checked wk + 1\<rparr>"

lemma step_over_fields [simp]:
  "wk_head (step_over e wk) = Some (link_of_event e)" "wk_checked (step_over e wk) = wk_checked wk + 1"
  "wk_pruned (step_over e wk) = wk_pruned wk"
  by (simp_all add: step_over_def)

lemma check_event_accepts:
  "check_event sha opts e wk = (None, wk') \<longleftrightarrow>
     next_event sha (vo_tenant opts) (wk_head wk) e \<and> opens sha opts e \<and> wk' = step_over e wk"
  by (auto simp: check_event_def Let_def break_at_def next_event_def opens_def step_over_def link_of_event_def
    split: if_splits)

lemma push_accepts:
  "push sha opts e wk = Some (None, wk') \<longleftrightarrow>
     (\<exists>wkb. bridge opts (ce_seq e) wk = Some (None, wkb) \<and>
        next_event sha (vo_tenant opts) (wk_head wkb) e \<and> opens sha opts e \<and> wk' = step_over e wkb)"
proof (cases "ev_tenant e = vo_tenant opts")
  case True
  then show ?thesis
    by (auto simp: push_def check_event_accepts split: option.splits)
next
  case False
  then have "\<not> next_event sha (vo_tenant opts) h e" for h by (simp add: next_event_def)
  with False show ?thesis by (simp add: push_def check_event_accepts)
qed

lemma push_all_accepts:
  "push_all sha opts (e # es) wk = Some (None, wk') \<longleftrightarrow>
     (\<exists>wk1. push sha opts e wk = Some (None, wk1) \<and> push_all sha opts es wk1 = Some (None, wk'))"
  by (auto split: option.splits)

text \<open>With no pruned run to bridge, the walk accepts exactly the whole chains that open.\<close>

lemma bridge_nothing: "own_tombstones opts = [] \<Longrightarrow> bridge opts p wk = Some (None, wk)"
  by (subst bridge_unfold) simp

lemma push_all_whole:
  assumes "own_tombstones opts = []"
  shows "push_all sha opts es wk = Some (None, wk') \<longleftrightarrow>
    linked sha (vo_tenant opts) (wk_head wk) es \<and> (\<forall>e\<in>set es. opens sha opts e) \<and>
    wk' = wk\<lparr>wk_head := last_link (wk_head wk) es, wk_checked := wk_checked wk + length es\<rparr>"
proof (induction es arbitrary: wk)
  case (Cons e es)
  have "push sha opts e wk = Some (None, wk1) \<longleftrightarrow>
      next_event sha (vo_tenant opts) (wk_head wk) e \<and> opens sha opts e \<and> wk1 = step_over e wk" for wk1
    by (simp add: push_accepts bridge_nothing [OF assms])
  then show ?case
    unfolding push_all_accepts by (auto simp: Cons step_over_def)
qed auto

lemma push_all_break: "push_all sha opts es wk = Some (Some br, wk') \<Longrightarrow> push_all sha opts es wk \<noteq> Some (None, wk'')"
  by simp

lemma verify_intact:
  "(\<exists>v. verify_export sha doc = Some v \<and> vf_intact v) \<longleftrightarrow>
     (\<exists>wk. push_all sha (export_options doc) (ex_events doc) (start_walk (export_options doc)) = Some (None, wk) \<and>
        finish (export_options doc) (ex_complete doc) wk = None)"
  by (auto simp: verify_export_def Let_def verification_of_def split: option.splits)

lemma finish_ok:
  "finish opts complete wk = None \<longleftrightarrow> (complete \<longrightarrow> (\<forall>c\<in>set (own_checkpoints opts). cp_count c \<le> head_seq (wk_head wk)))"
  by (auto simp: finish_def Let_def filter_empty_conv not_less)

section \<open>The trail an export was taken from\<close>

text \<open>The hash at a position of a recorded trail, none before its first.\<close>

definition trail_hash :: "chained_event list \<Rightarrow> int \<Rightarrow> digest option" where
  "trail_hash R p = (if p = 0 then None else Some (ce_hash (R ! nat (p - 1))))"

lemma linked_nth:
  assumes "linked sha t None R" "i < length R"
  shows "ce_seq (R ! i) = int i + 1 \<and> ev_tenant (R ! i) = t \<and> ce_prev (R ! i) = trail_hash R (int i) \<and>
    ce_hash (R ! i) = chain_hash sha (ce_seq (R ! i)) (ce_prev (R ! i)) (R ! i)"
  using assms(2)
proof (induction i)
  case 0
  then show ?case using assms(1) by (cases R) (auto simp: next_event_def trail_hash_def)
next
  case (Suc i)
  have "R = take (Suc i) R @ R ! Suc i # drop (Suc (Suc i)) R" using Suc.prems by (rule id_take_nth_drop)
  with assms(1) have "next_event sha t (last_link None (take (Suc i) R)) (R ! Suc i)"
    using linked_append [of sha t None "take (Suc i) R" "R ! Suc i # drop (Suc (Suc i)) R"] by simp
  moreover have "take (Suc i) R = take i R @ [R ! i]" using Suc.prems by (simp add: take_Suc_conv_app_nth)
  ultimately have "next_event sha t (Some (link_of_event (R ! i))) (R ! Suc i)" by simp
  with Suc show ?case by (simp add: next_event_def trail_hash_def)
qed

text \<open>A tombstone of the trail names a run of it, the link before the run, and its ends.\<close>

definition run_of_trail :: "chained_event list \<Rightarrow> tombstone \<Rightarrow> bool" where
  "run_of_trail R t \<longleftrightarrow> 1 \<le> ts_from t \<and> ts_from t \<le> ts_through t \<and> ts_through t \<le> int (length R) \<and>
     ts_prior t = trail_hash R (ts_from t - 1) \<and> Some (ts_first t) = trail_hash R (ts_from t) \<and>
     Some (ts_last t) = trail_hash R (ts_through t)"

definition anchored :: "int \<Rightarrow> chained_event list \<Rightarrow> chain_link option \<Rightarrow> bool" where
  "anchored n R h \<longleftrightarrow> (head_seq h \<le> n \<longrightarrow> head_hash h = trail_hash R (head_seq h))"

definition held_to :: "int \<Rightarrow> digest \<Rightarrow> chain_link option \<Rightarrow> bool" where
  "held_to n d h \<longleftrightarrow> (head_seq h = n \<longrightarrow> head_hash h = Some d)"

text \<open>What a bridge does to the head, forwards and backwards.\<close>

lemma bridge_forward:
  assumes counted: "counted opts" and c: "by_count opts n = Some c"
  shows "bridge opts p wk = Some (None, wk') \<Longrightarrow> held_to n (cp_head c) (wk_head wk) \<Longrightarrow>
    held_to n (cp_head c) (wk_head wk') \<and> head_seq (wk_head wk) \<le> head_seq (wk_head wk') \<and>
    (\<forall>q. head_seq (wk_head wk) < q \<and> q \<le> head_seq (wk_head wk') \<longrightarrow>
       (\<exists>t\<in>set (own_tombstones opts). ts_from t \<le> q \<and> q \<le> ts_through t))"
  using counted
proof (induction wk rule: bridge_induct [where p = p])
  case (Cross wk run)
  have "held_to n (cp_head c) (wk_head (cross run wk))"
    using Cross(7) c by (auto simp: held_to_def disagrees_def)
  with Cross have IH: "held_to n (cp_head c) (wk_head wk')" "ts_through run \<le> head_seq (wk_head wk')"
    "\<forall>q. ts_through run < q \<and> q \<le> head_seq (wk_head wk') \<longrightarrow>
       (\<exists>t\<in>set (own_tombstones opts). ts_from t \<le> q \<and> q \<le> ts_through t)" by simp_all
  have "\<exists>t\<in>set (own_tombstones opts). ts_from t \<le> q \<and> q \<le> ts_through t"
    if "head_seq (wk_head wk) < q" "q \<le> head_seq (wk_head wk')" for q
  proof (cases "q \<le> ts_through run")
    case True
    with that Cross(1,3) show ?thesis by (intro bexI [of _ run]) auto
  qed (use IH(3) that in auto)
  with IH Cross(3,5) show ?case by auto
qed auto

lemma bridge_backward:
  assumes "counted opts" and honest: "\<forall>t\<in>set (own_tombstones opts). run_of_trail R t"
  shows "bridge opts p wk = Some (None, wk') \<Longrightarrow> anchored n R (wk_head wk') \<Longrightarrow> anchored n R (wk_head wk)"
  using assms(1)
proof (induction wk rule: bridge_induct [where p = p])
  case (Cross wk run)
  then show ?case using honest by (simp add: anchored_def run_of_trail_def)
qed auto

text \<open>An event whose hash is the trail's is the trail's event.\<close>

lemma event_is_trails:
  assumes R: "linked sha t None R" and inj: "inj_on sha X"
    and "canonical_event (ce_seq e) (ce_prev e) e \<in> X"
    and "\<forall>r\<in>set R. canonical_event (ce_seq r) (ce_prev r) r \<in> X"
    and e: "next_event sha t h e" "0 \<le> head_seq h" "ce_seq e \<le> int (length R)"
    and hash: "Some (ce_hash e) = trail_hash R (ce_seq e)"
  shows "hashed_fields e = hashed_fields (R ! nat (ce_seq e - 1)) \<and> head_hash h = trail_hash R (head_seq h)"
proof -
  have seq: "ce_seq e = head_seq h + 1" using e(1) by (simp add: next_event_def)
  let ?i = "nat (ce_seq e - 1)"
  have i: "?i < length R" "int ?i = head_seq h" using seq e(2,3) by simp_all
  note r = linked_nth [OF R i(1)]
  have "ce_hash e = ce_hash (R ! ?i)" using hash seq e(2) by (simp add: trail_hash_def)
  moreover have "ce_hash e = sha (canonical_event (ce_seq e) (ce_prev e) e)"
    using e(1) by (simp add: next_event_def chain_hash_def)
  moreover have "ce_hash (R ! ?i) = sha (canonical_event (ce_seq (R ! ?i)) (ce_prev (R ! ?i)) (R ! ?i))"
    using r by (simp only: chain_hash_def)
  ultimately have "sha (canonical_event (ce_seq e) (ce_prev e) e)
      = sha (canonical_event (ce_seq (R ! ?i)) (ce_prev (R ! ?i)) (R ! ?i))" by metis
  then have "canonical_event (ce_seq e) (ce_prev e) e = canonical_event (ce_seq (R ! ?i)) (ce_prev (R ! ?i)) (R ! ?i)"
    using inj assms(3,4) i(1) by (auto dest: inj_onD)
  from canonical_event_inj [OF this]
  have same: "ce_prev e = ce_prev (R ! ?i)" "hashed_fields e = hashed_fields (R ! ?i)" by blast+
  have "ce_prev (R ! ?i) = trail_hash R (head_seq h)" using r unfolding i(2) by blast
  with same e(1) show ?thesis unfolding next_event_def by metis
qed

lemma walk_forward:
  assumes counted: "counted opts" and c: "by_count opts n = Some c"
  shows "push_all sha opts es wk = Some (None, wk') \<Longrightarrow> held_to n (cp_head c) (wk_head wk) \<Longrightarrow>
    held_to n (cp_head c) (wk_head wk') \<and>
    (\<forall>q. head_seq (wk_head wk) < q \<and> q \<le> head_seq (wk_head wk') \<longrightarrow>
       (\<exists>e\<in>set es. ce_seq e = q) \<or> (\<exists>t\<in>set (own_tombstones opts). ts_from t \<le> q \<and> q \<le> ts_through t))"
proof (induction es arbitrary: wk)
  case (Cons e es)
  then obtain wkb where b: "bridge opts (ce_seq e) wk = Some (None, wkb)"
    and e: "next_event sha (vo_tenant opts) (wk_head wkb) e" "opens sha opts e"
    and rest: "push_all sha opts es (step_over e wkb) = Some (None, wk')"
    unfolding push_all_accepts push_accepts by blast
  have held: "held_to n (cp_head c) (wk_head (step_over e wkb))"
    using e(2) c by (auto simp: held_to_def opens_def disagrees_def)
  note f = bridge_forward [OF counted c b Cons.prems(2)]
  note IH = Cons.IH [OF rest held]
  have "(\<exists>e\<in>set (e # es). ce_seq e = q) \<or> (\<exists>t\<in>set (own_tombstones opts). ts_from t \<le> q \<and> q \<le> ts_through t)"
    if q: "head_seq (wk_head wk) < q" "q \<le> head_seq (wk_head wk')" for q
  proof -
    consider "q \<le> head_seq (wk_head wkb)" | "q = ce_seq e" | "ce_seq e < q"
      using e(1) by (fastforce simp: next_event_def)
    then show ?thesis
    proof cases
      case 1
      then show ?thesis using f q by blast
    next
      case 3
      then show ?thesis using IH q by auto
    qed simp
  qed
  with IH show ?case by blast
qed auto

lemma walk_backward:
  assumes counted: "counted opts" and honest: "\<forall>t\<in>set (own_tombstones opts). run_of_trail R t"
    and c: "by_count opts n = Some c" "trail_hash R n = Some (cp_head c)" and n: "n \<le> int (length R)"
    and R: "linked sha (vo_tenant opts) None R" and inj: "inj_on sha X"
    and X: "\<forall>r\<in>set R. canonical_event (ce_seq r) (ce_prev r) r \<in> X"
  shows "push_all sha opts es wk = Some (None, wk') \<Longrightarrow> 0 \<le> head_seq (wk_head wk) \<Longrightarrow>
    held_to n (cp_head c) (wk_head wk) \<Longrightarrow> anchored n R (wk_head wk') \<Longrightarrow>
    \<forall>e\<in>set es. canonical_event (ce_seq e) (ce_prev e) e \<in> X \<Longrightarrow>
    anchored n R (wk_head wk) \<and>
    (\<forall>e\<in>set es. ce_seq e \<le> n \<longrightarrow> hashed_fields e = hashed_fields (R ! nat (ce_seq e - 1)))"
proof (induction es arbitrary: wk)
  case (Cons e es)
  then obtain wkb where b: "bridge opts (ce_seq e) wk = Some (None, wkb)"
    and e: "next_event sha (vo_tenant opts) (wk_head wkb) e" "opens sha opts e"
    and rest: "push_all sha opts es (step_over e wkb) = Some (None, wk')"
    unfolding push_all_accepts push_accepts by blast
  note f = bridge_forward [OF counted c(1) b Cons.prems(3)]
  have seq: "ce_seq e = head_seq (wk_head wkb) + 1" using e(1) by (simp add: next_event_def)
  have held: "held_to n (cp_head c) (wk_head (step_over e wkb))"
    using e(2) c by (auto simp: held_to_def opens_def disagrees_def)
  have IH: "anchored n R (Some (link_of_event e))"
    "\<forall>e\<in>set es. ce_seq e \<le> n \<longrightarrow> hashed_fields e = hashed_fields (R ! nat (ce_seq e - 1))"
    using Cons.IH [OF rest _ held Cons.prems(4)] f Cons.prems(2,5) seq by simp_all
  have "anchored n R (wk_head wkb) \<and> (ce_seq e \<le> n \<longrightarrow> hashed_fields e = hashed_fields (R ! nat (ce_seq e - 1)))"
  proof (cases "ce_seq e \<le> n")
    case True
    with IH(1) have "Some (ce_hash e) = trail_hash R (ce_seq e)" by (simp add: anchored_def)
    from event_is_trails [OF R inj _ X e(1) _ _ this] Cons.prems(2,5) f n True
    show ?thesis by (simp add: anchored_def)
  next
    case False
    have "head_hash (wk_head wkb) = trail_hash R (head_seq (wk_head wkb))" if "head_seq (wk_head wkb) \<le> n"
    proof -
      have at: "head_seq (wk_head wkb) = n" using that False seq by simp
      with f have "head_hash (wk_head wkb) = Some (cp_head c)" by (simp add: held_to_def)
      with c(2) show ?thesis by (simp add: at)
    qed
    with False show ?thesis by (simp add: anchored_def)
  qed
  with IH(2) bridge_backward [OF counted honest b] show ?case by auto
qed simp

text \<open>A bridge checks no event, and a push at most one.\<close>

lemma bridge_checked:
  assumes "counted opts"
  shows "bridge opts p wk = Some (found, wk') \<Longrightarrow> wk_checked wk' = wk_checked wk"
  using assms by (induction wk rule: bridge_induct [where p = p]) auto

lemma check_event_checked: "check_event sha opts e wk = (found, wk') \<Longrightarrow> wk_checked wk' \<le> wk_checked wk + 1"
  by (auto simp: check_event_def Let_def break_at_def split: if_splits)

lemma push_checked:
  assumes "counted opts" and p: "push sha opts e wk = Some (found, wk')"
  shows "wk_checked wk' \<le> wk_checked wk + 1"
proof (cases "ev_tenant e = vo_tenant opts")
  case True
  obtain f1 wk1 where b: "bridge opts (ce_seq e) wk = Some (f1, wk1)" using bridge_returns [OF assms(1)] by blast
  note bridge_checked [OF assms(1) b]
  with p True b show ?thesis
    using check_event_checked [of sha opts e wk1 found wk'] by (cases f1) (auto simp: push_def)
next
  case False
  with p show ?thesis using check_event_checked [of sha opts e wk found wk'] by (simp add: push_def)
qed

text \<open>Checkpoints of a trail: each of its own is one of its positions and the hash there.\<close>

definition true_checkpoints :: "string option \<Rightarrow> chained_event list \<Rightarrow> checkpoint list \<Rightarrow> bool" where
  "true_checkpoints tenant R cs \<longleftrightarrow> (\<forall>c\<in>set cs. cp_tenant c = tenant \<longrightarrow>
     1 \<le> cp_count c \<and> cp_count c \<le> int (length R) \<and> Some (cp_head c) = trail_hash R (cp_count c))"

lemma by_count_in: "by_count opts n = Some c \<Longrightarrow> c \<in> set (own_checkpoints opts) \<and> cp_count c = n"
  unfolding by_count_def by (drule map_of_SomeD) auto

text \<open>A walk takes a list in pieces.\<close>

lemma push_all_append:
  "push_all sha opts (xs @ ys) wk = (case push_all sha opts xs wk of
     None \<Rightarrow> None | Some (Some found, wk') \<Rightarrow> Some (Some found, wk') | Some (None, wk') \<Rightarrow> push_all sha opts ys wk')"
  by (induction xs arbitrary: wk) (auto split: option.splits)

end
