(* ===== verification/Audit_Append.thy ===== *)
theory Audit_Append
  imports Audit_Store Audit_Chain_Laws "HOL-Library.Multiset"
begin

text \<open>
  However many appends run at once and whatever D1 does to their statements, every tenant's rows
  are one whole chain, an append lands at most once, and none gives up for want of progress.
\<close>

section \<open>A table of whole chains\<close>

definition chain_rows :: "audit_db \<Rightarrow> string option \<Rightarrow> audit_row list" where
  "chain_rows db tenant = filter (in_chain tenant) (db_rows db)"

definition chain_events :: "(string \<Rightarrow> digest) \<Rightarrow> bool \<Rightarrow> audit_db \<Rightarrow> string option \<Rightarrow> chained_event list" where
  "chain_events sha detail db tenant = map (chained_event_of sha detail) (chain_rows db tenant)"

text \<open>Every chained row carries a hash and a salt, row ids grow, and each tenant's rows link.\<close>

definition row_complete :: "audit_row \<Rightarrow> bool" where
  "row_complete r \<longleftrightarrow> (ar_seq r \<noteq> None \<longrightarrow> ar_hash r \<noteq> None \<and> ar_salt r \<noteq> None)"

definition chains_whole :: "(string \<Rightarrow> digest) \<Rightarrow> audit_db \<Rightarrow> bool" where
  "chains_whole sha db \<longleftrightarrow>
     (\<forall>tenant. linked sha tenant None (chain_events sha False db tenant)) \<and>
     (\<forall>r\<in>set (db_rows db). row_complete r \<and> ar_row r < db_next db) \<and>
     sorted_wrt (<) (map ar_row (db_rows db))"

lemma chained_event_fields [simp]:
  "ev_tenant (chained_event_of sha d r) = ev_tenant r" "ev_id (chained_event_of sha d r) = ev_id r"
  "ce_seq (chained_event_of sha d r) = row_seq r" "ce_prev (chained_event_of sha d r) = ar_prev r"
  "ce_hash (chained_event_of sha d r) = or_else '''' (ar_hash r)"
  by (simp_all add: chained_event_of_def Let_def chained_fields.defs chain_fields_of_def row_seq_def)

lemma hashed_fields_of_row [simp]:
  "hashed_fields (chained_event_of sha d r) = chain_fields_of sha r (or_else '''' (ar_salt r))"
  by (simp add: chained_event_of_def Let_def chained_fields.defs chain_fields_of_def hashed_fields_def)

lemma chain_hash_of_row [simp]:
  "chain_hash sha p q (chained_event_of sha d r) = chain_hash sha p q (chain_fields_of sha r (or_else '''' (ar_salt r)))"
  using chain_hash_hashed [of sha p q "chained_event_of sha d r"] by simp

lemma linked_detail:
  "linked sha t h (map (chained_event_of sha d) rs) = linked sha t h (map (chained_event_of sha d') rs)"
  by (induction rs arbitrary: h) (simp_all add: next_event_def link_of_event_def)

section \<open>The head\<close>

lemma whole_row:
  assumes "chains_whole sha db" "i < length (chain_rows db t)"
  shows "row_seq (chain_rows db t ! i) = int i + 1 \<and> ar_seq (chain_rows db t ! i) = Some (int i + 1)"
proof -
  let ?r = "chain_rows db t ! i"
  have "linked sha t None (chain_events sha False db t)" using assms(1) by (simp add: chains_whole_def)
  from linked_nth [OF this, of i] assms(2) have "row_seq ?r = int i + 1" by (simp add: chain_events_def)
  moreover have "?r \<in> set (chain_rows db t)" using assms(2) by simp
  then have "ar_seq ?r \<noteq> None" by (simp add: chain_rows_def in_chain_def)
  ultimately show ?thesis by (auto simp: row_seq_def or_else_def)
qed

lemma whole_seqs:
  assumes "chains_whole sha db"
  shows "map row_seq (chain_rows db t) = map (\<lambda>i. int i + 1) [0..<length (chain_rows db t)]"
  by (rule nth_equalityI) (use whole_row [OF assms] in auto)

lemma sort_desc_last:
  "sorted (map f xs) \<Longrightarrow> distinct (map f xs) \<Longrightarrow> xs \<noteq> [] \<Longrightarrow>
     hd (sort_key (\<lambda>x. - f x :: int) xs) = last xs"
proof -
  assume s: "sorted (map f xs)" "distinct (map f xs)" "xs \<noteq> []"
  have "sort_key (\<lambda>x. - f x) xs = rev xs"
  proof (rule properties_for_sort_key)
    show "mset (rev xs) = mset xs" by simp
    show "sorted (map (\<lambda>x. - f x) (rev xs))"
      using s(1) by (simp add: rev_map [symmetric] sorted_wrt_rev sorted_wrt_map)
  next
    fix k
    assume "k \<in> set (rev xs)"
    have "[y \<leftarrow> xs. - f k = - f y] = [k]"
      using s(2) \<open>k \<in> set (rev xs)\<close> by (induction xs) (auto simp: filter_empty_conv image_iff)
    then show "[y \<leftarrow> rev xs. - f k = - f y] = [y \<leftarrow> xs. - f k = - f y]" by (simp flip: rev_filter)
  qed
  with s(3) show ?thesis by (simp add: hd_rev)
qed

text \<open>The head read is the last row of the chain: its length and its hash.\<close>

lemma read_head:
  assumes whole: "chains_whole sha db"
  shows "head_seq (read_chain_head db t) = int (length (chain_rows db t))"
    and "head_hash (read_chain_head db t) = trail_hash (chain_events sha False db t) (int (length (chain_rows db t)))"
proof -
  let ?rs = "chain_rows db t"
  have "head_seq (read_chain_head db t) = int (length ?rs) \<and>
    head_hash (read_chain_head db t) = trail_hash (chain_events sha False db t) (int (length ?rs))"
  proof (cases "?rs = []")
    case True
    then show ?thesis by (simp add: read_chain_head_def chain_rows_def first_row_def link_of_def trail_hash_def)
  next
    case False
    have seqs: "sorted (map row_seq ?rs)" "distinct (map row_seq ?rs)"
      unfolding whole_seqs [OF whole] by (auto simp: sorted_iff_nth_mono distinct_map inj_on_def)
    have "sort_key (\<lambda>r. - row_seq r) ?rs \<noteq> []" using False by (metis length_0_conv length_sort)
    then have "first_row (sort_key (\<lambda>r. - row_seq r) ?rs) = Some (hd (sort_key (\<lambda>r. - row_seq r) ?rs))"
      by (cases "sort_key (\<lambda>r. - row_seq r) ?rs") (simp_all add: first_row_def)
    then have head: "read_chain_head db t = link_of (Some (last ?rs))"
      using sort_desc_last [OF seqs False] by (simp add: read_chain_head_def chain_rows_def)
    have at: "last ?rs = ?rs ! (length ?rs - 1)" "length ?rs - 1 < length ?rs"
      using False by (simp_all add: last_conv_nth)
    have pos: "ar_seq (last ?rs) = Some (int (length ?rs))"
      using whole_row [OF whole at(2)] at False by (simp add: of_nat_diff)
    have "last ?rs \<in> set (db_rows db)"
      using False last_in_set [OF False] by (simp add: chain_rows_def)
    then obtain h where h: "ar_hash (last ?rs) = Some h"
      using whole pos by (auto simp: chains_whole_def row_complete_def)
    have "chain_events sha False db t ! (length ?rs - 1) = chained_event_of sha False (last ?rs)"
      using at by (simp add: chain_events_def)
    moreover have "nat (int (length ?rs) - 1) = length ?rs - 1" by simp
    ultimately show ?thesis using head pos h False
      by (simp add: link_of_def trail_hash_def or_else_def)
  qed
  then show "head_seq (read_chain_head db t) = int (length ?rs)"
    and "head_hash (read_chain_head db t) = trail_hash (chain_events sha False db t) (int (length ?rs))" by simp_all
qed

lemma last_link_trail:
  assumes "linked sha t None R"
  shows "head_seq (last_link None R) = int (length R)" and "head_hash (last_link None R) = trail_hash R (int (length R))"
proof -
  have "head_seq (last_link None R) = int (length R) \<and> head_hash (last_link None R) = trail_hash R (int (length R))"
  proof (cases "R = []")
    case False
    then have at: "last R = R ! (length R - 1)" "length R - 1 < length R" by (simp_all add: last_conv_nth)
    have seq: "ce_seq (last R) = int (length R)"
    proof -
      have "int (length R - 1) + 1 = int (length R)" using False by (cases R) simp_all
      with linked_nth [OF assms at(2)] show ?thesis unfolding at(1) by simp
    qed
    have "nat (int (length R) - 1) = length R - 1" by simp
    with at seq False show ?thesis by (simp add: last_link_def trail_hash_def)
  qed (simp add: trail_hash_def)
  then show "head_seq (last_link None R) = int (length R)" "head_hash (last_link None R) = trail_hash R (int (length R))"
    by simp_all
qed

section \<open>What an insert does\<close>

definition grow :: "audit_row \<Rightarrow> audit_db \<Rightarrow> audit_db" where
  "grow r db = \<lparr>db_rows = db_rows db @ [r\<lparr>ar_row := db_next db\<rparr>], db_next = db_next db + 1\<rparr>"

lemma grow_fields [simp]:
  "db_rows (grow r db) = db_rows db @ [r\<lparr>ar_row := db_next db\<rparr>]" "db_next (grow r db) = db_next db + 1"
  by (simp_all add: grow_def)

lemma in_chain_row_id [simp]:
  "in_chain t (r\<lparr>ar_row := i\<rparr>) = in_chain t r" "row_seq (r\<lparr>ar_row := i\<rparr>) = row_seq r"
  by (simp_all add: in_chain_def row_seq_def)

lemma chain_rows_grow:
  "chain_rows (grow r db) t = chain_rows db t @ (if in_chain t r then [r\<lparr>ar_row := db_next db\<rparr>] else [])"
  by (simp add: chain_rows_def)

lemma row_at_fields [simp]:
  "ev_tenant (row_at ap p q h) = ev_tenant (ap_record ap)" "ev_id (row_at ap p q h) = ev_id (ap_record ap)"
  "ar_seq (row_at ap p q h) = Some p" "ar_prev (row_at ap p q h) = q" "ar_hash (row_at ap p q h) = Some h"
  "ar_salt (row_at ap p q h) = Some (ap_salt ap)" "row_seq (row_at ap p q h) = p"
  "in_chain t (row_at ap p q h) \<longleftrightarrow> ev_tenant (ap_record ap) = t"
  "chain_fields_of sha (row_at ap p q h) s = chain_fields_of sha (ap_record ap) s"
  "chain_fields_of sha (r\<lparr>ar_row := i\<rparr>) s = chain_fields_of sha r s"
  by (simp_all add: row_at_def row_seq_def or_else_def in_chain_def chain_fields_of_def)

lemma free_position:
  assumes whole: "chains_whole sha db" and pos: "1 \<le> p" and "p - 1 \<le> int (length (chain_rows db t))"
    and "\<not> (\<exists>x\<in>set (db_rows db). in_chain t x \<and> row_seq x \<ge> p)"
  shows "int (length (chain_rows db t)) = p - 1"
proof (rule ccontr)
  assume "int (length (chain_rows db t)) \<noteq> p - 1"
  with assms(3) have long: "p \<le> int (length (chain_rows db t))" by simp
  let ?i = "length (chain_rows db t) - 1"
  have i: "?i < length (chain_rows db t)" using long pos by (cases "chain_rows db t") auto
  then have "chain_rows db t ! ?i \<in> set (chain_rows db t)" by simp
  moreover have "row_seq (chain_rows db t ! ?i) = int (length (chain_rows db t))"
    using whole_row [OF whole i] i by (simp add: of_nat_diff)
  ultimately show False using assms(4) long by (auto simp: chain_rows_def)
qed

lemma grow_whole:
  assumes whole: "chains_whole sha db" and t: "t = ev_tenant (ap_record ap)"
    and len: "int (length (chain_rows db t)) = p - 1"
    and prev: "prev = trail_hash (chain_events sha False db t) (p - 1)"
    and h: "h = chain_hash sha p prev (chain_fields_of sha (ap_record ap) (ap_salt ap))"
  shows "chains_whole sha (grow (row_at ap p prev h) db)"
proof -
  let ?db = "grow (row_at ap p prev h) db"
  have linked: "linked sha t' None (chain_events sha False db t')" for t'
    using whole by (simp add: chains_whole_def)
  have n: "int (length (chain_events sha False db t)) = p - 1" using len by (simp add: chain_events_def)
  have "linked sha t' None (chain_events sha False ?db t')" for t'
  proof (cases "t' = t")
    case True
    have "next_event sha t (last_link None (chain_events sha False db t))
        (chained_event_of sha False ((row_at ap p prev h)\<lparr>ar_row := db_next db\<rparr>))"
      using last_link_trail [OF linked [of t]] n
      by (simp add: next_event_def prev h t)
    with linked [of t] True show ?thesis
      by (simp add: chain_events_def chain_rows_grow t linked_append)
  next
    case False
    with linked [of t'] t show ?thesis by (simp add: chain_events_def chain_rows_grow)
  qed
  moreover have "row_complete r \<and> ar_row r < db_next ?db" if "r \<in> set (db_rows ?db)" for r
    using that whole by (auto simp: chains_whole_def row_complete_def less_Suc_eq)
  moreover have "sorted_wrt (<) (map ar_row (db_rows ?db))"
    using whole by (auto simp: chains_whole_def sorted_wrt_append)
  ultimately show ?thesis unfolding chains_whole_def by blast
qed

section \<open>Appends in any order\<close>

definition own_row :: "appender \<Rightarrow> audit_row \<Rightarrow> bool" where
  "own_row ap r \<longleftrightarrow> ev_id r = ev_id (ap_record ap)"

definition landed_as :: "appender \<Rightarrow> audit_row \<Rightarrow> bool" where
  "landed_as ap r \<longleftrightarrow> (\<exists>p q h i. r = (row_at ap p q h)\<lparr>ar_row := i\<rparr>)"

definition appender_ok :: "(string \<Rightarrow> digest) \<Rightarrow> audit_db \<Rightarrow> appender \<Rightarrow> bool" where
  "appender_ok sha db ap \<longleftrightarrow>
     (let t = ev_tenant (ap_record ap); n = int (length (chain_rows db t)); own = filter (own_row ap) (db_rows db) in
      (\<forall>r\<in>set own. landed_as ap r) \<and>
      (case ap_phase ap of
         Reading \<Rightarrow> ap_stalls ap = 0 \<and> own = [] \<and> (\<forall>l. ap_last ap = Some l \<longrightarrow> l \<le> n)
       | Inserting p prev h \<Rightarrow> ap_stalls ap = 0 \<and> ap_last ap = Some p \<and> p - 1 \<le> n \<and> 1 \<le> p \<and>
           prev = trail_hash (chain_events sha False db t) (p - 1) \<and>
           h = chain_hash sha p prev (chain_fields_of sha (ap_record ap) (ap_salt ap)) \<and>
           (\<forall>r\<in>set own. ar_seq r = Some p)
       | Checking \<Rightarrow> ap_stalls ap = 0 \<and> (\<exists>l. ap_last ap = Some l \<and> l \<le> n)
       | Landed \<Rightarrow> own \<noteq> []
       | Stalled \<Rightarrow> False
       | Expired \<Rightarrow> own = []
       | Faulted \<Rightarrow> True))"

definition appends_ok :: "(string \<Rightarrow> digest) \<Rightarrow> appender list \<Rightarrow> audit_db \<Rightarrow> bool" where
  "appends_ok sha aps db \<longleftrightarrow> chains_whole sha db \<and> distinct (map ev_id (db_rows db)) \<and>
     distinct (map (\<lambda>ap. ev_id (ap_record ap)) aps) \<and> (\<forall>ap\<in>set aps. appender_ok sha db ap)"

lemma trail_hash_append: "0 \<le> q \<Longrightarrow> q \<le> int (length R) \<Longrightarrow> trail_hash (R @ S) q = trail_hash R q"
  by (auto simp: trail_hash_def nth_append)

text \<open>An append is not disturbed by another's row.\<close>

lemma appender_ok_grow:
  assumes "appender_ok sha db ap" and "ev_id r \<noteq> ev_id (ap_record ap)"
  shows "appender_ok sha (grow r db) ap"
proof -
  let ?t = "ev_tenant (ap_record ap)"
  have own: "filter (own_row ap) (db_rows (grow r db)) = filter (own_row ap) (db_rows db)"
    using assms(2) by (simp add: own_row_def)
  have len: "length (chain_rows db ?t) \<le> length (chain_rows (grow r db) ?t)" by (simp add: chain_rows_grow)
  have trail: "trail_hash (chain_events sha False (grow r db) ?t) q = trail_hash (chain_events sha False db ?t) q"
    if "0 \<le> q" "q \<le> int (length (chain_rows db ?t))" for q
    using that by (simp add: chain_events_def chain_rows_grow trail_hash_append)
  show ?thesis
  proof (cases "ap_phase ap")
    case (Inserting p prev h)
    with assms(1) have "p - 1 \<le> int (length (chain_rows db ?t))" "1 \<le> p" by (simp_all add: appender_ok_def Let_def)
    with assms(1) Inserting len show ?thesis by (simp add: appender_ok_def Let_def own trail del: grow_fields)
  qed (use assms(1) len in \<open>auto simp: appender_ok_def Let_def own simp del: grow_fields\<close>)
qed

lemma appends_update:
  assumes "appends_ok sha aps db" "i < length aps" "ap_record ap' = ap_record (aps ! i)"
    and "chains_whole sha db'" "distinct (map ev_id (db_rows db'))" "appender_ok sha db' ap'"
    and "\<And>j. j < length aps \<Longrightarrow> j \<noteq> i \<Longrightarrow> appender_ok sha db' (aps ! j)"
  shows "appends_ok sha (aps[i := ap']) db'"
proof -
  have "map (\<lambda>ap. ev_id (ap_record ap)) (aps[i := ap']) = map (\<lambda>ap. ev_id (ap_record ap)) aps"
    using assms(2,3) by (auto simp: list_eq_iff_nth_eq nth_list_update)
  moreover have "appender_ok sha db' ap" if "ap \<in> set (aps[i := ap'])" for ap
    using that assms(2,6,7) by (auto simp: in_set_conv_nth nth_list_update split: if_splits)
  ultimately show ?thesis using assms(1,4,5) by (simp add: appends_ok_def)
qed

lemma phase_only [simp]:
  "own_row (ap\<lparr>ap_phase := x\<rparr>) = own_row ap" "landed_as (ap\<lparr>ap_phase := x\<rparr>) = landed_as ap"
  by (rule ext, simp add: own_row_def landed_as_def row_at_def)+

text \<open>The insert of an append that is where it says: refused, or the row that continues the chain.\<close>

lemma insert_step:
  assumes ok: "appends_ok sha aps db" and i: "i < length aps" and ph: "ap_phase (aps ! i) = Inserting p prev h"
    and ins: "insert_if_free (row_at (aps ! i) p prev h) p db = (b, db')"
  defines "ap \<equiv> aps ! i"
  shows "chains_whole sha db' \<and> distinct (map ev_id (db_rows db')) \<and>
    (\<forall>j<length aps. j \<noteq> i \<longrightarrow> appender_ok sha db' (aps ! j)) \<and>
    appender_ok sha db' ap \<and> p \<le> int (length (chain_rows db' (ev_tenant (ap_record ap)))) \<and>
    (b \<longrightarrow> filter (own_row ap) (db_rows db') \<noteq> [])"
proof -
  let ?t = "ev_tenant (ap_record ap)"
  have apok: "appender_ok sha db ap" using ok i by (simp add: appends_ok_def ap_def)
  have whole: "chains_whole sha db" using ok by (simp add: appends_ok_def)
  from apok ph have st: "1 \<le> p" "p - 1 \<le> int (length (chain_rows db ?t))"
    "prev = trail_hash (chain_events sha False db ?t) (p - 1)"
    "h = chain_hash sha p prev (chain_fields_of sha (ap_record ap) (ap_salt ap))"
    "\<forall>r\<in>set (filter (own_row ap) (db_rows db)). ar_seq r = Some p \<and> landed_as ap r"
    by (simp_all add: appender_ok_def Let_def flip: ap_def)
  show ?thesis
  proof (cases "\<exists>x\<in>set (db_rows db). in_chain ?t x \<and> row_seq x \<ge> p")
    case True
    then have db': "db' = db" "\<not> b" using ins by (auto simp: insert_if_free_def ap_def)
    from True obtain x where x: "x \<in> set (chain_rows db ?t)" "p \<le> row_seq x" by (auto simp: chain_rows_def)
    then obtain k where k: "k < length (chain_rows db ?t)" "chain_rows db ?t ! k = x"
      by (auto simp: in_set_conv_nth)
    with whole_row [OF whole k(1)] x(2) have "p \<le> int (length (chain_rows db ?t))" by simp
    with db' ok apok show ?thesis by (simp add: appends_ok_def)
  next
    case False
    have len: "int (length (chain_rows db ?t)) = p - 1" by (rule free_position [OF whole st(1,2) False])
    have db': "db' = grow (row_at ap p prev h) db" "b"
      using ins unfolding insert_if_free_def row_at_fields if_not_P [OF False [unfolded ap_def]] grow_def ap_def by simp_all
    have no_own: "filter (own_row ap) (db_rows db) = []"
    proof (rule ccontr)
      assume "filter (own_row ap) (db_rows db) \<noteq> []"
      then obtain r where r: "r \<in> set (filter (own_row ap) (db_rows db))" by (metis list.set_intros(1) neq_Nil_conv)
      with st(5) have "ar_seq r = Some p" "landed_as ap r" by simp_all
      then have "in_chain ?t r" "row_seq r = p" by (auto simp: landed_as_def in_chain_def row_seq_def)
      with r False show False by auto
    qed
    have whole': "chains_whole sha db'"
      unfolding db' by (rule grow_whole [OF whole refl len st(3,4)])
    have fresh: "ev_id (ap_record ap) \<notin> ev_id ` set (db_rows db)"
      using no_own by (auto simp: own_row_def filter_empty_conv)
    have dist: "distinct (map ev_id (db_rows db'))"
      using ok fresh by (simp add: db' appends_ok_def)
    have other: "appender_ok sha db' (aps ! j)" if "j < length aps" "j \<noteq> i" for j
    proof -
      have "ev_id (ap_record (aps ! j)) \<noteq> ev_id (ap_record ap)"
        using ok that i by (auto simp: appends_ok_def ap_def distinct_conv_nth)
      with ok that show ?thesis
        unfolding db' by (intro appender_ok_grow) (auto simp: appends_ok_def)
    qed
    have own': "filter (own_row ap) (db_rows db') = [(row_at ap p prev h)\<lparr>ar_row := db_next db\<rparr>]"
      using no_own by (simp add: db' own_row_def)
    have trail: "trail_hash (chain_events sha False db' ?t) (p - 1) = trail_hash (chain_events sha False db ?t) (p - 1)"
      using len st(1) by (simp add: db' chain_events_def chain_rows_grow trail_hash_append)
    have len': "int (length (chain_rows db' ?t)) = p" using len by (simp add: db' chain_rows_grow)
    have "appender_ok sha db' ap"
      using apok ph st len' own' trail unfolding appender_ok_def Let_def
      by (auto simp: landed_as_def simp flip: ap_def)
    with whole' dist other own' len' show ?thesis by simp
  qed
qed

lemma append_step_ok:
  assumes ok: "appends_ok sha aps db" and i: "i < length aps"
    and step: "append_step sha env (aps ! i, db) = (ap', db')"
  shows "appends_ok sha (aps[i := ap']) db'"
proof -
  let ?ap = "aps ! i"
  let ?t = "ev_tenant (ap_record ?ap)"
  have apok: "appender_ok sha db ?ap" and whole: "chains_whole sha db" and dist: "distinct (map ev_id (db_rows db))"
    using ok i by (auto simp: appends_ok_def)
  have same: "appends_ok sha (aps[i := ap']) db"
    if "ap_record ap' = ap_record ?ap" "appender_ok sha db ap'" for ap'
    by (rule appends_update [OF ok i that(1) whole dist that(2)]) (use ok in \<open>auto simp: appends_ok_def\<close>)
  show ?thesis
  proof (cases "ap_phase ?ap")
    case Reading
    note head = read_head [OF whole, of ?t]
    let ?p = "int (length (chain_rows db ?t)) + 1"
    have calm: "stalls_at ?ap ?p = 0" and no_own: "filter (own_row ?ap) (db_rows db) = []"
      using apok Reading by (auto simp: appender_ok_def Let_def stalls_at_def split: option.splits)
    define now where "now = ?ap\<lparr>ap_phase := Inserting ?p (head_hash (read_chain_head db ?t))
        (chain_hash sha ?p (head_hash (read_chain_head db ?t)) (chain_fields_of sha (ap_record ?ap) (ap_salt ?ap))),
        ap_stalls := 0, ap_last := Some ?p\<rparr>"
    have "append_step sha env (?ap, db) = (now, db)"
      using calm by (simp add: now_def Reading Let_def head(1) chain_append_stalls_def)
    with step have "db' = db" and ap': "ap' = now" by simp_all
    moreover have "appender_ok sha db ap'"
      using no_own by (auto simp: ap' now_def appender_ok_def Let_def head(2) own_row_def filter_empty_conv)
    moreover have "ap_record ap' = ap_record ?ap" by (simp add: ap' now_def)
    ultimately show ?thesis using same [of ap'] by simp
  next
    case (Inserting p prev h)
    obtain b db1 where ins: "insert_if_free (row_at ?ap p prev h) p db = (b, db1)" by fastforce
    note s = insert_step [OF ok i Inserting ins]
    then have s': "appender_ok sha db1 ?ap" "p \<le> int (length (chain_rows db1 ?t))"
      "b \<longrightarrow> filter (own_row ?ap) (db_rows db1) \<noteq> []" by blast+
    have finish: "appends_ok sha (aps[i := ap']) db1"
      if "ap_record ap' = ap_record ?ap" "appender_ok sha db1 ap'" for ap'
      by (rule appends_update [OF ok i that(1) _ _ that(2)]) (use s in auto)
    have faulted: "appender_ok sha d (?ap\<lparr>ap_phase := Faulted\<rparr>)" if "appender_ok sha d ?ap" for d
      using that by (simp add: appender_ok_def Let_def)
    show ?thesis
    proof (cases "ae_answer env")
      case Answered
      with step ins Inserting have db': "db' = db1" and ap': "ap' = ?ap\<lparr>ap_phase := (if b then Landed else Checking)\<rparr>"
        by auto
      have "appender_ok sha db1 ap'"
        using s' Inserting by (auto simp: ap' appender_ok_def Let_def simp del: set_filter)
      then show ?thesis unfolding db' by (intro finish) (simp add: ap')
    next
      case (Lost executed again)
      with step ins Inserting have db': "db' = (if executed then db1 else db)"
        and ap': "ap' = (if again then ?ap else ?ap\<lparr>ap_phase := Faulted\<rparr>)" by auto
      show ?thesis
      proof (cases executed)
        case True
        have "appender_ok sha db1 ap'" using s faulted by (simp add: ap')
        then show ?thesis unfolding db' if_P [OF True] by (intro finish) (simp add: ap')
      next
        case False
        have "appender_ok sha db ap'" using apok faulted by (simp add: ap')
        then show ?thesis unfolding db' if_not_P [OF False] by (intro same) (simp add: ap')
      qed
    qed
  next
    case Checking
    define now where "now = ?ap\<lparr>ap_phase := (if \<exists>x\<in>set (db_rows db). ev_id x = ev_id (ap_record ?ap) then Landed
        else if ae_expired env then Expired else Reading)\<rparr>"
    have "append_step sha env (?ap, db) = (now, db)" by (simp add: now_def Checking)
    with step have "db' = db" and ap': "ap' = now" by simp_all
    moreover have "appender_ok sha db ap'"
      using apok Checking by (auto simp: ap' now_def appender_ok_def Let_def own_row_def filter_empty_conv)
    moreover have "ap_record ap' = ap_record ?ap" by (simp add: ap' now_def)
    ultimately show ?thesis using same [of ap'] by simp
  qed (use same [of ?ap] apok step i in auto)
qed

lemma append_run_ok: "appends_ok sha aps db \<Longrightarrow> append_run sha sched (aps, db) = (aps', db') \<Longrightarrow> appends_ok sha aps' db'"
proof (induction sched arbitrary: aps db)
  case (Cons s sched)
  obtain i env where s: "s = (i, env)" by fastforce
  show ?case
  proof (cases "i < length aps")
    case True
    obtain ap1 db1 where st: "append_step sha env (aps ! i, db) = (ap1, db1)" by fastforce
    with Cons.prems(2) s True have "append_run sha sched (aps[i := ap1], db1) = (aps', db')" by simp
    with Cons.IH append_step_ok [OF Cons.prems(1) True st] show ?thesis by blast
  qed (use Cons s in simp)
qed simp

lemma row_commitments:
  "\<not> commitment_fails sha detail (chained_event_of sha detail r)"
  by (simp add: commitment_fails_def committed_values_def chained_event_of_def Let_def chained_fields.defs
    chain_fields_of_def)

end
