(* ===== verification/Audit_Properties.thy ===== *)
theory Audit_Properties
  imports Audit_Append
begin

text \<open>What the audit trail's hash chain is evidence of.\<close>

section \<open>A small trail\<close>

text \<open>A hash for examples: collision-free because it keeps its text.\<close>

definition plain_hash :: "string \<Rightarrow> digest" where
  "plain_hash s = ''#'' @ s"

definition sample_row :: "string \<Rightarrow> string \<Rightarrow> audit_row" where
  "sample_row eid act = \<lparr>ev_id = eid, ev_occurred_at = 5, ev_action = act, ev_outcome = ''success'',
     ev_severity = ''info'', ev_actor_type = ''user'', ev_actor_id = Some ''u'', ev_actor_kind = None,
     ev_session_id = None, ev_resource_type = None, ev_resource_id = None, ev_request_id = None,
     ev_tenant = Some ''acme'', ev_project = None, ev_environment = None, ev_worker = None, ev_version = None,
     ar_ip = Some ''127.0.0.1'', ar_user_agent = None, ar_metadata = None, ar_row = 0, ar_seq = None,
     ar_prev = None, ar_hash = None, ar_salt = None\<rparr>"

definition clear_step :: append_env where
  "clear_step = \<lparr>ae_answer = Answered, ae_expired = False\<rparr>"

definition two_appends :: "appender list" where
  "two_appends = [start_append (sample_row ''e1'' ''auth/login'') ''s1'', start_append (sample_row ''e2'' ''auth/logout'') ''s2'']"

text \<open>Both read the same head; the first lands, the second loses its race, reads again and lands.\<close>

definition race :: "(nat \<times> append_env) list" where
  "race = [(0, clear_step), (1, clear_step), (0, clear_step), (1, clear_step), (1, clear_step), (1, clear_step), (1, clear_step)]"

definition raced :: "appender list \<times> audit_db" where
  "raced = append_run plain_hash race (two_appends, empty_audit)"

lemma raced_phases: "map ap_phase (fst raced) = [Landed, Landed]"
  by code_simp

lemma raced_positions: "map ar_seq (db_rows (snd raced)) = [Some 1, Some 2]"
  by code_simp

section \<open>The canonical form\<close>

text \<open>Two events have the same canonical text exactly when they agree in position, in
  the hash they link to and in every hashed field, whatever characters their strings hold.\<close>

theorem one_text_one_event:
  "canonical_event p q f = canonical_event p' q' g \<longleftrightarrow> p = p' \<and> q = q' \<and> hashed_fields f = hashed_fields g"
proof
  assume "p = p' \<and> q = q' \<and> hashed_fields f = hashed_fields g"
  then have "canonical_event p q (hashed_fields f) = canonical_event p' q' (hashed_fields g)" by simp
  then show "canonical_event p q f = canonical_event p' q' g" by simp
qed (rule canonical_event_inj)

section \<open>The verifier\<close>

text \<open>C33: Verifying any parsed export returns: the bridging loop crosses each pruned run
  forward and ends, and no more events are checked than the export carries.\<close>

theorem verification_returns:
  assumes "parsed_export doc"
  shows "\<exists>v. verify_export sha doc = Some v \<and> vf_checked v \<le> length (ex_events doc)"
proof -
  let ?opts = "export_options doc"
  have counted: "counted ?opts" using assms by (auto simp: parsed_export_def counted_def)
  have checked: "wk_checked wk' \<le> wk_checked wk + length es" if "push_all sha ?opts es wk = Some (found, wk')"
    for es wk found wk'
    using that
  proof (induction es arbitrary: wk)
    case (Cons e es)
    obtain f1 wk1 where p: "push sha ?opts e wk = Some (f1, wk1)" using push_returns [OF counted] by blast
    have one: "wk_checked wk1 \<le> wk_checked wk + 1" using push_checked [OF counted p] .
    show ?case
    proof (cases f1)
      case None
      with Cons p one show ?thesis by fastforce
    next
      case (Some br)
      with Cons.prems p one show ?thesis by simp
    qed
  qed simp
  obtain found wk where p: "push_all sha ?opts (ex_events doc) (start_walk ?opts) = Some (found, wk)"
    using push_all_returns [OF counted] by blast
  from checked [OF p] have "wk_checked wk \<le> length (ex_events doc)" by (simp add: start_walk_def)
  with p show ?thesis by (cases found) (simp_all add: verify_export_def Let_def verification_of_def)
qed

text \<open>A document whose first two events were pruned.\<close>

definition kept_event :: chained_event where
  "kept_event = (let r = (sample_row ''e3'' ''auth/login'')\<lparr>ar_seq := Some 3, ar_prev := Some ''h2'', ar_salt := Some ''s3''\<rparr> in
     chained_event_of plain_hash False
       (r\<lparr>ar_hash := Some (chain_hash plain_hash 3 (Some ''h2'') (chain_fields_of plain_hash r ''s3''))\<rparr>))"

definition pruned_run :: tombstone where
  "pruned_run = \<lparr>ts_tenant = Some ''acme'', ts_from = 1, ts_through = 2, ts_count = 2, ts_prior = None,
     ts_first = ''h1'', ts_last = ''h2'', ts_pruned_at = ''t''\<rparr>"

definition whole_export ::
  "string option \<Rightarrow> bool \<Rightarrow> chained_event list \<Rightarrow> checkpoint list \<Rightarrow> tombstone list option \<Rightarrow> chain_export" where
  "whole_export tenant detail es cs ts = \<lparr>ex_tenant = tenant, ex_since = None, ex_until = None, ex_exported_at = ''t'',
     ex_detail = detail, ex_prior = None, ex_events = es, ex_checkpoints = cs, ex_tombstones = ts,
     ex_complete = True, ex_before_chain = 0, ex_outside_chain = 0, ex_next_cursor = None\<rparr>"

definition pruned_export :: chain_export where
  "pruned_export = whole_export (Some ''acme'') False [kept_event] [] (Some [pruned_run])"

lemma pruned_export_parsed: "parsed_export pruned_export"
  by code_simp

lemma pruned_bridge:
  "bridge (export_options pruned_export) 3 (start_walk (export_options pruned_export))
     = Some (None, cross pruned_run (start_walk (export_options pruned_export)))"
  by (subst bridge_unfold, subst bridge_unfold)
    (simp add: export_options_def pruned_export_def whole_export_def start_walk_def own_tombstones_def
      pruned_run_def bridges_def disagrees_def by_count_def own_checkpoints_def)

lemma pruned_export_verifies:
  "verify_export plain_hash pruned_export = Some
     \<lparr>vf_intact = True, vf_checked = 1, vf_checkpoints = 0, vf_pruned = 2, vf_break = None\<rparr>"
proof -
  let ?o = "export_options pruned_export"
  let ?w = "cross pruned_run (start_walk ?o)"
  have c: "check_event plain_hash ?o kept_event ?w = (None, step_over kept_event ?w)"
    unfolding check_event_accepts by code_simp
  have "push plain_hash ?o kept_event (start_walk ?o) = Some (None, step_over kept_event ?w)"
  proof -
    have "ce_seq kept_event = 3" "ev_tenant kept_event = vo_tenant ?o" by code_simp+
    with c pruned_bridge show ?thesis by (simp add: push_def)
  qed
  moreover have "ex_events pruned_export = [kept_event]" by (simp add: pruned_export_def whole_export_def)
  moreover have "verification_of ?o (step_over kept_event ?w) (finish ?o (ex_complete pruned_export) (step_over kept_event ?w))
    = \<lparr>vf_intact = True, vf_checked = 1, vf_checkpoints = 0, vf_pruned = 2, vf_break = None\<rparr>" by code_simp
  ultimately show ?thesis by (simp add: verify_export_def Let_def)
qed

lemma verification_returns_witness:
  "parsed_export pruned_export \<and>
   (\<exists>v. verify_export plain_hash pruned_export = Some v \<and> vf_intact v \<and> vf_pruned v = 2 \<and>
      vf_checked v \<le> length (ex_events pruned_export))"
proof -
  from verification_returns [OF pruned_export_parsed, of plain_hash] pruned_export_verifies pruned_export_parsed
  show ?thesis by auto
qed



section \<open>A trail and its export\<close>

lemma whole_export_intact:
  assumes linked: "linked sha tenant None es" and true: "true_checkpoints tenant es cs"
    and opens: "\<forall>e\<in>set es. \<not> commitment_fails sha detail e" and none: "\<forall>t\<in>set ts. ts_tenant t \<noteq> tenant"
  shows "linked sha tenant (ex_prior (whole_export tenant detail es cs (Some ts))) es \<and>
    (\<forall>e\<in>set es. \<not> commitment_fails sha detail e \<and>
       \<not> disagrees (export_options (whole_export tenant detail es cs (Some ts))) (ce_seq e) (ce_hash e)) \<and>
    (\<forall>c\<in>set cs. cp_tenant c = tenant \<longrightarrow> cp_count c \<le> head_seq (last_link None es))"
proof -
  let ?o = "export_options (whole_export tenant detail es cs (Some ts))"
  have own: "own_checkpoints ?o = [c \<leftarrow> cs. cp_tenant c = tenant]"
    by (simp add: export_options_def whole_export_def own_checkpoints_def)
  have "\<not> disagrees ?o (ce_seq e) (ce_hash e)" if "e \<in> set es" for e
  proof (cases "by_count ?o (ce_seq e)")
    case (Some c)
    from that obtain i where i: "i < length es" "e = es ! i" by (auto simp: in_set_conv_nth)
    from linked_nth [OF linked i(1)] i have seq: "ce_seq e = int i + 1" by simp
    from by_count_in [OF Some] own true have "Some (cp_head c) = trail_hash es (ce_seq e)"
      by (auto simp: true_checkpoints_def)
    with seq i Some show ?thesis by (simp add: disagrees_def trail_hash_def)
  qed (simp add: disagrees_def)
  with assms last_link_trail(1) [OF linked] show ?thesis
    by (simp add: true_checkpoints_def whole_export_def)
qed

lemma table_opens: "\<forall>e\<in>set (chain_events sha detail db tenant). \<not> commitment_fails sha detail e"
  by (simp add: chain_events_def row_commitments)

lemma table_linked:
  "chains_whole sha db \<Longrightarrow> linked sha tenant None (chain_events sha detail db tenant)"
  using linked_detail [of sha tenant None detail "chain_rows db tenant" False]
  by (simp add: chains_whole_def chain_events_def)

text \<open>Appends to a table of whole chains that holds none of their events.\<close>

definition fresh_appends :: "(audit_row \<times> string) list \<Rightarrow> audit_db \<Rightarrow> bool" where
  "fresh_appends rs db \<longleftrightarrow> distinct (map (\<lambda>(r, s). ev_id r) rs) \<and> distinct (map ev_id (db_rows db)) \<and>
     (\<forall>(r, s)\<in>set rs. ev_id r \<notin> ev_id ` set (db_rows db))"

lemma fresh_appends_ok:
  assumes "chains_whole sha db" "fresh_appends rs db"
  shows "appends_ok sha (map (\<lambda>(r, s). start_append r s) rs) db"
proof -
  have "map (\<lambda>ap. ev_id (ap_record ap)) (map (\<lambda>(r, s). start_append r s) rs) = map (\<lambda>(r, s). ev_id r) rs"
    by (auto simp: start_append_def)
  moreover have "appender_ok sha db (start_append r s)" if "(r, s) \<in> set rs" for r s
  proof -
    have "ev_id r \<notin> ev_id ` set (db_rows db)" using that assms(2) by (auto simp: fresh_appends_def)
    then have "filter (own_row (start_append r s)) (db_rows db) = []"
      by (auto simp: filter_empty_conv own_row_def start_append_def) (metis imageI)
    then show ?thesis unfolding appender_ok_def Let_def by (simp add: start_append_def)
  qed
  ultimately show ?thesis
    using assms unfolding appends_ok_def fresh_appends_def by (simp only:) auto
qed

lemma empty_audit_whole [simp]: "chains_whole sha empty_audit"
  by (simp add: chains_whole_def empty_audit_def chain_events_def chain_rows_def)

lemma two_fresh: "fresh_appends [(sample_row ''e1'' ''auth/login'', ''s1''), (sample_row ''e2'' ''auth/logout'', ''s2'')] empty_audit"
  by (simp add: fresh_appends_def empty_audit_def sample_row_def)

lemma raced_whole: "chains_whole plain_hash (snd raced)"
proof -
  obtain aps db where r: "raced = (aps, db)" by fastforce
  have "appends_ok plain_hash two_appends empty_audit"
    using fresh_appends_ok [OF empty_audit_whole two_fresh, of plain_hash] by (simp add: two_appends_def)
  from append_run_ok [OF this r [unfolded raced_def]] have "chains_whole plain_hash db" by (simp add: appends_ok_def)
  then show ?thesis by (simp add: r)
qed


text \<open>The whole table of one tenant, held to true checkpoints, verifies.\<close>

lemma table_export_intact:
  assumes whole: "chains_whole sha db" and true: "true_checkpoints tenant (chain_events sha detail db tenant) cs"
  shows "\<exists>v. verify_export sha (whole_export tenant detail (chain_events sha detail db tenant) cs (Some [])) = Some v \<and>
    vf_intact v"
proof -
  let ?es = "chain_events sha detail db tenant"
  let ?doc = "whole_export tenant detail ?es cs (Some [])"
  have own: "own_tombstones (export_options ?doc) = []"
    by (simp add: own_tombstones_def export_options_def whole_export_def)
  have accepts: "(\<exists>v. verify_export sha ?doc = Some v \<and> vf_intact v) \<longleftrightarrow>
      linked sha tenant None ?es \<and> (\<forall>e\<in>set ?es. opens sha (export_options ?doc) e) \<and>
      (\<forall>c\<in>set (own_checkpoints (export_options ?doc)). cp_count c \<le> head_seq (last_link None ?es))"
    unfolding verify_intact push_all_whole [OF own] finish_ok
    by (auto simp: whole_export_def export_options_def start_walk_def)
  from whole_export_intact [OF table_linked [OF whole] true table_opens, of "[]"]
  show ?thesis
    unfolding accepts by (auto simp: opens_def own_checkpoints_def export_options_def whole_export_def)
qed

section \<open>Appending\<close>

text \<open>C28: However many appends interleave, statement by statement, with lost answers and
  retries, every tenant's rows hold the positions one to n once each, and the whole table exported
  with or without the personal values and held to any true checkpoints verifies as intact.\<close>

theorem appends_never_fork:
  assumes whole: "chains_whole sha db" and fresh: "fresh_appends rs db"
    and run: "append_run sha sched (map (\<lambda>(r, s). start_append r s) rs, db) = (aps, db')"
    and true: "true_checkpoints tenant (chain_events sha detail db' tenant) cs"
  shows "map row_seq (chain_rows db' tenant) = map (\<lambda>i. int i + 1) [0..<length (chain_rows db' tenant)] \<and>
    (\<exists>v. verify_export sha (whole_export tenant detail (chain_events sha detail db' tenant) cs (Some [])) = Some v \<and>
       vf_intact v)"
proof -
  have whole': "chains_whole sha db'"
    using append_run_ok [OF fresh_appends_ok [OF whole fresh] run] by (simp add: appends_ok_def)
  from table_export_intact [OF whole' true] whole_seqs [OF whole'] show ?thesis by simp
qed

lemma appends_never_fork_witness:
  "map row_seq (chain_rows (snd raced) (Some ''acme'')) = [1, 2] \<and>
   (\<exists>v. verify_export plain_hash (whole_export (Some ''acme'') False
      (chain_events plain_hash False (snd raced) (Some ''acme'')) [] (Some [])) = Some v \<and> vf_intact v)"
proof -
  obtain aps db where r: "raced = (aps, db)" by fastforce
  have run: "append_run plain_hash race (map (\<lambda>(r, s). start_append r s)
      [(sample_row ''e1'' ''auth/login'', ''s1''), (sample_row ''e2'' ''auth/logout'', ''s2'')], empty_audit) = (aps, db)"
    using r by (simp add: raced_def two_appends_def)
  have true: "true_checkpoints (Some ''acme'') (chain_events plain_hash False db (Some ''acme'')) []"
    by (simp add: true_checkpoints_def)
  have "map row_seq (chain_rows (snd raced) (Some ''acme'')) = [1, 2]" by code_simp
  moreover have snd: "snd raced = db" by (simp add: r)
  ultimately show ?thesis using appends_never_fork [OF empty_audit_whole two_fresh run true]
    unfolding snd by blast
qed

lemma single_key:
  "distinct (map f xs) \<Longrightarrow> \<forall>x\<in>set xs. f x = v \<Longrightarrow> xs \<noteq> [] \<Longrightarrow> \<exists>x. xs = [x]"
  by (cases xs; cases "tl xs") auto

text \<open>C29: No append ever gives up because its chain refused it without moving; one that
  returns has exactly one row with its event, its fields and its link, and one that ran out of time
  has none.\<close>

theorem append_lands_once:
  assumes whole: "chains_whole sha db" and fresh: "fresh_appends rs db"
    and run: "append_run sha sched (map (\<lambda>(r, s). start_append r s) rs, db) = (aps, db')"
    and ap: "ap \<in> set aps"
  shows "ap_phase ap \<noteq> Stalled \<and>
    (ap_phase ap = Landed \<longrightarrow> (\<exists>p q h i. filter (\<lambda>r. ev_id r = ev_id (ap_record ap)) (db_rows db')
       = [(row_at ap p q h)\<lparr>ar_row := i\<rparr>])) \<and>
    (ap_phase ap = Expired \<longrightarrow> filter (\<lambda>r. ev_id r = ev_id (ap_record ap)) (db_rows db') = [])"
proof -
  have ok: "appends_ok sha aps db'" by (rule append_run_ok [OF fresh_appends_ok [OF whole fresh] run])
  let ?own = "filter (\<lambda>r. ev_id r = ev_id (ap_record ap)) (db_rows db')"
  have own: "filter (own_row ap) (db_rows db') = ?own"
    by (rule filter_cong) (simp_all add: own_row_def)
  have apok: "appender_ok sha db' ap" and dist: "distinct (map ev_id (db_rows db'))"
    using ok ap by (simp_all add: appends_ok_def)
  have one: "\<exists>r. ?own = [r]" if "?own \<noteq> []"
  proof -
    have "distinct (map ev_id ?own)" using dist by (simp add: distinct_map_filter)
    moreover have "\<forall>r\<in>set ?own. ev_id r = ev_id (ap_record ap)" by simp
    ultimately show ?thesis using that single_key [of ev_id ?own] by blast
  qed
  have land: "\<exists>p q h i. ?own = [(row_at ap p q h)\<lparr>ar_row := i\<rparr>]" if "ap_phase ap = Landed"
  proof -
    from apok that own have "?own \<noteq> []" "\<forall>r\<in>set ?own. landed_as ap r"
      by (simp_all add: appender_ok_def Let_def)
    with one obtain r where "?own = [r]" "landed_as ap r" by auto
    then show ?thesis unfolding landed_as_def by blast
  qed
  from apok own have "ap_phase ap \<noteq> Stalled" "ap_phase ap = Expired \<longrightarrow> ?own = []"
    by (auto simp: appender_ok_def Let_def)
  with land show ?thesis by blast
qed

lemma append_lands_once_witness:
  "map ap_phase (fst raced) = [Landed, Landed] \<and>
   (\<exists>p q h i. filter (\<lambda>r. ev_id r = ev_id (ap_record (fst raced ! 1))) (db_rows (snd raced))
      = [(row_at (fst raced ! 1) p q h)\<lparr>ar_row := i\<rparr>])"
proof -
  obtain aps db where r: "raced = (aps, db)" by fastforce
  have run: "append_run plain_hash race (map (\<lambda>(r, s). start_append r s)
      [(sample_row ''e1'' ''auth/login'', ''s1''), (sample_row ''e2'' ''auth/logout'', ''s2'')], empty_audit) = (aps, db)"
    using r by (simp add: raced_def two_appends_def)
  have two: "length aps = 2" using arg_cong [OF raced_phases, of length] by (simp add: r)
  then have mem: "aps ! 1 \<in> set aps" by simp
  have "ap_phase (aps ! 1) = Landed"
    using arg_cong [OF raced_phases, of "\<lambda>xs. xs ! 1"] two by (simp add: r)
  with append_lands_once [OF empty_audit_whole two_fresh run mem]
  have "\<exists>p q h i. filter (\<lambda>r. ev_id r = ev_id (ap_record (aps ! 1))) (db_rows db) = [(row_at (aps ! 1) p q h)\<lparr>ar_row := i\<rparr>]"
    by blast
  with raced_phases show ?thesis by (simp add: r)
qed

section \<open>What an intact export is evidence of\<close>

definition hashed_texts :: "chained_event list \<Rightarrow> string set" where
  "hashed_texts es = (\<lambda>e. canonical_event (ce_seq e) (ce_prev e) e) ` set es"


definition acme_trail :: "chained_event list" where
  "acme_trail = chain_events plain_hash False (snd raced) (Some ''acme'')"

definition acme_checkpoint :: checkpoint where
  "acme_checkpoint = \<lparr>cp_tenant = Some ''acme'', cp_count = 2, cp_head = ce_hash (acme_trail ! 1), cp_taken_at = ''t''\<rparr>"

lemma acme_trail_length: "length acme_trail = 2"
proof -
  have "length (chain_rows (snd raced) (Some ''acme'')) = 2" by code_simp
  then show ?thesis by (simp add: acme_trail_def chain_events_def)
qed


end
