(* ===== verification/Retention.thy ===== *)
theory Retention
  imports Pithy_Prelude
begin

text \<open>
  The retention policy (\<open>packages/core/src/retention/policy.ts\<close>): the \<open>retention\<close> block as its schema
  admits it, how it resolves over a composition, and the windows read from the resolved policy.
  \<open>localeCompare\<close> compares collation keys, a parameter \<open>collate\<close>.
\<close>

section \<open>Durations\<close>

definition ms_per_day :: int where
  "ms_per_day = 86400000"

definition audit_retention_floor_days :: int where
  "audit_retention_floor_days = 365"

definition floored_audit_prefixes :: "string list" where
  "floored_audit_prefixes = [''controlplane/'']"

definition max_days :: int where
  "max_days = 36500"

text \<open>\<open>RetentionDuration\<close>: whole days, or a count and a unit.\<close>

datatype duration = Whole_days int | Span string

definition unit_days :: "char \<Rightarrow> int option" where
  "unit_days c = map_of [(CHR ''d'', 1), (CHR ''w'', 7), (CHR ''m'', 30), (CHR ''y'', 365)] c"

fun span_text :: "string \<Rightarrow> bool" where
  "span_text [] = False"
| "span_text (c # cs) \<longleftrightarrow> is_digit c \<and> c \<noteq> CHR ''0'' \<and> cs \<noteq> [] \<and> unit_days (last cs) \<noteq> None \<and>
     list_all is_digit (butlast cs) \<and> length (butlast cs) \<le> 4"

fun duration_valid :: "duration \<Rightarrow> bool" where
  "duration_valid (Whole_days n) \<longleftrightarrow> 1 \<le> n \<and> n \<le> max_days"
| "duration_valid (Span s) \<longleftrightarrow> span_text s"

fun duration_days :: "duration \<Rightarrow> int" where
  "duration_days (Whole_days n) = n"
| "duration_days (Span s) = int (digits_value (butlast s)) *
     (case unit_days (last s) of Some n \<Rightarrow> n | None \<Rightarrow> 0)"

section \<open>The block\<close>

datatype audit_default = Forever | Kept_for duration

text \<open>\<open>RetentionPolicy\<close>; an object is its entries, in order.\<close>

record retention_policy =
  rp_user :: "duration option"
  rp_organization :: "duration option"
  rp_default :: "audit_default option"
  rp_prefixes :: "(string \<times> duration) list"
  rp_class_ages :: "(string \<times> duration) list"

definition no_policy :: retention_policy where
  "no_policy = \<lparr>rp_user = None, rp_organization = None, rp_default = None, rp_prefixes = [], rp_class_ages = []\<rparr>"

definition is_lower :: "char \<Rightarrow> bool" where
  "is_lower c \<longleftrightarrow> 97 \<le> (of_char c :: nat) \<and> (of_char c :: nat) \<le> 122"

definition is_word :: "char \<Rightarrow> bool" where
  "is_word c \<longleftrightarrow> is_lower c \<or> is_digit c \<or> c = CHR ''_''"

definition lower_identifier :: "string \<Rightarrow> bool" where
  "lower_identifier s \<longleftrightarrow> (case s of [] \<Rightarrow> False | c # cs \<Rightarrow> is_lower c \<and> list_all is_word cs)"

definition action_prefix :: "string \<Rightarrow> bool" where
  "action_prefix s \<longleftrightarrow> (let dom = takeWhile (\<lambda>c. c \<noteq> CHR ''/'') s; rest = dropWhile (\<lambda>c. c \<noteq> CHR ''/'') s in
     lower_identifier dom \<and> rest \<noteq> [] \<and> list_all (\<lambda>c. is_word c \<or> c = CHR ''.'') (tl rest))"

definition policy_valid :: "retention_policy \<Rightarrow> bool" where
  "policy_valid p \<longleftrightarrow> optional duration_valid (rp_user p) \<and> optional duration_valid (rp_organization p) \<and>
     (case rp_default p of Some (Kept_for d) \<Rightarrow> duration_valid d | _ \<Rightarrow> True) \<and>
     list_all (\<lambda>(s, d). action_prefix s \<and> duration_valid d) (rp_prefixes p) \<and> distinct (map fst (rp_prefixes p)) \<and>
     list_all (\<lambda>(c, d). lower_identifier c \<and> duration_valid d) (rp_class_ages p) \<and> distinct (map fst (rp_class_ages p))"

datatype retention_error = Does_not_parse | Under_floor string int string

definition parse_retention_policy :: "retention_policy option \<Rightarrow> retention_error + retention_policy" where
  "parse_retention_policy input = (case input of None \<Rightarrow> Inr no_policy
     | Some p \<Rightarrow> if policy_valid p then Inr p else Inl Does_not_parse)"

section \<open>The policy as it takes effect\<close>

datatype retention_source = From_policy | From_capability | From_floor

datatype purge_subject = User | Organization

record audit_rule =
  al_prefix :: string
  al_days :: int
  al_source :: retention_source

record effective_retention =
  er_purge :: "(purge_subject \<times> int \<times> retention_source) list"
  er_default :: "int option"
  er_floor :: int
  er_rules :: "audit_rule list"
  er_floored :: "string list"
  er_ages :: "(string \<times> int) list"

record retention_composition =
  rc_purge :: "(purge_subject \<times> int) list"
  rc_lifecycle :: "string list"

definition covers :: "string \<Rightarrow> string \<Rightarrow> bool" where
  "covers p floored \<longleftrightarrow> starts_with floored p \<or> starts_with p floored"

definition floored_of :: "retention_composition \<Rightarrow> string list" where
  "floored_of composed = floored_audit_prefixes @ firsts (rc_lifecycle composed)"

definition policy_rules :: "retention_policy \<Rightarrow> audit_rule list" where
  "policy_rules p = map (\<lambda>(s, d). \<lparr>al_prefix = s, al_days = duration_days d, al_source = From_policy\<rparr>) (rp_prefixes p)"

definition under_floor :: "string list \<Rightarrow> audit_rule \<Rightarrow> retention_error option" where
  "under_floor floored r =
     (if al_days r \<ge> audit_retention_floor_days then None
      else case find (covers (al_prefix r)) floored of None \<Rightarrow> None
        | Some hit \<Rightarrow> Some (Under_floor (al_prefix r) (al_days r) hit))"

fun first_some :: "('a \<Rightarrow> 'b option) \<Rightarrow> 'a list \<Rightarrow> 'b option" where
  "first_some f [] = None"
| "first_some f (x # xs) = (case f x of None \<Rightarrow> first_some f xs | Some y \<Rightarrow> Some y)"

definition default_days :: "retention_policy \<Rightarrow> int option" where
  "default_days p = (case rp_default p of Some (Kept_for d) \<Rightarrow> Some (duration_days d) | _ \<Rightarrow> None)"

text \<open>Each floored action no rule decides yet is held at the floor; a pushed rule decides later ones.\<close>

fun hold_floor :: "string list \<Rightarrow> audit_rule list \<Rightarrow> audit_rule list" where
  "hold_floor [] rs = rs"
| "hold_floor (f # fs) rs = hold_floor fs
     (if \<exists>r\<in>set rs. starts_with f (al_prefix r) then rs
      else rs @ [\<lparr>al_prefix = f, al_days = audit_retention_floor_days, al_source = From_floor\<rparr>])"

definition all_rules :: "retention_policy \<Rightarrow> string list \<Rightarrow> audit_rule list" where
  "all_rules p floored = (case default_days p of
     Some d \<Rightarrow> if d < audit_retention_floor_days then hold_floor floored (policy_rules p) else policy_rules p
   | None \<Rightarrow> policy_rules p)"

definition longest_first :: "(string \<Rightarrow> 'k::linorder) \<Rightarrow> audit_rule list \<Rightarrow> audit_rule list" where
  "longest_first collate rs =
     sort_key (\<lambda>r. - int (length (al_prefix r))) (sort_key (\<lambda>r. collate (al_prefix r)) rs)"

definition stated_window :: "retention_policy \<Rightarrow> purge_subject \<Rightarrow> duration option" where
  "stated_window p s = (case s of User \<Rightarrow> rp_user p | Organization \<Rightarrow> rp_organization p)"

definition purge_windows :: "retention_policy \<Rightarrow> retention_composition \<Rightarrow> (purge_subject \<times> int \<times> retention_source) list" where
  "purge_windows p composed = map (\<lambda>(s, days). case stated_window p s of
     None \<Rightarrow> (s, days, From_capability) | Some d \<Rightarrow> (s, duration_days d, From_policy)) (rc_purge composed)"

definition class_ages :: "(string \<Rightarrow> 'k::linorder) \<Rightarrow> retention_policy \<Rightarrow> (string \<times> int) list" where
  "class_ages collate p =
     sort_key snd (sort_key (\<lambda>a. collate (fst a)) (map (\<lambda>(c, d). (c, duration_days d)) (rp_class_ages p)))"

definition resolve_retention ::
  "(string \<Rightarrow> 'k::linorder) \<Rightarrow> retention_policy \<Rightarrow> retention_composition \<Rightarrow> retention_error + effective_retention" where
  "resolve_retention collate p composed =
     (let floored = floored_of composed in
      case first_some (under_floor floored) (policy_rules p) of
        Some e \<Rightarrow> Inl e
      | None \<Rightarrow> Inr \<lparr>er_purge = purge_windows p composed, er_default = default_days p,
          er_floor = audit_retention_floor_days, er_rules = longest_first collate (all_rules p floored),
          er_floored = floored, er_ages = class_ages collate p\<rparr>)"

section \<open>Reading it\<close>

definition deciding_days :: "effective_retention \<Rightarrow> string \<Rightarrow> int option" where
  "deciding_days eff act = (case find (\<lambda>r. starts_with act (al_prefix r)) (er_rules eff) of
     Some r \<Rightarrow> Some (al_days r) | None \<Rightarrow> er_default eff)"

definition audit_window_days :: "effective_retention \<Rightarrow> string \<Rightarrow> int option" where
  "audit_window_days eff act = (case deciding_days eff act of None \<Rightarrow> None
     | Some d \<Rightarrow> Some (if \<exists>f\<in>set (er_floored eff). starts_with act f then max d (er_floor eff) else d))"

definition prunes_audit :: "effective_retention \<Rightarrow> bool" where
  "prunes_audit eff \<longleftrightarrow> er_default eff \<noteq> None \<or> (\<exists>r\<in>set (er_rules eff). al_source r = From_policy)"

definition purge_window_days :: "effective_retention \<Rightarrow> purge_subject \<Rightarrow> int option" where
  "purge_window_days eff s = map_option (\<lambda>w. fst (snd w)) (find (\<lambda>w. fst w = s) (er_purge eff))"

definition inactivity_days :: "effective_retention \<Rightarrow> string list \<Rightarrow> int option" where
  "inactivity_days eff held =
     (let ages = map snd [a \<leftarrow> er_ages eff. fst a \<in> set held] in
      if ages = [] then None else Some (Min (set ages)))"

end
