(* ===== verification/Retention_Properties.thy ===== *)
theory Retention_Properties
  imports Retention
begin

text \<open>
  What the retention policy promises: durations and their bounds, the longest matching rule, and the
  floor under the control plane's and the lifecycle's audit actions.
\<close>

section \<open>Prefixes\<close>

lemma starts_with_comparable:
  "starts_with s p \<Longrightarrow> starts_with s q \<Longrightarrow> covers p q"
  by (metis covers_def starts_with_def min.absorb1 min.absorb2 nle_le take_take)

lemma same_length_match: "starts_with s p \<Longrightarrow> starts_with s q \<Longrightarrow> length p = length q \<Longrightarrow> p = q"
  by (simp add: starts_with_def)

section \<open>Searches\<close>

lemma first_some_none: "first_some f xs = None \<longleftrightarrow> (\<forall>x\<in>set xs. f x = None)"
  by (induction xs) (auto split: option.splits)

lemma first_some_append:
  "first_some f (xs @ ys) = (case first_some f xs of None \<Rightarrow> first_some f ys | Some y \<Rightarrow> Some y)"
  by (induction xs) (auto split: option.splits)

lemma first_some_found: "first_some f xs = Some y \<Longrightarrow> \<exists>x\<in>set xs. f x = Some y"
  by (induction xs) (auto split: option.splits)

lemma sorted_find_least:
  "sorted (map f xs) \<Longrightarrow> find P xs = Some x \<Longrightarrow> y \<in> set xs \<Longrightarrow> P y \<Longrightarrow> (f x :: 'k::linorder) \<le> f y"
  by (induction xs) (auto split: if_splits)

lemma longest_first_set [simp]: "set (longest_first collate rs) = set rs"
  by (simp add: longest_first_def)

lemma longest_first_find:
  assumes "find P (longest_first collate rs) = Some r" and "x \<in> set rs" "P x"
  shows "length (al_prefix x) \<le> length (al_prefix r)"
proof -
  have "sorted (map (\<lambda>r. - int (length (al_prefix r))) (longest_first collate rs))" by (simp add: longest_first_def)
  from sorted_find_least [OF this assms(1), of x] assms(2,3) show ?thesis by simp
qed

section \<open>The rules of a resolved policy\<close>

lemma hold_floor_keeps: "r \<in> set rs \<Longrightarrow> r \<in> set (hold_floor fs rs)"
  by (induction fs arbitrary: rs) auto

lemma hold_floor_decides: "f \<in> set fs \<Longrightarrow> \<exists>r\<in>set (hold_floor fs rs). starts_with f (al_prefix r)"
proof (induction fs arbitrary: rs)
  case (Cons g fs)
  define rs' where "rs' = (if \<exists>r\<in>set rs. starts_with g (al_prefix r) then rs
      else rs @ [\<lparr>al_prefix = g, al_days = audit_retention_floor_days, al_source = From_floor\<rparr>])"
  have "\<exists>r\<in>set rs'. starts_with g (al_prefix r)" by (auto simp: rs'_def starts_with_def)
  then have own: "\<exists>r\<in>set (hold_floor fs rs'). starts_with g (al_prefix r)" by (meson hold_floor_keeps)
  have step: "hold_floor (g # fs) rs = hold_floor fs rs'" by (simp only: hold_floor.simps rs'_def)
  show ?case unfolding step using own Cons by (cases "f = g") simp_all
qed simp

lemma hold_floor_rule:
  "r \<in> set (hold_floor fs rs) \<Longrightarrow> r \<in> set rs \<or>
     (al_prefix r \<in> set fs \<and> al_days r = audit_retention_floor_days \<and> al_source r = From_floor \<and>
      (\<forall>x\<in>set rs. \<not> starts_with (al_prefix r) (al_prefix x)))"
proof (induction fs arbitrary: rs)
  case (Cons g fs)
  from Cons.IH [of "if \<exists>r\<in>set rs. starts_with g (al_prefix r) then rs
      else rs @ [\<lparr>al_prefix = g, al_days = audit_retention_floor_days, al_source = From_floor\<rparr>]"] Cons.prems
  show ?case by (auto split: if_splits)
qed simp

lemma all_rules_policy: "r \<in> set (policy_rules p) \<Longrightarrow> r \<in> set (all_rules p floored)"
  by (auto simp: all_rules_def hold_floor_keeps split: option.splits)

lemma all_rules_cases:
  assumes "r \<in> set (all_rules p floored)"
  obtains "r \<in> set (policy_rules p)"
  | d where "default_days p = Some d" "d < audit_retention_floor_days" "al_prefix r \<in> set floored"
    "al_days r = audit_retention_floor_days" "al_source r = From_floor"
    "\<forall>x\<in>set (policy_rules p). \<not> starts_with (al_prefix r) (al_prefix x)"
  using assms hold_floor_rule [of r floored "policy_rules p"]
  by (auto simp: all_rules_def split: option.splits if_splits)

lemma resolved:
  assumes "resolve_retention collate p composed = Inr eff"
  shows "er_rules eff = longest_first collate (all_rules p (floored_of composed))"
    and "er_default eff = default_days p" and "er_floored eff = floored_of composed"
    and "er_floor eff = audit_retention_floor_days"
    and "\<And>r f. r \<in> set (policy_rules p) \<Longrightarrow> f \<in> set (floored_of composed) \<Longrightarrow> covers (al_prefix r) f \<Longrightarrow>
      audit_retention_floor_days \<le> al_days r"
proof -
  have none: "\<forall>r\<in>set (policy_rules p). under_floor (floored_of composed) r = None"
    using assms by (simp add: resolve_retention_def Let_def first_some_none split: option.splits)
  show "audit_retention_floor_days \<le> al_days r"
    if "r \<in> set (policy_rules p)" "f \<in> set (floored_of composed)" "covers (al_prefix r) f" for r f
    using none [rule_format, OF that(1)] that(2,3)
    by (auto simp: under_floor_def find_None_iff split: if_splits option.splits)
qed (use assms in \<open>auto simp: resolve_retention_def Let_def split: option.splits\<close>)

lemma floored_decided:
  assumes res: "resolve_retention collate p composed = Inr eff"
    and f: "f \<in> set (floored_of composed)" "starts_with act f"
  shows "optional (\<lambda>d. audit_retention_floor_days \<le> d) (deciding_days eff act)"
proof (cases "find (\<lambda>r. starts_with act (al_prefix r)) (er_rules eff)")
  case None
  have "\<not> (\<exists>d. default_days p = Some d \<and> d < audit_retention_floor_days)"
  proof
    assume "\<exists>d. default_days p = Some d \<and> d < audit_retention_floor_days"
    then obtain r where "r \<in> set (all_rules p (floored_of composed))" "starts_with f (al_prefix r)"
      using hold_floor_decides [OF f(1), of "policy_rules p"] by (auto simp: all_rules_def)
    with None f(2) starts_with_trans show False by (auto simp: find_none_iff resolved(1) [OF res])
  qed
  then show ?thesis by (auto simp: deciding_days_def None resolved(2) [OF res] optional_def not_less split: option.splits)
next
  case (Some r)
  from find_in_set [OF Some] have r: "r \<in> set (all_rules p (floored_of composed))" "starts_with act (al_prefix r)"
    by (simp_all add: resolved(1) [OF res])
  from r(1) have "audit_retention_floor_days \<le> al_days r"
  proof (cases rule: all_rules_cases)
    case 1
    from resolved(5) [OF res this f(1) starts_with_comparable [OF r(2) f(2)]] show ?thesis .
  qed simp
  then show ?thesis by (simp add: deciding_days_def Some)
qed

lemma window_is_deciding:
  assumes "resolve_retention collate p composed = Inr eff"
  shows "audit_window_days eff act = deciding_days eff act"
proof -
  have "max d (er_floor eff) = d"
    if "f \<in> set (er_floored eff)" "starts_with act f" "deciding_days eff act = Some d" for f d
    using floored_decided [OF assms, of f act] that by (simp add: resolved(3,4) [OF assms])
  then show ?thesis by (auto simp: audit_window_days_def split: option.splits)
qed

section \<open>The longest prefix decides\<close>

text \<open>The duration stated under the longest of an action's own prefixes that states one.\<close>

definition longest_match :: "(string \<times> duration) list \<Rightarrow> string \<Rightarrow> duration option" where
  "longest_match ps act = first_some (\<lambda>k. map_of ps (take k act)) (rev [0..<Suc (length act)])"

text \<open>What the block says of an action: that duration, or else the default, for a floored action at least the floor.\<close>

definition declared_days :: "retention_policy \<Rightarrow> string list \<Rightarrow> string \<Rightarrow> int option" where
  "declared_days p floored act = (case longest_match (rp_prefixes p) act of
     Some d \<Rightarrow> Some (duration_days d)
   | None \<Rightarrow> map_option
       (\<lambda>d. if \<exists>f\<in>set floored. starts_with act f then max audit_retention_floor_days d else d) (default_days p))"

lemma longest_match_none: "longest_match ps act = None \<longleftrightarrow> (\<forall>(s, d)\<in>set ps. \<not> starts_with act s)"
proof
  assume none: "longest_match ps act = None"
  show "\<forall>(s, d)\<in>set ps. \<not> starts_with act s"
  proof clarify
    fix s d assume m: "(s, d) \<in> set ps" "starts_with act s"
    then have "length s \<in> set (rev [0..<Suc (length act)])" "take (length s) act = s"
      using starts_with_length [OF m(2)] by (auto simp: starts_with_def)
    with none have "map_of ps s = None" unfolding longest_match_def first_some_none by fastforce
    with m(1) show False by (simp add: map_of_eq_None_iff rev_image_eqI)
  qed
next
  assume "\<forall>(s, d)\<in>set ps. \<not> starts_with act s"
  then have "map_of ps (take k act) = None" if "k \<le> length act" for k
    using that by (fastforce simp: map_of_eq_None_iff starts_with_def)
  then show "longest_match ps act = None"
    unfolding longest_match_def first_some_none set_rev set_upt by simp
qed

lemma longest_match_some:
  assumes m: "map_of ps s = Some d" "starts_with act s"
    and longest: "\<And>s' d'. (s', d') \<in> set ps \<Longrightarrow> starts_with act s' \<Longrightarrow> length s' \<le> length s"
  shows "longest_match ps act = Some d"
proof -
  have len: "length s \<le> length act" and take: "take (length s) act = s"
    using m(2) starts_with_length [OF m(2)] by (simp_all add: starts_with_def)
  have split: "[0..<Suc (length act)] = [0..<length s] @ length s # [Suc (length s)..<Suc (length act)]"
    using len by (metis le_add_same_cancel1 le_imp_less_Suc upt_add_eq_append upt_conv_Cons le0 less_imp_le le_add_diff_inverse)
  have "map_of ps (take k act) = None" if "length s < k" "k \<le> length act" for k
  proof (rule ccontr)
    assume "map_of ps (take k act) \<noteq> None"
    then obtain d' where "(take k act, d') \<in> set ps" by (auto dest: map_of_SomeD)
    from longest [OF this] that show False by (simp add: starts_with_def)
  qed
  then have above: "first_some (\<lambda>k. map_of ps (take k act)) (rev [Suc (length s)..<Suc (length act)]) = None"
    unfolding first_some_none set_rev set_upt by simp
  show ?thesis unfolding longest_match_def split rev_append first_some_append
    using above m(1) take by (simp add: first_some_append)
qed

lemma deciding_is_declared:
  assumes valid: "policy_valid p" and res: "resolve_retention collate p composed = Inr eff"
  shows "deciding_days eff act = declared_days p (floored_of composed) act"
proof (cases "longest_match (rp_prefixes p) act")
  case None
  then have no_policy: "\<not> starts_with act (al_prefix x)" if "x \<in> set (policy_rules p)" for x
    using that by (auto simp: longest_match_none policy_rules_def)
  show ?thesis
  proof (cases "find (\<lambda>r. starts_with act (al_prefix r)) (er_rules eff)")
    case no_rule: None
    have "max audit_retention_floor_days d = d"
      if "f \<in> set (floored_of composed)" "starts_with act f" "default_days p = Some d" for f d
      using floored_decided [OF res that(1,2)] that(3) by (simp add: deciding_days_def no_rule resolved(2) [OF res])
    with no_rule None show ?thesis
      by (cases "default_days p") (auto simp: deciding_days_def declared_days_def resolved(2) [OF res])
  next
    case (Some r)
    from find_in_set [OF Some] have r: "r \<in> set (all_rules p (floored_of composed))" "starts_with act (al_prefix r)"
      by (simp_all add: resolved(1) [OF res])
    from r(1) show ?thesis
    proof (cases rule: all_rules_cases)
      case 1
      with no_policy r(2) show ?thesis by blast
    next
      case (2 d)
      then have "max audit_retention_floor_days d = audit_retention_floor_days" by simp
      with 2 r(2) None Some show ?thesis by (auto simp: deciding_days_def declared_days_def)
    qed
  qed
next
  case (Some d)
  then obtain s0 d0 where some: "(s0, d0) \<in> set (rp_prefixes p)" "starts_with act s0"
    using longest_match_none [of "rp_prefixes p" act] by auto
  define r0 where "r0 = \<lparr>al_prefix = s0, al_days = duration_days d0, al_source = From_policy\<rparr>"
  have r0: "r0 \<in> set (policy_rules p)" "al_prefix r0 = s0"
    using some(1) by (auto simp: policy_rules_def r0_def)
  then obtain r where found: "find (\<lambda>r. starts_with act (al_prefix r)) (er_rules eff) = Some r"
    using some(2) all_rules_policy [OF r0(1)] by (cases "find (\<lambda>r. starts_with act (al_prefix r)) (er_rules eff)")
      (auto simp: find_none_iff resolved(1) [OF res])
  from find_in_set [OF found] have r: "r \<in> set (all_rules p (floored_of composed))" "starts_with act (al_prefix r)"
    by (simp_all add: resolved(1) [OF res])
  have longest: "length (al_prefix x) \<le> length (al_prefix r)"
    if "x \<in> set (all_rules p (floored_of composed))" "starts_with act (al_prefix x)" for x
    using longest_first_find [OF found [unfolded resolved(1) [OF res]], of x] that by simp
  have "r \<in> set (policy_rules p)"
    using r(1)
  proof (cases rule: all_rules_cases)
    case (2 d)
    have "length s0 \<le> length (al_prefix r)" using longest [OF all_rules_policy [OF r0(1)]] r0(2) some(2) by simp
    with some(2) r(2) have "starts_with (al_prefix r) s0" by (metis starts_with_def min.absorb1 take_take)
    with 2(6) r0 show ?thesis by blast
  qed
  then obtain dr where dr: "(al_prefix r, dr) \<in> set (rp_prefixes p)" "al_days r = duration_days dr"
    by (auto simp: policy_rules_def)
  have "map_of (rp_prefixes p) (al_prefix r) = Some dr" using valid dr(1) by (simp add: policy_valid_def)
  moreover have "length s' \<le> length (al_prefix r)" if "(s', d') \<in> set (rp_prefixes p)" "starts_with act s'" for s' d'
  proof -
    have "\<lparr>al_prefix = s', al_days = duration_days d', al_source = From_policy\<rparr> \<in> set (policy_rules p)"
      using that(1) by (force simp: policy_rules_def)
    from longest [OF all_rules_policy [OF this]] that(2) show ?thesis by simp
  qed
  ultimately have "longest_match (rp_prefixes p) act = Some dr" using r(2) by (intro longest_match_some)
  then show ?thesis using found dr(2) by (simp add: deciding_days_def declared_days_def)
qed

section \<open>Claims\<close>

definition short_policy :: retention_policy where
  "short_policy = no_policy\<lparr>rp_default := Some (Kept_for (Span ''30d'')),
     rp_prefixes := [(''auth/'', Span ''2w''), (''auth/login'', Whole_days 90)]\<rparr>"

definition sample_composition :: retention_composition where
  "sample_composition = \<lparr>rc_purge = [(User, 30)], rc_lifecycle = [''support/deleted'']\<rparr>"

definition short_retention :: effective_retention where
  "short_retention = \<lparr>er_purge = [(User, 30, From_capability)], er_default = Some 30, er_floor = 365,
     er_rules = [\<lparr>al_prefix = ''support/deleted'', al_days = 365, al_source = From_floor\<rparr>,
       \<lparr>al_prefix = ''controlplane/'', al_days = 365, al_source = From_floor\<rparr>,
       \<lparr>al_prefix = ''auth/login'', al_days = 90, al_source = From_policy\<rparr>,
       \<lparr>al_prefix = ''auth/'', al_days = 14, al_source = From_policy\<rparr>],
     er_floored = [''controlplane/'', ''support/deleted''], er_ages = []\<rparr>"

lemma short_resolves: "resolve_retention length short_policy sample_composition = Inr short_retention"
  by code_simp

lemma short_valid: "policy_valid short_policy"
  by code_simp

text \<open>C40: Resolving alone holds the floor: under a policy that deploys, no action under a floored
  prefix is kept for less than a year, and the reading's own maximum never raises what the rules
  decide.\<close>

theorem floor_is_held:
  assumes "resolve_retention collate p composed = Inr eff"
  shows "audit_window_days eff act = deciding_days eff act \<and>
    (\<forall>f\<in>set floored_audit_prefixes \<union> set (rc_lifecycle composed). starts_with act f \<longrightarrow>
       optional (\<lambda>d. 365 \<le> d) (audit_window_days eff act))"
  using floored_decided [OF assms] window_is_deciding [OF assms]
  by (auto simp: floored_of_def audit_retention_floor_days_def)

lemma floor_is_held_witness:
  "optional (\<lambda>d. 365 \<le> d) (audit_window_days short_retention ''support/deleted_by_admin'') \<and>
   audit_window_days short_retention ''support/deleted_by_admin'' = Some 365"
proof -
  have "starts_with ''support/deleted_by_admin'' ''support/deleted''" by code_simp
  then have "optional (\<lambda>d. 365 \<le> d) (audit_window_days short_retention ''support/deleted_by_admin'')"
    using floor_is_held [OF short_resolves, of "''support/deleted_by_admin''", THEN conjunct2]
    by (simp add: sample_composition_def)
  moreover have "audit_window_days short_retention ''support/deleted_by_admin'' = Some 365" by code_simp
  ultimately show ?thesis by blast
qed

text \<open>The window read for an action is what the block declares: the duration under the longest
  of the action's prefixes that has a rule, whatever order the rules were written in, and otherwise
  the default, held at the floor for a floored action.\<close>

theorem longest_prefix_decides:
  assumes "policy_valid p" and "resolve_retention collate p composed = Inr eff"
  shows "audit_window_days eff act = declared_days p (floored_of composed) act"
  using window_is_deciding [OF assms(2)] deciding_is_declared [OF assms] by simp

lemma longest_prefix_decides_witness:
  "audit_window_days short_retention ''auth/login_failed'' = declared_days short_policy (floored_of sample_composition) ''auth/login_failed'' \<and>
   declared_days short_policy (floored_of sample_composition) ''auth/login_failed'' = Some 90"
  using longest_prefix_decides [OF short_valid short_resolves, of "''auth/login_failed''"] by code_simp

text \<open>The schema of a resolved policy: what its numbers admit, and the orders it states.\<close>

definition effective_valid :: "effective_retention \<Rightarrow> bool" where
  "effective_valid eff \<longleftrightarrow> (\<forall>(s, d, src)\<in>set (er_purge eff). 0 \<le> d) \<and> optional (\<lambda>d. 1 \<le> d) (er_default eff) \<and>
     1 \<le> er_floor eff \<and> (\<forall>r\<in>set (er_rules eff). 1 \<le> al_days r) \<and> (\<forall>(c, d)\<in>set (er_ages eff). 1 \<le> d) \<and>
     sorted (map (\<lambda>r. - int (length (al_prefix r))) (er_rules eff)) \<and> sorted (map snd (er_ages eff))"

text \<open>The longest text of a duration: five digits and a year.\<close>

definition longest_span :: int where
  "longest_span = 36499635"

lemma duration_bounds:
  assumes "duration_valid d" shows "1 \<le> duration_days d \<and> duration_days d \<le> longest_span"
proof (cases d)
  case (Whole_days n)
  with assms show ?thesis by (simp add: max_days_def longest_span_def)
next
  case (Span s)
  with assms obtain c cs where s: "s = c # cs" "cs \<noteq> []" "is_digit c" "c \<noteq> CHR ''0''"
    "list_all is_digit (butlast cs)" "length (butlast cs) \<le> 4" "unit_days (last cs) \<noteq> None"
    by (cases s) auto
  then obtain u where u: "unit_days (last cs) = Some u" "1 \<le> u" "u \<le> 365"
    by (auto simp: unit_days_def split: if_splits)
  have digits: "list_all is_digit (butlast s)" using s by simp
  have "digits_value (butlast s) < 10 ^ length (butlast s)" by (rule digits_value_bound [OF digits])
  also have "\<dots> \<le> 10 ^ 5" by (rule power_increasing) (use s in auto)
  finally have upper: "digits_value (butlast s) \<le> 99999" by simp
  have lower: "1 \<le> digits_value (c # ds)" for ds
  proof (induction ds rule: rev_induct)
    case Nil
    from s(3,4) show ?case by (auto simp: is_digit_def digits_value_def digit_value_def)
  next
    case (snoc x xs)
    then show ?case using digits_value_snoc [of "c # xs" x] by simp
  qed
  have days: "duration_days d = int (digits_value (butlast s)) * u"
    using Span s(1,2) u(1) by simp
  have "1 * 1 \<le> int (digits_value (butlast s)) * u"
    by (rule mult_mono) (use lower [of "butlast cs"] s u in auto)
  moreover have "int (digits_value (butlast s)) * u \<le> 99999 * 365"
    by (rule mult_mono) (use upper u in auto)
  ultimately show ?thesis by (simp add: days longest_span_def)
qed

lemma policy_rule_days:
  assumes "policy_valid p" "r \<in> set (policy_rules p)" shows "1 \<le> al_days r"
  using assms duration_bounds by (fastforce simp: policy_valid_def policy_rules_def list_all_iff)

lemma all_rule_days:
  assumes "policy_valid p" "r \<in> set (all_rules p floored)" shows "1 \<le> al_days r"
  using assms(2)
proof (cases rule: all_rules_cases)
  case 1
  then show ?thesis by (rule policy_rule_days [OF assms(1)])
qed (simp add: audit_retention_floor_days_def)

text \<open>Every policy the schema admits either is refused for a rule under the floor or resolves
  to one the resolved schema admits, its rules longest first and its class ages strictest first.\<close>

theorem resolved_fits_schema:
  assumes valid: "policy_valid p" and windows: "\<forall>(s, d)\<in>set (rc_purge composed). 0 \<le> d"
  shows "case resolve_retention collate p composed of
      Inl e \<Rightarrow> \<exists>s d f. e = Under_floor s d f \<and> d < 365 \<and> s \<in> fst ` set (rp_prefixes p) \<and>
        f \<in> set (floored_of composed) \<and> covers s f
    | Inr eff \<Rightarrow> effective_valid eff"
proof (cases "resolve_retention collate p composed")
  case (Inl e)
  then have "first_some (under_floor (floored_of composed)) (policy_rules p) = Some e"
    by (auto simp: resolve_retention_def Let_def split: option.splits)
  then obtain r where r: "r \<in> set (policy_rules p)" "under_floor (floored_of composed) r = Some e"
    by (auto dest: first_some_found)
  then show ?thesis using Inl find_in_set [of "covers (al_prefix r)" "floored_of composed"]
    by (force simp: under_floor_def policy_rules_def audit_retention_floor_days_def split: if_splits option.splits)
next
  case (Inr eff)
  note r = resolved [OF Inr]
  have eff: "er_purge eff = purge_windows p composed" "er_ages eff = class_ages collate p"
    using Inr by (auto simp: resolve_retention_def Let_def split: option.splits)
  have purge: "\<forall>(s, d, src)\<in>set (er_purge eff). 0 \<le> d"
  proof -
    have "0 \<le> duration_days d" if "stated_window p s = Some d" for s d
    proof -
      have "duration_valid d" using valid that by (cases s) (auto simp: policy_valid_def stated_window_def)
      from duration_bounds [OF this] show ?thesis by simp
    qed
    with windows show ?thesis by (fastforce simp: eff purge_windows_def split: option.splits)
  qed
  have default: "optional (\<lambda>d. 1 \<le> d) (er_default eff)"
    using valid duration_bounds
    by (auto simp: r default_days_def optional_def policy_valid_def split: option.splits audit_default.splits)
  have ages: "\<forall>(c, d)\<in>set (er_ages eff). 1 \<le> d"
    using valid duration_bounds by (fastforce simp: eff class_ages_def policy_valid_def list_all_iff)
  have order: "sorted (map (\<lambda>r. - int (length (al_prefix r))) (er_rules eff))"
    by (simp add: r longest_first_def)
  have "sorted (map snd (er_ages eff))" by (simp add: eff class_ages_def)
  with purge default ages order Inr show ?thesis
    using all_rule_days [OF valid] by (simp add: effective_valid_def r audit_retention_floor_days_def)
qed

lemma resolved_fits_schema_witness:
  "effective_valid short_retention"
  using resolved_fits_schema [OF short_valid, of sample_composition length]
  by (simp add: short_resolves) (simp add: sample_composition_def)

text \<open>A valid duration is at least a day; one in days is at most the stated century, but one in
  text is bounded only by its five digits, and reaches almost a hundred thousand years.\<close>

theorem durations_are_bounded:
  assumes "duration_valid d"
  shows "1 \<le> duration_days d \<and> duration_days d \<le> longest_span \<and>
    (case d of Whole_days n \<Rightarrow> duration_days d \<le> max_days | Span s \<Rightarrow> length s \<le> 6)"
proof (cases d)
  case (Whole_days n)
  with duration_bounds [OF assms] assms show ?thesis by simp
next
  case (Span s)
  with duration_bounds [OF assms] assms show ?thesis by (cases s) auto
qed

lemma durations_are_bounded_witness:
  "duration_days (Span ''99999y'') = longest_span \<and> duration_days (Span ''99999y'') > max_days \<and>
   duration_days (Span ''99999y'') \<le> longest_span \<and> (1::int) \<le> duration_days (Span ''99999y'')"
proof -
  have "duration_valid (Span ''99999y'')" by code_simp
  note bounded = durations_are_bounded [OF this, THEN conjunct1] durations_are_bounded [OF this, THEN conjunct2, THEN conjunct1]
  have eq: "duration_days (Span ''99999y'') = longest_span"
    by (simp add: digits_value_def digit_value_def unit_days_def longest_span_def)
  have over: "max_days < longest_span" by (simp add: max_days_def longest_span_def)
  show ?thesis unfolding eq using over bounded [unfolded eq] by (intro conjI refl)
qed

text \<open>The policy prunes an audit event exactly when some action has a window.\<close>

lemma prunes_audit_iff:
  assumes res: "resolve_retention collate p composed = Inr eff"
  shows "prunes_audit eff \<longleftrightarrow> (\<exists>act. audit_window_days eff act \<noteq> None)"
proof
  assume "prunes_audit eff"
  then consider d where "er_default eff = Some d" | r where "r \<in> set (er_rules eff)"
    by (auto simp: prunes_audit_def)
  then show "\<exists>act. audit_window_days eff act \<noteq> None"
  proof cases
    case 1
    then have "deciding_days eff [] \<noteq> None" by (auto simp: deciding_days_def split: option.splits)
    then show ?thesis by (auto simp: window_is_deciding [OF res])
  next
    case (2 r)
    then have "find (\<lambda>x. starts_with (al_prefix r) (al_prefix x)) (er_rules eff) \<noteq> None"
      unfolding find_none_iff by (auto simp: starts_with_def intro: bexI [of _ r])
    then have "deciding_days eff (al_prefix r) \<noteq> None" by (auto simp: deciding_days_def)
    then show ?thesis by (auto simp: window_is_deciding [OF res])
  qed
next
  assume "\<exists>act. audit_window_days eff act \<noteq> None"
  then obtain act where a: "deciding_days eff act \<noteq> None" by (auto simp: window_is_deciding [OF res])
  show "prunes_audit eff"
  proof (cases "er_default eff")
    case None
    with a obtain r where "r \<in> set (er_rules eff)"
      by (auto simp: deciding_days_def split: option.splits dest: find_in_set)
    then have "r \<in> set (policy_rules p)"
      using None by (simp add: resolved(1,2) [OF res] all_rules_def)
    then have "al_source r = From_policy" by (auto simp: policy_rules_def)
    with \<open>r \<in> set (er_rules eff)\<close> show ?thesis by (auto simp: prunes_audit_def)
  qed (simp add: prunes_audit_def)
qed

end
