(* ===== verification/Audit_Bucket.thy ===== *)
theory Audit_Bucket
  imports Audit_Store "HOL-Library.List_Lexorder"
begin

text \<open>
  The checkpoint bucket (\<open>packages/audit/src/chain/checkpoint.ts\<close>, \<open>tombstone.ts\<close>): its keys,
  the conditional writes, and what is read back. An object is what its body parses to; R2 lists keys
  in byte order, and a listing's pages are read as one.
\<close>

section \<open>Keys\<close>

text \<open>\<open>encodeURIComponent\<close>, over characters of one or two UTF-8 bytes.\<close>

definition is_unreserved :: "char \<Rightarrow> bool" where
  "is_unreserved c \<longleftrightarrow> is_digit c \<or> c \<in> set ''abcdefghijklmnopqrstuvwxyzABCDEFGHIJKLMNOPQRSTUVWXYZ-_.!~*()''
     \<or> c = CHR 0x27"

definition percent_byte :: "nat \<Rightarrow> string" where
  "percent_byte n = [CHR ''%'', ''0123456789ABCDEF'' ! (n div 16), ''0123456789ABCDEF'' ! (n mod 16)]"

definition encode_char :: "char \<Rightarrow> string" where
  "encode_char c = (let n = of_char c :: nat in
     if is_unreserved c then [c]
     else if n < 128 then percent_byte n
     else percent_byte (192 + n div 64) @ percent_byte (128 + n mod 64))"

definition encode_uri_component :: "string \<Rightarrow> string" where
  "encode_uri_component s = concat (map encode_char s)"

definition checkpoint_prefix :: "string option \<Rightarrow> string" where
  "checkpoint_prefix tenant = (case tenant of None \<Rightarrow> ''checkpoints/untenanted/''
     | Some t \<Rightarrow> ''checkpoints/tenant/'' @ encode_uri_component t @ ''/'')"

definition tombstone_prefix :: "string option \<Rightarrow> string" where
  "tombstone_prefix tenant = checkpoint_prefix tenant @ ''tombstones/''"

definition pad_zeros :: "nat \<Rightarrow> string \<Rightarrow> string" where
  "pad_zeros w s = replicate (w - length s) (CHR ''0'') @ s"

definition key_width :: nat where
  "key_width = 15"

definition numbered_key :: "string \<Rightarrow> int \<Rightarrow> string" where
  "numbered_key p n = p @ pad_zeros key_width (decimal (nat n)) @ ''.json''"

definition checkpoint_key :: "string option \<Rightarrow> int \<Rightarrow> string" where
  "checkpoint_key tenant n = numbered_key (checkpoint_prefix tenant) n"

definition tombstone_key :: "string option \<Rightarrow> int \<Rightarrow> string" where
  "tombstone_key tenant n = numbered_key (tombstone_prefix tenant) n"

text \<open>The number a key names after its prefix: digits, then \<open>.json\<close>, and nothing else.\<close>

definition number_of_key :: "string \<Rightarrow> string \<Rightarrow> int option" where
  "number_of_key key p =
     (let rest = drop (length p) key; ds = takeWhile is_digit rest in
      if ds \<noteq> [] \<and> drop (length ds) rest = ''.json'' then Some (int (digits_value ds)) else None)"

section \<open>Objects\<close>

datatype bucket_object = Holds_checkpoint checkpoint | Holds_tombstone tombstone | Unreadable

type_synonym audit_bucket = "(string \<times> bucket_object) list"

definition key_bytes :: "string \<Rightarrow> nat list" where
  "key_bytes key = map of_char key"

definition bucket_get :: "audit_bucket \<Rightarrow> string \<Rightarrow> bucket_object option" where
  "bucket_get b key = map_of b key"

text \<open>A put conditional on no object having its key: whether it wrote.\<close>

definition put_new :: "audit_bucket \<Rightarrow> string \<Rightarrow> bucket_object \<Rightarrow> bool \<times> audit_bucket" where
  "put_new b key x = (case bucket_get b key of Some _ \<Rightarrow> (False, b)
     | None \<Rightarrow> (True, insort_key (\<lambda>e. key_bytes (fst e)) (key, x) b))"

definition list_keys :: "audit_bucket \<Rightarrow> string \<Rightarrow> string list" where
  "list_keys b p = filter (\<lambda>key. starts_with key p) (map fst b)"

text \<open>The keys under a prefix that name a number, each with it.\<close>

definition numbered_entries :: "audit_bucket \<Rightarrow> string \<Rightarrow> (string \<times> int) list" where
  "numbered_entries b p = List.map_filter (\<lambda>key. map_option (Pair key) (number_of_key key p)) (list_keys b p)"

section \<open>Checkpoints\<close>

record checkpoint_run =
  cr_written :: nat
  cr_unchanged :: nat

definition last_position :: "audit_db \<Rightarrow> string option \<Rightarrow> int option" where
  "last_position db tenant = greatest_of (map row_seq (filter (in_chain tenant) (db_rows db)))"

definition chain_heads :: "audit_db \<Rightarrow> (string option \<times> int option) list" where
  "chain_heads db = map (\<lambda>t. (t, last_position db t)) (firsts (map ev_tenant [r \<leftarrow> db_rows db. ar_seq r \<noteq> None]))"

fun checkpoint_head ::
  "audit_db \<Rightarrow> string \<Rightarrow> string option \<times> int option \<Rightarrow> checkpoint_run \<times> audit_bucket \<Rightarrow> checkpoint_run \<times> audit_bucket" where
  "checkpoint_head db now (tenant, None) (tally, b) = (tally, b)"
| "checkpoint_head db now (tenant, Some n) (tally, b) =
     (case read_chain_link db tenant n of
        None \<Rightarrow> (tally, b)
      | Some l \<Rightarrow>
          let key = checkpoint_key tenant (cl_seq l) in
          if bucket_get b key \<noteq> None then (tally\<lparr>cr_unchanged := cr_unchanged tally + 1\<rparr>, b)
          else let (put, b') = put_new b key (Holds_checkpoint
                 \<lparr>cp_tenant = tenant, cp_count = cl_seq l, cp_head = cl_hash l, cp_taken_at = now\<rparr>) in
            (if put then tally\<lparr>cr_written := cr_written tally + 1\<rparr>
             else tally\<lparr>cr_unchanged := cr_unchanged tally + 1\<rparr>, b'))"

definition write_checkpoints :: "audit_db \<Rightarrow> string \<Rightarrow> audit_bucket \<Rightarrow> checkpoint_run \<times> audit_bucket" where
  "write_checkpoints db now b =
     fold (checkpoint_head db now) (chain_heads db) (\<lparr>cr_written = 0, cr_unchanged = 0\<rparr>, b)"

type_synonym checkpoint_listing = "(string \<times> int) list"

definition list_checkpoints :: "audit_bucket \<Rightarrow> string option \<Rightarrow> checkpoint_listing" where
  "list_checkpoints b tenant = numbered_entries b (checkpoint_prefix tenant)"

text \<open>The latest entry: of two with one count the first listed.\<close>

definition latest_entry :: "checkpoint_listing \<Rightarrow> (string \<times> int) option" where
  "latest_entry es = foldl (\<lambda>l e. case l of None \<Rightarrow> Some e | Some x \<Rightarrow> if snd e > snd x then Some e else l) None es"

definition wanted_entries :: "checkpoint_listing \<Rightarrow> int \<Rightarrow> int option \<Rightarrow> checkpoint_listing" where
  "wanted_entries es from_count through_count =
     (let wanted = [e \<leftarrow> es. from_count \<le> snd e \<and> optional (\<lambda>n. snd e \<le> n) through_count] in
      case latest_entry es of None \<Rightarrow> wanted
      | Some l \<Rightarrow> if fst l \<in> fst ` set wanted then wanted else wanted @ [l])"

definition checkpoint_at :: "audit_bucket \<Rightarrow> string option \<Rightarrow> string \<times> int \<Rightarrow> checkpoint option" where
  "checkpoint_at b tenant e = (case bucket_get b (fst e) of
     Some (Holds_checkpoint c) \<Rightarrow> if cp_tenant c = tenant \<and> cp_count c = snd e then Some c else None
   | _ \<Rightarrow> None)"

definition read_checkpoints ::
  "audit_bucket \<Rightarrow> string option \<Rightarrow> int \<Rightarrow> int option \<Rightarrow> checkpoint_listing \<Rightarrow> checkpoint list" where
  "read_checkpoints b tenant from_count through_count listing =
     List.map_filter (checkpoint_at b tenant) (sort_key snd (wanted_entries listing from_count through_count))"

section \<open>Tombstones\<close>

definition tombstone_at :: "audit_bucket \<Rightarrow> string option \<Rightarrow> string \<times> int \<Rightarrow> tombstone option" where
  "tombstone_at b tenant e = (case bucket_get b (fst e) of
     Some (Holds_tombstone x) \<Rightarrow> if ts_tenant x = tenant \<and> ts_from x = snd e then Some x else None
   | _ \<Rightarrow> None)"

text \<open>The tombstone the bucket holds for the run, this one or an earlier; none where it cannot be read.\<close>

definition write_tombstone :: "audit_bucket \<Rightarrow> tombstone \<Rightarrow> tombstone option \<times> audit_bucket" where
  "write_tombstone b x =
     (let key = tombstone_key (ts_tenant x) (ts_from x); (put, b') = put_new b key (Holds_tombstone x) in
      if put then (Some x, b') else (tombstone_at b (ts_tenant x) (key, ts_from x), b))"

definition read_tombstones :: "audit_bucket \<Rightarrow> string option \<Rightarrow> tombstone list" where
  "read_tombstones b tenant =
     List.map_filter (tombstone_at b tenant) (sort_key snd (numbered_entries b (tombstone_prefix tenant)))"

definition tombstone_ending_at :: "tombstone list \<Rightarrow> int \<Rightarrow> tombstone option" where
  "tombstone_ending_at ts n = find (\<lambda>x. ts_through x = n) ts"

end
