(* ===== verification/Audit_Verify.thy ===== *)
theory Audit_Verify
  imports Audit_Bucket
begin

text \<open>
  The verify and export reads over one tenant's chain (\<open>packages/audit/src/chain/verify.ts\<close>). A read
  is many statements; \<open>reads k\<close> is the table and the bucket as its \<open>k\<close>th finds them, so other
  appends, checkpoints and prunes may fall between any two.
\<close>

type_synonym trail_reads = "nat \<Rightarrow> audit_db \<times> audit_bucket"

definition db_at :: "trail_reads \<Rightarrow> nat \<Rightarrow> audit_db" where
  "db_at reads k = fst (reads k)"

definition bucket_at :: "trail_reads \<Rightarrow> nat \<Rightarrow> audit_bucket" where
  "bucket_at reads k = snd (reads k)"

section \<open>The range\<close>

record range_query =
  cq_tenant :: "string option"
  cq_since :: "int option"
  cq_until :: "int option"

record resolved_range =
  rr_from :: int
  rr_through :: int
  rr_to_head :: bool

definition first_since :: "audit_db \<Rightarrow> string option \<Rightarrow> int \<Rightarrow> int option" where
  "first_since db tenant t = least_of (map row_seq [r \<leftarrow> db_rows db. in_chain tenant r \<and> t \<le> ev_occurred_at r])"

definition last_until :: "audit_db \<Rightarrow> string option \<Rightarrow> int \<Rightarrow> int option" where
  "last_until db tenant t = greatest_of (map row_seq [r \<leftarrow> db_rows db. in_chain tenant r \<and> ev_occurred_at r \<le> t])"

definition resolve_range :: "trail_reads \<Rightarrow> range_query \<Rightarrow> resolved_range" where
  "resolve_range reads q =
     (let head = read_chain_head (db_at reads 2) (cq_tenant q) in
      \<lparr>rr_from = (case cq_since q of None \<Rightarrow> 1
         | Some t \<Rightarrow> or_else (head_seq head + 1) (first_since (db_at reads 3) (cq_tenant q) t)),
       rr_through = (case cq_until q of None \<Rightarrow> head_seq head
         | Some t \<Rightarrow> or_else 0 (last_until (db_at reads 4) (cq_tenant q) t)),
       rr_to_head = (cq_until q = None)\<rparr>)"

definition chain_start_id :: "audit_db \<Rightarrow> string option \<Rightarrow> nat option" where
  "chain_start_id db tenant = least_of (map ar_row (filter (in_chain tenant) (db_rows db)))"

definition id_at :: "audit_db \<Rightarrow> string option \<Rightarrow> int \<Rightarrow> nat option" where
  "id_at db tenant p = least_of (map ar_row [r \<leftarrow> db_rows db. ev_tenant r = tenant \<and> ar_seq r = Some p])"

definition unchained :: "string option \<Rightarrow> audit_row \<Rightarrow> bool" where
  "unchained tenant r \<longleftrightarrow> ev_tenant r = tenant \<and> ar_seq r = None"

definition count_before_chain :: "audit_db \<Rightarrow> range_query \<Rightarrow> nat option \<Rightarrow> nat" where
  "count_before_chain db q start = length [r \<leftarrow> db_rows db. unchained (cq_tenant q) r \<and>
     optional (\<lambda>i. ar_row r < i) start \<and> optional (\<lambda>t. t \<le> ev_occurred_at r) (cq_since q) \<and>
     optional (\<lambda>t. ev_occurred_at r \<le> t) (cq_until q)]"

definition count_outside_chain :: "trail_reads \<Rightarrow> string option \<Rightarrow> resolved_range \<Rightarrow> nat option \<Rightarrow> nat" where
  "count_outside_chain reads tenant rng start =
     (case start of None \<Rightarrow> 0
      | Some first \<Rightarrow>
          if \<not> rr_to_head rng \<and> rr_through rng < rr_from rng then 0
          else
            let lower = or_else first (id_at (db_at reads 7) tenant (max (rr_from rng - 1) 1));
                upper = (if rr_to_head rng then None else id_at (db_at reads 8) tenant (rr_through rng)) in
            length [r \<leftarrow> db_rows (db_at reads 9). unchained tenant r \<and> lower < ar_row r \<and>
              optional (\<lambda>i. ar_row r < i) upper])"

definition link_before :: "audit_db \<Rightarrow> string option \<Rightarrow> int \<Rightarrow> tombstone list \<Rightarrow> chain_link option" where
  "link_before db tenant p ts = (case read_chain_link db tenant p of Some l \<Rightarrow> Some l
     | None \<Rightarrow> map_option (\<lambda>x. \<lparr>cl_seq = ts_through x, cl_hash = ts_last x\<rparr>) (tombstone_ending_at ts p))"

section \<open>The walk\<close>

record range_verification =
  rv_intact :: bool
  rv_checked :: nat
  rv_checkpoints :: nat
  rv_before :: nat
  rv_outside :: nat
  rv_pruned :: int
  rv_break :: "chain_break option"
  rv_head :: "chain_link option"

text \<open>The page after a cursor: after a position, or after one row at it.\<close>

definition page_query :: "string option \<Rightarrow> int \<times> nat option \<Rightarrow> nat \<Rightarrow> int \<Rightarrow> row_query" where
  "page_query tenant cursor limit through = \<lparr>rq_tenant = tenant, rq_after = fst cursor, rq_after_row = snd cursor,
     rq_limit = limit, rq_through = Some through, rq_before = None, rq_matching = None\<rparr>"

text \<open>Page after page until a short one; the \<open>k\<close>th page is the read \<open>12 + k\<close>.\<close>

partial_function (option) walk_pages ::
  "(string \<Rightarrow> digest) \<Rightarrow> verifier_options \<Rightarrow> trail_reads \<Rightarrow> nat \<Rightarrow> int \<Rightarrow> nat \<Rightarrow> int \<times> nat option \<Rightarrow> walk \<Rightarrow>
     (chain_break option \<times> walk) option" where
  "walk_pages sha opts reads page through k cursor wk =
     (let rows = read_chain_rows (db_at reads (12 + k)) (page_query (vo_tenant opts) cursor page through) in
      case push_all sha opts (map (chained_event_of sha False) rows) wk of
        None \<Rightarrow> None
      | Some (Some found, wk') \<Rightarrow> Some (Some found, wk')
      | Some (None, wk') \<Rightarrow>
          if length rows < page \<or> rows = [] then Some (None, wk')
          else walk_pages sha opts reads page through (Suc k) (row_seq (last rows), Some (ar_row (last rows))) wk')"

definition walk_range ::
  "(string \<Rightarrow> digest) \<Rightarrow> bool \<Rightarrow> trail_reads \<Rightarrow> nat \<Rightarrow> range_query \<Rightarrow> range_verification option" where
  "walk_range sha bound reads page q =
     (let tenant = cq_tenant q;
          listing = (if bound then list_checkpoints (bucket_at reads 0) tenant else []);
          tombs = (if bound then read_tombstones (bucket_at reads 1) tenant else []);
          rng = resolve_range reads q;
          start = chain_start_id (db_at reads 5) tenant;
          before = count_before_chain (db_at reads 6) q start;
          outside = count_outside_chain reads tenant rng start;
          prior = (if rr_from rng > 1 then link_before (db_at reads 10) tenant (rr_from rng - 1) tombs else None);
          cps = (if bound then read_checkpoints (bucket_at reads 11) tenant (rr_from rng)
                   (if rr_to_head rng then None else Some (rr_through rng)) listing else []);
          result = (\<lambda>found checked head held pruned. \<lparr>rv_intact = (found = None), rv_checked = checked,
            rv_checkpoints = held, rv_before = before, rv_outside = outside, rv_pruned = pruned, rv_break = found,
            rv_head = head\<rparr>) in
      if rr_from rng > 1 \<and> prior = None then
        Some (result (Some \<lparr>br_event = None, br_position = rr_from rng - 1, br_reason = Missing\<rparr>) 0 None 0 0)
      else
        let opts = \<lparr>vo_tenant = tenant, vo_prior = prior, vo_checkpoints = cps, vo_tombstones = tombs, vo_values = False\<rparr>;
            answer = (\<lambda>found wk. result found (wk_checked wk) (wk_head wk) (length (own_checkpoints opts)) (wk_pruned wk)) in
        if rr_through rng < rr_from rng then
          Some (answer (finish opts (rr_to_head rng) (start_walk opts)) (start_walk opts))
        else
          case walk_pages sha opts reads page (rr_through rng) 0 (rr_from rng - 1, None) (start_walk opts) of
            None \<Rightarrow> None
          | Some (Some found, wk) \<Rightarrow> Some (answer (Some found) wk)
          | Some (None, wk) \<Rightarrow> Some (answer (finish opts (rr_to_head rng) wk) wk))"

text \<open>A walk that meets a gap walks once more, over later reads.\<close>

definition verify_chain_range ::
  "(string \<Rightarrow> digest) \<Rightarrow> bool \<Rightarrow> trail_reads \<Rightarrow> trail_reads \<Rightarrow> nat \<Rightarrow> range_query \<Rightarrow> range_verification option" where
  "verify_chain_range sha bound reads later page q =
     (case walk_range sha bound reads page q of
        None \<Rightarrow> None
      | Some v \<Rightarrow>
          if bound \<and> map_option br_reason (rv_break v) = Some Missing then walk_range sha bound later page q
          else Some v)"

section \<open>The export\<close>

definition export_cursor :: "int \<Rightarrow> nat \<Rightarrow> string" where
  "export_cursor p i = json_int p @ '':'' @ decimal i"

text \<open>\<open>/^(\d{1,15}):(\d{1,15})$/\<close>, or a first page.\<close>

definition cursor_digits :: "string \<Rightarrow> bool" where
  "cursor_digits s \<longleftrightarrow> s \<noteq> [] \<and> length s \<le> 15 \<and> list_all is_digit s"

definition parse_export_cursor :: "string option \<Rightarrow> (int \<times> nat) option" where
  "parse_export_cursor cursor = (case cursor of None \<Rightarrow> None
     | Some s \<Rightarrow> (let p = takeWhile is_digit s; rest = drop (length p) s in
         if cursor_digits p \<and> rest \<noteq> [] \<and> hd rest = CHR '':'' \<and> cursor_digits (tl rest)
         then Some (int (digits_value p), digits_value (tl rest)) else None))"

record export_request =
  xo_detail :: bool
  xo_cursor :: "string option"
  xo_limit :: nat
  xo_now :: int

definition export_chain_range ::
  "(string \<Rightarrow> digest) \<Rightarrow> (int \<Rightarrow> string) \<Rightarrow> bool \<Rightarrow> trail_reads \<Rightarrow> range_query \<Rightarrow> export_request \<Rightarrow> chain_export" where
  "export_chain_range sha stamp bound reads q x =
     (let tenant = cq_tenant q;
          listing = (if bound then list_checkpoints (bucket_at reads 0) tenant else []);
          tombs = (if bound then read_tombstones (bucket_at reads 1) tenant else []);
          rng = resolve_range reads q;
          start = chain_start_id (db_at reads 5) tenant;
          after = (case parse_export_cursor (xo_cursor x) of
              Some (p, i) \<Rightarrow> if p \<ge> rr_from rng - 1 then (p, Some i) else (rr_from rng - 1, None)
            | None \<Rightarrow> (rr_from rng - 1, None));
          found = (if rr_through rng \<ge> rr_from rng
            then read_chain_rows (db_at reads 12) (page_query tenant after (xo_limit x + 1) (rr_through rng)) else []);
          beyond = length found > xo_limit x;
          rows = take (xo_limit x) found;
          last_seq = (if rows = [] then fst after else row_seq (last rows)) in
      \<lparr>ex_tenant = tenant, ex_since = map_option stamp (cq_since q), ex_until = map_option stamp (cq_until q),
       ex_exported_at = stamp (xo_now x), ex_detail = xo_detail x,
       ex_prior = (if fst after > 0 then link_before (db_at reads 10) tenant (fst after) tombs else None),
       ex_events = map (chained_event_of sha (xo_detail x)) rows,
       ex_checkpoints = (if bound then read_checkpoints (bucket_at reads 11) tenant (fst after + 1) (Some last_seq) listing
         else []),
       ex_tombstones = (if tombs = [] then None else Some tombs),
       ex_complete = (rr_to_head rng \<and> \<not> beyond),
       ex_before_chain = int (count_before_chain (db_at reads 6) q start),
       ex_outside_chain = int (count_outside_chain reads tenant rng start),
       ex_next_cursor = (if beyond \<and> rows \<noteq> [] then Some (export_cursor last_seq (ar_row (last rows))) else None)\<rparr>)"

end
