(* ===== verification/Audit_Prune.thy ===== *)
theory Audit_Prune
  imports Audit_Verify Retention
begin

text \<open>
  The retention prune (\<open>packages/audit/src/chain/prune.ts\<close>, \<open>workflows/prune.ts\<close>) over the bound
  parameter cap of \<open>packages/core/src/data/boundParameters.ts\<close>. A page is one step of a pass; its
  delete statements may fail after any of them, and \<open>pr_left\<close> is how many still go through.
\<close>

section \<open>Bound parameters\<close>

definition max_bound_parameters :: nat where
  "max_bound_parameters = 100"

definition bound_parameter_budget :: "nat \<Rightarrow> nat \<Rightarrow> nat option" where
  "bound_parameter_budget cap spent = (if cap - spent < 1 then None else Some (cap - spent))"

fun chunks_of :: "nat \<Rightarrow> 'a list \<Rightarrow> 'a list list" where
  "chunks_of 0 xs = []"
| "chunks_of n [] = []"
| "chunks_of n (x # xs) = take n (x # xs) # chunks_of n (drop n (x # xs))"

definition chunk_by_bound_parameters :: "nat \<Rightarrow> 'a list \<Rightarrow> nat \<Rightarrow> 'a list list option" where
  "chunk_by_bound_parameters cap xs spent = map_option (\<lambda>size. chunks_of size xs) (bound_parameter_budget cap spent)"

section \<open>Windows\<close>

definition shortest_window_days :: "effective_retention \<Rightarrow> int option" where
  "shortest_window_days eff = least_of
     (map al_days (er_rules eff) @ (case er_default eff of None \<Rightarrow> [] | Some d \<Rightarrow> [d]))"

definition past_window :: "effective_retention \<Rightarrow> string \<Rightarrow> int \<Rightarrow> int \<Rightarrow> bool" where
  "past_window eff act occurred now = (case audit_window_days eff act of None \<Rightarrow> False
     | Some days \<Rightarrow> occurred < now - days * ms_per_day)"

text \<open>The actions that share one window, under the instant each is past it.\<close>

definition expiry_cutoffs :: "effective_retention \<Rightarrow> string list \<Rightarrow> int \<Rightarrow> (int \<times> string list) list" where
  "expiry_cutoffs eff acts now =
     (let timed = List.map_filter (\<lambda>a. map_option (\<lambda>d. (now - d * ms_per_day, a)) (audit_window_days eff a)) (firsts acts) in
      map (\<lambda>t. (t, sort_key key_bytes (map snd [e \<leftarrow> timed. fst e = t]))) (sort (firsts (map fst timed))))"

definition past_cutoffs :: "(int \<times> string list) list \<Rightarrow> audit_row \<Rightarrow> bool" where
  "past_cutoffs cutoffs r \<longleftrightarrow> (\<exists>c\<in>set cutoffs. ev_action r \<in> set (snd c) \<and> ev_occurred_at r < fst c)"

section \<open>Runs\<close>

definition expired :: "effective_retention \<Rightarrow> int \<Rightarrow> audit_row \<Rightarrow> bool" where
  "expired eff now r \<longleftrightarrow> past_window eff (ev_action r) (ev_occurred_at r) now"

text \<open>The loop's state: the runs closed so far and the one it is in.\<close>

definition extend_run :: "effective_retention \<Rightarrow> int \<Rightarrow> audit_row \<Rightarrow> audit_row list list \<times> audit_row list \<Rightarrow>
    audit_row list list \<times> audit_row list" where
  "extend_run eff now r st =
     (let (runs, current) = st;
          follows = (current \<noteq> [] \<and> ar_seq r = Some (row_seq (last current) + 1));
          (runs', current') = (if \<not> expired eff now r \<or> (current \<noteq> [] \<and> \<not> follows)
            then (if current \<noteq> [] then runs @ [current] else runs, []) else (runs, current)) in
      (runs', if expired eff now r then current' @ [r] else current'))"

definition expired_runs :: "effective_retention \<Rightarrow> int \<Rightarrow> audit_row list \<Rightarrow> audit_row list list" where
  "expired_runs eff now rows =
     (let (runs, current) = fold (extend_run eff now) rows ([], []) in
      if current \<noteq> [] then runs @ [current] else runs)"

text \<open>The link before a run: the outer option is whether there is one, the inner a link or the chain's start.\<close>

definition link_before_run :: "audit_db \<Rightarrow> string option \<Rightarrow> int \<Rightarrow> tombstone list \<Rightarrow> chain_link option option" where
  "link_before_run db tenant p ts =
     (if p = 1 then Some None else map_option Some (link_before db tenant (p - 1) ts))"

definition run_verifies ::
  "(string \<Rightarrow> digest) \<Rightarrow> audit_bucket \<Rightarrow> string option \<Rightarrow> audit_row list \<Rightarrow> chain_link option \<Rightarrow> bool option" where
  "run_verifies sha b tenant rs prior =
     (let from = row_seq (hd rs); through = row_seq (last rs);
          opts = \<lparr>vo_tenant = tenant, vo_prior = prior,
            vo_checkpoints = read_checkpoints b tenant from (Some through) (list_checkpoints b tenant),
            vo_tombstones = [], vo_values = False\<rparr> in
      map_option (\<lambda>(found, wk). found = None) (push_all sha opts (map (chained_event_of sha False) rs) (start_walk opts)))"

definition rows_at :: "audit_db \<Rightarrow> string option \<Rightarrow> int \<Rightarrow> int \<Rightarrow> nat" where
  "rows_at db tenant from through =
     length [r \<leftarrow> db_rows db. in_chain tenant r \<and> from \<le> row_seq r \<and> row_seq r \<le> through]"

section \<open>One page of one chain\<close>

record prune_options =
  po_tenant :: "string option"
  po_retention :: effective_retention
  po_now :: int
  po_stamp :: string
  po_after :: int
  po_limit :: nat

record prune_state =
  pr_db :: audit_db
  pr_bucket :: audit_bucket
  pr_tombs :: "tombstone list"
  pr_pruned :: int
  pr_refused :: nat
  pr_left :: nat

text \<open>A delete of named rows within a run's positions, while statements go through: whether it did.\<close>

definition delete_rows :: "string option \<Rightarrow> int \<Rightarrow> int \<Rightarrow> nat list \<Rightarrow> prune_state \<Rightarrow> bool \<times> prune_state" where
  "delete_rows tenant from through ids st =
     (if pr_left st = 0 then (False, st)
      else (True, st\<lparr>pr_left := pr_left st - 1, pr_db := (pr_db st)\<lparr>db_rows := [r \<leftarrow> db_rows (pr_db st).
        \<not> (in_chain tenant r \<and> ar_row r \<in> set ids \<and> from \<le> row_seq r \<and> row_seq r \<le> through)]\<rparr>\<rparr>))"

fun delete_chunks :: "string option \<Rightarrow> int \<Rightarrow> int \<Rightarrow> nat list list \<Rightarrow> prune_state \<Rightarrow> bool \<times> prune_state" where
  "delete_chunks tenant from through [] st = (True, st)"
| "delete_chunks tenant from through (ids # rest) st =
     (case delete_rows tenant from through ids st of
        (False, st') \<Rightarrow> (False, st')
      | (True, st') \<Rightarrow> delete_chunks tenant from through rest st')"

definition refuse :: "prune_state \<Rightarrow> prune_state" where
  "refuse st = st\<lparr>pr_refused := pr_refused st + 1\<rparr>"

definition tombstone_of :: "prune_options \<Rightarrow> audit_row list \<Rightarrow> chain_link option \<Rightarrow> tombstone" where
  "tombstone_of opts rs prior = \<lparr>ts_tenant = po_tenant opts, ts_from = row_seq (hd rs),
     ts_through = row_seq (last rs), ts_count = int (length rs), ts_prior = head_hash prior,
     ts_first = or_else '''' (ar_hash (hd rs)), ts_last = or_else '''' (ar_hash (last rs)),
     ts_pruned_at = po_stamp opts\<rparr>"

text \<open>Whether the rows in hand are the rows the stored tombstone names.\<close>

definition named_rows :: "tombstone \<Rightarrow> audit_row list \<Rightarrow> audit_row list" where
  "named_rows x rs = [r \<leftarrow> rs. ts_from x \<le> row_seq r \<and> row_seq r \<le> ts_through x]"

definition tombstone_fits :: "audit_db \<Rightarrow> string option \<Rightarrow> tombstone \<Rightarrow> audit_row list \<Rightarrow> bool" where
  "tombstone_fits db tenant x rs \<longleftrightarrow>
     (case find (\<lambda>r. ar_seq r = Some (ts_through x)) rs of None \<Rightarrow> False
      | Some lastrow \<Rightarrow> ar_hash lastrow = Some (ts_last x) \<and> ar_hash (hd rs) = Some (ts_first x) \<and>
          int (length (named_rows x rs)) = ts_count x \<and>
          int (rows_at db tenant (ts_from x) (ts_through x)) = ts_count x)"

text \<open>One run: whether the page went on, and the state; a failing statement or a tombstone that cannot be read throws.\<close>

definition prune_one_run ::
  "(string \<Rightarrow> digest) \<Rightarrow> nat \<Rightarrow> prune_options \<Rightarrow> audit_row list \<Rightarrow> prune_state \<Rightarrow> bool \<times> prune_state" where
  "prune_one_run sha cap opts rs st =
     (let tenant = po_tenant opts; from = row_seq (hd rs); through = row_seq (last rs) in
      if rows_at (pr_db st) tenant from through \<noteq> length rs then (True, refuse st)
      else case link_before_run (pr_db st) tenant from (pr_tombs st) of
        None \<Rightarrow> (True, refuse st)
      | Some prior \<Rightarrow>
          if run_verifies sha (pr_bucket st) tenant rs prior \<noteq> Some True then (True, refuse st)
          else case write_tombstone (pr_bucket st) (tombstone_of opts rs prior) of
            (None, b) \<Rightarrow> (False, st\<lparr>pr_bucket := b\<rparr>)
          | (Some x, b) \<Rightarrow>
              let st' = st\<lparr>pr_bucket := b\<rparr> in
              if \<not> tombstone_fits (pr_db st') tenant x rs then (True, refuse st')
              else case chunk_by_bound_parameters cap (map ar_row (named_rows x rs)) (if tenant = None then 2 else 3) of
                None \<Rightarrow> (False, st')
              | Some chunks \<Rightarrow>
                  (case delete_chunks tenant (ts_from x) (ts_through x) chunks st' of
                     (False, st'') \<Rightarrow> (False, st'')
                   | (True, st'') \<Rightarrow> (True, st''\<lparr>pr_tombs := pr_tombs st'' @ [x], pr_pruned := pr_pruned st'' + ts_count x\<rparr>)))"

fun prune_runs ::
  "(string \<Rightarrow> digest) \<Rightarrow> nat \<Rightarrow> prune_options \<Rightarrow> audit_row list list \<Rightarrow> prune_state \<Rightarrow> bool \<times> prune_state" where
  "prune_runs sha cap opts [] st = (True, st)"
| "prune_runs sha cap opts (r # rs) st =
     (case prune_one_run sha cap opts r st of
        (False, st') \<Rightarrow> (False, st')
      | (True, st') \<Rightarrow> prune_runs sha cap opts rs st')"

text \<open>The rows a page reads: of the actions in reach, those past their own windows.\<close>

definition prune_cutoffs :: "audit_db \<Rightarrow> prune_options \<Rightarrow> int \<Rightarrow> int \<Rightarrow> (int \<times> string list) list" where
  "prune_cutoffs db opts through before = expiry_cutoffs (po_retention opts)
     (map ev_action [r \<leftarrow> db_rows db. in_chain (po_tenant opts) r \<and> po_after opts < row_seq r \<and> row_seq r \<le> through \<and>
        ev_occurred_at r < before]) (po_now opts)"

definition prune_rows :: "audit_db \<Rightarrow> prune_options \<Rightarrow> int \<Rightarrow> int \<Rightarrow> (int \<times> string list) list \<Rightarrow> audit_row list" where
  "prune_rows db opts through before cutoffs = read_chain_rows db
     \<lparr>rq_tenant = po_tenant opts, rq_after = po_after opts, rq_after_row = None, rq_limit = po_limit opts,
      rq_through = Some through, rq_before = Some before, rq_matching = Some (past_cutoffs cutoffs)\<rparr>"

record prune_page =
  pp_pruned :: int
  pp_refused :: nat
  pp_next :: "int option"

definition nothing_pruned :: prune_page where
  "nothing_pruned = \<lparr>pp_pruned = 0, pp_refused = 0, pp_next = None\<rparr>"

text \<open>A page over the table and the bucket, of which \<open>budget\<close> delete statements go through: none where it threw.\<close>

definition prune_chain_page ::
  "(string \<Rightarrow> digest) \<Rightarrow> nat \<Rightarrow> nat \<Rightarrow> prune_options \<Rightarrow> audit_db \<times> audit_bucket \<Rightarrow>
     prune_page option \<times> (audit_db \<times> audit_bucket)" where
  "prune_chain_page sha cap budget opts s =
     (let (db, b) = s; head = read_chain_head db (po_tenant opts) in
      case shortest_window_days (po_retention opts) of
        None \<Rightarrow> (Some nothing_pruned, (db, b))
      | Some shortest \<Rightarrow>
          if head_seq head \<le> 1 then (Some nothing_pruned, (db, b))
          else
            let through = head_seq head - 1; before = po_now opts - shortest * ms_per_day;
                cutoffs = prune_cutoffs db opts through before in
            if cutoffs = [] then (Some nothing_pruned, (db, b))
            else
              let rows = prune_rows db opts through before cutoffs;
                  (ok, st) = prune_runs sha cap opts (expired_runs (po_retention opts) (po_now opts) rows)
                    \<lparr>pr_db = db, pr_bucket = b, pr_tombs = read_tombstones b (po_tenant opts), pr_pruned = 0,
                     pr_refused = 0, pr_left = budget\<rparr> in
              (if ok then Some \<lparr>pp_pruned = pr_pruned st, pp_refused = pr_refused st,
                   pp_next = (if length rows = po_limit opts \<and> rows \<noteq> [] then Some (row_seq (last rows)) else None)\<rparr>
               else None, (pr_db st, pr_bucket st)))"

section \<open>The rows that carry no chain\<close>

record unchained_page =
  up_deleted :: nat
  up_next :: "nat option"

text \<open>A delete that binds more parameters than the cap is refused before it reaches the database.\<close>

definition delete_by_id :: "nat \<Rightarrow> nat list \<Rightarrow> audit_db \<Rightarrow> audit_db option" where
  "delete_by_id cap ids db = (if length ids > cap then None
     else Some (db\<lparr>db_rows := [r \<leftarrow> db_rows db. ar_row r \<notin> set ids]\<rparr>))"

definition unchained_rows :: "audit_db \<Rightarrow> effective_retention \<Rightarrow> int \<Rightarrow> nat \<Rightarrow> nat \<Rightarrow> int \<Rightarrow> audit_row list" where
  "unchained_rows db eff now after limit before =
     (let reach = (\<lambda>r. ar_seq r = None \<and> after < ar_row r \<and> ev_occurred_at r < before);
          cutoffs = expiry_cutoffs eff (map ev_action [r \<leftarrow> db_rows db. reach r]) now in
      if cutoffs = [] then []
      else take limit (sort_key ar_row [r \<leftarrow> db_rows db. reach r \<and> past_cutoffs cutoffs r]))"

definition doomed_rows :: "effective_retention \<Rightarrow> int \<Rightarrow> (string option \<Rightarrow> bool) \<Rightarrow> audit_row list \<Rightarrow> audit_row list" where
  "doomed_rows eff now held rows = [r \<leftarrow> rows. expired eff now r \<and> \<not> held (ev_tenant r)]"

definition prune_unchained_page ::
  "nat \<Rightarrow> effective_retention \<Rightarrow> int \<Rightarrow> nat \<Rightarrow> nat \<Rightarrow> (string option \<Rightarrow> bool) \<Rightarrow> audit_db \<Rightarrow>
     unchained_page option \<times> audit_db" where
  "prune_unchained_page cap eff now after limit held db =
     (case shortest_window_days eff of
        None \<Rightarrow> (Some \<lparr>up_deleted = 0, up_next = None\<rparr>, db)
      | Some shortest \<Rightarrow>
          let rows = unchained_rows db eff now after limit (now - shortest * ms_per_day);
              doomed = doomed_rows eff now held rows;
              page = \<lparr>up_deleted = length doomed,
                up_next = (if length rows = limit \<and> rows \<noteq> [] then Some (ar_row (last rows)) else None)\<rparr> in
          if doomed = [] then (Some page, db)
          else case delete_by_id cap (map ar_row doomed) db of
            None \<Rightarrow> (None, db)
          | Some db' \<Rightarrow> (Some page, db'))"

end
