(* ===== verification/Audit_Pass.thy ===== *)
theory Audit_Pass
  imports Audit_Prune
begin

text \<open>
  One pass of the retention prune over every chain (\<open>packages/audit/src/workflows/prune.ts\<close>): a page
  per step, each behind its own hold check, then the unchained rows. What the pass is handed is the
  environment: the policy in force, what each hold check answers, what each clock reading says and how
  many delete statements of each page go through. A step that throws ends the pass where it stood.
\<close>

definition audit_prune_page :: nat where
  "audit_prune_page = 500"

definition audit_prune_default_pages :: nat where
  "audit_prune_default_pages = 20"

section \<open>What a pass is handed\<close>

text \<open>Chains and pages are counted from zero; a hold check that cannot say answers none.\<close>

record prune_pass =
  pa_policy :: "effective_retention option"
  pa_bound :: bool
  pa_held :: "nat \<Rightarrow> nat \<Rightarrow> string option \<Rightarrow> bool option"
  pa_now :: "nat \<Rightarrow> nat \<Rightarrow> int"
  pa_stamp :: "int \<Rightarrow> string"
  pa_deletes :: "nat \<Rightarrow> nat \<Rightarrow> nat"
  pa_later_held :: "nat \<Rightarrow> string option \<Rightarrow> bool"
  pa_later_now :: "nat \<Rightarrow> int"
  pa_pages :: "nat option"

record prune_outcome =
  oc_pruned :: int
  oc_refused :: nat
  oc_unchained :: nat
  oc_held :: nat

definition nothing_done :: prune_outcome where
  "nothing_done = \<lparr>oc_pruned = 0, oc_refused = 0, oc_unchained = 0, oc_held = 0\<rparr>"

type_synonym trail = "audit_db \<times> audit_bucket"

definition chain_tenants :: "(string \<Rightarrow> 'k::linorder) \<Rightarrow> audit_db \<Rightarrow> string option list" where
  "chain_tenants collate db = sort_key (\<lambda>t. collate (or_else '''' t))
     (firsts (map ev_tenant [r \<leftarrow> db_rows db. ar_seq r \<noteq> None]))"

definition pass_prunes :: "prune_pass \<Rightarrow> bool" where
  "pass_prunes env = (case pa_policy env of None \<Rightarrow> False | Some eff \<Rightarrow> prunes_audit eff)"

section \<open>Pages\<close>

definition chain_page ::
  "(string \<Rightarrow> digest) \<Rightarrow> prune_pass \<Rightarrow> nat \<Rightarrow> nat \<Rightarrow> string option \<Rightarrow> int \<Rightarrow> trail \<Rightarrow> prune_page option \<times> trail" where
  "chain_page sha env index page tenant after s = (case pa_policy env of
       None \<Rightarrow> (Some nothing_pruned, s)
     | Some eff \<Rightarrow> if \<not> pa_bound env then (Some nothing_pruned, s)
         else prune_chain_page sha max_bound_parameters (pa_deletes env index page)
           \<lparr>po_tenant = tenant, po_retention = eff, po_now = pa_now env index page,
            po_stamp = pa_stamp env (pa_now env index page), po_after = after, po_limit = audit_prune_page\<rparr> s)"

definition unchained_page_of :: "prune_pass \<Rightarrow> nat \<Rightarrow> nat \<Rightarrow> audit_db \<Rightarrow> unchained_page option \<times> audit_db" where
  "unchained_page_of env page after db = (case pa_policy env of
       None \<Rightarrow> (Some \<lparr>up_deleted = 0, up_next = None\<rparr>, db)
     | Some eff \<Rightarrow> prune_unchained_page max_bound_parameters eff (pa_later_now env page) after audit_prune_page
         (pa_later_held env page) db)"

text \<open>The pages of one chain, of which \<open>left\<close> may still be taken.\<close>

fun chain_pages ::
  "(string \<Rightarrow> digest) \<Rightarrow> prune_pass \<Rightarrow> nat \<Rightarrow> string option \<Rightarrow> nat \<Rightarrow> nat \<Rightarrow> int \<Rightarrow> prune_outcome \<times> trail \<Rightarrow>
     prune_outcome option \<times> trail" where
  "chain_pages sha env index tenant 0 page after (oc, s) = (Some oc, s)"
| "chain_pages sha env index tenant (Suc left) page after (oc, s) =
     (case pa_held env index page tenant of
        None \<Rightarrow> (None, s)
      | Some True \<Rightarrow> (Some (oc\<lparr>oc_held := oc_held oc + 1\<rparr>), s)
      | Some False \<Rightarrow>
          (case chain_page sha env index page tenant after s of
             (None, s') \<Rightarrow> (None, s')
           | (Some done, s') \<Rightarrow>
               let oc' = oc\<lparr>oc_pruned := oc_pruned oc + pp_pruned done, oc_refused := oc_refused oc + pp_refused done\<rparr> in
               (case pp_next done of
                  None \<Rightarrow> (Some oc', s')
                | Some after' \<Rightarrow> chain_pages sha env index tenant left (page + 1) after' (oc', s'))))"

fun chain_passes ::
  "(string \<Rightarrow> digest) \<Rightarrow> prune_pass \<Rightarrow> nat \<Rightarrow> nat \<Rightarrow> string option list \<Rightarrow> prune_outcome \<times> trail \<Rightarrow>
     prune_outcome option \<times> trail" where
  "chain_passes sha env pages index [] (oc, s) = (Some oc, s)"
| "chain_passes sha env pages index (t # ts) (oc, s) =
     (case chain_pages sha env index t pages 0 0 (oc, s) of
        (None, s') \<Rightarrow> (None, s')
      | (Some oc', s') \<Rightarrow> chain_passes sha env pages (index + 1) ts (oc', s'))"

fun unchained_pages :: "prune_pass \<Rightarrow> nat \<Rightarrow> nat \<Rightarrow> nat \<Rightarrow> prune_outcome \<times> audit_db \<Rightarrow> prune_outcome option \<times> audit_db" where
  "unchained_pages env 0 page after (oc, db) = (Some oc, db)"
| "unchained_pages env (Suc left) page after (oc, db) =
     (case unchained_page_of env page after db of
        (None, db') \<Rightarrow> (None, db')
      | (Some done, db') \<Rightarrow>
          let oc' = oc\<lparr>oc_unchained := oc_unchained oc + up_deleted done\<rparr> in
          (case up_next done of
             None \<Rightarrow> (Some oc', db')
           | Some after' \<Rightarrow> unchained_pages env left (page + 1) after' (oc', db')))"

section \<open>The pass\<close>

definition pass_chains ::
  "(string \<Rightarrow> digest) \<Rightarrow> (string \<Rightarrow> 'k::linorder) \<Rightarrow> prune_pass \<Rightarrow> nat \<Rightarrow> trail \<Rightarrow> prune_outcome option \<times> trail" where
  "pass_chains sha collate env pages s =
     (if pa_bound env then chain_passes sha env pages 0 (chain_tenants collate (fst s)) (nothing_done, s)
      else (Some nothing_done, s))"

definition prune_audit_trail ::
  "(string \<Rightarrow> digest) \<Rightarrow> (string \<Rightarrow> 'k::linorder) \<Rightarrow> prune_pass \<Rightarrow> trail \<Rightarrow> prune_outcome option \<times> trail" where
  "prune_audit_trail sha collate env s =
     (if \<not> pass_prunes env then (Some nothing_done, s)
      else
        let pages = or_else audit_prune_default_pages (pa_pages env) in
        case pass_chains sha collate env pages s of
          (None, s') \<Rightarrow> (None, s')
        | (Some oc, (db, b)) \<Rightarrow> (case unchained_pages env pages 0 0 (oc, db) of (res, db') \<Rightarrow> (res, (db', b))))"

end
