(* ===== verification/Audit_Bucket_Laws.thy ===== *)
theory Audit_Bucket_Laws
  imports Audit_Bucket
begin

text \<open>The bucket's keys read back, the chains' prefixes apart, and what a conditional write changes.\<close>

section \<open>Encoded tenants\<close>

definition hex_digits :: string where
  "hex_digits = ''0123456789ABCDEF''"

lemma hex_digits_inj: "m < 16 \<Longrightarrow> n < 16 \<Longrightarrow> hex_digits ! m = hex_digits ! n \<Longrightarrow> m = n"
  using nth_eq_iff_index_eq [of hex_digits m n] by (simp add: hex_digits_def)

lemma hex_digits_no_slash: "n < 16 \<Longrightarrow> hex_digits ! n \<noteq> CHR ''/''"
  using nth_mem [of n hex_digits] by (auto simp: hex_digits_def)

lemma percent_byte_hex: "percent_byte n = [CHR ''%'', hex_digits ! (n div 16), hex_digits ! (n mod 16)]"
  by (simp add: percent_byte_def hex_digits_def)

lemma percent_byte_inj:
  assumes "m < 256" "n < 256" "percent_byte m = percent_byte n" shows "m = n"
proof -
  have "m div 16 = n div 16" "m mod 16 = n mod 16"
    using assms hex_digits_inj [of "m div 16" "n div 16"] hex_digits_inj [of "m mod 16" "n mod 16"]
    by (simp_all add: percent_byte_hex less_mult_imp_div_less)
  then show ?thesis by (metis div_mult_mod_eq)
qed

lemma char_code: "(of_char c :: nat) < 256"
  by simp

lemma utf8_bytes: "192 + (of_char c :: nat) div 64 < 256" "128 + (of_char c :: nat) mod 64 < 256"
proof -
  have "(of_char c :: nat) < 64 * 64" by (rule less_trans [OF char_code]) simp
  from less_mult_imp_div_less [OF this] show "192 + (of_char c :: nat) div 64 < 256" by simp
qed simp

lemma percent_reserved: "\<not> is_unreserved (CHR ''%'')" "\<not> is_unreserved (CHR ''/'')"
  by code_simp+

lemma encode_char_cases:
  obtains "encode_char c = [c]" "c \<noteq> CHR ''%''" "c \<noteq> CHR ''/''"
  | "encode_char c = percent_byte (of_char c)" "(of_char c :: nat) < 128"
  | "encode_char c = percent_byte (192 + of_char c div 64) @ percent_byte (128 + of_char c mod 64)"
    "128 \<le> (of_char c :: nat)"
proof (cases "is_unreserved c")
  case True
  then have "encode_char c = [c]" "c \<noteq> CHR ''%''" "c \<noteq> CHR ''/''"
    using percent_reserved by (auto simp: encode_char_def)
  then show ?thesis by (rule that(1))
next
  case False
  then show ?thesis using that(2,3) by (cases "(of_char c :: nat) < 128") (auto simp: encode_char_def Let_def)
qed

lemma encode_char_nonempty: "encode_char c \<noteq> []"
  by (cases c rule: encode_char_cases) (simp_all add: percent_byte_def)

lemma encode_char_no_slash: "CHR ''/'' \<notin> set (encode_char c)"
proof -
  have no: "CHR ''/'' \<notin> set (percent_byte n)" if "n < 256" for n
    using hex_digits_no_slash [of "n div 16"] hex_digits_no_slash [of "n mod 16"] that
    by (auto simp: percent_byte_hex less_mult_imp_div_less)
  from no [OF char_code] no [OF utf8_bytes(1)] no [OF utf8_bytes(2)] show ?thesis by (cases c rule: encode_char_cases) auto
qed

lemma encode_char_prefix_free:
  assumes "encode_char c @ xs = encode_char d @ ys" shows "c = d \<and> xs = ys"
proof -
  have three: "percent_byte m @ us = percent_byte n @ vs \<Longrightarrow> m < 256 \<Longrightarrow> n < 256 \<Longrightarrow> m = n \<and> us = vs" for m n us vs
    using percent_byte_inj [of m n] by (simp add: percent_byte_def)
  show ?thesis
  proof (cases c rule: encode_char_cases)
    case 1
    then show ?thesis using assms by (cases d rule: encode_char_cases) (auto simp: percent_byte_def)
  next
    case c: 2
    show ?thesis
    proof (cases d rule: encode_char_cases)
      case 1
      then show ?thesis using assms c by (simp add: percent_byte_def)
    next
      case 2
      with assms c three [of "of_char c" xs "of_char d" ys] show ?thesis by simp
    next
      case 3
      with assms c three [of "of_char c" xs "192 + of_char d div 64" "percent_byte (128 + of_char d mod 64) @ ys"] utf8_bytes [of d]
      show ?thesis by simp
    qed
  next
    case c: 3
    show ?thesis
    proof (cases d rule: encode_char_cases)
      case 1
      then show ?thesis using assms c by (simp add: percent_byte_def)
    next
      case 2
      with assms c three [of "192 + of_char c div 64" "percent_byte (128 + of_char c mod 64) @ xs" "of_char d" ys] utf8_bytes [of c]
      show ?thesis by simp
    next
      case 3
      with assms c have eq: "percent_byte (192 + of_char c div 64) @ percent_byte (128 + of_char c mod 64) @ xs
        = percent_byte (192 + of_char d div 64) @ percent_byte (128 + of_char d mod 64) @ ys" by simp
      from three [OF this utf8_bytes(1) utf8_bytes(1)]
      have high: "(of_char c :: nat) div 64 = of_char d div 64"
        and "percent_byte (128 + of_char c mod 64) @ xs = percent_byte (128 + of_char d mod 64) @ ys" by simp_all
      from three [OF this(2) utf8_bytes(2) utf8_bytes(2)] have "(of_char c :: nat) mod 64 = of_char d mod 64" "xs = ys" by simp_all
      with high have "(of_char c :: nat) = of_char d" by (metis div_mult_mod_eq)
      with \<open>xs = ys\<close> show ?thesis by simp
    qed
  qed
qed

lemma encode_inj: "encode_uri_component s = encode_uri_component t \<Longrightarrow> s = t"
proof (induction s arbitrary: t)
  case Nil
  then show ?case using encode_char_nonempty by (cases t) (auto simp: encode_uri_component_def)
next
  case (Cons c s)
  show ?case
  proof (cases t)
    case Nil
    with Cons.prems show ?thesis using encode_char_nonempty by (auto simp: encode_uri_component_def)
  next
    case (Cons d t')
    with Cons.prems have "encode_char c @ encode_uri_component s = encode_char d @ encode_uri_component t'"
      by (simp add: encode_uri_component_def)
    from encode_char_prefix_free [OF this] Cons.IH Cons show ?thesis by simp
  qed
qed

lemma encode_no_slash: "CHR ''/'' \<notin> set (encode_uri_component s)"
  using encode_char_no_slash by (auto simp: encode_uri_component_def)

section \<open>Keys read back\<close>

lemma digits_value_zeros: "digits_value (replicate k (CHR ''0'') @ ds) = digits_value ds"
proof (induction k)
  case (Suc k)
  have "foldl (\<lambda>n c. 10 * n + digit_value c) 0 (CHR ''0'' # xs) = foldl (\<lambda>n c. 10 * n + digit_value c) 0 xs" for xs
    by (simp add: digit_value_def)
  with Suc show ?case by (simp add: digits_value_def)
qed simp

lemma digit_facts [simp]: "is_digit (CHR ''0'')" "\<not> is_digit (CHR ''t'')" "\<not> is_digit (CHR ''.'')"
  by code_simp+

lemma padded_digits: "list_all is_digit (pad_zeros w (decimal n))"
  using decimal_is_digits [of n] by (auto simp: pad_zeros_def list_all_iff)

lemma padded_nonempty [simp]: "pad_zeros w (decimal n) \<noteq> []"
  by (simp add: pad_zeros_def)

lemma number_read_back:
  assumes "0 \<le> n" shows "number_of_key (numbered_key p n) p = Some n"
proof -
  let ?ds = "pad_zeros key_width (decimal (nat n))"
  have take: "takeWhile is_digit (?ds @ ''.json'') = ?ds"
    using padded_digits [of key_width "nat n"] by (simp add: takeWhile_append list_all_iff)
  have "digits_value ?ds = nat n" by (simp add: pad_zeros_def digits_value_zeros)
  with take assms show ?thesis by (simp add: number_of_key_def numbered_key_def Let_def)
qed

lemma numbered_key_inj: "0 \<le> m \<Longrightarrow> 0 \<le> n \<Longrightarrow> numbered_key p m = numbered_key p n \<Longrightarrow> m = n"
  using number_read_back by (metis option.inject)

lemma split_at_slash:
  assumes "CHR ''/'' \<notin> set xs" "CHR ''/'' \<notin> set ys" "xs @ CHR ''/'' # us = ys @ CHR ''/'' # vs"
  shows "xs = ys \<and> us = vs"
  using assms
proof (induction xs arbitrary: ys)
  case Nil
  then show ?case by (cases ys) auto
next
  case (Cons x xs)
  then show ?case by (cases ys) auto
qed

text \<open>No tenant's keys lie under another's prefix.\<close>

lemma prefix_apart:
  assumes "checkpoint_prefix s @ us = checkpoint_prefix t @ vs" shows "s = t \<and> us = vs"
proof (cases s; cases t)
  fix a b assume st: "s = Some a" "t = Some b"
  with assms have "encode_uri_component a @ CHR ''/'' # us = encode_uri_component b @ CHR ''/'' # vs"
    by (simp add: checkpoint_prefix_def)
  from split_at_slash [OF encode_no_slash encode_no_slash this] encode_inj st show ?thesis by blast
qed (use assms in \<open>simp_all add: checkpoint_prefix_def\<close>)

lemma checkpoint_keys_apart: "starts_with (checkpoint_key s n) (checkpoint_prefix t) \<Longrightarrow> s = t"
  using prefix_apart [of s _ t] by (auto simp: checkpoint_key_def numbered_key_def dest!: starts_with_obtain)

lemma tombstone_keys_apart: "starts_with (tombstone_key s n) (checkpoint_prefix t) \<Longrightarrow> s = t"
  using prefix_apart [of s _ t]
  by (auto simp: tombstone_key_def tombstone_prefix_def numbered_key_def dest!: starts_with_obtain)

lemma tombstone_is_no_checkpoint: "number_of_key (tombstone_key t n) (checkpoint_prefix t) = None"
  by (simp add: number_of_key_def tombstone_key_def tombstone_prefix_def numbered_key_def Let_def)

lemma checkpoint_is_no_tombstone: "\<not> starts_with (checkpoint_key t n) (tombstone_prefix t)"
proof
  assume "starts_with (checkpoint_key t n) (tombstone_prefix t)"
  then obtain rest where eq: "pad_zeros key_width (decimal (nat n)) @ ''.json'' = ''tombstones/'' @ rest"
    by (auto simp: checkpoint_key_def tombstone_prefix_def numbered_key_def dest!: starts_with_obtain)
  obtain c cs where "pad_zeros key_width (decimal (nat n)) = c # cs"
    by (cases "pad_zeros key_width (decimal (nat n))") simp_all
  with eq padded_digits [of key_width "nat n"] show False by simp
qed

section \<open>Conditional writes\<close>

lemma insort_key_set: "set (insort_key f x xs) = insert x (set xs)"
  by (induction xs) auto

definition keys_distinct :: "audit_bucket \<Rightarrow> bool" where
  "keys_distinct b \<longleftrightarrow> distinct (map fst b)"

lemma bucket_get_in: "keys_distinct b \<Longrightarrow> bucket_get b key = Some x \<longleftrightarrow> (key, x) \<in> set b"
  by (simp add: bucket_get_def keys_distinct_def)

lemma put_new_result:
  assumes "put_new b key x = (put, b')" and distinct: "keys_distinct b"
  shows "keys_distinct b' \<and> (if put then bucket_get b key = None \<and> set b' = insert (key, x) (set b) else b' = b \<and> bucket_get b key \<noteq> None)"
proof (cases "bucket_get b key")
  case None
  then have "key \<notin> fst ` set b" by (simp add: bucket_get_def map_of_eq_None_iff)
  with distinct have "distinct (map fst (insort_key f (key, x) b))" for f :: "string \<times> bucket_object \<Rightarrow> nat list"
    by (induction b) (auto simp: keys_distinct_def insort_key_set)
  with None assms(1) show ?thesis by (auto simp: put_new_def insort_key_set keys_distinct_def)
qed (use assms in \<open>auto simp: put_new_def\<close>)

section \<open>What a chain's reads find\<close>

lemma map_filter_set: "x \<in> set (List.map_filter f xs) \<longleftrightarrow> (\<exists>y\<in>set xs. f y = Some x)"
  by (induction xs) (auto simp: List.map_filter_simps split: option.splits)

lemma numbered_entries_set:
  "(key, n) \<in> set (numbered_entries b p) \<longleftrightarrow> (\<exists>x. (key, x) \<in> set b) \<and> starts_with key p \<and> number_of_key key p = Some n"
  by (force simp: numbered_entries_def map_filter_set list_keys_def)

lemma read_tombstones_set:
  assumes "keys_distinct b"
  shows "x \<in> set (read_tombstones b t) \<longleftrightarrow> (\<exists>key. (key, Holds_tombstone x) \<in> set b \<and> starts_with key (tombstone_prefix t) \<and>
    number_of_key key (tombstone_prefix t) = Some (ts_from x) \<and> ts_tenant x = t)"
proof -
  have "tombstone_at b t (key, n) = Some x \<longleftrightarrow>
      bucket_get b key = Some (Holds_tombstone x) \<and> ts_tenant x = t \<and> ts_from x = n" for key n
    by (auto simp: tombstone_at_def split: option.splits bucket_object.splits)
  then have "tombstone_at b t (key, n) = Some x \<longleftrightarrow>
      (key, Holds_tombstone x) \<in> set b \<and> ts_tenant x = t \<and> ts_from x = n" for key n
    by (simp only: bucket_get_in [OF assms])
  then show ?thesis by (force simp: read_tombstones_def map_filter_set numbered_entries_set)
qed

lemma wanted_entries_subset: "set (wanted_entries es f h) \<subseteq> set es"
proof -
  have "latest_entry es = Some l \<Longrightarrow> l \<in> set es" for l
    unfolding latest_entry_def
    by (induction es arbitrary: l rule: rev_induct) (auto split: option.splits if_splits)
  then show ?thesis by (auto simp: wanted_entries_def Let_def split: option.splits if_splits)
qed

lemma read_checkpoints_holds:
  assumes "keys_distinct b" "c \<in> set (read_checkpoints b t f h es)"
  shows "\<exists>key. (key, Holds_checkpoint c) \<in> set b \<and> (key, cp_count c) \<in> set es \<and> cp_tenant c = t"
proof -
  from assms(2) obtain e where e: "e \<in> set (wanted_entries es f h)" "checkpoint_at b t e = Some c"
    by (auto simp: read_checkpoints_def map_filter_set)
  then have "(fst e, Holds_checkpoint c) \<in> set b" "cp_tenant c = t" "cp_count c = snd e"
    using bucket_get_in [OF assms(1), of "fst e"]
    by (auto simp: checkpoint_at_def split: option.splits bucket_object.splits if_splits)
  with e(1) wanted_entries_subset show ?thesis by (metis prod.collapse subsetD)
qed

end
