(* ===== verification/Audit_Trail.thy ===== *)
theory Audit_Trail
  imports Audit_Append Audit_Bucket_Laws Audit_Prune
begin

text \<open>
  A tenant's trail in the table and the bucket: what a page of it reads, the trail a pruned table
  still vouches for, and the walk over it.
\<close>

section \<open>Rows in chain order\<close>

definition row_before :: "audit_row \<Rightarrow> audit_row \<Rightarrow> bool" where
  "row_before r s \<longleftrightarrow> row_seq r < row_seq s \<or> row_seq r = row_seq s \<and> ar_row r < ar_row s"

definition in_order :: "audit_row list \<Rightarrow> audit_row list" where
  "in_order rs = sort_key row_seq (sort_key ar_row rs)"

lemma in_order_set [simp]: "set (in_order rs) = set rs"
  by (simp add: in_order_def)

lemma in_order_length [simp]: "length (in_order rs) = length rs"
  by (simp add: in_order_def)

lemma in_order_filter: "in_order (filter P rs) = filter P (in_order rs)"
  by (simp add: in_order_def filter_sort)

lemma sorted_by_then:
  "sorted (map f ys) \<Longrightarrow> \<forall>k. sorted_wrt P (filter (\<lambda>y. f y = k) ys) \<Longrightarrow>
     sorted_wrt (\<lambda>a b. f a < (f b :: 'k::linorder) \<or> f a = f b \<and> P a b) ys"
proof (induction ys)
  case (Cons y ys)
  have tail: "\<forall>k. sorted_wrt P (filter (\<lambda>y. f y = k) ys)"
  proof
    fix k
    from Cons.prems(2) have "sorted_wrt P (filter (\<lambda>y. f y = k) (y # ys))" by blast
    then show "sorted_wrt P (filter (\<lambda>y. f y = k) ys)" by (auto split: if_splits)
  qed
  have "f y < f z \<or> f y = f z \<and> P y z" if "z \<in> set ys" for z
  proof (cases "f z = f y")
    case True
    from Cons.prems(2) have "sorted_wrt P (filter (\<lambda>x. f x = f y) (y # ys))" by blast
    with that True show ?thesis by simp
  next
    case False
    with Cons.prems(1) that show ?thesis by (metis imageI list.set_map list.simps(9) order_le_less sorted_simps(2))
  qed
  with Cons.IH [OF _ tail] Cons.prems(1) show ?case by simp
qed simp

lemma in_order_sorted:
  assumes "distinct (map ar_row rs)" shows "sorted_wrt row_before (in_order rs)"
proof -
  let ?zs = "sort_key ar_row rs"
  have "sorted_wrt (\<lambda>a b. ar_row a < ar_row b) ?zs"
  proof -
    have "distinct (map ar_row ?zs)" using assms by (simp add: distinct_map)
    moreover have "sorted (map ar_row ?zs)" by simp
    ultimately have "sorted_wrt (<) (map ar_row ?zs)" by (simp only: strict_sorted_iff)
    then show ?thesis by (simp add: sorted_wrt_map)
  qed
  then have "\<forall>k. sorted_wrt (\<lambda>a b. ar_row a < ar_row b) (filter (\<lambda>y. row_seq y = k) (in_order rs))"
    by (simp add: in_order_def sort_key_stable sorted_wrt_filter)
  from sorted_by_then [OF _ this] show ?thesis unfolding row_before_def in_order_def by simp
qed

section \<open>Pages\<close>

text \<open>Every row of one chain after a cursor, up to a position.\<close>

definition rows_after :: "audit_db \<Rightarrow> string option \<Rightarrow> int \<times> nat option \<Rightarrow> int \<Rightarrow> audit_row list" where
  "rows_after db t cursor through = in_order (filter (row_after (page_query t cursor 0 through)) (db_rows db))"

definition row_ids :: "audit_db \<Rightarrow> bool" where
  "row_ids db \<longleftrightarrow> distinct (map ar_row (db_rows db))"

lemma row_after_page [simp]:
  "row_after (page_query t cursor n through) r \<longleftrightarrow> in_chain t r \<and> row_seq r \<le> through \<and>
     (fst cursor < row_seq r \<or> (case snd cursor of None \<Rightarrow> False | Some k \<Rightarrow> row_seq r = fst cursor \<and> k < ar_row r))"
  by (auto simp: row_after_def page_query_def split: option.splits)

lemma page_is_take:
  "read_chain_rows db (page_query t cursor n through) = take n (rows_after db t cursor through)"
proof -
  have "row_after (page_query t cursor n through) = row_after (page_query t cursor 0 through)"
    by (rule ext) simp
  then show ?thesis by (simp add: read_chain_rows_def rows_after_def in_order_def page_query_def)
qed

lemma rows_after_sorted: "row_ids db \<Longrightarrow> sorted_wrt row_before (rows_after db t cursor through)"
  unfolding rows_after_def row_ids_def by (rule in_order_sorted) (simp add: distinct_map_filter)

lemma rows_after_in:
  "r \<in> set (rows_after db t (p, i) through) \<longleftrightarrow> r \<in> set (db_rows db) \<and> in_chain t r \<and> row_seq r \<le> through \<and>
     (p < row_seq r \<or> (case i of None \<Rightarrow> False | Some k \<Rightarrow> row_seq r = p \<and> k < ar_row r))"
  by (cases i) (auto simp: rows_after_def)

lemma filter_sorted_tail:
  assumes "sorted_wrt P (xs @ x # ys)" and "\<And>a b. P a b \<Longrightarrow> \<not> P b a"
  shows "filter (P x) (xs @ x # ys) = ys"
proof -
  have none: "filter (P x) xs = []" "\<not> P x x" using assms by (auto simp: sorted_wrt_append filter_empty_conv)
  have tail: "filter (P x) ys = ys" using assms(1) by (auto simp: sorted_wrt_append filter_id_conv)
  from none tail show ?thesis by simp
qed

lemma page_then_rest:
  assumes ids: "row_ids db" and n: "0 < n" "n \<le> length (rows_after db t cursor through)"
  defines "page \<equiv> take n (rows_after db t cursor through)"
  shows "rows_after db t (row_seq (last page), Some (ar_row (last page))) through = drop n (rows_after db t cursor through)"
proof -
  let ?all = "rows_after db t cursor through"
  define r where "r = last page"
  have page: "page \<noteq> []" "page = take n ?all" using n by (auto simp: page_def)
  then have split: "?all = butlast page @ r # drop n ?all"
    unfolding r_def by (metis append.assoc append_Cons append_Nil append_butlast_last_id append_take_drop_id)
  have r: "r \<in> set ?all" using split by (metis in_set_conv_decomp)
  have asym: "\<And>a b. row_before a b \<Longrightarrow> \<not> row_before b a" by (auto simp: row_before_def)
  have "filter (row_before r) ?all = drop n ?all"
    using filter_sorted_tail [of row_before "butlast page" r "drop n ?all", OF _ asym] rows_after_sorted [OF ids, of t cursor through]
      split by simp
  moreover have "rows_after db t (row_seq r, Some (ar_row r)) through = filter (row_before r) ?all"
  proof -
    obtain p i where c: "cursor = (p, i)" by fastforce
    have "p < row_seq r \<or> (case i of None \<Rightarrow> False | Some k \<Rightarrow> row_seq r = p \<and> k < ar_row r)"
      using r by (simp add: c rows_after_in)
    then have "row_after (page_query t (row_seq r, Some (ar_row r)) 0 through) x \<longleftrightarrow>
        row_after (page_query t cursor 0 through) x \<and> row_before r x" for x
      by (auto simp: c row_before_def split: option.splits)
    then have "filter (row_after (page_query t (row_seq r, Some (ar_row r)) 0 through)) xs
        = filter (row_before r) (filter (row_after (page_query t cursor 0 through)) xs)" for xs
      unfolding filter_filter by (intro filter_cong) auto
    then show ?thesis by (simp only: rows_after_def in_order_filter [symmetric])
  qed
  ultimately show ?thesis by (simp add: r_def)
qed

text \<open>Paging is invisible: over one state of the table, the walk takes the rows as one list.\<close>

lemma walk_pages_whole:
  assumes ids: "row_ids db" and still: "\<And>k. db_at reads (12 + k) = db" and page: "0 < page"
  shows "walk_pages sha opts reads page through k cursor wk =
    push_all sha opts (map (chained_event_of sha False) (rows_after db (vo_tenant opts) cursor through)) wk"
proof (induction "length (rows_after db (vo_tenant opts) cursor through)" arbitrary: k cursor wk rule: less_induct)
  case less
  let ?all = "rows_after db (vo_tenant opts) cursor through"
  let ?ev = "chained_event_of sha False"
  have rows: "read_chain_rows (db_at reads (12 + k)) (page_query (vo_tenant opts) cursor page through) = take page ?all"
    unfolding still by (rule page_is_take)
  show ?case
  proof (cases "length ?all < page")
    case True
    then have "take page ?all = ?all" by simp
    then show ?thesis
      by (subst walk_pages.simps, unfold rows Let_def) (use True in \<open>auto split: option.splits\<close>)
  next
    case False
    then have full: "length (take page ?all) = page" "take page ?all \<noteq> []" using page by auto
    let ?next = "(row_seq (last (take page ?all)), Some (ar_row (last (take page ?all))))"
    have rest: "rows_after db (vo_tenant opts) ?next through = drop page ?all"
      by (rule page_then_rest [OF ids page]) (use False in simp)
    then have "length (rows_after db (vo_tenant opts) ?next through) < length ?all"
      using False page by simp
    note IH = less [OF this, unfolded rest]
    have "map ?ev ?all = map ?ev (take page ?all) @ map ?ev (drop page ?all)"
      by (metis append_take_drop_id map_append)
    then have "push_all sha opts (map ?ev ?all) wk = (case push_all sha opts (map ?ev (take page ?all)) wk of
        None \<Rightarrow> None | Some (Some found, wk') \<Rightarrow> Some (Some found, wk')
      | Some (None, wk') \<Rightarrow> push_all sha opts (map ?ev (drop page ?all)) wk')"
      by (simp only: push_all_append)
    then show ?thesis
      by (subst walk_pages.simps, unfold rows Let_def) (use full IH in \<open>auto split: option.splits\<close>)
  qed
qed

section \<open>A pruned trail\<close>

text \<open>
  The trail recorded is \<open>R\<close>; of its positions each is held by its own row or covered by one tombstone,
  which names a run of the trail, and the last is held.
\<close>

definition covered :: "tombstone list \<Rightarrow> int \<Rightarrow> bool" where
  "covered ts q \<longleftrightarrow> (\<exists>x\<in>set ts. ts_from x \<le> q \<and> q \<le> ts_through x)"

definition held_at :: "audit_db \<Rightarrow> string option \<Rightarrow> int \<Rightarrow> bool" where
  "held_at db t q \<longleftrightarrow> (\<exists>r\<in>set (chain_rows db t). row_seq r = q)"

definition own_run :: "string option \<Rightarrow> chained_event list \<Rightarrow> tombstone \<Rightarrow> bool" where
  "own_run t R x \<longleftrightarrow> ts_tenant x = t \<and> run_of_trail R x \<and> ts_count x = ts_through x - ts_from x + 1"

definition true_row :: "(string \<Rightarrow> digest) \<Rightarrow> chained_event list \<Rightarrow> audit_row \<Rightarrow> bool" where
  "true_row sha R r \<longleftrightarrow> 1 \<le> row_seq r \<and> row_seq r \<le> int (length R) \<and> ar_hash r \<noteq> None \<and>
     chained_event_of sha False r = R ! nat (row_seq r - 1)"

definition runs_apart :: "tombstone list \<Rightarrow> bool" where
  "runs_apart ts \<longleftrightarrow> (\<forall>x\<in>set ts. \<forall>y\<in>set ts. \<forall>q. ts_from x \<le> q \<and> q \<le> ts_through x \<and> ts_from y \<le> q \<and> q \<le> ts_through y \<longrightarrow> x = y)"

definition trail_sound ::
  "(string \<Rightarrow> digest) \<Rightarrow> string option \<Rightarrow> chained_event list \<Rightarrow> audit_db \<Rightarrow> tombstone list \<Rightarrow> bool" where
  "trail_sound sha t R db ts \<longleftrightarrow> linked sha t None R \<and> row_ids db \<and> distinct (map row_seq (chain_rows db t)) \<and>
     (\<forall>r\<in>set (chain_rows db t). true_row sha R r) \<and> (\<forall>x\<in>set ts. own_run t R x) \<and> runs_apart ts \<and>
     (\<forall>q. 1 \<le> q \<and> q \<le> int (length R) \<longrightarrow> (held_at db t q \<longleftrightarrow> \<not> covered ts q)) \<and>
     (R \<noteq> [] \<longrightarrow> held_at db t (int (length R)))"

text \<open>No run has one of two neighbouring positions and not the other's boundary between them.\<close>

definition boundary :: "tombstone list \<Rightarrow> int \<Rightarrow> bool" where
  "boundary ts p \<longleftrightarrow> (\<forall>x\<in>set ts. \<not> (ts_from x \<le> p \<and> p < ts_through x))"

definition at_link :: "chained_event list \<Rightarrow> int \<Rightarrow> chain_link option \<Rightarrow> bool" where
  "at_link R p h \<longleftrightarrow> head_seq h = p \<and> head_hash h = trail_hash R p"

definition honest_options :: "string option \<Rightarrow> chained_event list \<Rightarrow> tombstone list \<Rightarrow> verifier_options \<Rightarrow> bool" where
  "honest_options t R ts opts \<longleftrightarrow> vo_tenant opts = t \<and> set (own_tombstones opts) = set ts \<and>
     true_checkpoints t R (vo_checkpoints opts)"

lemma honest_agrees:
  assumes "honest_options t R ts opts" "Some d = trail_hash R p" shows "\<not> disagrees opts p d"
proof (cases "by_count opts p")
  case (Some c)
  from by_count_in [OF Some] assms(1) have "Some (cp_head c) = trail_hash R p"
    by (auto simp: honest_options_def true_checkpoints_def own_checkpoints_def)
  with assms(2) have "cp_head c = d" by (metis option.inject)
  with Some show ?thesis by (simp add: disagrees_def)
qed (simp add: disagrees_def)

lemma held_boundary:
  assumes "trail_sound sha t R db ts" "held_at db t p" shows "boundary ts p" "boundary ts (p - 1)" "1 \<le> p" "p \<le> int (length R)"
proof -
  from assms(2) obtain r where r: "r \<in> set (chain_rows db t)" "row_seq r = p" by (auto simp: held_at_def)
  with assms(1) have "true_row sha R r" unfolding trail_sound_def by blast
  with r(2) show p: "1 \<le> p" "p \<le> int (length R)" by (simp_all add: true_row_def)
  with assms have "\<not> covered ts p" unfolding trail_sound_def by blast
  then show "boundary ts p" "boundary ts (p - 1)" by (fastforce simp: boundary_def covered_def)+
qed

lemma bridge_to:
  assumes sound: "trail_sound sha t R db ts" and opts: "honest_options t R us opts" and sub: "set us \<subseteq> set ts" and held: "held_at db t p"
  shows "at_link R n (wk_head wk) \<Longrightarrow> 0 \<le> n \<Longrightarrow> n < p \<Longrightarrow> boundary ts n \<Longrightarrow> \<forall>q. n < q \<and> q < p \<longrightarrow> covered us q \<Longrightarrow>
    \<exists>wk'. bridge opts p wk = Some (None, wk') \<and> at_link R (p - 1) (wk_head wk') \<and> wk_checked wk' = wk_checked wk"
proof (induction "nat (p - n)" arbitrary: n wk rule: less_induct)
  case less
  have head: "head_seq (wk_head wk) = n" "head_hash (wk_head wk) = trail_hash R n"
    using less.prems(1) by (simp_all add: at_link_def)
  have free: "\<not> covered ts p" using sound held held_boundary [OF sound held] unfolding trail_sound_def by blast
  show ?case
  proof (cases "p \<le> n + 1")
    case True
    then have "bridge opts p wk = Some (None, wk)" by (subst bridge_unfold) (simp add: head)
    moreover have "n = p - 1" using True less.prems(3) by simp
    ultimately show ?thesis using less.prems(1) by simp
  next
    case False
    then obtain x where x': "x \<in> set us" "ts_from x \<le> n + 1" "n + 1 \<le> ts_through x"
      using less.prems(5) [rule_format, of "n + 1"] by (auto simp: covered_def)
    then have x: "x \<in> set ts" "ts_from x \<le> n + 1" "n + 1 \<le> ts_through x" using sub by auto
    with less.prems(4) have starts: "ts_from x = n + 1" by (force simp: boundary_def)
    have run: "own_run t R x" using sound x(1) by (simp add: trail_sound_def)
    have stops: "ts_through x < p" using free x starts False by (force simp: covered_def)
    have "bridges (wk_head wk) p x"
      using run starts stops by (simp add: bridges_def head own_run_def run_of_trail_def)
    moreover have "x \<in> set (own_tombstones opts)" using opts x'(1) by (simp add: honest_options_def)
    ultimately obtain y where y: "find (bridges (wk_head wk) p) (own_tombstones opts) = Some y"
      by (cases "find (bridges (wk_head wk) p) (own_tombstones opts)") (auto simp: find_none_iff)
    from find_in_set [OF y] opts sub have y': "y \<in> set ts" "ts_from y = n + 1"
      by (auto simp: honest_options_def bridges_def head)
    have run_y: "own_run t R y" using sound y'(1) by (simp add: trail_sound_def)
    then have "ts_from y \<le> ts_through y" by (simp add: own_run_def run_of_trail_def)
    with sound x starts y' have "y = x" unfolding trail_sound_def runs_apart_def by (metis order_refl)
    note y = y [unfolded this]
    have agree: "\<not> disagrees opts (ts_from x) (ts_first x)" "\<not> disagrees opts (ts_through x) (ts_last x)"
      using run by (auto simp: own_run_def run_of_trail_def intro!: honest_agrees [OF opts])
    have step: "bridge opts p wk = bridge opts p (cross x wk)"
      by (subst bridge_unfold) (use y agree head False in simp)
    have bound: "boundary ts (ts_through x)" unfolding boundary_def
    proof (intro ballI notI)
      fix z assume z: "z \<in> set ts" "ts_from z \<le> ts_through x \<and> ts_through x < ts_through z"
      with sound x starts have "z = x" unfolding trail_sound_def runs_apart_def by (metis order_less_imp_le order_refl x(3))
      with z(2) show False by simp
    qed
    have "at_link R (ts_through x) (wk_head (cross x wk))"
      using run by (simp add: at_link_def own_run_def run_of_trail_def)
    from less.hyps [OF _ this _ stops bound] less.prems(2,5) x(3) starts False
    have "\<exists>wk'. bridge opts p (cross x wk) = Some (None, wk') \<and> at_link R (p - 1) (wk_head wk') \<and>
        wk_checked wk' = wk_checked (cross x wk)" by auto
    with step show ?thesis by simp
  qed
qed

text \<open>Rows that leave out only covered positions.\<close>

fun gaps_covered :: "tombstone list \<Rightarrow> int \<Rightarrow> audit_row list \<Rightarrow> bool" where
  "gaps_covered ts n [] = True"
| "gaps_covered ts n (r # rs) \<longleftrightarrow> n < row_seq r \<and> (\<forall>q. n < q \<and> q < row_seq r \<longrightarrow> covered ts q) \<and> gaps_covered ts (row_seq r) rs"

definition last_seq :: "int \<Rightarrow> audit_row list \<Rightarrow> int" where
  "last_seq n rs = (if rs = [] then n else row_seq (last rs))"

lemma last_seq_simps [simp]: "last_seq n [] = n" "last_seq n (r # rs) = last_seq (row_seq r) rs"
  by (simp_all add: last_seq_def)

lemma push_true_row:
  assumes sound: "trail_sound sha t R db ts" and opts: "honest_options t R us opts" and sub: "set us \<subseteq> set ts" and r: "r \<in> set (chain_rows db t)"
    and det: "vo_values opts \<longrightarrow> detail"
    and lk: "at_link R n (wk_head wk)" "0 \<le> n" "n < row_seq r" "boundary ts n" "\<forall>q. n < q \<and> q < row_seq r \<longrightarrow> covered us q"
  shows "\<exists>wk'. push sha opts (chained_event_of sha detail r) wk = Some (None, wk') \<and> at_link R (row_seq r) (wk_head wk') \<and>
    wk_checked wk' = wk_checked wk + 1"
proof -
  let ?e = "chained_event_of sha detail r" and ?p = "row_seq r"
  have held: "held_at db t ?p" using r by (auto simp: held_at_def)
  obtain wkb where b: "bridge opts ?p wk = Some (None, wkb)" "at_link R (?p - 1) (wk_head wkb)" "wk_checked wkb = wk_checked wk"
    using bridge_to [OF sound opts sub held lk] by blast
  have true: "true_row sha R r" and linked: "linked sha t None R" using sound r by (simp_all add: trail_sound_def)
  let ?f = "chained_event_of sha False r"
  have i: "nat (?p - 1) < length R" "int (nat (?p - 1)) = ?p - 1" "R ! nat (?p - 1) = ?f"
    using true by (auto simp: true_row_def)
  from linked_nth [OF linked i(1), unfolded i(2,3)]
  have f: "ce_prev ?f = trail_hash R (?p - 1)" "ce_hash ?f = chain_hash sha (ce_seq ?f) (ce_prev ?f) ?f" "ev_tenant ?f = t"
    by blast+
  have hash: "trail_hash R ?p = Some (ce_hash ?e)"
  proof -
    have "trail_hash R ?p = Some (ce_hash ?f)" using i true by (simp only: trail_hash_def true_row_def) auto
    then show ?thesis by simp
  qed
  have "next_event sha (vo_tenant opts) (wk_head wkb) ?e"
    using f b(2) opts by (simp add: next_event_def at_link_def honest_options_def)
  moreover have "opens sha opts ?e"
  proof -
    have "\<not> commitment_fails sha (vo_values opts) ?e"
      using row_commitments [of sha True r] row_commitments [of sha False r] det
      by (cases detail; cases "vo_values opts") (auto simp: commitment_fails_def committed_values_def chained_event_of_def
        Let_def chained_fields.defs)
    moreover have "\<not> disagrees opts (ce_seq ?e) (ce_hash ?e)"
      using honest_agrees [OF opts, of "ce_hash ?e" ?p] hash by simp
    ultimately show ?thesis by (simp add: opens_def)
  qed
  ultimately have "push sha opts ?e wk = Some (None, step_over ?e wkb)"
    unfolding push_accepts using b(1) by auto
  then show ?thesis using b(3) hash by (simp add: at_link_def)
qed

lemma walk_true_rows:
  assumes sound: "trail_sound sha t R db ts" and opts: "honest_options t R us opts" and sub: "set us \<subseteq> set ts" and det: "vo_values opts \<longrightarrow> detail"
  shows "set rs \<subseteq> set (chain_rows db t) \<Longrightarrow> gaps_covered us n rs \<Longrightarrow> at_link R n (wk_head wk) \<Longrightarrow> 0 \<le> n \<Longrightarrow> boundary ts n \<Longrightarrow>
    \<exists>wk'. push_all sha opts (map (chained_event_of sha detail) rs) wk = Some (None, wk') \<and>
      at_link R (last_seq n rs) (wk_head wk') \<and> wk_checked wk' = wk_checked wk + length rs"
proof (induction rs arbitrary: n wk)
  case (Cons r rs)
  have r: "r \<in> set (chain_rows db t)" using Cons.prems(1) by simp
  then have held: "held_at db t (row_seq r)" by (auto simp: held_at_def)
  obtain wk1 where one: "push sha opts (chained_event_of sha detail r) wk = Some (None, wk1)"
    "at_link R (row_seq r) (wk_head wk1)" "wk_checked wk1 = wk_checked wk + 1"
    using push_true_row [OF sound opts sub r det Cons.prems(3,4) _ Cons.prems(5)] Cons.prems(2) by auto
  from Cons.IH [OF _ _ one(2) _ held_boundary(1) [OF sound held]] Cons.prems one(3) held_boundary(3) [OF sound held]
  obtain wk' where "push_all sha opts (map (chained_event_of sha detail) rs) wk1 = Some (None, wk')"
    "at_link R (last_seq (row_seq r) rs) (wk_head wk')" "wk_checked wk' = wk_checked wk1 + length rs" by fastforce
  with one show ?case by simp
qed simp

section \<open>Reading a sound trail\<close>

lemma chain_rows_in: "r \<in> set (chain_rows db t) \<longleftrightarrow> r \<in> set (db_rows db) \<and> in_chain t r"
  by (auto simp: chain_rows_def)

lemma sound_row:
  assumes "trail_sound sha t R db ts" "r \<in> set (chain_rows db t)"
  shows "true_row sha R r" "ar_seq r = Some (row_seq r)" "at_link R (row_seq r) (link_of (Some r))"
proof -
  show true: "true_row sha R r" using assms unfolding trail_sound_def by blast
  obtain p where p: "ar_seq r = Some p" using assms(2) by (auto simp: chain_rows_in in_chain_def)
  then show seq: "ar_seq r = Some (row_seq r)" by (simp add: row_seq_def)
  obtain h where h: "ar_hash r = Some h" using true by (auto simp: true_row_def)
  have "chained_event_of sha False r = R ! nat (row_seq r - 1)" using true by (simp add: true_row_def)
  from arg_cong [OF this, of ce_hash] have "ce_hash (R ! nat (row_seq r - 1)) = h" by (simp add: h)
  then have "trail_hash R (row_seq r) = Some h" using true by (auto simp: true_row_def trail_hash_def)
  then show "at_link R (row_seq r) (link_of (Some r))" by (simp add: at_link_def link_of_def seq h)
qed

lemma sound_unique:
  "trail_sound sha t R db ts \<Longrightarrow> r \<in> set (chain_rows db t) \<Longrightarrow> s \<in> set (chain_rows db t) \<Longrightarrow> row_seq r = row_seq s \<Longrightarrow> r = s"
  by (auto simp: trail_sound_def distinct_map dest: inj_onD)

lemma link_at_row:
  assumes sound: "trail_sound sha t R db ts" and r: "r \<in> set (chain_rows db t)"
  shows "read_chain_link db t (row_seq r) = link_of (Some r)"
proof -
  let ?P = "\<lambda>x. ev_tenant x = t \<and> ar_seq x = Some (row_seq r)"
  have "find ?P (db_rows db) \<noteq> None"
    using r sound_row(2) [OF sound r] by (auto simp: find_none_iff chain_rows_in in_chain_def)
  then obtain x where x: "find ?P (db_rows db) = Some x" by blast
  from find_in_set [OF this] have "x \<in> set (chain_rows db t)" "row_seq x = row_seq r"
    by (auto simp: chain_rows_in in_chain_def row_seq_def)
  from sound_unique [OF sound this(1) r this(2)] x show ?thesis by (simp add: read_chain_link_def)
qed

lemma no_link:
  assumes "\<not> held_at db t p" shows "read_chain_link db t p = None"
proof -
  have "find (\<lambda>x. ev_tenant x = t \<and> ar_seq x = Some p) (db_rows db) = None"
    unfolding find_none_iff
  proof (intro ballI notI)
    fix x assume x: "x \<in> set (db_rows db)" "ev_tenant x = t \<and> ar_seq x = Some p"
    then have "x \<in> set (chain_rows db t)" "row_seq x = p" by (simp_all add: chain_rows_in in_chain_def row_seq_def)
    with assms show False by (auto simp: held_at_def)
  qed
  then show ?thesis by (simp add: read_chain_link_def link_of_def)
qed

lemma link_before_sound:
  assumes sound: "trail_sound sha t R db ts" and p: "1 \<le> p" "p \<le> int (length R)" "boundary ts p"
  shows "\<exists>l. link_before db t p ts = Some l \<and> at_link R p (Some l)"
proof (cases "held_at db t p")
  case True
  then obtain r where r: "r \<in> set (chain_rows db t)" "row_seq r = p" by (auto simp: held_at_def)
  from sound_row(3) [OF sound r(1)] link_at_row [OF sound r(1)] r(2)
  have "at_link R p (read_chain_link db t p)" by simp
  with p(1) show ?thesis by (cases "read_chain_link db t p") (auto simp: link_before_def at_link_def)
next
  case False
  with sound p(1,2) have "covered ts p" unfolding trail_sound_def by blast
  with p(3) obtain x where "x \<in> set ts" "ts_through x = p" by (force simp: covered_def boundary_def)
  then obtain y where y: "tombstone_ending_at ts p = Some y"
    by (cases "tombstone_ending_at ts p") (auto simp: tombstone_ending_at_def find_none_iff)
  from find_in_set [OF this [unfolded tombstone_ending_at_def]] have "y \<in> set ts" "ts_through y = p" by simp_all
  with sound have "own_run t R y" unfolding trail_sound_def by blast
  with \<open>ts_through y = p\<close> y no_link [OF False] show ?thesis
    by (simp add: link_before_def at_link_def own_run_def run_of_trail_def)
qed

lemma sound_head:
  assumes sound: "trail_sound sha t R db ts"
  shows "at_link R (int (length R)) (read_chain_head db t)" and "read_chain_head db t = None \<longleftrightarrow> R = []"
proof -
  let ?rs = "chain_rows db t"
  have bounds: "1 \<le> row_seq r \<and> row_seq r \<le> int (length R)" if "r \<in> set ?rs" for r
    using sound_row(1) [OF sound that] by (simp add: true_row_def)
  have head: "read_chain_head db t = link_of (first_row (sort_key (\<lambda>r. - row_seq r) ?rs))"
    by (simp add: read_chain_head_def chain_rows_def)
  have "at_link R (int (length R)) (read_chain_head db t) \<and> (read_chain_head db t = None \<longleftrightarrow> R = [])"
  proof (cases "R = []")
    case True
    then have "?rs = []" using bounds by (cases ?rs) fastforce+
    then show ?thesis using True by (simp add: head link_of_def first_row_def at_link_def trail_hash_def)
  next
    case False
    then obtain z where z: "z \<in> set ?rs" "row_seq z = int (length R)"
      using sound unfolding trail_sound_def held_at_def by blast
    then obtain r rs where s: "sort_key (\<lambda>r. - row_seq r) ?rs = r # rs"
      by (cases "sort_key (\<lambda>r. - row_seq r) ?rs") (auto dest: arg_cong [of _ _ set])
    have r: "r \<in> set ?rs" using arg_cong [OF s, of set] by auto
    have "sorted (map (\<lambda>r. - row_seq r) (r # rs))" unfolding s [symmetric] by simp
    moreover have "z \<in> set (r # rs)" using arg_cong [OF s, of set] z(1) by simp
    ultimately have "row_seq z \<le> row_seq r" by auto
    with z bounds [OF r] have "row_seq r = int (length R)" by simp
    with sound_row(3) [OF sound r] have "at_link R (int (length R)) (read_chain_head db t)"
      by (simp add: head s first_row_def)
    with False show ?thesis by (cases "read_chain_head db t") (auto simp: at_link_def)
  qed
  then show "at_link R (int (length R)) (read_chain_head db t)" "read_chain_head db t = None \<longleftrightarrow> R = []" by blast+
qed

lemma gaps_covered_intro:
  "sorted_wrt (<) (map row_seq rs) \<Longrightarrow> \<forall>r\<in>set rs. n < row_seq r \<Longrightarrow>
     \<forall>r\<in>set rs. \<forall>q. n < q \<and> q < row_seq r \<longrightarrow> covered ts q \<or> q \<in> row_seq ` set rs \<Longrightarrow> gaps_covered ts n rs"
proof (induction rs arbitrary: n)
  case (Cons r rs)
  have up: "row_seq r < row_seq x" if "x \<in> set rs" for x using Cons.prems(1) that by simp
  have first: "n < row_seq r" using Cons.prems(2) by simp
  have "covered ts q" if q: "n < q" "q < row_seq r" for q
  proof -
    have "q \<notin> row_seq ` set (r # rs)" using q(2) up by force
    with Cons.prems(3) [rule_format, of r q] q show ?thesis by simp
  qed
  moreover have "gaps_covered ts (row_seq r) rs"
  proof (rule Cons.IH)
    show "\<forall>x\<in>set rs. \<forall>q. row_seq r < q \<and> q < row_seq x \<longrightarrow> covered ts q \<or> q \<in> row_seq ` set rs"
    proof (intro ballI allI impI)
      fix x q assume x: "x \<in> set rs" and q: "row_seq r < q \<and> q < row_seq x"
      with Cons.prems(3) [rule_format, of x q] first have "covered ts q \<or> q \<in> row_seq ` set (r # rs)" by simp
      with q show "covered ts q \<or> q \<in> row_seq ` set rs" by simp
    qed
  qed (use Cons.prems(1) up in simp_all)
  ultimately show ?case using first by simp
qed simp

lemma rows_after_gaps:
  assumes sound: "trail_sound sha t R db ts" and n: "0 \<le> n"
    and i: "\<And>k r. i = Some k \<Longrightarrow> r \<in> set (chain_rows db t) \<Longrightarrow> row_seq r = n \<Longrightarrow> \<not> k < ar_row r"
  shows "gaps_covered ts n (rows_after db t (n, i) through)" and "set (rows_after db t (n, i) through) \<subseteq> set (chain_rows db t)"
    and "r \<in> set (rows_after db t (n, i) through) \<longleftrightarrow> r \<in> set (chain_rows db t) \<and> n < row_seq r \<and> row_seq r \<le> through"
proof -
  let ?L = "rows_after db t (n, i) through"
  have mem: "r \<in> set ?L \<longleftrightarrow> r \<in> set (chain_rows db t) \<and> n < row_seq r \<and> row_seq r \<le> through" for r
    using i by (auto simp: rows_after_in chain_rows_in split: option.splits)
  then show "r \<in> set ?L \<longleftrightarrow> r \<in> set (chain_rows db t) \<and> n < row_seq r \<and> row_seq r \<le> through" .
  show "set ?L \<subseteq> set (chain_rows db t)" using mem by blast
  have "row_ids db" using sound unfolding trail_sound_def by blast
  from rows_after_sorted [OF this] have sorted: "sorted_wrt row_before ?L" .
  have "sorted_wrt (<) (map row_seq ?L)"
    unfolding sorted_wrt_map
  proof (rule sorted_wrt_mono_rel [OF _ sorted])
    fix x y assume xy: "x \<in> set ?L" "y \<in> set ?L" "row_before x y"
    then have "x \<noteq> y" by (auto simp: row_before_def)
    with xy mem sound_unique [OF sound, of x y] show "row_seq x < row_seq y" by (auto simp: row_before_def)
  qed
  moreover have "covered ts q \<or> q \<in> row_seq ` set ?L" if "r \<in> set ?L" "n < q" "q < row_seq r" for r q
  proof (rule ccontr)
    assume no: "\<not> (covered ts q \<or> q \<in> row_seq ` set ?L)"
    have "row_seq r \<le> int (length R)" using that(1) mem sound_row(1) [OF sound] by (auto simp: true_row_def)
    with sound no that(2,3) n have "held_at db t q" unfolding trail_sound_def by auto
    then obtain x where "x \<in> set (chain_rows db t)" "row_seq x = q" by (auto simp: held_at_def)
    moreover from that(1) mem have "row_seq r \<le> through" by blast
    ultimately have "x \<in> set ?L" using that(2,3) unfolding mem by simp
    with \<open>row_seq x = q\<close> no show False by blast
  qed
  ultimately show "gaps_covered ts n ?L" using mem by (intro gaps_covered_intro) blast+
qed

section \<open>Verifying a sound trail\<close>

definition bucket_sound :: "string option \<Rightarrow> chained_event list \<Rightarrow> audit_bucket \<Rightarrow> bool" where
  "bucket_sound t R b \<longleftrightarrow> keys_distinct b \<and> true_checkpoints t R [c. (key, Holds_checkpoint c) \<leftarrow> b] \<and>
     (\<forall>n y. 0 \<le> n \<longrightarrow> bucket_get b (tombstone_key t n) = Some y \<longrightarrow>
        (\<exists>x. y = Holds_tombstone x \<and> ts_tenant x = t \<and> ts_from x = n))"

definition trail_stored :: "(string \<Rightarrow> digest) \<Rightarrow> string option \<Rightarrow> chained_event list \<Rightarrow> audit_db \<times> audit_bucket \<Rightarrow> bool" where
  "trail_stored sha t R s \<longleftrightarrow> bucket_sound t R (snd s) \<and> trail_sound sha t R (fst s) (read_tombstones (snd s) t)"

lemma bucket_checkpoints:
  assumes "bucket_sound t R b" shows "true_checkpoints t R (read_checkpoints b t f h es)"
proof -
  have "c \<in> set [c. (key, Holds_checkpoint c) \<leftarrow> b]" if "c \<in> set (read_checkpoints b t f h es)" for c
    using read_checkpoints_holds [OF _ that] assms by (force simp: bucket_sound_def)
  with assms show ?thesis by (auto simp: bucket_sound_def true_checkpoints_def)
qed

lemma honest_read:
  assumes "bucket_sound t R b" "trail_sound sha t R db (read_tombstones b t)"
  shows "honest_options t R (read_tombstones b t)
    \<lparr>vo_tenant = t, vo_prior = prior, vo_checkpoints = read_checkpoints b t f h es, vo_tombstones = read_tombstones b t,
     vo_values = v\<rparr>"
  using bucket_checkpoints [OF assms(1)] assms(2)
  by (auto simp: honest_options_def own_tombstones_def trail_sound_def own_run_def)

definition walk_options :: "string option \<Rightarrow> audit_bucket \<Rightarrow> chain_link option \<Rightarrow> resolved_range \<Rightarrow> verifier_options" where
  "walk_options t b prior rng = \<lparr>vo_tenant = t, vo_prior = prior, vo_checkpoints = read_checkpoints b t (rr_from rng)
     (if rr_to_head rng then None else Some (rr_through rng)) (list_checkpoints b t), vo_tombstones = read_tombstones b t,
     vo_values = False\<rparr>"

lemma resolved_sound:
  fixes b :: audit_bucket
  assumes sound: "trail_sound sha t R db ts" and q: "cq_tenant q = t"
  defines "rng \<equiv> resolve_range (\<lambda>_. (db, b)) q"
  shows "1 \<le> rr_from rng" "rr_from rng \<le> int (length R) + 1" "boundary ts (rr_from rng - 1)"
    "rr_through rng \<le> int (length R)" "rr_to_head rng \<Longrightarrow> rr_through rng = int (length R)"
proof -
  have head: "head_seq (read_chain_head db t) = int (length R)" using sound_head(1) [OF sound] by (simp add: at_link_def)
  have row: "held_at db t (row_seq r)" if "r \<in> set (db_rows db)" "in_chain t r" for r
    using that by (auto simp: held_at_def chain_rows_in)
  have "ts_from x \<ge> 1 \<and> ts_through x \<le> int (length R)" if "x \<in> set ts" for x
    using sound that by (auto simp: trail_sound_def own_run_def run_of_trail_def)
  then have ends: "boundary ts 0" "boundary ts (int (length R))" by (fastforce simp: boundary_def)+
  have fr: "rr_from rng = 1 \<or> rr_from rng = int (length R) + 1 \<or> held_at db t (rr_from rng)"
  proof (cases "cq_since q")
    case (Some u)
    show ?thesis
    proof (cases "first_since db t u")
      case None
      then show ?thesis using Some by (simp add: rng_def resolve_range_def db_at_def q head)
    next
      case first: (Some p)
      then have "held_at db t p" using row least_of_some by (fastforce simp: first_since_def)
      then show ?thesis using Some first by (simp add: rng_def resolve_range_def db_at_def q)
    qed
  qed (simp add: rng_def resolve_range_def)
  then show "1 \<le> rr_from rng" "rr_from rng \<le> int (length R) + 1" "boundary ts (rr_from rng - 1)"
    using ends held_boundary [OF sound] by fastforce+
  show "rr_through rng \<le> int (length R)"
  proof (cases "cq_until q")
    case (Some u)
    show ?thesis
    proof (cases "last_until db t u")
      case None
      then show ?thesis using Some by (simp add: rng_def resolve_range_def db_at_def q)
    next
      case last: (Some p)
      then have "held_at db t p" using row greatest_of_some by (fastforce simp: last_until_def)
      from held_boundary(4) [OF sound this] show ?thesis
        using Some last by (simp add: rng_def resolve_range_def db_at_def q)
    qed
  qed (simp add: rng_def resolve_range_def db_at_def q head)
  show "rr_to_head rng \<Longrightarrow> rr_through rng = int (length R)"
    by (cases "cq_until q") (simp_all add: rng_def resolve_range_def Let_def db_at_def q head)
qed

lemma rows_reach_head:
  assumes sound: "trail_sound sha t R db ts" and n: "0 \<le> n" "n \<le> int (length R)"
    and i: "\<And>k r. i = Some k \<Longrightarrow> r \<in> set (chain_rows db t) \<Longrightarrow> row_seq r = n \<Longrightarrow> \<not> k < ar_row r"
  shows "last_seq n (rows_after db t (n, i) (int (length R))) = int (length R)"
proof -
  let ?rows = "rows_after db t (n, i) (int (length R))"
  have mem: "r \<in> set ?rows \<longleftrightarrow> r \<in> set (chain_rows db t) \<and> n < row_seq r \<and> row_seq r \<le> int (length R)" for r
    using rows_after_gaps(3) [OF sound n(1) i] .
  show ?thesis
  proof (cases "n = int (length R)")
    case False
    with n have "R \<noteq> []" by auto
    with sound obtain z where z: "z \<in> set (chain_rows db t)" "row_seq z = int (length R)"
      unfolding trail_sound_def held_at_def by blast
    then have in_rows: "z \<in> set ?rows" unfolding mem using False n by simp
    then have some: "?rows \<noteq> []" by auto
    have sorted: "sorted_wrt row_before ?rows" using sound rows_after_sorted by (simp add: trail_sound_def)
    have "row_seq z \<le> row_seq (last ?rows)"
    proof (cases "z = last ?rows")
      case False
      have split: "?rows = butlast ?rows @ [last ?rows]" using some by simp
      with in_rows have "z \<in> set (butlast ?rows @ [last ?rows])" by metis
      with False have "z \<in> set (butlast ?rows)" by auto
      moreover have "sorted_wrt row_before (butlast ?rows @ [last ?rows])" using sorted some by simp
      ultimately have "row_before z (last ?rows)" by (simp add: sorted_wrt_append)
      then show ?thesis by (auto simp: row_before_def)
    qed simp
    moreover have "row_seq (last ?rows) \<le> int (length R)"
      using mem [of "last ?rows"] some last_in_set by blast
    ultimately show ?thesis using z(2) some by (simp add: last_seq_def)
  next
    case True
    then have "?rows = []" using mem [of "hd ?rows"] by (cases ?rows) auto
    then show ?thesis using True by simp
  qed
qed

lemma sound_walk:
  assumes stored: "trail_stored sha t R (db, b)" and page: "0 < page" and q: "cq_tenant q = t"
  defines "rng \<equiv> resolve_range (\<lambda>_. (db, b)) q"
  shows "\<exists>v. walk_range sha True (\<lambda>_. (db, b)) page q = Some v \<and> rv_intact v \<and>
    rv_checked v = length [r \<leftarrow> chain_rows db t. rr_from rng \<le> row_seq r \<and> row_seq r \<le> rr_through rng]"
proof -
  let ?ts = "read_tombstones b t" and ?n = "rr_from rng - 1"
  define pr where "pr = (if rr_from rng > 1 then link_before db t ?n ?ts else None)"
  let ?o = "walk_options t b pr rng"
  have bucket: "bucket_sound t R b" and sound: "trail_sound sha t R db ?ts" using stored by (simp_all add: trail_stored_def)
  note res = resolved_sound [OF sound q, where b = b, folded rng_def]
  have opts: "honest_options t R ?ts ?o" unfolding walk_options_def by (rule honest_read [OF bucket sound])
  have prior: "at_link R ?n pr \<and> (rr_from rng > 1 \<longrightarrow> pr \<noteq> None)"
  proof (cases "rr_from rng > 1")
    case True
    then show ?thesis using link_before_sound [OF sound, of ?n] res by (auto simp: pr_def)
  next
    case False
    then show ?thesis using res(1) by (simp add: pr_def at_link_def trail_hash_def)
  qed
  let ?rows = "rows_after db t (?n, None) (rr_through rng)"
  have gaps: "gaps_covered ?ts ?n ?rows" "set ?rows \<subseteq> set (chain_rows db t)"
    using rows_after_gaps(1,2) [OF sound, of ?n None "rr_through rng"] res(1) by auto
  have "vo_prior ?o = pr" by (simp add: walk_options_def)
  then obtain wk where wk: "push_all sha ?o (map (chained_event_of sha False) ?rows) (start_walk ?o) = Some (None, wk)"
    "at_link R (last_seq ?n ?rows) (wk_head wk)" "wk_checked wk = length ?rows"
    using walk_true_rows [OF sound opts subset_refl _ gaps(2,1), where wk = "start_walk ?o" and detail = False] prior res(1,3)
    by (auto simp: start_walk_def walk_options_def)
  have pages: "walk_pages sha ?o (\<lambda>_. (db, b)) page (rr_through rng) 0 (?n, None) (start_walk ?o) = Some (None, wk)"
    using walk_pages_whole [where db = db and reads = "\<lambda>_. (db, b)", OF _ _ page] sound wk(1)
    by (simp add: trail_sound_def db_at_def walk_options_def)
  have mem: "r \<in> set ?rows \<longleftrightarrow> r \<in> set (chain_rows db t) \<and> ?n < row_seq r \<and> row_seq r \<le> rr_through rng" for r
    using rows_after_gaps(3) [OF sound, of ?n None] res(1) by simp
  have "last_seq ?n ?rows = int (length R)" if "rr_to_head rng"
    unfolding res(5) [OF that] by (rule rows_reach_head [OF sound]) (use res(1,2) in auto)
  then have fin: "finish ?o (rr_to_head rng) wk = None"
    using wk(2) opts by (auto simp: finish_ok at_link_def honest_options_def own_checkpoints_def true_checkpoints_def)
  have count: "length ?rows = length [r \<leftarrow> chain_rows db t. rr_from rng \<le> row_seq r \<and> row_seq r \<le> rr_through rng]"
  proof -
    have "filter (row_after (page_query t (?n, None) 0 (rr_through rng))) (db_rows db)
        = [r \<leftarrow> chain_rows db t. rr_from rng \<le> row_seq r \<and> row_seq r \<le> rr_through rng]"
      unfolding chain_rows_def filter_filter by (rule filter_cong) auto
    then show ?thesis by (simp add: rows_after_def)
  qed
  note walk = walk_range_def [of sha True "\<lambda>_. (db, b)" page q, unfolded Let_def q rng_def [symmetric] db_at_def
      bucket_at_def fst_conv snd_conv if_True pr_def [symmetric] walk_options_def [symmetric]]
  show ?thesis
  proof (cases "rr_through rng < rr_from rng")
    case True
    then have "?rows = []" using mem [of "hd ?rows"] by (cases ?rows) auto
    with wk(1) have "wk = start_walk ?o" by simp
    with True prior fin count \<open>?rows = []\<close> show ?thesis unfolding walk by (simp add: start_walk_def)
  next
    case False
    with prior fin pages count wk(3) show ?thesis unfolding walk by simp
  qed
qed

section \<open>Exporting a sound trail\<close>

lemma gaps_take: "gaps_covered ts n rs \<Longrightarrow> gaps_covered ts n (take k rs)"
  by (induction rs arbitrary: n k) (auto simp: take_Cons split: nat.splits)

text \<open>Where a page may start: the range's start, or the row a cursor names.\<close>

definition cursor_stands :: "audit_db \<Rightarrow> string option \<Rightarrow> string option \<Rightarrow> bool" where
  "cursor_stands db t cursor \<longleftrightarrow> (case parse_export_cursor cursor of None \<Rightarrow> True
     | Some (p, i) \<Rightarrow> \<exists>r\<in>set (chain_rows db t). row_seq r = p \<and> ar_row r = i)"

lemma sound_export:
  assumes stored: "trail_stored sha t R (db, b)" and q: "cq_tenant q = t" and cursor: "cursor_stands db t (xo_cursor x)"
  shows "\<exists>v. verify_export sha (export_chain_range sha stamp True (\<lambda>_. (db, b)) q x) = Some v \<and> vf_intact v"
proof -
  let ?ts = "read_tombstones b t"
  have bucket: "bucket_sound t R b" and sound: "trail_sound sha t R db ?ts" using stored by (simp_all add: trail_stored_def)
  define rng where "rng = resolve_range (\<lambda>_. (db, b)) q"
  note res = resolved_sound [OF sound q, where b = b, folded rng_def]
  define after where "after = (case parse_export_cursor (xo_cursor x) of
      Some (p, i) \<Rightarrow> if p \<ge> rr_from rng - 1 then (p, Some i) else (rr_from rng - 1, None)
    | None \<Rightarrow> (rr_from rng - 1, None))"
  obtain n i where ni: "after = (n, i)" by fastforce
  have start: "0 \<le> n" "n \<le> int (length R)" "boundary ?ts n" "rr_from rng - 1 \<le> n"
    and row: "\<And>k r. i = Some k \<Longrightarrow> r \<in> set (chain_rows db t) \<Longrightarrow> row_seq r = n \<Longrightarrow> \<not> k < ar_row r"
  proof -
    have "0 \<le> n \<and> n \<le> int (length R) \<and> boundary ?ts n \<and> rr_from rng - 1 \<le> n \<and>
      (\<forall>k r. i = Some k \<longrightarrow> r \<in> set (chain_rows db t) \<longrightarrow> row_seq r = n \<longrightarrow> \<not> k < ar_row r)"
    proof (cases "\<exists>p j. parse_export_cursor (xo_cursor x) = Some (p, j) \<and> p \<ge> rr_from rng - 1")
      case True
      then obtain p j where pj: "parse_export_cursor (xo_cursor x) = Some (p, j)" "p \<ge> rr_from rng - 1" by blast
      then have "n = p" "i = Some j" using ni by (simp_all add: after_def)
      obtain r where r: "r \<in> set (chain_rows db t)" "row_seq r = p" "ar_row r = j"
        using cursor pj(1) by (auto simp: cursor_stands_def)
      then have "held_at db t p" by (auto simp: held_at_def)
      note hb = held_boundary [OF sound this]
      have "\<not> k < ar_row r'" if "i = Some k" "r' \<in> set (chain_rows db t)" "row_seq r' = n" for k r'
      proof -
        have "r' = r" using sound_unique [OF sound that(2) r(1)] that(3) r(2) \<open>n = p\<close> by simp
        with r(3) that(1) \<open>i = Some j\<close> show ?thesis by simp
      qed
      moreover have "0 \<le> n" "n \<le> int (length R)" "boundary ?ts n" "rr_from rng - 1 \<le> n"
        using hb pj(2) by (simp_all add: \<open>n = p\<close>)
      ultimately show ?thesis by blast
    next
      case False
      then have "after = (rr_from rng - 1, None)" by (auto simp: after_def split: option.splits)
      with res ni show ?thesis by auto
    qed
    then show "0 \<le> n" "n \<le> int (length R)" "boundary ?ts n" "rr_from rng - 1 \<le> n"
      "\<And>k r. i = Some k \<Longrightarrow> r \<in> set (chain_rows db t) \<Longrightarrow> row_seq r = n \<Longrightarrow> \<not> k < ar_row r" by blast+
  qed
  define found where "found = (if rr_through rng \<ge> rr_from rng
    then take (xo_limit x + 1) (rows_after db t (n, i) (rr_through rng)) else [])"
  define rows where "rows = take (xo_limit x) found"
  define prior where "prior = (if n > 0 then link_before db t n ?ts else None)"
  let ?doc = "export_chain_range sha stamp True (\<lambda>_. (db, b)) q x"
  have prior: "at_link R n prior"
    using link_before_sound [OF sound _ start(2,3)] start(1) by (cases "n > 0") (auto simp: prior_def at_link_def trail_hash_def)
  define cps where "cps = read_checkpoints b t (n + 1) (Some (if rows = [] then n else row_seq (last rows))) (list_checkpoints b t)"
  have page: "read_chain_rows db (page_query t (n, i) (xo_limit x + 1) (rr_through rng)) = take (xo_limit x + 1) (rows_after db t (n, i) (rr_through rng))"
    by (rule page_is_take)
  note doc = export_chain_range_def [of sha stamp True "\<lambda>_. (db, b)" q x, unfolded Let_def q rng_def [symmetric] db_at_def bucket_at_def
      fst_conv snd_conv if_True after_def [symmetric], unfolded ni fst_conv snd_conv page, folded found_def, folded rows_def, folded prior_def,
      folded cps_def]
  have fields: "ex_tenant ?doc = t" "ex_prior ?doc = prior" "ex_events ?doc = map (chained_event_of sha (xo_detail x)) rows"
    "ex_checkpoints ?doc = cps" "ex_tombstones ?doc = (if ?ts = [] then None else Some ?ts)" "ex_detail ?doc = xo_detail x"
    "ex_complete ?doc = (rr_to_head rng \<and> \<not> length found > xo_limit x)"
    unfolding doc by simp_all
  let ?o = "export_options ?doc"
  have o: "vo_tenant ?o = t" "vo_prior ?o = prior" "vo_checkpoints ?o = cps" "vo_tombstones ?o = ?ts" "vo_values ?o = xo_detail x"
    by (simp_all add: export_options_def fields)
  have opts: "honest_options t R ?ts ?o"
    using bucket_checkpoints [OF bucket] sound
    by (auto simp: honest_options_def o cps_def own_tombstones_def trail_sound_def own_run_def)
  have all: "gaps_covered ?ts n (rows_after db t (n, i) (rr_through rng))"
    "set (rows_after db t (n, i) (rr_through rng)) \<subseteq> set (chain_rows db t)"
    by (rule rows_after_gaps(1) [OF sound start(1) row], assumption+) (rule rows_after_gaps(2) [OF sound start(1) row])
  have part: "rows = take (xo_limit x) (rows_after db t (n, i) (rr_through rng)) \<or> rows = []"
    by (simp add: rows_def found_def)
  then have gaps: "gaps_covered ?ts n rows" "set rows \<subseteq> set (chain_rows db t)"
    using all gaps_take set_take_subset by (metis gaps_covered.simps(1), metis empty_set empty_subsetI order_trans)
  obtain wk where wk: "push_all sha ?o (map (chained_event_of sha (xo_detail x)) rows) (start_walk ?o) = Some (None, wk)"
    "at_link R (last_seq n rows) (wk_head wk)"
    using walk_true_rows [OF sound opts subset_refl _ gaps(2,1), where wk = "start_walk ?o" and detail = "xo_detail x"] prior start
    by (auto simp: start_walk_def o)
  have "last_seq n rows = int (length R)" if "ex_complete ?doc"
  proof -
    have head: "rr_to_head rng" "length found \<le> xo_limit x" using that fields(7) by simp_all
    show ?thesis
    proof (cases "rr_through rng \<ge> rr_from rng")
      case True
      then have "length (take (xo_limit x + 1) (rows_after db t (n, i) (rr_through rng))) \<le> xo_limit x"
        using head(2) by (simp add: found_def)
      then have "rows = rows_after db t (n, i) (int (length R))"
        using True res(5) [OF head(1)] by (simp add: rows_def found_def)
      then show ?thesis using rows_reach_head [OF sound start(1,2) row] by simp
    next
      case False
      with res(2,5) head(1) start(2,4) have "n = int (length R)" by simp
      then show ?thesis using False by (simp add: rows_def found_def)
    qed
  qed
  then have "finish ?o (ex_complete ?doc) wk = None"
    using wk(2) opts by (auto simp: finish_ok at_link_def honest_options_def own_checkpoints_def true_checkpoints_def)
  with wk(1) show ?thesis unfolding verify_intact fields(3) by blast
qed

end
