(* ===== verification/Audit_Prune_Laws.thy ===== *)
theory Audit_Prune_Laws
  imports Audit_Trail
begin

text \<open>What a page of the prune removes, and that the trail it leaves is still vouched for.\<close>

section \<open>Chunks and deletes\<close>

lemma chunks_concat: "0 < n \<Longrightarrow> concat (chunks_of n xs) = xs"
  by (induction n xs rule: chunks_of.induct) auto

lemma chunks_bounded: "c \<in> set (chunks_of n xs) \<Longrightarrow> c \<noteq> [] \<and> length c \<le> n"
  by (induction n xs rule: chunks_of.induct) auto

lemma chunks_count: "length (chunks_of n xs) \<le> length xs"
  by (induction n xs rule: chunks_of.induct) auto

text \<open>Rows of a chain named by id within a run.\<close>

definition named_in :: "string option \<Rightarrow> int \<Rightarrow> int \<Rightarrow> nat set \<Rightarrow> audit_row \<Rightarrow> bool" where
  "named_in t f h ids r \<longleftrightarrow> in_chain t r \<and> ar_row r \<in> ids \<and> f \<le> row_seq r \<and> row_seq r \<le> h"

lemma delete_chunks_shape:
  "delete_chunks t f h chunks st = (whole, st') \<Longrightarrow>
     \<exists>j left. j \<le> length chunks \<and> pr_left st = left + j \<and> (whole \<longrightarrow> j = length chunks) \<and> (\<not> whole \<longrightarrow> j = pr_left st) \<and>
       st' = st\<lparr>pr_left := left, pr_db := (pr_db st)\<lparr>db_rows :=
         [r \<leftarrow> db_rows (pr_db st). \<not> named_in t f h (set (concat (take j chunks))) r]\<rparr>\<rparr>"
proof (induction chunks arbitrary: st)
  case Nil
  then show ?case by (intro exI [of _ 0] exI [of _ "pr_left st"]) (auto simp: named_in_def)
next
  case (Cons ids chunks)
  show ?case
  proof (cases "pr_left st")
    case 0
    with Cons.prems show ?thesis
      by (intro exI [of _ 0] exI [of _ "pr_left st"]) (auto simp: named_in_def delete_rows_def)
  next
    case (Suc m)
    define s1 where "s1 = snd (delete_rows t f h ids st)"
    have s1: "delete_rows t f h ids st = (True, s1)" using Suc by (simp add: s1_def delete_rows_def)
    with Cons.prems have "delete_chunks t f h chunks s1 = (whole, st')" by simp
    from Cons.IH [OF this] obtain j left where j: "j \<le> length chunks" "pr_left s1 = left + j" "whole \<longrightarrow> j = length chunks" "\<not> whole \<longrightarrow> j = pr_left s1"
      "st' = s1\<lparr>pr_left := left, pr_db := (pr_db s1)\<lparr>db_rows := [r \<leftarrow> db_rows (pr_db s1). \<not> named_in t f h (set (concat (take j chunks))) r]\<rparr>\<rparr>"
      by blast
    have rest: "pr_left s1 = m" using Suc by (simp add: s1_def delete_rows_def)
    have rows: "[r \<leftarrow> db_rows (pr_db s1). \<not> named_in t f h (set (concat (take j chunks))) r]
        = [r \<leftarrow> db_rows (pr_db st). \<not> named_in t f h (set (concat (take (Suc j) (ids # chunks)))) r]"
      using Suc by (auto simp: s1_def delete_rows_def named_in_def intro!: filter_cong)
    have "st' = st\<lparr>pr_left := left, pr_db := (pr_db st)\<lparr>db_rows :=
         [r \<leftarrow> db_rows (pr_db st). \<not> named_in t f h (set (concat (take (Suc j) (ids # chunks)))) r]\<rparr>\<rparr>"
      unfolding j(5) rows using Suc by (simp add: s1_def delete_rows_def)
    with j rest Suc show ?thesis by (intro exI [of _ "Suc j"] exI [of _ left]) auto
  qed
qed

lemma delete_chunks_enough: "length chunks \<le> pr_left st \<Longrightarrow> \<exists>st'. delete_chunks t f h chunks st = (True, st')"
  by (induction chunks arbitrary: st) (auto simp: delete_rows_def)

section \<open>Runs of rows\<close>

definition consecutive :: "audit_row list \<Rightarrow> bool" where
  "consecutive rs \<longleftrightarrow> successively (\<lambda>a b. row_seq b = row_seq a + 1) rs"

lemma consecutive_snoc: "consecutive (rs @ [r]) \<longleftrightarrow> consecutive rs \<and> (rs = [] \<or> row_seq r = row_seq (last rs) + 1)"
  by (auto simp: consecutive_def successively_append_iff)

lemma consecutive_span:
  "consecutive rs \<Longrightarrow> rs \<noteq> [] \<Longrightarrow> row_seq ` set rs = {row_seq (hd rs)..row_seq (last rs)} \<and>
     int (length rs) = row_seq (last rs) - row_seq (hd rs) + 1 \<and> row_seq (hd rs) \<le> row_seq (last rs) \<and>
     sorted_wrt (<) (map row_seq rs)"
proof (induction rs rule: rev_induct)
  case (snoc r rs)
  show ?case
  proof (cases "rs = []")
    case False
    with snoc.prems have r: "consecutive rs" "row_seq r = row_seq (last rs) + 1" by (simp_all add: consecutive_snoc)
    note IH = snoc.IH [OF r(1) False]
    have "{row_seq (hd rs)..row_seq (last rs) + 1} = insert (row_seq (last rs) + 1) {row_seq (hd rs)..row_seq (last rs)}"
      using IH by auto
    moreover have "\<forall>x\<in>set rs. row_seq x < row_seq r" using IH r(2) by (fastforce dest: arg_cong [of _ _ "\<lambda>S. row_seq x \<in> S" for x])
    ultimately show ?thesis using IH r False by (auto simp: sorted_wrt_append)
  qed simp
qed simp

definition runs_of :: "effective_retention \<Rightarrow> int \<Rightarrow> audit_row list \<Rightarrow> audit_row list list \<times> audit_row list \<Rightarrow> bool" where
  "runs_of eff now rows st \<longleftrightarrow> concat (fst st) @ snd st = filter (expired eff now) rows \<and>
     (\<forall>run\<in>set (fst st). run \<noteq> [] \<and> consecutive run) \<and> consecutive (snd st)"

lemma extend_run_keeps:
  assumes "runs_of eff now rows st" and "ar_seq r \<noteq> None"
  shows "runs_of eff now (rows @ [r]) (extend_run eff now r st)"
proof -
  obtain runs current where st: "st = (runs, current)" by fastforce
  have seq: "ar_seq r = Some (row_seq (last current) + 1) \<longleftrightarrow> row_seq r = row_seq (last current) + 1"
    using assms(2) by (auto simp: row_seq_def)
  have now: "concat runs @ current = filter (expired eff now) rows" "\<forall>run\<in>set runs. run \<noteq> [] \<and> consecutive run" "consecutive current"
    using assms(1) by (simp_all add: st runs_of_def)
  have one: "consecutive []" "consecutive [r]" by (simp_all add: consecutive_def)
  define close where "close = (if current \<noteq> [] then runs @ [current] else runs)"
  have closed: "concat close = concat runs @ current" "\<forall>run\<in>set close. run \<noteq> [] \<and> consecutive run"
    unfolding close_def by (cases "current = []", use now(2,3) in simp_all)+
  note pair = runs_of_def fst_conv snd_conv filter_append append_Nil2
  show ?thesis
  proof (cases "expired eff now r")
    case False
    then have step: "extend_run eff now r st = (close, [])" and none: "filter (expired eff now) [r] = []"
      by (simp_all add: st extend_run_def close_def)
    show ?thesis unfolding step pair none closed(1) using closed(2) now(1) one(1) by blast
  next
    case True
    then have this_one: "filter (expired eff now) [r] = [r]" by simp
    show ?thesis
    proof (cases "current = [] \<or> row_seq r = row_seq (last current) + 1")
      case follows: True
      then have step: "extend_run eff now r st = (runs, current @ [r])" using True by (auto simp: st extend_run_def seq)
      have "consecutive (current @ [r])" using follows now(3) by (simp add: consecutive_snoc)
      then show ?thesis unfolding step pair this_one append_assoc [symmetric] now(1) using now(2) by blast
    next
      case False
      then have step: "extend_run eff now r st = (close, [r])" using True by (simp add: st extend_run_def seq close_def)
      show ?thesis unfolding step pair this_one closed(1) now(1) using closed(2) one(2) by blast
    qed
  qed
qed

lemma expired_runs_spec:
  assumes "\<forall>r\<in>set rows. ar_seq r \<noteq> None"
  shows "concat (expired_runs eff now rows) = filter (expired eff now) rows"
    and "\<forall>run\<in>set (expired_runs eff now rows). run \<noteq> [] \<and> consecutive run"
proof -
  have "runs_of eff now rows (fold (extend_run eff now) rows ([], []))"
    using assms
  proof (induction rows rule: rev_induct)
    case (snoc r rows)
    then show ?case using extend_run_keeps [of eff now rows _ r] by simp
  qed (simp add: runs_of_def consecutive_def)
  moreover obtain runs current where st: "fold (extend_run eff now) rows ([], []) = (runs, current)" by fastforce
  ultimately show "concat (expired_runs eff now rows) = filter (expired eff now) rows"
    "\<forall>run\<in>set (expired_runs eff now rows). run \<noteq> [] \<and> consecutive run"
    unfolding expired_runs_def st by (auto simp: runs_of_def)
qed

section \<open>One run\<close>

lemma trail_sound_tombs: "set ts = set us \<Longrightarrow> trail_sound sha t R db ts = trail_sound sha t R db us"
  by (simp add: trail_sound_def runs_apart_def covered_def)

lemma run_fills_positions:
  assumes sound: "trail_sound sha t R db ts" and rs: "rs \<noteq> []" "consecutive rs" "set rs \<subseteq> set (chain_rows db t)"
  shows "r \<in> set rs \<longleftrightarrow> r \<in> set (chain_rows db t) \<and> row_seq (hd rs) \<le> row_seq r \<and> row_seq r \<le> row_seq (last rs)"
proof -
  note span = consecutive_span [OF rs(2,1)]
  show ?thesis
  proof
    assume "r \<in> set rs"
    then have "row_seq r \<in> row_seq ` set rs" by simp
    then show "r \<in> set (chain_rows db t) \<and> row_seq (hd rs) \<le> row_seq r \<and> row_seq r \<le> row_seq (last rs)"
      using \<open>r \<in> set rs\<close> rs(3) unfolding conjunct1 [OF span] by auto
  next
    assume r: "r \<in> set (chain_rows db t) \<and> row_seq (hd rs) \<le> row_seq r \<and> row_seq r \<le> row_seq (last rs)"
    then have "row_seq r \<in> row_seq ` set rs" unfolding conjunct1 [OF span] by simp
    then obtain s where "s \<in> set rs" "row_seq s = row_seq r" by auto
    with sound_unique [OF sound, of s r] r rs(3) show "r \<in> set rs" by auto
  qed
qed

lemma rows_at_run:
  assumes sound: "trail_sound sha t R db ts" and rs: "rs \<noteq> []" "consecutive rs" "set rs \<subseteq> set (chain_rows db t)"
  shows "rows_at db t (row_seq (hd rs)) (row_seq (last rs)) = length rs"
proof -
  let ?found = "[r \<leftarrow> db_rows db. in_chain t r \<and> row_seq (hd rs) \<le> row_seq r \<and> row_seq r \<le> row_seq (last rs)]"
  have "distinct (map ar_row ?found)" using sound by (simp add: trail_sound_def row_ids_def distinct_map_filter)
  then have "distinct ?found" by (simp add: distinct_map)
  moreover have "distinct (map row_seq rs)"
    using consecutive_span [OF rs(2,1)] by (simp add: strict_sorted_iff)
  then have "distinct rs" by (simp add: distinct_map)
  moreover have "set ?found = set rs"
    using run_fills_positions [OF sound rs] by (auto simp: chain_rows_in)
  ultimately show ?thesis unfolding rows_at_def by (metis distinct_card)
qed

lemma run_ends:
  assumes "trail_sound sha t R db ts" and "rs \<noteq> []" "set rs \<subseteq> set (chain_rows db t)"
  shows "hd rs \<in> set (chain_rows db t)" "last rs \<in> set (chain_rows db t)"
  using assms by auto

lemma run_prior:
  assumes sound: "trail_sound sha t R db ts" and r: "r \<in> set (chain_rows db t)"
  shows "\<exists>prior. link_before_run db t (row_seq r) ts = Some prior \<and> at_link R (row_seq r - 1) prior"
proof -
  have held: "held_at db t (row_seq r)" using r by (auto simp: held_at_def)
  note b = held_boundary [OF sound held]
  show ?thesis
  proof (cases "row_seq r = 1")
    case True
    then show ?thesis by (simp add: link_before_run_def at_link_def trail_hash_def)
  next
    case False
    with b have "1 \<le> row_seq r - 1" "row_seq r - 1 \<le> int (length R)" by simp_all
    from link_before_sound [OF sound this b(2)] False show ?thesis by (auto simp: link_before_run_def)
  qed
qed

lemma consecutive_gaps:
  "successively (\<lambda>a b. row_seq b = row_seq a + 1) rs \<Longrightarrow> rs \<noteq> [] \<Longrightarrow> gaps_covered us (row_seq (hd rs) - 1) rs"
proof (induction rs)
  case (Cons r rs)
  show ?case
  proof (cases rs)
    case Nil
    then show ?thesis by auto
  next
    case (Cons s rest)
    with Cons.prems have "row_seq s = row_seq r + 1" "successively (\<lambda>a b. row_seq b = row_seq a + 1) rs"
      by simp_all
    then have "gaps_covered us (row_seq r) rs" using Cons.IH Cons by simp
    then show ?thesis by auto
  qed
qed simp

lemma run_verifies_sound:
  assumes sound: "trail_sound sha t R db ts" and bucket: "bucket_sound t R b"
    and rs: "rs \<noteq> []" "consecutive rs" "set rs \<subseteq> set (chain_rows db t)" and prior: "at_link R (row_seq (hd rs) - 1) prior"
  shows "run_verifies sha b t rs prior = Some True"
proof -
  define opts where "opts = \<lparr>vo_tenant = t, vo_prior = prior,
    vo_checkpoints = read_checkpoints b t (row_seq (hd rs)) (Some (row_seq (last rs))) (list_checkpoints b t),
    vo_tombstones = [], vo_values = False\<rparr>"
  have opts: "honest_options t R [] opts"
    using bucket_checkpoints [OF bucket] by (simp add: opts_def honest_options_def own_tombstones_def)
  have held: "held_at db t (row_seq (hd rs))" using run_ends(1) [OF sound rs(1,3)] by (auto simp: held_at_def)
  have gaps: "gaps_covered [] (row_seq (hd rs) - 1) rs"
    using consecutive_gaps rs(1,2) unfolding consecutive_def by blast
  have "\<exists>wk'. push_all sha opts (map (chained_event_of sha False) rs) (start_walk opts) = Some (None, wk') \<and>
      at_link R (last_seq (row_seq (hd rs) - 1) rs) (wk_head wk') \<and> wk_checked wk' = wk_checked (start_walk opts) + length rs"
    by (rule walk_true_rows [OF sound opts _ _ rs(3) gaps])
      (use prior held_boundary [OF sound held] in \<open>simp_all add: opts_def start_walk_def\<close>)
  then show ?thesis by (auto simp: run_verifies_def Let_def opts_def [symmetric])
qed

text \<open>The trail after a run's rows are gone and its tombstone stands.\<close>

lemma tombstone_own_run:
  assumes sound: "trail_sound sha t R db ts" and rs: "rs \<noteq> []" "consecutive rs" "set rs \<subseteq> set (chain_rows db t)"
    and prior: "at_link R (row_seq (hd rs) - 1) prior" and t: "po_tenant opts = t"
  shows "own_run t R (tombstone_of opts rs prior)"
proof -
  have hash: "trail_hash R (row_seq r) = Some (or_else '''' (ar_hash r))" if "r \<in> set (chain_rows db t)" for r
  proof -
    have "at_link R (row_seq r) (link_of (Some r))" "ar_seq r = Some (row_seq r)" "true_row sha R r"
      using sound_row [OF sound that] by blast+
    then obtain h where h: "ar_hash r = Some h" "at_link R (row_seq r) (Some \<lparr>cl_seq = row_seq r, cl_hash = h\<rparr>)"
      by (auto simp: link_of_def true_row_def)
    from h(2) have "trail_hash R (row_seq r) = Some h" by (simp add: at_link_def)
    then show ?thesis unfolding h(1) by simp
  qed
  note ends = run_ends [OF sound rs(1,3)]
  have "true_row sha R (hd rs)" "true_row sha R (last rs)" using sound_row(1) [OF sound] ends by blast+
  with hash [OF ends(1)] hash [OF ends(2)] consecutive_span [OF rs(2,1)] prior t show ?thesis
    by (simp add: own_run_def run_of_trail_def tombstone_of_def at_link_def true_row_def)
qed

definition without :: "audit_row list \<Rightarrow> audit_db \<Rightarrow> audit_db" where
  "without rs db = db\<lparr>db_rows := [r \<leftarrow> db_rows db. r \<notin> set rs]\<rparr>"

lemma chain_rows_without: "chain_rows (without rs db) t = [r \<leftarrow> chain_rows db t. r \<notin> set rs]"
  by (simp add: chain_rows_def without_def conj_commute)

lemma trail_sound_without:
  assumes sound: "trail_sound sha t R db ts" and rs: "rs \<noteq> []" "consecutive rs" "set rs \<subseteq> set (chain_rows db t)"
    and x: "own_run t R x" "ts_from x = row_seq (hd rs)" "ts_through x = row_seq (last rs)"
    and last: "row_seq (last rs) < int (length R)"
  shows "trail_sound sha t R (without rs db) (ts @ [x])"
proof -
  note fills = run_fills_positions [OF sound rs]
  have span: "row_seq ` set rs = {row_seq (hd rs)..row_seq (last rs)}" using consecutive_span [OF rs(2,1)] by blast
  have held: "held_at (without rs db) t q \<longleftrightarrow> held_at db t q \<and> \<not> (ts_from x \<le> q \<and> q \<le> ts_through x)" for q
    unfolding held_at_def chain_rows_without using fills x(2,3) by auto
  have covered: "covered (ts @ [x]) q \<longleftrightarrow> covered ts q \<or> (ts_from x \<le> q \<and> q \<le> ts_through x)" for q
    by (auto simp: covered_def)
  have in_run: "held_at db t q \<and> 1 \<le> q \<and> q \<le> int (length R)" if "ts_from x \<le> q" "q \<le> ts_through x" for q
  proof -
    have "q \<in> row_seq ` set rs" unfolding span using that x(2,3) by simp
    then have "held_at db t q" using rs(3) by (auto simp: held_at_def)
    with held_boundary [OF sound this] show ?thesis by simp
  qed
  have free: "\<not> covered ts q" if "ts_from x \<le> q" "q \<le> ts_through x" for q
    using in_run [OF that] sound unfolding trail_sound_def by blast
  have apart: "runs_apart (ts @ [x])"
    using sound free unfolding trail_sound_def runs_apart_def covered_def by (simp only: set_append list.set) blast
  show ?thesis
    unfolding trail_sound_def
  proof (intro conjI)
    show "row_ids (without rs db)" using sound by (simp add: trail_sound_def row_ids_def without_def distinct_map_filter)
    show "distinct (map row_seq (chain_rows (without rs db) t))"
      using sound by (simp add: trail_sound_def chain_rows_without distinct_map_filter)
    show "\<forall>q. 1 \<le> q \<and> q \<le> int (length R) \<longrightarrow> held_at (without rs db) t q = (\<not> covered (ts @ [x]) q)"
      using sound unfolding held covered trail_sound_def by blast
    show "R \<noteq> [] \<longrightarrow> held_at (without rs db) t (int (length R))"
      using sound last x(3) unfolding held trail_sound_def by simp
    show "\<forall>r\<in>set (chain_rows (without rs db) t). true_row sha R r"
      using sound by (simp add: trail_sound_def chain_rows_without)
  qed (use sound x(1) apart in \<open>auto simp: trail_sound_def\<close>)
qed

section \<open>The bucket with one more tombstone\<close>

lemma tombstone_key_under: "starts_with (tombstone_key t n) (tombstone_prefix t)"
  by (simp add: tombstone_key_def numbered_key_def)

lemma bucket_with_tombstone:
  assumes bucket: "bucket_sound t R b" and x: "ts_tenant x = t" "0 \<le> ts_from x"
    and new: "bucket_get b (tombstone_key t (ts_from x)) = None"
  shows "\<exists>b'. put_new b (tombstone_key t (ts_from x)) (Holds_tombstone x) = (True, b') \<and> bucket_sound t R b' \<and>
    set b' = insert (tombstone_key t (ts_from x), Holds_tombstone x) (set b) \<and>
    set (read_tombstones b' t) = insert x (set (read_tombstones b t))"
proof -
  let ?key = "tombstone_key t (ts_from x)"
  have distinct: "keys_distinct b" using bucket by (simp add: bucket_sound_def)
  obtain put b' where p: "put_new b ?key (Holds_tombstone x) = (put, b')" by fastforce
  note r = put_new_result [OF p distinct]
  have put: "put = True" using r new by (cases put) auto
  with r have b': "keys_distinct b'" "set b' = insert (?key, Holds_tombstone x) (set b)" by simp_all
  have "set [c. (key, Holds_checkpoint c) \<leftarrow> b'] = set [c. (key, Holds_checkpoint c) \<leftarrow> b]"
    unfolding set_concat set_map b'(2) by (auto split: bucket_object.splits)
  then have checkpoints: "true_checkpoints t R [c. (key, Holds_checkpoint c) \<leftarrow> b']"
    using bucket unfolding bucket_sound_def true_checkpoints_def by blast
  have "\<exists>z. y = Holds_tombstone z \<and> ts_tenant z = t \<and> ts_from z = n"
    if n: "0 \<le> n" "bucket_get b' (tombstone_key t n) = Some y" for n y
  proof -
    from n(2) have "(tombstone_key t n, y) \<in> set b'" by (simp only: bucket_get_in [OF b'(1)])
    then consider "tombstone_key t n = ?key" "y = Holds_tombstone x" | "(tombstone_key t n, y) \<in> set b"
      unfolding b'(2) by blast
    then show ?thesis
    proof cases
      case 1
      then have "n = ts_from x" using numbered_key_inj n(1) x(2) unfolding tombstone_key_def by blast
      with 1 x(1) show ?thesis by simp
    next
      case 2
      then have "bucket_get b (tombstone_key t n) = Some y" by (simp only: bucket_get_in [OF distinct])
      with bucket n(1) show ?thesis unfolding bucket_sound_def by blast
    qed
  qed
  then have sound: "bucket_sound t R b'" using b'(1) checkpoints unfolding bucket_sound_def by blast
  have "number_of_key ?key (tombstone_prefix t) = Some (ts_from x)"
    unfolding tombstone_key_def by (rule number_read_back [OF x(2)])
  then have "z \<in> set (read_tombstones b' t) \<longleftrightarrow> z = x \<or> z \<in> set (read_tombstones b t)" for z
    unfolding read_tombstones_set [OF b'(1)] read_tombstones_set [OF distinct] b'(2)
    using tombstone_key_under [of t "ts_from x"] x(1) by blast
  then show ?thesis using p put sound b'(2) by (intro exI [of _ b']) auto
qed

lemma key_is_free:
  assumes sound: "trail_sound sha t R db (read_tombstones b t)" and bucket: "bucket_sound t R b" and held: "held_at db t n"
  shows "bucket_get b (tombstone_key t n) = None"
proof (cases "bucket_get b (tombstone_key t n)")
  case (Some y)
  have n: "0 \<le> n" "1 \<le> n" "n \<le> int (length R)" using held_boundary [OF sound held] by simp_all
  obtain x where x: "y = Holds_tombstone x" "ts_tenant x = t" "ts_from x = n"
    using bucket Some n(1) unfolding bucket_sound_def by blast
  have distinct: "keys_distinct b" using bucket by (simp add: bucket_sound_def)
  have key: "number_of_key (tombstone_key t n) (tombstone_prefix t) = Some n"
    unfolding tombstone_key_def by (rule number_read_back [OF n(1)])
  from Some have "(tombstone_key t n, Holds_tombstone x) \<in> set b" unfolding x(1) by (simp only: bucket_get_in [OF distinct])
  with key x tombstone_key_under [of t n] have "x \<in> set (read_tombstones b t)"
    unfolding read_tombstones_set [OF distinct] by blast
  moreover from this sound have "own_run t R x" unfolding trail_sound_def by blast
  ultimately have "covered (read_tombstones b t) n" using x(3) by (auto simp: covered_def own_run_def run_of_trail_def)
  with sound held n show ?thesis unfolding trail_sound_def by blast
qed

section \<open>A run goes\<close>

definition prune_ok :: "(string \<Rightarrow> digest) \<Rightarrow> string option \<Rightarrow> chained_event list \<Rightarrow> prune_state \<Rightarrow> bool" where
  "prune_ok sha t R st \<longleftrightarrow> bucket_sound t R (pr_bucket st) \<and> trail_sound sha t R (pr_db st) (pr_tombs st) \<and>
     set (pr_tombs st) = set (read_tombstones (pr_bucket st) t)"

lemma named_all:
  assumes "consecutive rs" "rs \<noteq> []" "ts_from x = row_seq (hd rs)" "ts_through x = row_seq (last rs)"
  shows "named_rows x rs = rs"
proof -
  have "row_seq r \<in> {row_seq (hd rs)..row_seq (last rs)}" if "r \<in> set rs" for r
    using that consecutive_span [OF assms(1,2)] by blast
  with assms(3,4) show ?thesis by (simp add: named_rows_def filter_id_conv)
qed

lemma fits_own:
  assumes sound: "trail_sound sha t R db ts" and rs: "rs \<noteq> []" "consecutive rs" "set rs \<subseteq> set (chain_rows db t)"
  shows "tombstone_fits db t (tombstone_of opts rs prior) rs"
proof -
  let ?x = "tombstone_of opts rs prior"
  have x: "ts_from ?x = row_seq (hd rs)" "ts_through ?x = row_seq (last rs)" "ts_count ?x = int (length rs)"
    by (simp_all add: tombstone_of_def)
  note ends = run_ends [OF sound rs(1,3)]
  have hash: "ar_hash r = Some (or_else '''' (ar_hash r))" if "r \<in> set (chain_rows db t)" for r
    using sound_row(1) [OF sound that] by (auto simp: true_row_def)
  have "find (\<lambda>r. ar_seq r = Some (ts_through ?x)) rs \<noteq> None"
    using sound_row(2) [OF sound ends(2)] rs(1) unfolding find_none_iff x(2) by auto
  then obtain e where e: "find (\<lambda>r. ar_seq r = Some (ts_through ?x)) rs = Some e" by blast
  from find_in_set [OF this] have e': "e \<in> set rs" "ar_seq e = Some (row_seq (last rs))" by (simp_all add: x(2))
  then have "row_seq e = row_seq (last rs)" by (simp add: row_seq_def)
  with sound_unique [OF sound _ ends(2)] e'(1) rs(3) have "e = last rs" by blast
  then show ?thesis
    using e hash [OF ends(1)] hash [OF ends(2)] rows_at_run [OF sound rs] named_all [OF rs(2,1) x(1,2)] x
    by (simp add: tombstone_fits_def) (simp add: tombstone_of_def)
qed

text \<open>A run of a sound trail always reaches its deletes, its tombstone written.\<close>

lemma prune_one_run_start:
  assumes ok: "prune_ok sha t R st" and t: "po_tenant opts = t"
    and rs: "rs \<noteq> []" "consecutive rs" "set rs \<subseteq> set (chain_rows (pr_db st) t)" and cap: "4 \<le> cap"
  defines "chunks \<equiv> chunks_of (cap - (if t = None then 2 else 3)) (map ar_row rs)"
  shows "\<exists>x b'. own_run t R x \<and> ts_from x = row_seq (hd rs) \<and> ts_through x = row_seq (last rs) \<and> ts_count x = int (length rs) \<and>
    bucket_sound t R b' \<and> set b' = insert (tombstone_key t (ts_from x), Holds_tombstone x) (set (pr_bucket st)) \<and>
    set (read_tombstones b' t) = insert x (set (read_tombstones (pr_bucket st) t)) \<and>
    prune_one_run sha cap opts rs st =
      (case delete_chunks t (row_seq (hd rs)) (row_seq (last rs)) chunks (st\<lparr>pr_bucket := b'\<rparr>) of
         (False, st') \<Rightarrow> (False, st')
       | (True, st') \<Rightarrow> (True, st'\<lparr>pr_tombs := pr_tombs st' @ [x], pr_pruned := pr_pruned st' + ts_count x\<rparr>))"
proof -
  let ?db = "pr_db st" and ?ts = "pr_tombs st" and ?b = "pr_bucket st"
  have sound: "trail_sound sha t R ?db ?ts" and bucket: "bucket_sound t R ?b" and tombs: "set ?ts = set (read_tombstones ?b t)"
    using ok by (simp_all add: prune_ok_def)
  have sound': "trail_sound sha t R ?db (read_tombstones ?b t)" using sound trail_sound_tombs [OF tombs] by blast
  note ends = run_ends [OF sound rs(1,3)]
  obtain prior where prior: "link_before_run ?db t (row_seq (hd rs)) ?ts = Some prior" "at_link R (row_seq (hd rs) - 1) prior"
    using run_prior [OF sound ends(1)] by blast
  define x where "x = tombstone_of opts rs prior"
  have x: "own_run t R x" "ts_from x = row_seq (hd rs)" "ts_through x = row_seq (last rs)" "ts_count x = int (length rs)" "ts_tenant x = t"
    using tombstone_own_run [OF sound rs prior(2) t] t by (simp_all add: x_def tombstone_of_def)
  have held: "held_at ?db t (ts_from x)" unfolding x(2) using ends(1) by (auto simp: held_at_def)
  have from_pos: "0 \<le> ts_from x" using held_boundary [OF sound held] by simp
  obtain b' where b': "put_new ?b (tombstone_key t (ts_from x)) (Holds_tombstone x) = (True, b')" "bucket_sound t R b'"
    "set b' = insert (tombstone_key t (ts_from x), Holds_tombstone x) (set ?b)"
    "set (read_tombstones b' t) = insert x (set (read_tombstones ?b t))"
    using bucket_with_tombstone [OF bucket x(5) from_pos key_is_free [OF sound' bucket held]] by blast
  have written: "write_tombstone ?b x = (Some x, b')" by (simp add: write_tombstone_def x(5) b'(1))
  have fits: "tombstone_fits ?db t x rs" unfolding x_def by (rule fits_own [OF sound rs])
  have named: "named_rows x rs = rs" by (rule named_all [OF rs(2,1) x(2,3)])
  have size: "0 < cap - (if t = None then 2 else 3)" using cap by auto
  have chunks: "chunk_by_bound_parameters cap (map ar_row (named_rows x rs)) (if t = None then 2 else 3) = Some chunks"
    using size unfolding named chunk_by_bound_parameters_def bound_parameter_budget_def chunks_def by simp
  have "prune_one_run sha cap opts rs st =
      (case delete_chunks t (row_seq (hd rs)) (row_seq (last rs)) chunks (st\<lparr>pr_bucket := b'\<rparr>) of
         (False, st') \<Rightarrow> (False, st')
       | (True, st') \<Rightarrow> (True, st'\<lparr>pr_tombs := pr_tombs st' @ [x], pr_pruned := pr_pruned st' + ts_count x\<rparr>))"
    unfolding prune_one_run_def Let_def t
    using rows_at_run [OF sound rs] prior run_verifies_sound [OF sound bucket rs prior(2)] fits chunks
    by (simp add: x_def [symmetric] written x(2,3))
  with x b' show ?thesis by blast
qed

lemma named_in_run:
  assumes sound: "trail_sound sha t R db ts" and rs: "rs \<noteq> []" "consecutive rs" "set rs \<subseteq> set (chain_rows db t)" and m: "set qs \<subseteq> set rs"
  shows "[r \<leftarrow> db_rows db. \<not> named_in t (row_seq (hd rs)) (row_seq (last rs)) (ar_row ` set qs) r] = [r \<leftarrow> db_rows db. r \<notin> set qs]"
proof (rule filter_cong [OF refl])
  fix r assume r: "r \<in> set (db_rows db)"
  have "distinct (map ar_row (db_rows db))" using sound by (simp add: trail_sound_def row_ids_def)
  then have "r \<in> set qs" if "ar_row r \<in> ar_row ` set qs"
  proof -
    from that obtain s where "s \<in> set qs" "ar_row s = ar_row r" by auto
    moreover from this m rs(3) have "s \<in> set (db_rows db)" by (auto simp: chain_rows_in)
    ultimately show ?thesis using r \<open>distinct (map ar_row (db_rows db))\<close> by (auto simp: distinct_map dest: inj_onD)
  qed
  then show "(\<not> named_in t (row_seq (hd rs)) (row_seq (last rs)) (ar_row ` set qs) r) = (r \<notin> set qs)"
    using run_fills_positions [OF sound rs, of r] r m by (auto simp: named_in_def chain_rows_in)
qed

lemma prune_one_run_ok:
  assumes ok: "prune_ok sha t R st" and t: "po_tenant opts = t"
    and rs: "rs \<noteq> []" "consecutive rs" "set rs \<subseteq> set (chain_rows (pr_db st) t)" and last: "row_seq (last rs) < int (length R)"
    and cap: "4 \<le> cap" and budget: "length rs \<le> pr_left st"
  shows "\<exists>st' x. prune_one_run sha cap opts rs st = (True, st') \<and> prune_ok sha t R st' \<and> pr_db st' = without rs (pr_db st) \<and>
    set (pr_bucket st') = insert (tombstone_key t (ts_from x), Holds_tombstone x) (set (pr_bucket st)) \<and> ts_tenant x = t \<and>
    pr_refused st' = pr_refused st \<and> pr_pruned st' = pr_pruned st + int (length rs) \<and> pr_left st \<le> pr_left st' + length rs"
proof -
  let ?db = "pr_db st" and ?ts = "pr_tombs st" and ?b = "pr_bucket st"
  have sound: "trail_sound sha t R ?db ?ts" and tombs: "set ?ts = set (read_tombstones ?b t)"
    using ok by (simp_all add: prune_ok_def)
  define size where "size = cap - (if t = None then 2 else 3)"
  have size: "0 < size" using cap by (auto simp: size_def)
  define chunks where "chunks = chunks_of size (map ar_row rs)"
  obtain x b' where x: "own_run t R x" "ts_from x = row_seq (hd rs)" "ts_through x = row_seq (last rs)" "ts_count x = int (length rs)"
    and b': "bucket_sound t R b'" "set b' = insert (tombstone_key t (ts_from x), Holds_tombstone x) (set ?b)"
      "set (read_tombstones b' t) = insert x (set (read_tombstones ?b t))"
    and step: "prune_one_run sha cap opts rs st =
      (case delete_chunks t (row_seq (hd rs)) (row_seq (last rs)) chunks (st\<lparr>pr_bucket := b'\<rparr>) of
         (False, st') \<Rightarrow> (False, st')
       | (True, st') \<Rightarrow> (True, st'\<lparr>pr_tombs := pr_tombs st' @ [x], pr_pruned := pr_pruned st' + ts_count x\<rparr>))"
    using prune_one_run_start [OF ok t rs cap] unfolding size_def [symmetric] chunks_def [symmetric] by blast
  have few: "length chunks \<le> length rs" using chunks_count [of size "map ar_row rs"] by (simp add: chunks_def)
  define st1 where "st1 = st\<lparr>pr_bucket := b'\<rparr>"
  from few budget have "length chunks \<le> pr_left st1" by (simp add: st1_def)
  then obtain st2 where del: "delete_chunks t (row_seq (hd rs)) (row_seq (last rs)) chunks st1 = (True, st2)"
    using delete_chunks_enough by blast
  from delete_chunks_shape [OF del] obtain rest where left: "pr_left st1 = rest + length chunks"
    and st2: "st2 = st1\<lparr>pr_left := rest, pr_db := (pr_db st1)\<lparr>db_rows :=
      [r \<leftarrow> db_rows (pr_db st1). \<not> named_in t (row_seq (hd rs)) (row_seq (last rs)) (set (concat chunks)) r]\<rparr>\<rparr>"
    by auto
  have ids: "set (concat chunks) = ar_row ` set rs"
    using chunks_concat [OF size, of "map ar_row rs"] by (simp add: chunks_def)
  have rows: "pr_db st2 = without rs ?db"
    using named_in_run [OF sound rs subset_refl] unfolding st2 without_def ids by (simp add: st1_def)
  define st3 where "st3 = st2\<lparr>pr_tombs := pr_tombs st2 @ [x], pr_pruned := pr_pruned st2 + ts_count x\<rparr>"
  have done': "prune_one_run sha cap opts rs st = (True, st3)"
    unfolding step st1_def [symmetric] del by (simp add: st3_def)
  have fields: "pr_db st3 = without rs ?db" "pr_bucket st3 = b'" "pr_tombs st3 = ?ts @ [x]" "pr_refused st3 = pr_refused st"
    "pr_pruned st3 = pr_pruned st + int (length rs)" "pr_left st3 = rest"
    using rows by (simp_all add: st3_def st2 st1_def x(4))
  have "prune_ok sha t R st3"
    unfolding prune_ok_def fields
    using b'(1,3) tombs trail_sound_without [OF sound rs x(1,2,3) last] by simp
  moreover have "ts_tenant x = t" using x(1) by (simp add: own_run_def)
  ultimately show ?thesis using done' fields left few b'(2)
    by (intro exI [of _ st3] exI [of _ x]) (simp add: st1_def)
qed

section \<open>Every run of a page\<close>

lemma without_append: "without ys (without xs db) = without (xs @ ys) db"
  by (simp add: without_def)

lemma without_none: "without [] db = db"
  by (simp add: without_def)

text \<open>A bucket that differs from another by tombstones of one chain.\<close>

definition more_tombstones :: "string option \<Rightarrow> audit_bucket \<Rightarrow> audit_bucket \<Rightarrow> bool" where
  "more_tombstones t b b' \<longleftrightarrow> keys_distinct b' \<and> set b \<subseteq> set b' \<and>
     (\<forall>e\<in>set b' - set b. \<exists>x. e = (tombstone_key t (ts_from x), Holds_tombstone x) \<and> ts_tenant x = t)"

lemma prune_runs_ok:
  assumes "prune_ok sha t R st" and t: "po_tenant opts = t" and cap: "4 \<le> cap"
    and "\<forall>rs\<in>set rss. rs \<noteq> [] \<and> consecutive rs" "distinct (concat rss)"
    and "set (concat rss) \<subseteq> set (chain_rows (pr_db st) t)" "\<forall>r\<in>set (concat rss). row_seq r < int (length R)"
    and "length (concat rss) \<le> pr_left st"
  shows "\<exists>st'. prune_runs sha cap opts rss st = (True, st') \<and> prune_ok sha t R st' \<and>
    pr_db st' = without (concat rss) (pr_db st) \<and> more_tombstones t (pr_bucket st) (pr_bucket st') \<and>
    pr_refused st' = pr_refused st \<and> pr_pruned st' = pr_pruned st + int (length (concat rss))"
  using assms(1,4-)
proof (induction rss arbitrary: st)
  case Nil
  then show ?case by (simp add: without_none more_tombstones_def prune_ok_def bucket_sound_def)
next
  case (Cons rs rss)
  have rs: "rs \<noteq> []" "consecutive rs" "set rs \<subseteq> set (chain_rows (pr_db st) t)" "row_seq (last rs) < int (length R)"
    "length rs \<le> pr_left st"
    using Cons.prems by auto
  obtain st1 x where one: "prune_one_run sha cap opts rs st = (True, st1)" "prune_ok sha t R st1"
    "pr_db st1 = without rs (pr_db st)"
    "set (pr_bucket st1) = insert (tombstone_key t (ts_from x), Holds_tombstone x) (set (pr_bucket st))" "ts_tenant x = t"
    "pr_refused st1 = pr_refused st" "pr_pruned st1 = pr_pruned st + int (length rs)" "pr_left st \<le> pr_left st1 + length rs"
    using prune_one_run_ok [OF Cons.prems(1) t rs(1-4) cap rs(5)] by blast
  have apart: "set (concat rss) \<inter> set rs = {}" using Cons.prems(3) by auto
  have "set (concat rss) \<subseteq> set (chain_rows (pr_db st1) t)"
    unfolding one(3) chain_rows_without using Cons.prems(4) apart by auto
  moreover have "length (concat rss) \<le> pr_left st1" using Cons.prems(6) one(8) by simp
  ultimately obtain st2 where two: "prune_runs sha cap opts rss st1 = (True, st2)" "prune_ok sha t R st2"
    "pr_db st2 = without (concat rss) (pr_db st1)" "more_tombstones t (pr_bucket st1) (pr_bucket st2)"
    "pr_refused st2 = pr_refused st1" "pr_pruned st2 = pr_pruned st1 + int (length (concat rss))"
    using Cons.IH [OF one(2)] Cons.prems by fastforce
  have "more_tombstones t (pr_bucket st) (pr_bucket st2)"
    using two(4) one(4,5) unfolding more_tombstones_def by blast
  with one two show ?case by (simp add: without_append)
qed

section \<open>The rows a page is for\<close>

lemma window_at_least_shortest:
  assumes "audit_window_days eff a = Some d" shows "\<exists>s. shortest_window_days eff = Some s \<and> s \<le> d"
proof -
  obtain e where e: "deciding_days eff a = Some e" "e \<le> d"
    using assms by (auto simp: audit_window_days_def split: option.splits if_splits)
  define ds where "ds = map al_days (er_rules eff) @ (case er_default eff of None \<Rightarrow> [] | Some d \<Rightarrow> [d])"
  have mem: "e \<in> set ds"
  proof (cases "find (\<lambda>r. starts_with a (al_prefix r)) (er_rules eff)")
    case (Some r)
    with find_in_set [OF Some] e(1) show ?thesis by (auto simp: deciding_days_def ds_def)
  qed (use e(1) in \<open>simp add: deciding_days_def ds_def\<close>)
  then obtain s where s: "least_of ds = Some s" by (cases "least_of ds") auto
  from least_of_some [OF this] mem have "s \<le> e" by blast
  with s e(2) show ?thesis unfolding shortest_window_days_def ds_def by simp
qed

lemma cutoffs_expired:
  "past_cutoffs (expiry_cutoffs eff acts now) r \<longleftrightarrow> ev_action r \<in> set acts \<and> expired eff now r"
proof -
  define timed where "timed = List.map_filter (\<lambda>a. map_option (\<lambda>d. (now - d * ms_per_day, a)) (audit_window_days eff a)) (firsts acts)"
  have timed: "(u, a) \<in> set timed \<longleftrightarrow> a \<in> set acts \<and> (\<exists>d. audit_window_days eff a = Some d \<and> u = now - d * ms_per_day)" for u a
    by (auto simp: timed_def map_filter_set)
  have "past_cutoffs (expiry_cutoffs eff acts now) r \<longleftrightarrow> (\<exists>u. (u, ev_action r) \<in> set timed \<and> ev_occurred_at r < u)"
    unfolding past_cutoffs_def expiry_cutoffs_def timed_def [symmetric] Let_def by force
  then show ?thesis by (auto simp: timed expired_def past_window_def split: option.splits)
qed

definition due_rows :: "prune_options \<Rightarrow> int \<Rightarrow> audit_db \<Rightarrow> audit_row list" where
  "due_rows opts n db = take (po_limit opts) (in_order [r \<leftarrow> db_rows db. in_chain (po_tenant opts) r \<and>
     po_after opts < row_seq r \<and> row_seq r < n \<and> expired (po_retention opts) (po_now opts) r])"

lemma prune_rows_due:
  assumes "shortest_window_days (po_retention opts) = Some s"
  shows "prune_rows db opts (n - 1) (po_now opts - s * ms_per_day)
    (prune_cutoffs db opts (n - 1) (po_now opts - s * ms_per_day)) = due_rows opts n db"
proof -
  let ?before = "po_now opts - s * ms_per_day"
  let ?q = "\<lparr>rq_tenant = po_tenant opts, rq_after = po_after opts, rq_after_row = None, rq_limit = po_limit opts,
    rq_through = Some (n - 1), rq_before = Some ?before, rq_matching = Some (past_cutoffs (prune_cutoffs db opts (n - 1) ?before))\<rparr>"
  have "row_after ?q r \<longleftrightarrow> in_chain (po_tenant opts) r \<and> po_after opts < row_seq r \<and> row_seq r < n \<and>
      expired (po_retention opts) (po_now opts) r" if r: "r \<in> set (db_rows db)" for r
  proof -
    have "ev_occurred_at r < ?before" if "expired (po_retention opts) (po_now opts) r"
    proof -
      from that obtain d where d: "audit_window_days (po_retention opts) (ev_action r) = Some d"
        "ev_occurred_at r < po_now opts - d * ms_per_day"
        by (auto simp: expired_def past_window_def split: option.splits)
      from window_at_least_shortest [OF d(1)] assms have "s \<le> d" by simp
      then have "s * ms_per_day \<le> d * ms_per_day" by (simp add: ms_per_day_def)
      with d(2) show ?thesis by simp
    qed
    then show ?thesis
      using r by (auto simp: row_after_def prune_cutoffs_def cutoffs_expired)
  qed
  then have "filter (row_after ?q) (db_rows db) = [r \<leftarrow> db_rows db. in_chain (po_tenant opts) r \<and>
     po_after opts < row_seq r \<and> row_seq r < n \<and> expired (po_retention opts) (po_now opts) r]"
    by (intro filter_cong) auto
  then show ?thesis by (simp add: prune_rows_def due_rows_def read_chain_rows_def in_order_def)
qed

lemma nothing_due:
  assumes "due_rows opts n db = [] \<or> shortest_window_days (po_retention opts) = None \<or> n \<le> 1"
    and "\<And>r. r \<in> set (chain_rows db (po_tenant opts)) \<Longrightarrow> 1 \<le> row_seq r"
  shows "due_rows opts n db = []"
proof -
  have "\<not> expired (po_retention opts) (po_now opts) r" if "shortest_window_days (po_retention opts) = None" for r
    using that window_at_least_shortest [of "po_retention opts" "ev_action r"]
    by (auto simp: expired_def past_window_def split: option.splits)
  moreover have "1 \<le> row_seq r" if "r \<in> set (db_rows db)" "in_chain (po_tenant opts) r" for r
    using assms(2) [of r] that by (simp add: chain_rows_in)
  ultimately have "[r \<leftarrow> db_rows db. in_chain (po_tenant opts) r \<and> po_after opts < row_seq r \<and> row_seq r < n \<and>
      expired (po_retention opts) (po_now opts) r] = []" if "shortest_window_days (po_retention opts) = None \<or> n \<le> 1"
    using that unfolding filter_empty_conv by fastforce
  then have "due_rows opts n db = []" if "shortest_window_days (po_retention opts) = None \<or> n \<le> 1"
    using that unfolding due_rows_def by (simp add: in_order_def)
  with assms(1) show ?thesis by blast
qed

section \<open>A page\<close>

lemma due_in: "r \<in> set (due_rows opts n db) \<Longrightarrow> r \<in> set (chain_rows db (po_tenant opts)) \<and> row_seq r < n \<and>
    expired (po_retention opts) (po_now opts) r"
  by (auto simp: due_rows_def chain_rows_in dest!: in_set_takeD)

lemma due_distinct:
  assumes "row_ids db" shows "distinct (due_rows opts n db)"
proof -
  have "distinct (in_order (filter P (db_rows db)))" for P
    using assms by (simp add: row_ids_def in_order_def distinct_map)
  then show ?thesis unfolding due_rows_def by (rule distinct_take)
qed

lemma due_length: "length (due_rows opts n db) \<le> length (db_rows db)"
  unfolding due_rows_def by (simp add: le_trans [OF min.cobounded1 length_filter_le])

definition page_after :: "prune_options \<Rightarrow> audit_row list \<Rightarrow> prune_page" where
  "page_after opts due = \<lparr>pp_pruned = int (length due), pp_refused = 0,
     pp_next = (if length due = po_limit opts \<and> due \<noteq> [] then Some (row_seq (last due)) else None)\<rparr>"

lemma prune_page_ok:
  assumes stored: "trail_stored sha t R (db, b)" and t: "po_tenant opts = t" and cap: "4 \<le> cap"
    and budget: "length (db_rows db) \<le> budget"
  defines "due \<equiv> due_rows opts (int (length R)) db"
  shows "\<exists>b'. prune_chain_page sha cap budget opts (db, b) = (Some (page_after opts due), (without due db, b')) \<and>
    trail_stored sha t R (without due db, b') \<and> more_tombstones t b b'"
proof -
  let ?ts = "read_tombstones b t"
  have bucket: "bucket_sound t R b" and sound: "trail_sound sha t R db ?ts" using stored by (simp_all add: trail_stored_def)
  have head: "head_seq (read_chain_head db t) = int (length R)" using sound_head(1) [OF sound] by (simp add: at_link_def)
  have pos: "1 \<le> row_seq r" if "r \<in> set (chain_rows db (po_tenant opts))" for r
    using sound_row(1) [OF sound] that by (simp add: t true_row_def)
  have none: "trail_stored sha t R (without [] db, b) \<and> more_tombstones t b b \<and> page_after opts [] = nothing_pruned"
    using stored bucket by (simp add: without_none more_tombstones_def bucket_sound_def page_after_def nothing_pruned_def)
  show ?thesis
  proof (cases "shortest_window_days (po_retention opts) = None \<or> int (length R) \<le> 1")
    case True
    then have "due = []" using nothing_due [OF _ pos] by (auto simp: due_def)
    moreover have "prune_chain_page sha cap budget opts (db, b) = (Some nothing_pruned, (db, b))"
      using True by (cases "shortest_window_days (po_retention opts)") (simp_all add: prune_chain_page_def t head)
    ultimately show ?thesis using none by (auto simp: without_none)
  next
    case False
    then obtain s where s: "shortest_window_days (po_retention opts) = Some s" and long: "1 < int (length R)" by auto
    define cutoffs where "cutoffs = prune_cutoffs db opts (int (length R) - 1) (po_now opts - s * ms_per_day)"
    have rows: "prune_rows db opts (int (length R) - 1) (po_now opts - s * ms_per_day) cutoffs = due"
      unfolding cutoffs_def due_def by (rule prune_rows_due [OF s])
    show ?thesis
    proof (cases "cutoffs = []")
      case True
      have "row_after q r = False" if "rq_matching q = Some (past_cutoffs [])" for q r
        using that by (simp add: row_after_def past_cutoffs_def)
      then have "due = []" unfolding rows [symmetric] by (simp add: True prune_rows_def read_chain_rows_def filter_False)
      moreover have "prune_chain_page sha cap budget opts (db, b) = (Some nothing_pruned, (db, b))"
        using s long True by (simp add: prune_chain_page_def t head Let_def cutoffs_def)
      ultimately show ?thesis using none by (auto simp: without_none)
    next
      case False
      define rss where "rss = expired_runs (po_retention opts) (po_now opts) due"
      define st where "st = \<lparr>pr_db = db, pr_bucket = b, pr_tombs = ?ts, pr_pruned = 0, pr_refused = 0, pr_left = budget\<rparr>"
      have mem: "r \<in> set (chain_rows db t) \<and> row_seq r < int (length R) \<and> expired (po_retention opts) (po_now opts) r"
        if "r \<in> set due" for r
        using due_in [OF that [unfolded due_def]] by (simp add: t)
      then have all: "filter (expired (po_retention opts) (po_now opts)) due = due" by (simp add: filter_id_conv)
      have "\<forall>r\<in>set due. ar_seq r \<noteq> None" using mem by (auto simp: chain_rows_in in_chain_def)
      note spec = expired_runs_spec [OF this, of "po_retention opts" "po_now opts", folded rss_def, unfolded all]
      have "row_ids db" using sound by (simp add: trail_sound_def)
      have ok: "prune_ok sha t R st" using bucket sound by (simp add: prune_ok_def st_def)
      have apart: "distinct (concat rss)" unfolding spec(1) due_def by (rule due_distinct [OF \<open>row_ids db\<close>])
      have rows_in: "set (concat rss) \<subseteq> set (chain_rows (pr_db st) t)" "\<forall>r\<in>set (concat rss). row_seq r < int (length R)"
        unfolding spec(1) using mem by (auto simp: st_def)
      have enough: "length (concat rss) \<le> pr_left st"
        unfolding spec(1) using due_length [of opts "int (length R)" db] budget by (simp add: due_def st_def)
      have start: "pr_db st = db" "pr_bucket st = b" "pr_refused st = 0" "pr_pruned st = 0" by (simp_all add: st_def)
      obtain st' where st': "prune_runs sha cap opts rss st = (True, st')" "prune_ok sha t R st'"
        "pr_db st' = without due db" "more_tombstones t b (pr_bucket st')" "pr_refused st' = 0" "pr_pruned st' = int (length due)"
        using prune_runs_ok [OF ok t cap spec(2) apart rows_in enough] unfolding start spec(1) by auto
      have "prune_chain_page sha cap budget opts (db, b) = (Some (page_after opts due), (without due db, pr_bucket st'))"
        using s long False st' rows
        by (simp add: prune_chain_page_def t head Let_def cutoffs_def [symmetric] rss_def [symmetric] st_def [symmetric] page_after_def)
      moreover have "trail_stored sha t R (without due db, pr_bucket st')"
      proof -
        have "trail_sound sha t R (without due db) (pr_tombs st')" "set (pr_tombs st') = set (read_tombstones (pr_bucket st') t)"
          "bucket_sound t R (pr_bucket st')"
          using st'(2,3) by (simp_all add: prune_ok_def)
        then show ?thesis using trail_sound_tombs [of "pr_tombs st'"] by (simp add: trail_stored_def)
      qed
      ultimately show ?thesis using st'(4) by blast
    qed
  qed
qed

end
