(* ===== verification/Audit_Prune_Safety.thy ===== *)
theory Audit_Prune_Safety
  imports Audit_Prune_Laws
begin

text \<open>
  What a page of the prune can do to any table and bucket, broken or not, wherever it fails; and the
  gap that a page interrupted between two of a run's deletes leaves behind.
\<close>

section \<open>What one run can remove\<close>

text \<open>The rows of a run that go, if any, and the one object it can add.\<close>

definition removed :: "audit_row set \<Rightarrow> audit_db \<Rightarrow> audit_db \<Rightarrow> bool" where
  "removed X db db' \<longleftrightarrow> db' = db\<lparr>db_rows := [r \<leftarrow> db_rows db. r \<notin> X]\<rparr>"

lemma removed_none: "removed {} db db"
  by (simp add: removed_def)

lemma removed_trans: "removed X db db' \<Longrightarrow> removed Y db' db'' \<Longrightarrow> removed (X \<union> Y) db db''"
  by (simp add: removed_def)

lemma removed_rows: "removed X db db' \<Longrightarrow> set (db_rows db') = set (db_rows db) - X"
  by (auto simp: removed_def)

lemma removed_held: "removed X db db' \<Longrightarrow> held_at db' t q \<Longrightarrow> held_at db t q"
  by (auto simp: removed_def held_at_def chain_rows_in)

lemma run_named_removed:
  assumes ids: "distinct (map ar_row (db_rows db0))" and sub: "set (db_rows db) \<subseteq> set (db_rows db0)" and rs: "set rs \<subseteq> set (db_rows db0)"
    and named: "set js \<subseteq> ar_row ` set (named_rows x rs)"
  shows "\<exists>X. X \<subseteq> set rs \<and> removed X db (db\<lparr>db_rows := [r \<leftarrow> db_rows db. \<not> named_in t (ts_from x) (ts_through x) (set js) r]\<rparr>)"
proof -
  let ?X = "{r \<in> set (db_rows db). named_in t (ts_from x) (ts_through x) (set js) r}"
  have "r \<in> set rs" if "r \<in> ?X" for r
  proof -
    from that named obtain s where s: "s \<in> set rs" "ar_row s = ar_row r" by (auto simp: named_in_def named_rows_def)
    from that sub have "r \<in> set (db_rows db0)" by auto
    with s rs ids have "s = r" by (auto simp: distinct_map dest: inj_onD)
    with s(1) show ?thesis by simp
  qed
  moreover have "removed ?X db (db\<lparr>db_rows := [r \<leftarrow> db_rows db. \<not> named_in t (ts_from x) (ts_through x) (set js) r]\<rparr>)"
    unfolding removed_def by (simp cong: filter_cong)
  ultimately show ?thesis by blast
qed

lemma chunk_concat: "chunk_by_bound_parameters cap xs n = Some chunks \<Longrightarrow> concat chunks = xs"
  using chunks_concat [of "cap - n" xs]
  by (auto simp: chunk_by_bound_parameters_def bound_parameter_budget_def split: if_splits)

lemma set_take_concat: "set (concat (take j xss)) \<subseteq> set (concat xss)"
  by (auto dest: in_set_takeD)

lemma prune_one_run_effect:
  assumes step: "prune_one_run sha cap opts rs st = (went, st')"
    and ids: "distinct (map ar_row (db_rows db0))" and sub: "set (db_rows (pr_db st)) \<subseteq> set (db_rows db0)" and rs: "set rs \<subseteq> set (db_rows db0)"
  shows "\<exists>X. removed X (pr_db st) (pr_db st') \<and> X \<subseteq> set rs \<and>
    (X \<noteq> {} \<longrightarrow> link_before_run (pr_db st) (po_tenant opts) (row_seq (hd rs)) (pr_tombs st) \<noteq> None) \<and>
    (pr_bucket st' = pr_bucket st \<or>
      (\<exists>prior. write_tombstone (pr_bucket st) (tombstone_of opts rs prior) = (Some (tombstone_of opts rs prior), pr_bucket st'))) \<and>
    (pr_tombs st' = pr_tombs st \<or> (\<exists>prior x. write_tombstone (pr_bucket st) (tombstone_of opts rs prior) = (Some x, pr_bucket st') \<and>
       pr_tombs st' = pr_tombs st @ [x]))"
proof -
  let ?t = "po_tenant opts"
  have bucket: "b = pr_bucket st \<or> y = Some x" if "write_tombstone (pr_bucket st) x = (y, b)" for x y b
    using that by (auto simp: write_tombstone_def Let_def split: prod.splits if_splits)
  have same: "pr_db st' = pr_db st \<Longrightarrow> pr_bucket st' = pr_bucket st \<Longrightarrow> pr_tombs st' = pr_tombs st \<Longrightarrow> ?thesis"
    using removed_none by (intro exI [of _ "{}"]) simp
  show ?thesis
  proof (cases "rows_at (pr_db st) ?t (row_seq (hd rs)) (row_seq (last rs)) \<noteq> length rs \<or>
      link_before_run (pr_db st) ?t (row_seq (hd rs)) (pr_tombs st) = None")
    case True
    then have "prune_one_run sha cap opts rs st = (True, refuse st)" unfolding prune_one_run_def Let_def by auto
    with step have "st' = refuse st" by simp
    then show ?thesis by (intro same) (simp_all add: refuse_def)
  next
    case False
    then obtain prior where at_pos: "rows_at (pr_db st) ?t (row_seq (hd rs)) (row_seq (last rs)) = length rs"
      "link_before_run (pr_db st) ?t (row_seq (hd rs)) (pr_tombs st) = Some prior" by auto
    show ?thesis
    proof (cases "run_verifies sha (pr_bucket st) ?t rs prior = Some True")
      case False
      then have "prune_one_run sha cap opts rs st = (True, refuse st)" unfolding prune_one_run_def Let_def using at_pos by auto
      with step have "st' = refuse st" by simp
      then show ?thesis by (intro same) (simp_all add: refuse_def)
    next
      case verified: True
      let ?x0 = "tombstone_of opts rs prior"
      obtain y b where w: "write_tombstone (pr_bucket st) ?x0 = (y, b)" by fastforce
      define st1 where "st1 = st\<lparr>pr_bucket := b\<rparr>"
      have go: "prune_one_run sha cap opts rs st = (case y of None \<Rightarrow> (False, st1)
        | Some x \<Rightarrow> if \<not> tombstone_fits (pr_db st1) ?t x rs then (True, refuse st1)
            else case chunk_by_bound_parameters cap (map ar_row (named_rows x rs)) (if ?t = None then 2 else 3) of
              None \<Rightarrow> (False, st1)
            | Some chunks \<Rightarrow> (case delete_chunks ?t (ts_from x) (ts_through x) chunks st1 of
                (False, st'') \<Rightarrow> (False, st'')
              | (True, st'') \<Rightarrow> (True, st''\<lparr>pr_tombs := pr_tombs st'' @ [x], pr_pruned := pr_pruned st'' + ts_count x\<rparr>)))"
        using at_pos verified w by (simp add: prune_one_run_def Let_def st1_def split: option.splits)
      have wrote: "b = pr_bucket st \<or> write_tombstone (pr_bucket st) ?x0 = (Some ?x0, b)"
        using bucket [OF w] w by auto
      have still: "pr_db st' = pr_db st \<Longrightarrow> pr_bucket st' = b \<Longrightarrow> pr_tombs st' = pr_tombs st \<Longrightarrow> ?thesis"
        using removed_none wrote by (intro exI [of _ "{}"]) auto
      show ?thesis
      proof (cases y)
        case None
        then have "st' = st1" using step go by simp
        then show ?thesis by (intro still) (simp_all add: st1_def)
      next
        case (Some x)
        show ?thesis
        proof (cases "tombstone_fits (pr_db st1) ?t x rs \<and>
            chunk_by_bound_parameters cap (map ar_row (named_rows x rs)) (if ?t = None then 2 else 3) \<noteq> None")
          case False
          then have "st' = refuse st1 \<or> st' = st1" using step go Some by (auto split: if_splits option.splits)
          then show ?thesis by (elim disjE; intro still) (simp_all add: st1_def refuse_def)
        next
          case True
          then obtain chunks where chunks: "chunk_by_bound_parameters cap (map ar_row (named_rows x rs)) (if ?t = None then 2 else 3) = Some chunks"
            by auto
          obtain fully st2 where del: "delete_chunks ?t (ts_from x) (ts_through x) chunks st1 = (fully, st2)" by fastforce
          from delete_chunks_shape [OF del] obtain j rest where st2: "st2 = st1\<lparr>pr_left := rest, pr_db := (pr_db st1)\<lparr>db_rows :=
              [r \<leftarrow> db_rows (pr_db st1). \<not> named_in ?t (ts_from x) (ts_through x) (set (concat (take j chunks))) r]\<rparr>\<rparr>" by blast
          have "set (concat chunks) \<subseteq> ar_row ` set (named_rows x rs)"
            unfolding chunk_concat [OF chunks] by simp
          then have "set (concat (take j chunks)) \<subseteq> ar_row ` set (named_rows x rs)"
            by (rule order_trans [OF set_take_concat])
          from run_named_removed [OF ids sub rs this, of ?t]
          obtain X where X: "X \<subseteq> set rs" "removed X (pr_db st) (pr_db st2)" by (auto simp: st2 st1_def)
          have "st' = (if fully then st2\<lparr>pr_tombs := pr_tombs st2 @ [x], pr_pruned := pr_pruned st2 + ts_count x\<rparr> else st2)"
            using step go Some True chunks del by (cases fully) auto
          then have "pr_db st' = pr_db st2" "pr_bucket st' = b" "pr_tombs st' = pr_tombs st \<or> pr_tombs st' = pr_tombs st @ [x]"
            by (auto simp: st2 st1_def)
          with X at_pos(2) wrote w Some show ?thesis by (intro exI [of _ X]) auto
        qed
      qed
    qed
  qed
qed

section \<open>What a page can remove\<close>

lemma prune_runs_effect:
  assumes ids: "distinct (map ar_row (db_rows db0))"
  shows "prune_runs sha cap opts rss st = (went, st') \<Longrightarrow> set (db_rows (pr_db st)) \<subseteq> set (db_rows db0) \<Longrightarrow>
    set (concat rss) \<subseteq> set (db_rows db0) \<Longrightarrow> \<exists>X. removed X (pr_db st) (pr_db st') \<and> X \<subseteq> set (concat rss)"
proof (induction rss arbitrary: st)
  case Nil
  then show ?case using removed_none by auto
next
  case (Cons rs rss)
  obtain ok st1 where one: "prune_one_run sha cap opts rs st = (ok, st1)" by fastforce
  from prune_one_run_effect [OF one ids Cons.prems(2)] Cons.prems(3)
  obtain X where X: "removed X (pr_db st) (pr_db st1)" "X \<subseteq> set rs" by auto
  show ?case
  proof (cases ok)
    case False
    with Cons.prems(1) one have "st' = st1" by simp
    with X show ?thesis by auto
  next
    case True
    with Cons.prems(1) one have rest: "prune_runs sha cap opts rss st1 = (went, st')" by simp
    have "set (db_rows (pr_db st1)) \<subseteq> set (db_rows db0)" using Cons.prems(2) removed_rows [OF X(1)] by blast
    from Cons.IH [OF rest this] Cons.prems(3)
    obtain Y where "removed Y (pr_db st1) (pr_db st')" "Y \<subseteq> set (concat rss)" by auto
    with X removed_trans show ?thesis by (intro exI [of _ "X \<union> Y"]) auto
  qed
qed

lemma page_rows_in:
  "r \<in> set (prune_rows db opts through before cutoffs) \<Longrightarrow>
     r \<in> set (db_rows db) \<and> in_chain (po_tenant opts) r \<and> row_seq r \<le> through \<and> po_after opts < row_seq r"
  by (auto simp: prune_rows_def read_chain_rows_def row_after_def dest!: in_set_takeD)

lemma answer_and_state:
  "(if k then Some p else None, x, y) = (res, x', y') \<Longrightarrow> k = (res \<noteq> None) \<and> x' = x \<and> y' = y"
  by (auto split: if_splits)

lemma prune_page_cases:
  assumes "prune_chain_page sha cap budget opts (db, b) = (res, (db', b'))"
  obtains "db' = db" "b' = b"
  | rows ok st where "ok = (res \<noteq> None)" "db' = pr_db st" "b' = pr_bucket st"
    "prune_runs sha cap opts (expired_runs (po_retention opts) (po_now opts) rows)
       \<lparr>pr_db = db, pr_bucket = b, pr_tombs = read_tombstones b (po_tenant opts), pr_pruned = 0, pr_refused = 0,
        pr_left = budget\<rparr> = (ok, st)"
    "\<And>r. r \<in> set rows \<Longrightarrow> r \<in> set (db_rows db) \<and> in_chain (po_tenant opts) r \<and>
      row_seq r \<le> head_seq (read_chain_head db (po_tenant opts)) - 1 \<and> po_after opts < row_seq r"
proof -
  define n where "n = head_seq (read_chain_head db (po_tenant opts))"
  show ?thesis
  proof (cases "shortest_window_days (po_retention opts)")
    case None
    then have "db' = db" "b' = b" using assms by (simp_all add: prune_chain_page_def)
    then show ?thesis by (rule that(1))
  next
    case (Some s)
    define before where "before = po_now opts - s * ms_per_day"
    define cutoffs where "cutoffs = prune_cutoffs db opts (n - 1) before"
    define rows where "rows = prune_rows db opts (n - 1) before cutoffs"
    define st0 where "st0 = \<lparr>pr_db = db, pr_bucket = b, pr_tombs = read_tombstones b (po_tenant opts), pr_pruned = 0,
      pr_refused = 0, pr_left = budget\<rparr>"
    note page = assms [unfolded prune_chain_page_def prod.case Some option.simps Let_def, folded n_def,
        folded before_def, folded cutoffs_def, folded rows_def, folded st0_def]
    show ?thesis
    proof (cases "n \<le> 1 \<or> cutoffs = []")
      case True
      then have "db' = db" "b' = b" using page by (cases "n \<le> 1", simp_all)+
      then show ?thesis by (rule that(1))
    next
      case False
      obtain ok st where runs: "prune_runs sha cap opts (expired_runs (po_retention opts) (po_now opts) rows) st0 = (ok, st)"
        by fastforce
      have "(n \<le> 1) = False" "(cutoffs = []) = False" using False by simp_all
      note page = page [unfolded this if_False runs prod.case]
      from answer_and_state [OF this] have res: "ok = (res \<noteq> None)" "db' = pr_db st" "b' = pr_bucket st" by blast+
      show ?thesis
        by (rule that(2) [OF res runs [unfolded st0_def]]) (unfold rows_def n_def [symmetric], drule page_rows_in, blast)
    qed
  qed
qed

lemma prune_page_effect:
  assumes page: "prune_chain_page sha cap budget opts (db, b) = (res, (db', b'))" and ids: "row_ids db"
  shows "\<exists>X. removed X db db' \<and> (\<forall>r\<in>X. in_chain (po_tenant opts) r \<and>
    row_seq r < head_seq (read_chain_head db (po_tenant opts)) \<and> expired (po_retention opts) (po_now opts) r)"
  using page
proof (cases rule: prune_page_cases)
  case 1
  then show ?thesis using removed_none by auto
next
  case (2 rows ok st)
  have "\<forall>r\<in>set rows. ar_seq r \<noteq> None" using 2(5) by (auto simp: in_chain_def)
  note spec = expired_runs_spec [OF this, of "po_retention opts" "po_now opts"]
  have sub: "set (concat (expired_runs (po_retention opts) (po_now opts) rows)) \<subseteq> set (db_rows db)"
    unfolding spec(1) using 2(5) by auto
  from prune_runs_effect [OF ids [unfolded row_ids_def] 2(4) _ sub]
  obtain X where X: "removed X db db'" "X \<subseteq> set (filter (expired (po_retention opts) (po_now opts)) rows)"
    unfolding spec(1) using 2(2) by auto
  then show ?thesis using 2(5) by (intro exI [of _ X]) fastforce
qed

section \<open>A gap no tombstone ends in\<close>

text \<open>An event stands, the one before it is gone, and no tombstone ends there.\<close>

definition gap_before :: "string option \<Rightarrow> int \<Rightarrow> audit_db \<Rightarrow> tombstone list \<Rightarrow> bool" where
  "gap_before t p db ts \<longleftrightarrow> 2 \<le> p \<and> held_at db t p \<and> \<not> held_at db t (p - 1) \<and>
     (\<forall>x\<in>set ts. ts_through x \<noteq> p - 1 \<and> 1 \<le> ts_count x) \<and> (\<forall>r\<in>set (chain_rows db t). ar_hash r \<noteq> None)"

lemma no_link_into_gap:
  assumes "gap_before t p db ts" shows "link_before_run db t p ts = None"
proof -
  have "tombstone_ending_at ts (p - 1) = None"
    using assms unfolding tombstone_ending_at_def find_none_iff by (auto simp: gap_before_def)
  then show ?thesis using assms no_link [of db t "p - 1"] by (simp add: link_before_run_def link_before_def gap_before_def)
qed

lemma new_tombstone_reads:
  assumes distinct: "keys_distinct b" and w: "write_tombstone b x = (Some y, b')" and x: "ts_tenant x = t"
  shows "keys_distinct b' \<and> set (read_tombstones b' t) \<subseteq> insert x (set (read_tombstones b t)) \<and>
    (y = x \<or> (ts_from x \<ge> 0 \<longrightarrow> y \<in> set (read_tombstones b t)))"
proof -
  let ?key = "tombstone_key t (ts_from x)"
  obtain put b1 where p: "put_new b ?key (Holds_tombstone x) = (put, b1)" by fastforce
  note r = put_new_result [OF p distinct]
  show ?thesis
  proof (cases put)
    case True
    with w p x have "b' = b1" "y = x" by (auto simp: write_tombstone_def)
    with r True have b': "keys_distinct b'" "set b' = insert (?key, Holds_tombstone x) (set b)" by simp_all
    have "set (read_tombstones b' t) \<subseteq> insert x (set (read_tombstones b t))"
    proof
      fix z assume "z \<in> set (read_tombstones b' t)"
      then show "z \<in> insert x (set (read_tombstones b t))"
        unfolding read_tombstones_set [OF b'(1)] insert_iff read_tombstones_set [OF distinct] b'(2) by blast
    qed
    with b'(1) \<open>y = x\<close> show ?thesis by blast
  next
    case False
    with w p x have "b' = b" and y: "tombstone_at b t (?key, ts_from x) = Some y"
      by (auto simp: write_tombstone_def)
    have "y \<in> set (read_tombstones b t)" if "0 \<le> ts_from x"
    proof -
      have "bucket_get b ?key = Some (Holds_tombstone y)" "ts_tenant y = t" "ts_from y = ts_from x"
        using y by (auto simp: tombstone_at_def split: option.splits bucket_object.splits if_splits)
      moreover have "number_of_key ?key (tombstone_prefix t) = Some (ts_from x)"
        unfolding tombstone_key_def by (rule number_read_back [OF that])
      ultimately show ?thesis
        using tombstone_key_under [of t "ts_from x"] unfolding read_tombstones_set [OF distinct] bucket_get_in [OF distinct] by metis
    qed
    with \<open>b' = b\<close> distinct show ?thesis by blast
  qed
qed

lemma gap_after_run:
  assumes step: "prune_one_run sha cap opts rs st = (went, st')" and t: "po_tenant opts = t" and distinct: "keys_distinct (pr_bucket st)"
    and ids: "distinct (map ar_row (db_rows db0))" and sub: "set (db_rows (pr_db st)) \<subseteq> set (db_rows db0)"
    and rs: "consecutive rs" "rs \<noteq> []" "set rs \<subseteq> set (chain_rows db0 t)" and pos: "\<forall>r\<in>set rs. 0 \<le> row_seq r"
    and lost: "\<not> held_at db0 t (p - 1)"
    and gap: "gap_before t p (pr_db st) (pr_tombs st)" "gap_before t p (pr_db st) (read_tombstones (pr_bucket st) t)"
  shows "gap_before t p (pr_db st') (pr_tombs st') \<and> gap_before t p (pr_db st') (read_tombstones (pr_bucket st') t) \<and>
    keys_distinct (pr_bucket st')"
proof -
  have in_db: "set rs \<subseteq> set (db_rows db0)" using rs(3) by (auto simp: chain_rows_in)
  note effect = prune_one_run_effect [OF step ids sub in_db, unfolded t]
  then obtain X where X: "removed X (pr_db st) (pr_db st')" "X \<subseteq> set rs"
    "X \<noteq> {} \<longrightarrow> link_before_run (pr_db st) t (row_seq (hd rs)) (pr_tombs st) \<noteq> None" by blast
  have gap0: "p \<in> row_seq ` set rs \<Longrightarrow> row_seq (hd rs) = p"
  proof (rule ccontr)
    assume mem: "p \<in> row_seq ` set rs" and ne: "row_seq (hd rs) \<noteq> p"
    have "row_seq ` set rs = {row_seq (hd rs)..row_seq (last rs)}" using consecutive_span [OF rs(1,2)] by blast
    with mem ne have "p - 1 \<in> row_seq ` set rs" by auto
    with rs(3) lost show False by (auto simp: held_at_def)
  qed
  have stays: "held_at (pr_db st') t p"
  proof -
    obtain r where r: "r \<in> set (db_rows (pr_db st))" "in_chain t r" "row_seq r = p"
      using gap(1) by (auto simp: gap_before_def held_at_def chain_rows_in)
    have "r \<notin> X"
    proof
      assume "r \<in> X"
      with X(2) r(3) have "p \<in> row_seq ` set rs" by auto
      from gap0 [OF this] X(3) \<open>r \<in> X\<close> no_link_into_gap [OF gap(1)] show False by auto
    qed
    with r removed_rows [OF X(1)] show ?thesis by (auto simp: held_at_def chain_rows_in)
  qed
  have gone: "\<not> held_at (pr_db st') t (p - 1)"
    using gap(1) removed_held [OF X(1)] by (auto simp: gap_before_def)
  have fresh: "ts_through (tombstone_of opts rs prior) \<noteq> p - 1 \<and> 1 \<le> ts_count (tombstone_of opts rs prior)" for prior
  proof -
    have "last rs \<in> set (chain_rows db0 t)" using rs(2,3) last_in_set by blast
    then have "held_at db0 t (row_seq (last rs))" by (auto simp: held_at_def)
    with lost have "row_seq (last rs) \<noteq> p - 1" by auto
    moreover have "1 \<le> length rs" using rs(2) by (cases rs) auto
    ultimately show ?thesis by (simp add: tombstone_of_def)
  qed
  have tenant: "ts_tenant (tombstone_of opts rs prior) = t" "0 \<le> ts_from (tombstone_of opts rs prior)" for prior
    using pos rs(2) t by (simp_all add: tombstone_of_def)
  have reads: "keys_distinct (pr_bucket st') \<and> (\<forall>z\<in>set (read_tombstones (pr_bucket st') t). ts_through z \<noteq> p - 1 \<and> 1 \<le> ts_count z)"
  proof (cases "pr_bucket st' = pr_bucket st")
    case True
    with distinct gap(2) show ?thesis by (simp add: gap_before_def)
  next
    case False
    with effect obtain prior where "write_tombstone (pr_bucket st) (tombstone_of opts rs prior)
        = (Some (tombstone_of opts rs prior), pr_bucket st')" by blast
    from new_tombstone_reads [OF distinct this tenant(1)] fresh [of prior] gap(2) show ?thesis
      by (auto simp: gap_before_def)
  qed
  have tombs: "\<forall>z\<in>set (pr_tombs st'). ts_through z \<noteq> p - 1 \<and> 1 \<le> ts_count z"
  proof (cases "pr_tombs st' = pr_tombs st")
    case True
    with gap(1) show ?thesis by (simp add: gap_before_def)
  next
    case False
    with effect obtain prior x where w: "write_tombstone (pr_bucket st) (tombstone_of opts rs prior) = (Some x, pr_bucket st')"
      "pr_tombs st' = pr_tombs st @ [x]" by blast
    from new_tombstone_reads [OF distinct w(1) tenant(1)] tenant(2) fresh [of prior] gap w(2) show ?thesis
      by (auto simp: gap_before_def)
  qed
  have "\<forall>r\<in>set (chain_rows (pr_db st') t). ar_hash r \<noteq> None"
    using gap(1) removed_rows [OF X(1)] by (auto simp: gap_before_def chain_rows_in)
  with stays gone reads tombs gap(1) show ?thesis by (simp add: gap_before_def)
qed

lemma gap_after_runs:
  assumes t: "po_tenant opts = t" and ids: "distinct (map ar_row (db_rows db0))" and lost: "\<not> held_at db0 t (p - 1)"
  shows "prune_runs sha cap opts rss st = (went, st') \<Longrightarrow> keys_distinct (pr_bucket st) \<Longrightarrow>
    set (db_rows (pr_db st)) \<subseteq> set (db_rows db0) \<Longrightarrow> \<forall>rs\<in>set rss. rs \<noteq> [] \<and> consecutive rs \<Longrightarrow>
    set (concat rss) \<subseteq> set (chain_rows db0 t) \<Longrightarrow> \<forall>r\<in>set (concat rss). 0 \<le> row_seq r \<Longrightarrow>
    gap_before t p (pr_db st) (pr_tombs st) \<Longrightarrow> gap_before t p (pr_db st) (read_tombstones (pr_bucket st) t) \<Longrightarrow>
    gap_before t p (pr_db st') (read_tombstones (pr_bucket st') t) \<and> keys_distinct (pr_bucket st')"
proof (induction rss arbitrary: st)
  case (Cons rs rss)
  obtain ok st1 where one: "prune_one_run sha cap opts rs st = (ok, st1)" by fastforce
  have rs: "consecutive rs" "rs \<noteq> []" "set rs \<subseteq> set (chain_rows db0 t)" "\<forall>r\<in>set rs. 0 \<le> row_seq r"
    using Cons.prems by auto
  note g = gap_after_run [OF one t Cons.prems(2) ids Cons.prems(3) rs lost Cons.prems(7,8)]
  show ?case
  proof (cases ok)
    case False
    with Cons.prems(1) one have "st' = st1" by simp
    with g show ?thesis by blast
  next
    case True
    with Cons.prems(1) one have rest: "prune_runs sha cap opts rss st1 = (went, st')" by simp
    have "set rs \<subseteq> set (db_rows db0)" using rs(3) by (auto simp: chain_rows_in)
    from prune_one_run_effect [OF one ids Cons.prems(3) this] obtain X where "removed X (pr_db st) (pr_db st1)" by blast
    from removed_rows [OF this] Cons.prems(3) have "set (db_rows (pr_db st1)) \<subseteq> set (db_rows db0)" by blast
    from Cons.IH [OF rest _ this] g Cons.prems(4-6) show ?thesis by simp
  qed
qed simp

lemma gap_after_page:
  assumes page: "prune_chain_page sha cap budget opts (db, b) = (res, (db', b'))" and t: "po_tenant opts = t" and after: "0 \<le> po_after opts"
    and ids: "row_ids db" and distinct: "keys_distinct b" and gap: "gap_before t p db (read_tombstones b t)"
  shows "gap_before t p db' (read_tombstones b' t) \<and> keys_distinct b' \<and> row_ids db'"
  using page
proof (cases rule: prune_page_cases)
  case 1
  with assms show ?thesis by simp
next
  case (2 rows ok st)
  have "\<forall>r\<in>set rows. ar_seq r \<noteq> None" using 2(5) by (auto simp: in_chain_def)
  note spec = expired_runs_spec [OF this, of "po_retention opts" "po_now opts"]
  have rows: "set (concat (expired_runs (po_retention opts) (po_now opts) rows)) \<subseteq> set (chain_rows db t)"
    "\<forall>r\<in>set (concat (expired_runs (po_retention opts) (po_now opts) rows)). 0 \<le> row_seq r"
    unfolding spec(1) using 2(5) t after by (fastforce simp: chain_rows_in)+
  have lost: "\<not> held_at db t (p - 1)" using gap by (simp add: gap_before_def)
  have "gap_before t p (pr_db st) (read_tombstones (pr_bucket st) t) \<and> keys_distinct (pr_bucket st)"
    by (rule gap_after_runs [OF t ids [unfolded row_ids_def] lost 2(4) _ _ spec(2) rows]) (use distinct gap t in simp_all)
  moreover have "row_ids db'"
  proof -
    obtain X where "removed X db db'" using prune_page_effect [OF page ids] by blast
    with ids show ?thesis by (auto simp: removed_def row_ids_def distinct_map_filter)
  qed
  ultimately show ?thesis using 2(2,3) by simp
qed

text \<open>Where a bridge leaves the walk: where it was, or at the end of a tombstone.\<close>

lemma bridge_lands:
  assumes "counted opts"
  shows "bridge opts p wk = Some (None, wk') \<Longrightarrow>
    wk_head wk' = wk_head wk \<or> (\<exists>x\<in>set (own_tombstones opts). head_seq (wk_head wk') = ts_through x)"
  using assms
proof (induction wk rule: bridge_induct [where p = p])
  case (Cross wk run)
  then show ?case by fastforce
qed auto

lemma walk_steps:
  assumes counted: "counted opts"
  shows "push_all sha opts es wk = Some (None, wk') \<Longrightarrow> e \<in> set es \<Longrightarrow>
    ce_seq e - 1 = head_seq (wk_head wk) \<or> (\<exists>f\<in>set es. ce_seq f = ce_seq e - 1) \<or>
    (\<exists>x\<in>set (own_tombstones opts). ts_through x = ce_seq e - 1)"
proof (induction es arbitrary: wk)
  case (Cons f es)
  then obtain wkb where b: "bridge opts (ce_seq f) wk = Some (None, wkb)"
    and f: "next_event sha (vo_tenant opts) (wk_head wkb) f"
    and rest: "push_all sha opts es (step_over f wkb) = Some (None, wk')"
    unfolding push_all_accepts push_accepts by blast
  show ?case
  proof (cases "e = f")
    case True
    have "ce_seq e - 1 = head_seq (wk_head wkb)" using f True by (simp add: next_event_def)
    with bridge_lands [OF counted b] show ?thesis by force
  next
    case False
    with Cons.prems(2) have "e \<in> set es" by simp
    from Cons.IH [OF rest this] show ?thesis by auto
  qed
qed simp

lemma head_reaches:
  assumes hashed: "\<forall>r\<in>set (chain_rows db t). ar_hash r \<noteq> None" and z: "z \<in> set (chain_rows db t)"
  shows "row_seq z \<le> head_seq (read_chain_head db t)"
proof -
  let ?s = "sort_key (\<lambda>r. - row_seq r) (chain_rows db t)"
  have zs: "z \<in> set ?s" using z by simp
  then obtain r rs where s: "?s = r # rs" by (cases ?s) auto
  have "sorted (map (\<lambda>r. - row_seq r) (r # rs))" unfolding s [symmetric] by simp
  with zs s have below: "row_seq z \<le> row_seq r" by auto
  have "r \<in> set (chain_rows db t)" using arg_cong [OF s, of set] by auto
  then obtain h where "ar_hash r = Some h" "in_chain t r" using hashed by (fastforce simp: chain_rows_in)
  moreover from this(2) obtain n where "ar_seq r = Some n" by (auto simp: in_chain_def)
  ultimately have "head_seq (read_chain_head db t) = row_seq r"
    unfolding read_chain_head_def chain_rows_def [symmetric] s by (simp add: first_row_def link_of_def row_seq_def)
  with below show ?thesis by simp
qed

lemma gap_breaks_walk:
  assumes gap: "gap_before t p db (read_tombstones b t)" and ids: "row_ids db" and page: "0 < page"
  shows "\<exists>v. verify_chain_range sha True (\<lambda>_. (db, b)) (\<lambda>_. (db, b)) page \<lparr>cq_tenant = t, cq_since = None, cq_until = None\<rparr> = Some v \<and>
    \<not> rv_intact v"
proof -
  let ?q = "\<lparr>cq_tenant = t, cq_since = None, cq_until = None\<rparr>"
  define rng where "rng = resolve_range (\<lambda>_. (db, b)) ?q"
  define opts where "opts = walk_options t b None rng"
  have rng: "rr_from rng = 1" "rr_through rng = head_seq (read_chain_head db t)" "rr_to_head rng"
    by (simp_all add: rng_def resolve_range_def Let_def db_at_def)
  have counted: "counted opts" using gap by (simp add: counted_def opts_def walk_options_def gap_before_def)
  have tenant: "vo_tenant opts = t" by (simp add: opts_def walk_options_def)
  obtain z where z: "z \<in> set (chain_rows db t)" "row_seq z = p" using gap by (auto simp: gap_before_def held_at_def)
  let ?rows = "rows_after db t (0, None) (rr_through rng)"
  obtain found wk where walk: "push_all sha opts (map (chained_event_of sha False) ?rows) (start_walk opts) = Some (found, wk)"
    using push_all_returns [OF counted] by blast
  have pages: "walk_pages sha opts (\<lambda>_. (db, b)) page (rr_through rng) 0 (0, None) (start_walk opts) = Some (found, wk)"
    using walk_pages_whole [where db = db and reads = "\<lambda>_. (db, b)", OF ids _ page] walk by (simp add: db_at_def tenant)
  note range = walk_range_def [of sha True "\<lambda>_. (db, b)" page ?q, unfolded Let_def rng_def [symmetric] db_at_def
      bucket_at_def fst_conv snd_conv if_True range_query.simps walk_options_def [symmetric]]
  have reach: "p \<le> rr_through rng" using head_reaches [OF _ z(1)] gap z(2) rng(2) by (simp add: gap_before_def)
  have two: "2 \<le> p" "\<not> held_at db t (p - 1)" using gap by (simp_all add: gap_before_def)
  have "z \<in> set ?rows" using z reach two(1) by (auto simp: rows_after_in chain_rows_in)
  then have e: "chained_event_of sha False z \<in> set (map (chained_event_of sha False) ?rows)" by simp
  have "found \<noteq> None"
  proof
    assume "found = None"
    from walk_steps [OF counted walk [unfolded this] e]
    consider "p - 1 = head_seq (wk_head (start_walk opts))" | r where "r \<in> set ?rows" "row_seq r = p - 1"
      | x where "x \<in> set (own_tombstones opts)" "ts_through x = p - 1"
      by (auto simp: z(2))
    then show False
    proof cases
      case 1
      with two(1) show False by (simp add: start_walk_def opts_def walk_options_def)
    next
      case 2
      with two(2) show False by (auto simp: held_at_def rows_after_in chain_rows_in)
    next
      case 3
      with gap show False by (auto simp: gap_before_def own_tombstones_def opts_def walk_options_def)
    qed
  qed
  then have broken: "\<exists>v. walk_range sha True (\<lambda>_. (db, b)) page ?q = Some v \<and> \<not> rv_intact v"
    unfolding range using pages reach two(1) rng(1) by (auto simp: opts_def)
  then obtain v where v: "walk_range sha True (\<lambda>_. (db, b)) page ?q = Some v" "\<not> rv_intact v" by blast
  then show ?thesis by (cases "map_option br_reason (rv_break v) = Some Missing") (simp_all add: verify_chain_range_def)
qed

section \<open>A page interrupted between a run's deletes\<close>

lemma chunks_take: "0 < n \<Longrightarrow> concat (take j (chunks_of n xs)) = take (j * n) xs"
proof (induction n xs arbitrary: j rule: chunks_of.induct)
  case (3 v x xs)
  show ?case
  proof (cases j)
    case (Suc i)
    let ?n = "Suc v" and ?ys = "x # xs"
    have "concat (take j (chunks_of ?n ?ys)) = take ?n ?ys @ concat (take i (chunks_of ?n (drop ?n ?ys)))"
      by (simp add: Suc)
    also have "\<dots> = take ?n ?ys @ take (i * ?n) (drop ?n ?ys)" using 3 by simp
    also have "\<dots> = take (?n + i * ?n) ?ys" by (rule take_add [symmetric])
    also have "?n + i * ?n = j * ?n" by (simp add: Suc)
    finally show ?thesis .
  qed simp
qed auto

lemma chunks_many:
  assumes "0 < n" "j * n < length xs" shows "j < length (chunks_of n xs)"
proof (rule ccontr)
  assume "\<not> j < length (chunks_of n xs)"
  then have "concat (take j (chunks_of n xs)) = xs" using chunks_concat [OF assms(1)] by simp
  then have "take (j * n) xs = xs" by (simp only: chunks_take [OF assms(1)])
  with assms(2) show False by simp
qed

definition run_chunk :: "nat \<Rightarrow> string option \<Rightarrow> nat" where
  "run_chunk cap t = cap - (if t = None then 2 else 3)"

lemma gap_of_part:
  assumes sound: "trail_sound sha t R db ts" and rs: "rs \<noteq> []" "consecutive rs" "set rs \<subseteq> set (chain_rows db t)"
    and m: "0 < m" "m < length rs" and x: "own_run t R x" "ts_through x = row_seq (last rs)" and us: "set us \<subseteq> insert x (set ts)"
  shows "gap_before t (row_seq (rs ! m)) (without (take m rs) db) us"
proof -
  let ?p = "row_seq (rs ! m)"
  have step: "row_seq (rs ! m) = row_seq (rs ! (m - 1)) + 1"
    using rs(2) m unfolding consecutive_def successively_conv_nth by (metis Suc_pred' m(1))
  have span: "sorted_wrt (<) (map row_seq rs)" using consecutive_span [OF rs(2,1)] by blast
  then have "distinct (map row_seq rs)" by (simp add: strict_sorted_iff)
  then have dist: "distinct rs" by (simp add: distinct_map)
  have at_m: "rs ! m \<in> set (chain_rows db t)" "rs ! (m - 1) \<in> set (chain_rows db t)" using rs(3) m by auto
  have held: "held_at db t (row_seq (rs ! (m - 1)))" using at_m(2) by (auto simp: held_at_def)
  note b = held_boundary [OF sound held]
  have "rs ! m \<notin> set (take m rs)"
  proof
    assume "rs ! m \<in> set (take m rs)"
    then obtain k where "k < m" "rs ! k = rs ! m" using m(2) by (auto simp: in_set_conv_nth)
    with dist m(2) show False by (auto simp: nth_eq_iff_index_eq)
  qed
  with at_m(1) have stays: "held_at (without (take m rs) db) t ?p"
    unfolding held_at_def chain_rows_without by auto
  have gone: "\<not> held_at (without (take m rs) db) t (?p - 1)"
  proof
    assume "held_at (without (take m rs) db) t (?p - 1)"
    then obtain r where r: "r \<in> set (chain_rows db t)" "r \<notin> set (take m rs)" "row_seq r = ?p - 1"
      unfolding held_at_def chain_rows_without by auto
    with step sound_unique [OF sound r(1) at_m(2)] have "r = rs ! (m - 1)" by simp
    moreover have "rs ! (m - 1) = take m rs ! (m - 1)" "m - 1 < length (take m rs)" using m by simp_all
    ultimately have "r \<in> set (take m rs)" by (metis nth_mem)
    with r(2) show False ..
  qed
  have "row_seq (rs ! m) \<le> row_seq (last rs)"
  proof -
    have "row_seq (rs ! m) \<in> row_seq ` set rs" using m(2) by simp
    then show ?thesis using consecutive_span [OF rs(2,1)] by auto
  qed
  then have new: "ts_through x \<noteq> ?p - 1" "1 \<le> ts_count x"
    using x by (auto simp: own_run_def run_of_trail_def)
  have old: "ts_through y \<noteq> ?p - 1 \<and> 1 \<le> ts_count y" if y: "y \<in> set ts" for y
  proof -
    have own: "own_run t R y" using sound y unfolding trail_sound_def by blast
    have "\<not> covered ts (?p - 1)" using sound held b(3,4) step unfolding trail_sound_def by auto
    then have "ts_through y \<noteq> ?p - 1" using own y by (auto simp: covered_def own_run_def run_of_trail_def)
    with own show ?thesis by (auto simp: own_run_def run_of_trail_def)
  qed
  have "\<forall>r\<in>set (chain_rows (without (take m rs) db) t). ar_hash r \<noteq> None"
    using sound_row(1) [OF sound] by (auto simp: chain_rows_without true_row_def)
  with stays gone new old us b(3) step show ?thesis unfolding gap_before_def by auto
qed

lemma interrupted_page:
  assumes stored: "trail_stored sha t R (db, b)" and t: "po_tenant opts = t" and cap: "4 \<le> cap"
    and runs: "expired_runs (po_retention opts) (po_now opts) (due_rows opts (int (length R)) db) = rs # rest"
    and part: "0 < budget" "budget * run_chunk cap t < length rs"
  shows "\<exists>b'. prune_chain_page sha cap budget opts (db, b) = (None, (without (take (budget * run_chunk cap t) rs) db, b')) \<and>
    gap_before t (row_seq (rs ! (budget * run_chunk cap t))) (without (take (budget * run_chunk cap t) rs) db) (read_tombstones b' t) \<and>
    row_ids (without (take (budget * run_chunk cap t) rs) db) \<and> keys_distinct b'"
proof -
  let ?ts = "read_tombstones b t" and ?due = "due_rows opts (int (length R)) db" and ?m = "budget * run_chunk cap t"
  have bucket: "bucket_sound t R b" and sound: "trail_sound sha t R db ?ts" using stored by (simp_all add: trail_stored_def)
  have head: "head_seq (read_chain_head db t) = int (length R)" using sound_head(1) [OF sound] by (simp add: at_link_def)
  have mem: "r \<in> set (chain_rows db t)" if "r \<in> set ?due" for r using due_in [OF that] by (simp add: t)
  have "\<forall>r\<in>set ?due. ar_seq r \<noteq> None" using mem by (auto simp: chain_rows_in in_chain_def)
  note spec = expired_runs_spec [OF this, of "po_retention opts" "po_now opts", unfolded runs]
  have rs: "rs \<noteq> []" "consecutive rs" "set rs \<subseteq> set (chain_rows db t)"
  proof -
    show "rs \<noteq> []" "consecutive rs" using spec(2) by simp_all
    have "set (concat (rs # rest)) \<subseteq> set ?due" unfolding spec(1) by auto
    then have "set rs \<subseteq> set ?due" by auto
    then show "set rs \<subseteq> set (chain_rows db t)" using mem by blast
  qed
  have "?due \<noteq> []" using spec(1) rs(1) by auto
  have pos: "1 \<le> row_seq r" if "r \<in> set (chain_rows db (po_tenant opts))" for r
    using sound_row(1) [OF sound] that by (simp add: t true_row_def)
  have "\<not> (shortest_window_days (po_retention opts) = None \<or> int (length R) \<le> 1)"
  proof
    assume "shortest_window_days (po_retention opts) = None \<or> int (length R) \<le> 1"
    then have "?due = [] \<or> shortest_window_days (po_retention opts) = None \<or> int (length R) \<le> 1" by blast
    from nothing_due [OF this pos] \<open>?due \<noteq> []\<close> show False by blast
  qed
  then obtain s where s: "shortest_window_days (po_retention opts) = Some s" and long: "1 < int (length R)" by auto
  define cutoffs where "cutoffs = prune_cutoffs db opts (int (length R) - 1) (po_now opts - s * ms_per_day)"
  have rows: "prune_rows db opts (int (length R) - 1) (po_now opts - s * ms_per_day) cutoffs = ?due"
    unfolding cutoffs_def by (rule prune_rows_due [OF s])
  have some: "cutoffs \<noteq> []"
  proof
    assume "cutoffs = []"
    have "row_after q r = False" if "rq_matching q = Some (past_cutoffs [])" for q r
      using that by (simp add: row_after_def past_cutoffs_def)
    then have "?due = []" unfolding rows [symmetric] by (simp add: \<open>cutoffs = []\<close> prune_rows_def read_chain_rows_def filter_False)
    with \<open>?due \<noteq> []\<close> show False ..
  qed
  define st where "st = \<lparr>pr_db = db, pr_bucket = b, pr_tombs = ?ts, pr_pruned = 0, pr_refused = 0, pr_left = budget\<rparr>"
  have ok: "prune_ok sha t R st" using bucket sound by (simp add: prune_ok_def st_def)
  have start: "pr_db st = db" "pr_bucket st = b" by (simp_all add: st_def)
  have size: "0 < run_chunk cap t" using cap by (auto simp: run_chunk_def)
  define chunks where "chunks = chunks_of (run_chunk cap t) (map ar_row rs)"
  obtain x b' where x: "own_run t R x" "ts_through x = row_seq (last rs)"
    and b': "bucket_sound t R b'" "set (read_tombstones b' t) = insert x (set ?ts)"
    and step: "prune_one_run sha cap opts rs st =
      (case delete_chunks t (row_seq (hd rs)) (row_seq (last rs)) chunks (st\<lparr>pr_bucket := b'\<rparr>) of
         (False, st') \<Rightarrow> (False, st')
       | (True, st') \<Rightarrow> (True, st'\<lparr>pr_tombs := pr_tombs st' @ [x], pr_pruned := pr_pruned st' + ts_count x\<rparr>))"
    using prune_one_run_start [OF ok t rs [folded start] cap] unfolding start run_chunk_def [symmetric] chunks_def [symmetric] by blast
  obtain whole st2 where del: "delete_chunks t (row_seq (hd rs)) (row_seq (last rs)) chunks (st\<lparr>pr_bucket := b'\<rparr>) = (whole, st2)"
    by fastforce
  have many: "budget < length chunks" using chunks_many [OF size, of budget "map ar_row rs"] part by (simp add: chunks_def)
  from delete_chunks_shape [OF del] many have whole: "\<not> whole"
    and st2: "pr_db st2 = db\<lparr>db_rows := [r \<leftarrow> db_rows db. \<not> named_in t (row_seq (hd rs)) (row_seq (last rs)) (set (concat (take budget chunks))) r]\<rparr>"
      "pr_bucket st2 = b'"
    by (auto simp: st_def)
  have ids: "set (concat (take budget chunks)) = ar_row ` set (take ?m rs)"
    by (simp only: chunks_def chunks_take [OF size] take_map set_map)
  have db': "pr_db st2 = without (take ?m rs) db"
    unfolding st2(1) ids named_in_run [OF sound rs set_take_subset] without_def ..
  have "prune_runs sha cap opts (rs # rest) st = (False, st2)" using step del whole by simp
  then have page: "prune_chain_page sha cap budget opts (db, b) = (None, (without (take ?m rs) db, b'))"
    using s long some rows runs db' st2(2)
    by (simp add: prune_chain_page_def t head Let_def cutoffs_def [symmetric] st_def [symmetric])
  have "0 < ?m" using part size by simp
  then have "gap_before t (row_seq (rs ! ?m)) (without (take ?m rs) db) (read_tombstones b' t)"
    using b'(2) by (intro gap_of_part [OF sound rs _ part(2) x]) simp_all
  moreover have "row_ids (without (take ?m rs) db)"
    using sound by (simp add: trail_sound_def row_ids_def without_def distinct_map_filter)
  ultimately show ?thesis using page b'(1) by (auto simp: bucket_sound_def)
qed

end
