(* ===== verification/Audit_Trail_Steps.thy ===== *)
theory Audit_Trail_Steps
  imports Audit_Prune_Safety
begin

text \<open>
  The trail over time: events recorded, checkpoints written and pages pruned, in any order, from an
  empty table. Every tenant's trail stays one the table and the bucket vouch for.
\<close>

section \<open>Steps\<close>

inductive trail_step :: "(string \<Rightarrow> digest) \<Rightarrow> audit_db \<times> audit_bucket \<Rightarrow> audit_db \<times> audit_bucket \<Rightarrow> bool" for sha where
  Recorded: "append_run sha [(0, e1), (0, e2)] ([start_append r salt], db) = (aps, db') \<Longrightarrow> trail_step sha (db, b) (db', b)"
| Checkpointed: "write_checkpoints db now b = (tally, b') \<Longrightarrow> trail_step sha (db, b) (db, b')"
| Pruned: "4 \<le> cap \<Longrightarrow> length (db_rows db) \<le> budget \<Longrightarrow>
    prune_chain_page sha cap budget opts (db, b) = (res, (db', b')) \<Longrightarrow> trail_step sha (db, b) (db', b')"
| Unchained_pruned: "prune_unchained_page cap eff now after limit held db = (res', db') \<Longrightarrow> trail_step sha (db, b) (db', b)"

inductive trail_reach :: "(string \<Rightarrow> digest) \<Rightarrow> audit_db \<times> audit_bucket \<Rightarrow> bool" for sha where
  Empty: "trail_reach sha (empty_audit, [])"
| Step: "trail_reach sha s \<Longrightarrow> trail_step sha s s' \<Longrightarrow> trail_reach sha s'"

inductive_cases trail_stepE: "trail_step sha (db, b) s'"

definition ids_below :: "audit_db \<Rightarrow> bool" where
  "ids_below db \<longleftrightarrow> (\<forall>r\<in>set (db_rows db). ar_row r < db_next db)"

definition trails_kept :: "(string \<Rightarrow> digest) \<Rightarrow> audit_db \<times> audit_bucket \<Rightarrow> bool" where
  "trails_kept sha s \<longleftrightarrow> ids_below (fst s) \<and> (\<forall>t. \<exists>R. trail_stored sha t R s)"

lemma trail_sound_rows:
  "chain_rows db' t = chain_rows db t \<Longrightarrow> row_ids db' \<Longrightarrow> trail_sound sha t R db ts \<Longrightarrow> trail_sound sha t R db' ts"
  by (simp add: trail_sound_def held_at_def)

section \<open>An event is recorded\<close>

lemma append_grows:
  assumes "append_run sha [(0, e1), (0, e2)] ([start_append r salt], db) = (aps, db')"
  defines "p \<equiv> head_seq (read_chain_head db (ev_tenant r)) + 1" and "q \<equiv> head_hash (read_chain_head db (ev_tenant r))"
  obtains "db' = db"
  | ap where "ap_record ap = r" "ap_salt ap = salt" "snd (insert_if_free (row_at ap p q (chain_hash sha p q (chain_fields_of sha r salt))) p db) = db'"
proof -
  define ap where "ap = (start_append r salt)\<lparr>ap_phase := Inserting p q (chain_hash sha p q (chain_fields_of sha r salt)), ap_last := Some p\<rparr>"
  have one: "append_step sha e1 (start_append r salt, db) = (ap, db)"
    by (simp add: start_append_def ap_def Let_def p_def q_def stalls_at_def)
  have ap: "ap_record ap = r" "ap_salt ap = salt" "ap_phase ap = Inserting p q (chain_hash sha p q (chain_fields_of sha r salt))"
    by (simp_all add: ap_def start_append_def)
  obtain ins db1 where i: "insert_if_free (row_at ap p q (chain_hash sha p q (chain_fields_of sha r salt))) p db = (ins, db1)" by fastforce
  have "snd (append_step sha e2 (ap, db)) = db \<or> snd (append_step sha e2 (ap, db)) = db1"
    using ap i by (auto split: d1_answer.splits)
  moreover have "db' = snd (append_step sha e2 (ap, db))"
    using assms(1) one by (simp del: append_step.simps split: prod.splits)
  ultimately show ?thesis using that ap i by force
qed

lemma event_of_row_at:
  assumes "ap_record ap = r" "ap_salt ap = salt"
  shows "next_event sha (ev_tenant r) h (chained_event_of sha False ((row_at ap (head_seq h + 1) (head_hash h)
    (chain_hash sha (head_seq h + 1) (head_hash h) (chain_fields_of sha r salt)))\<lparr>ar_row := i\<rparr>))"
  using assms by (simp add: next_event_def)

lemma trail_sound_grows:
  assumes sound: "trail_sound sha t R db ts" and below: "ids_below db"
    and r: "in_chain t r" "row_seq r = int (length R) + 1" "ar_hash r \<noteq> None"
    and e: "next_event sha t (last_link None R) (chained_event_of sha False (r\<lparr>ar_row := db_next db\<rparr>))"
  shows "trail_sound sha t (R @ [chained_event_of sha False (r\<lparr>ar_row := db_next db\<rparr>)]) (grow r db) ts"
proof -
  let ?e = "chained_event_of sha False (r\<lparr>ar_row := db_next db\<rparr>)" and ?r = "r\<lparr>ar_row := db_next db\<rparr>"
  let ?R = "R @ [?e]"
  have rows: "chain_rows (grow r db) t = chain_rows db t @ [?r]" using r(1) by (simp add: chain_rows_grow)
  have bounds: "1 \<le> row_seq x \<and> row_seq x \<le> int (length R)" if "x \<in> set (chain_rows db t)" for x
    using sound_row(1) [OF sound that] by (simp add: true_row_def)
  have old_run: "own_run t ?R x" if "x \<in> set ts" for x
  proof -
    have "own_run t R x" using sound that unfolding trail_sound_def by blast
    then show ?thesis by (auto simp: own_run_def run_of_trail_def trail_hash_append)
  qed
  have old_row: "true_row sha ?R x" if "x \<in> set (chain_rows db t)" for x
    using sound_row(1) [OF sound that] by (auto simp: true_row_def nth_append)
  have new_row: "true_row sha ?R ?r" using r(2,3) by (simp add: true_row_def nth_append)
  have held: "held_at (grow r db) t q \<longleftrightarrow> held_at db t q \<or> q = int (length R) + 1" for q
    unfolding held_at_def rows using r(2) by auto
  have ends: "ts_through x \<le> int (length R)" if "x \<in> set ts" for x
    using sound that by (auto simp: trail_sound_def own_run_def run_of_trail_def)
  have "\<not> held_at db t (int (length R) + 1)" using bounds by (fastforce simp: held_at_def)
  have cov: "\<not> covered ts (int (length R) + 1)" using ends by (fastforce simp: covered_def)
  show ?thesis
    unfolding trail_sound_def
  proof (intro conjI)
    show "linked sha t None ?R" using sound e by (simp add: trail_sound_def linked_append)
    have "db_next db \<notin> ar_row ` set (db_rows db)" using below by (auto simp: ids_below_def)
    then show "row_ids (grow r db)" using sound by (simp add: trail_sound_def row_ids_def)
    show "distinct (map row_seq (chain_rows (grow r db) t))"
      unfolding rows using sound bounds r(2) by (fastforce simp: trail_sound_def)
    show "\<forall>q. 1 \<le> q \<and> q \<le> int (length ?R) \<longrightarrow> held_at (grow r db) t q = (\<not> covered ts q)"
    proof (intro allI impI)
      fix q assume q: "1 \<le> q \<and> q \<le> int (length ?R)"
      show "held_at (grow r db) t q = (\<not> covered ts q)"
      proof (cases "q = int (length R) + 1")
        case False
        with q have "1 \<le> q \<and> q \<le> int (length R)" by simp
        with sound False show ?thesis unfolding held trail_sound_def by blast
      qed (use cov held in simp)
    qed
    show "?R \<noteq> [] \<longrightarrow> held_at (grow r db) t (int (length ?R))" unfolding held by simp
    show "\<forall>x\<in>set (chain_rows (grow r db) t). true_row sha ?R x" unfolding rows using old_row new_row by auto
  qed (use sound old_run in \<open>auto simp: trail_sound_def\<close>)
qed

lemma bucket_sound_grows: "bucket_sound t R b \<Longrightarrow> bucket_sound t (R @ S) b"
  unfolding bucket_sound_def true_checkpoints_def by (auto simp: trail_hash_append)

lemma recorded_kept:
  assumes run: "append_run sha [(0, e1), (0, e2)] ([start_append r salt], db) = (aps, db')" and kept: "trails_kept sha (db, b)"
  shows "trails_kept sha (db', b)"
  using run
proof (cases rule: append_grows)
  case 1
  with kept show ?thesis by simp
next
  case (2 ap)
  let ?t = "ev_tenant r" and ?h = "read_chain_head db (ev_tenant r)"
  obtain R where stored: "trail_stored sha ?t R (db, b)" using kept by (auto simp: trails_kept_def)
  have below: "ids_below db" using kept by (simp add: trails_kept_def)
  have sound: "trail_sound sha ?t R db (read_tombstones b ?t)" and bucket: "bucket_sound ?t R b"
    using stored by (simp_all add: trail_stored_def)
  have head: "at_link R (int (length R)) ?h" by (rule sound_head(1) [OF sound])
  define new where "new = row_at ap (head_seq ?h + 1) (head_hash ?h)
    (chain_hash sha (head_seq ?h + 1) (head_hash ?h) (chain_fields_of sha r salt))"
  have new: "ev_tenant new = ?t" "ar_seq new = Some (int (length R) + 1)" "row_seq new = int (length R) + 1" "ar_hash new \<noteq> None"
    using 2(1) head by (simp_all add: new_def at_link_def row_seq_def)
  have "row_seq x \<le> int (length R)" if "in_chain ?t x" "x \<in> set (db_rows db)" for x
    using sound_row(1) [OF sound, of x] that by (simp add: true_row_def chain_rows_in)
  then have db': "db' = grow new db"
    using 2(3) new(1) head unfolding new_def [symmetric] by (fastforce simp: insert_if_free_def grow_def at_link_def)
  have "next_event sha ?t ?h (chained_event_of sha False (new\<lparr>ar_row := db_next db\<rparr>))"
    unfolding new_def by (rule event_of_row_at [OF 2(1,2)])
  moreover have "head_seq ?h = head_seq (last_link None R)" "head_hash ?h = head_hash (last_link None R)"
    using head sound last_link_trail [of sha ?t R] by (simp_all add: at_link_def trail_sound_def)
  ultimately have e: "next_event sha ?t (last_link None R) (chained_event_of sha False (new\<lparr>ar_row := db_next db\<rparr>))"
    by (simp only: next_event_def)
  have chain: "in_chain ?t new" by (simp add: in_chain_def new)
  from trail_sound_grows [OF sound below chain new(3,4) e]
  have own: "trail_stored sha ?t (R @ [chained_event_of sha False (new\<lparr>ar_row := db_next db\<rparr>)]) (db', b)"
    using bucket_sound_grows [OF bucket] by (simp add: trail_stored_def db')
  have ids: "row_ids db'" using own by (simp add: trail_stored_def trail_sound_def)
  have "\<exists>R. trail_stored sha u R (db', b)" for u
  proof (cases "u = ?t")
    case True
    with own show ?thesis by blast
  next
    case False
    then have "chain_rows db' u = chain_rows db u" using new(1) by (simp add: db' chain_rows_grow in_chain_def)
    with kept ids trail_sound_rows show ?thesis by (fastforce simp: trails_kept_def trail_stored_def)
  qed
  moreover have "ids_below db'" using below by (auto simp: ids_below_def db' less_Suc_eq)
  ultimately show ?thesis by (simp add: trails_kept_def)
qed

section \<open>Checkpoints are written\<close>

lemma bucket_with_checkpoint:
  assumes stored: "trail_stored sha u R (db, b)" and put: "put_new b (checkpoint_key t n) (Holds_checkpoint c) = (put, b')"
    and c: "cp_tenant c = t" "t = u \<Longrightarrow> 1 \<le> cp_count c \<and> cp_count c \<le> int (length R) \<and> Some (cp_head c) = trail_hash R (cp_count c)"
  shows "trail_stored sha u R (db, b')"
proof -
  have bucket: "bucket_sound u R b" and sound: "trail_sound sha u R db (read_tombstones b u)"
    using stored by (simp_all add: trail_stored_def)
  have distinct: "keys_distinct b" using bucket by (simp add: bucket_sound_def)
  note r = put_new_result [OF put distinct]
  show ?thesis
  proof (cases put)
    case False
    with r stored show ?thesis by simp
  next
    case True
    with r have b': "keys_distinct b'" "set b' = insert (checkpoint_key t n, Holds_checkpoint c) (set b)" by simp_all
    have "true_checkpoints u R [c. (key, Holds_checkpoint c) \<leftarrow> b']"
    proof -
      have "set [c. (key, Holds_checkpoint c) \<leftarrow> b'] = insert c (set [c. (key, Holds_checkpoint c) \<leftarrow> b])"
        unfolding set_concat set_map b'(2) by auto
      then show ?thesis using bucket c unfolding bucket_sound_def true_checkpoints_def by auto
    qed
    moreover have "\<exists>x. y = Holds_tombstone x \<and> ts_tenant x = u \<and> ts_from x = m"
      if m: "0 \<le> m" "bucket_get b' (tombstone_key u m) = Some y" for m y
    proof -
      from m(2) have "(tombstone_key u m, y) \<in> set b'" by (simp only: bucket_get_in [OF b'(1)])
      moreover have "tombstone_key u m \<noteq> checkpoint_key t n"
      proof
        assume eq: "tombstone_key u m = checkpoint_key t n"
        have "starts_with (checkpoint_key t n) (checkpoint_prefix t)" by (simp add: checkpoint_key_def numbered_key_def)
        with eq tombstone_keys_apart [of u m t] have "u = t" by simp
        with eq tombstone_key_under [of u m] checkpoint_is_no_tombstone [of t n] show False by simp
      qed
      ultimately have "(tombstone_key u m, y) \<in> set b" unfolding b'(2) by blast
      then have "bucket_get b (tombstone_key u m) = Some y" by (simp only: bucket_get_in [OF distinct])
      with bucket m(1) show ?thesis unfolding bucket_sound_def by blast
    qed
    ultimately have "bucket_sound u R b'" using b'(1) unfolding bucket_sound_def by blast
    moreover have "set (read_tombstones b' u) = set (read_tombstones b u)"
    proof -
      have "z \<in> set (read_tombstones b' u) \<longleftrightarrow> z \<in> set (read_tombstones b u)" for z
        unfolding read_tombstones_set [OF b'(1)] read_tombstones_set [OF distinct] b'(2) by blast
      then show ?thesis by blast
    qed
    ultimately show ?thesis using sound trail_sound_tombs [of "read_tombstones b' u" "read_tombstones b u"]
      by (simp add: trail_stored_def)
  qed
qed

lemma link_true:
  assumes sound: "trail_sound sha t R db ts" and l: "read_chain_link db t n = Some l"
  shows "cl_seq l = n \<and> 1 \<le> n \<and> n \<le> int (length R) \<and> Some (cl_hash l) = trail_hash R n"
proof -
  have held: "held_at db t n" using no_link l by (metis option.distinct(1))
  then obtain r where r: "r \<in> set (chain_rows db t)" "row_seq r = n" by (auto simp: held_at_def)
  from sound_row(3) [OF sound r(1)] link_at_row [OF sound r(1)] l r(2) have "at_link R n (Some l)" by simp
  with held_boundary [OF sound held] show ?thesis by (simp add: at_link_def)
qed

lemma checkpoint_head_kept:
  assumes step: "checkpoint_head db now head (tally, b) = (tally', b')" and stored: "trail_stored sha u R (db, b)"
    and all: "\<forall>t. \<exists>R. trail_stored sha t R (db, b)"
  shows "trail_stored sha u R (db, b')"
proof (cases head)
  case (Pair t n)
  show ?thesis
  proof (cases "n = None \<or> read_chain_link db t (the n) = None")
    case True
    then have "b' = b" using step Pair by (cases n) auto
    with stored show ?thesis by simp
  next
    case False
    then obtain m l where n: "n = Some m" "read_chain_link db t m = Some l" by auto
    define c where "c = \<lparr>cp_tenant = t, cp_count = cl_seq l, cp_head = cl_hash l, cp_taken_at = now\<rparr>"
    obtain put b1 where p: "put_new b (checkpoint_key t (cl_seq l)) (Holds_checkpoint c) = (put, b1)" by fastforce
    have b': "b' = b \<or> b' = b1"
      using step Pair n p by (auto simp: Let_def c_def [symmetric] split: if_splits)
    have "trail_stored sha u R (db, b1)"
    proof (rule bucket_with_checkpoint [OF stored p])
      show "cp_tenant c = t" by (simp add: c_def)
      assume "t = u"
      then have "trail_sound sha t R db (read_tombstones b t)" using stored by (simp add: trail_stored_def)
      from link_true [OF this n(2)] show "1 \<le> cp_count c \<and> cp_count c \<le> int (length R) \<and> Some (cp_head c) = trail_hash R (cp_count c)"
        by (simp add: c_def)
    qed
    with b' stored show ?thesis by blast
  qed
qed

lemma checkpoint_heads_kept:
  "fold (checkpoint_head db now) heads (tally, b) = (tally', b') \<Longrightarrow> trail_stored sha u R (db, b) \<Longrightarrow>
     \<forall>t. \<exists>R. trail_stored sha t R (db, b) \<Longrightarrow> trail_stored sha u R (db, b')"
proof (induction heads arbitrary: tally b)
  case (Cons h heads)
  obtain tally1 b1 where one: "checkpoint_head db now h (tally, b) = (tally1, b1)" by fastforce
  have each: "trail_stored sha t S (db, b) \<Longrightarrow> trail_stored sha t S (db, b1)" for t S
    using checkpoint_head_kept [OF one _ Cons.prems(3)] by blast
  from Cons.IH [OF _ each [OF Cons.prems(2)]] Cons.prems one each show ?case by fastforce
qed simp

lemma checkpointed_kept:
  assumes "write_checkpoints db now b = (tally, b')" and kept: "trails_kept sha (db, b)"
  shows "trails_kept sha (db, b')"
proof -
  have all: "\<forall>t. \<exists>R. trail_stored sha t R (db, b)" using kept by (simp add: trails_kept_def)
  have "\<exists>R. trail_stored sha t R (db, b')" for t
    using all checkpoint_heads_kept [OF assms(1) [unfolded write_checkpoints_def] _ all] by blast
  with kept show ?thesis by (simp add: trails_kept_def)
qed

section \<open>Pages are pruned\<close>

lemma more_tombstones_apart:
  assumes more: "more_tombstones t b b'" and "u \<noteq> t" and bucket: "bucket_sound u R b"
  shows "bucket_sound u R b' \<and> set (read_tombstones b' u) = set (read_tombstones b u)"
proof -
  have distinct: "keys_distinct b" "keys_distinct b'" using more bucket by (simp_all add: more_tombstones_def bucket_sound_def)
  have new: "e \<in> set b \<or> (\<exists>x. e = (tombstone_key t (ts_from x), Holds_tombstone x) \<and> ts_tenant x = t)" if "e \<in> set b'" for e
    using more that unfolding more_tombstones_def by blast
  have sub: "set b \<subseteq> set b'" using more by (simp add: more_tombstones_def)
  have "set [c. (key, Holds_checkpoint c) \<leftarrow> b'] \<subseteq> set [c. (key, Holds_checkpoint c) \<leftarrow> b]"
    unfolding set_concat set_map using new by fastforce
  then have "true_checkpoints u R [c. (key, Holds_checkpoint c) \<leftarrow> b']"
    using bucket unfolding bucket_sound_def true_checkpoints_def by blast
  moreover have "\<exists>x. y = Holds_tombstone x \<and> ts_tenant x = u \<and> ts_from x = m"
    if m: "0 \<le> m" "bucket_get b' (tombstone_key u m) = Some y" for m y
  proof -
    from m(2) have "(tombstone_key u m, y) \<in> set b'" by (simp only: bucket_get_in [OF distinct(2)])
    moreover have "tombstone_key u m \<noteq> tombstone_key t k" for k
    proof
      assume eq: "tombstone_key u m = tombstone_key t k"
      have "starts_with (tombstone_key t k) (checkpoint_prefix t)"
        by (simp add: tombstone_key_def tombstone_prefix_def numbered_key_def)
      with eq tombstone_keys_apart [of u m t] assms(2) show False by simp
    qed
    ultimately have "(tombstone_key u m, y) \<in> set b" using new by blast
    then have "bucket_get b (tombstone_key u m) = Some y" by (simp only: bucket_get_in [OF distinct(1)])
    with bucket m(1) show ?thesis unfolding bucket_sound_def by blast
  qed
  moreover have "z \<in> set (read_tombstones b' u) \<longleftrightarrow> z \<in> set (read_tombstones b u)" for z
    unfolding read_tombstones_set [OF distinct(1)] read_tombstones_set [OF distinct(2)]
    using new sub assms(2) by blast
  ultimately show ?thesis using distinct(2) unfolding bucket_sound_def by blast
qed

lemma pruned_kept:
  assumes "4 \<le> cap" "length (db_rows db) \<le> budget" and page: "prune_chain_page sha cap budget opts (db, b) = (res, (db', b'))"
    and kept: "trails_kept sha (db, b)"
  shows "trails_kept sha (db', b')"
proof -
  let ?t = "po_tenant opts"
  obtain R where stored: "trail_stored sha ?t R (db, b)" using kept by (auto simp: trails_kept_def)
  define due where "due = due_rows opts (int (length R)) db"
  from prune_page_ok [OF stored refl assms(1,2)] page
  have own: "trail_stored sha ?t R (db', b')" and more: "more_tombstones ?t b b'" and db': "db' = without due db"
    by (auto simp: due_def)
  have "set due \<subseteq> set (chain_rows db ?t)" using due_in by (auto simp: due_def)
  then have other: "chain_rows db' u = chain_rows db u" if "u \<noteq> ?t" for u
    using that unfolding db' chain_rows_without by (auto simp: filter_id_conv chain_rows_in in_chain_def)
  have ids: "row_ids db'" using own by (simp add: trail_stored_def trail_sound_def)
  have "\<exists>S. trail_stored sha u S (db', b')" for u
  proof (cases "u = ?t")
    case True
    with own show ?thesis by blast
  next
    case False
    obtain S where S: "trail_stored sha u S (db, b)" using kept by (auto simp: trails_kept_def)
    then have parts: "bucket_sound u S b" "trail_sound sha u S db (read_tombstones b u)" by (simp_all add: trail_stored_def)
    from trail_sound_rows [OF other [OF False] ids parts(2)] more_tombstones_apart [OF more False parts(1)]
    have "trail_stored sha u S (db', b')"
      using trail_sound_tombs [of "read_tombstones b' u" "read_tombstones b u"] by (simp add: trail_stored_def)
    then show ?thesis by blast
  qed
  moreover have "ids_below db'" using kept by (auto simp: trails_kept_def ids_below_def db' without_def)
  ultimately show ?thesis by (simp add: trails_kept_def)
qed

lemma unchained_page_effect:
  assumes "prune_unchained_page cap eff now after limit held db = (res, db')" and ids: "row_ids db"
  shows "\<exists>X. removed X db db' \<and> (\<forall>r\<in>X. ar_seq r = None \<and> expired eff now r \<and> \<not> held (ev_tenant r))"
proof (cases "shortest_window_days eff")
  case None
  with assms(1) have "db' = db" by (simp add: prune_unchained_page_def)
  then show ?thesis using removed_none by auto
next
  case (Some s)
  define doomed where "doomed = doomed_rows eff now held (unchained_rows db eff now after limit (now - s * ms_per_day))"
  have in_doomed: "r \<in> set (db_rows db) \<and> ar_seq r = None \<and> expired eff now r \<and> \<not> held (ev_tenant r)" if "r \<in> set doomed" for r
    using that by (auto simp: doomed_def doomed_rows_def unchained_rows_def Let_def split: if_splits dest!: in_set_takeD)
  have "db' = db \<or> db' = db\<lparr>db_rows := [r \<leftarrow> db_rows db. ar_row r \<notin> ar_row ` set doomed]\<rparr>"
    using assms(1) Some
    by (auto simp: prune_unchained_page_def Let_def doomed_def [symmetric] delete_by_id_def split: if_splits)
  moreover have "[r \<leftarrow> db_rows db. ar_row r \<notin> ar_row ` set doomed] = [r \<leftarrow> db_rows db. r \<notin> set doomed]"
  proof (rule filter_cong [OF refl])
    fix r assume r: "r \<in> set (db_rows db)"
    have "r \<in> set doomed" if "s \<in> set doomed" "ar_row s = ar_row r" for s
      using that r in_doomed [OF that(1)] ids by (auto simp: row_ids_def distinct_map dest: inj_onD)
    then show "(ar_row r \<notin> ar_row ` set doomed) = (r \<notin> set doomed)" by force
  qed
  ultimately have "removed {} db db' \<or> removed (set doomed) db db'" using removed_none by (auto simp: removed_def)
  with in_doomed show ?thesis by blast
qed

lemma unchained_kept:
  assumes "prune_unchained_page cap eff now after limit held db = (res, db')" and kept: "trails_kept sha (db, b)"
  shows "trails_kept sha (db', b)"
proof -
  have ids: "row_ids db" using kept by (auto simp: trails_kept_def trail_stored_def trail_sound_def)
  obtain X where X: "removed X db db'" "\<forall>r\<in>X. ar_seq r = None" using unchained_page_effect [OF assms(1) ids] by blast
  have same: "chain_rows db' t = chain_rows db t" for t
  proof -
    have "chain_rows db' t = [r \<leftarrow> chain_rows db t. r \<notin> X]"
      using X(1) by (simp add: removed_def chain_rows_def conj_commute)
    also have "\<dots> = chain_rows db t" using X(2) by (auto simp: filter_id_conv chain_rows_in in_chain_def)
    finally show ?thesis .
  qed
  have ids': "row_ids db'" using ids X(1) by (simp add: removed_def row_ids_def distinct_map_filter)
  have "ids_below db'" using kept X(1) by (auto simp: trails_kept_def ids_below_def removed_def)
  with kept trail_sound_rows [OF same ids'] show ?thesis unfolding trails_kept_def trail_stored_def by fastforce
qed

section \<open>Every reached state\<close>

lemma empty_kept: "trails_kept sha (empty_audit, [])"
proof -
  have "trail_stored sha t [] (empty_audit, [])" for t
    by (auto simp: trail_stored_def bucket_sound_def keys_distinct_def true_checkpoints_def trail_sound_def row_ids_def
      empty_audit_def chain_rows_def runs_apart_def read_tombstones_def numbered_entries_def list_keys_def bucket_get_def
      List.map_filter_simps)
  then show ?thesis by (auto simp: trails_kept_def ids_below_def empty_audit_def)
qed

lemma step_kept: "trail_step sha s s' \<Longrightarrow> trails_kept sha s \<Longrightarrow> trails_kept sha s'"
  by (cases rule: trail_step.cases) (auto intro: recorded_kept checkpointed_kept pruned_kept unchained_kept)

lemma reached_kept: "trail_reach sha s \<Longrightarrow> trails_kept sha s"
  by (induction rule: trail_reach.induct) (auto intro: empty_kept step_kept)

lemma reached_stored: "trail_reach sha (db, b) \<Longrightarrow> \<exists>R. trail_stored sha t R (db, b)"
  using reached_kept by (auto simp: trails_kept_def)

lemma page_due:
  fixes opts :: prune_options
  assumes "trail_reach sha (db, b)" and "4 \<le> cap" and "length (db_rows db) \<le> budget"
  defines "due \<equiv> due_rows opts (head_seq (read_chain_head db (po_tenant opts))) db"
  shows "\<exists>b'. prune_chain_page sha cap budget opts (db, b) = (Some (page_after opts due), (without due db, b'))"
proof -
  obtain R where R: "trail_stored sha (po_tenant opts) R (db, b)" using reached_stored [OF assms(1)] by blast
  then have "head_seq (read_chain_head db (po_tenant opts)) = int (length R)"
    using sound_head(1) by (auto simp: trail_stored_def at_link_def)
  with prune_page_ok [OF R refl assms(2,3)] show ?thesis unfolding due_def by auto
qed

end
