(* ===== verification/Audit_Pass_Laws.thy ===== *)
theory Audit_Pass_Laws
  imports Audit_Pass Audit_Trail_Steps
begin

text \<open>
  A pass page by page: what any pass can remove, and, over a reached trail with room enough, that the
  pages of a chain together remove all that is due in it.
\<close>

section \<open>What a pass can remove\<close>

lemma row_ids_removed: "removed X db db' \<Longrightarrow> row_ids db \<Longrightarrow> row_ids db'"
  by (simp add: removed_def row_ids_def distinct_map_filter)

text \<open>Whatever happens, only rows that satisfy \<open>P\<close> go.\<close>

definition only_removed :: "(audit_row \<Rightarrow> bool) \<Rightarrow> audit_db \<Rightarrow> audit_db \<Rightarrow> bool" where
  "only_removed P db db' \<longleftrightarrow> (\<exists>X. removed X db db' \<and> (\<forall>r\<in>X. P r))"

lemma only_removed_same [simp]: "only_removed P db db"
  using removed_none by (auto simp: only_removed_def)

lemma only_removed_trans: "only_removed P db db' \<Longrightarrow> only_removed P db' db'' \<Longrightarrow> only_removed P db db''"
  unfolding only_removed_def by (metis Un_iff removed_trans)

lemma only_removed_mono: "only_removed P db db' \<Longrightarrow> (\<And>r. P r \<Longrightarrow> Q r) \<Longrightarrow> only_removed Q db db'"
  unfolding only_removed_def by blast

lemma only_removed_ids: "only_removed P db db' \<Longrightarrow> row_ids db \<Longrightarrow> row_ids db'"
  unfolding only_removed_def using row_ids_removed by blast

lemma chain_page_removes:
  assumes "row_ids db" shows "only_removed (in_chain t) db (fst (snd (chain_page sha env index page t after (db, b))))"
proof (cases "pa_policy env")
  case (Some eff)
  let ?opts = "\<lparr>po_tenant = t, po_retention = eff, po_now = pa_now env index page,
            po_stamp = pa_stamp env (pa_now env index page), po_after = after, po_limit = audit_prune_page\<rparr>"
  obtain res db' b' where page: "prune_chain_page sha max_bound_parameters (pa_deletes env index page) ?opts (db, b) = (res, (db', b'))"
    by (metis prod.collapse)
  from prune_page_effect [OF page assms] have "only_removed (in_chain t) db db'" by (auto simp: only_removed_def)
  then show ?thesis by (simp add: chain_page_def Some page)
qed (simp add: chain_page_def)

lemma chain_pages_remove:
  "row_ids db \<Longrightarrow> only_removed (in_chain t) db (fst (snd (chain_pages sha env index t left page after (oc, (db, b)))))"
proof (induction left arbitrary: page after oc db b)
  case (Suc left)
  obtain ans db' b' where page: "chain_page sha env index page t after (db, b) = (ans, (db', b'))" by (metis prod.collapse)
  have one: "only_removed (in_chain t) db db'" using chain_page_removes [OF Suc.prems, of t sha env index page after b] page by simp
  have ids: "row_ids db'" by (rule only_removed_ids [OF one Suc.prems])
  have "only_removed (in_chain t) db (fst (snd (chain_pages sha env index t left (page + 1) after' (oc', (db', b')))))" for after' oc'
    by (rule only_removed_trans [OF one Suc.IH [OF ids]])
  then show ?case using one page by (auto simp: Let_def split: option.splits bool.splits)
qed simp

text \<open>A chain that every hold check keeps, or cannot speak for, is not touched.\<close>

lemma held_chain_whole:
  assumes "\<And>page. pa_held env index page t \<noteq> Some False"
  shows "snd (chain_pages sha env index t left page after (oc, s)) = s"
proof (cases left)
  case (Suc k)
  then show ?thesis using assms [of page] by (cases "pa_held env index page t") (auto split: bool.splits)
qed simp

definition never_released :: "prune_pass \<Rightarrow> string option \<Rightarrow> bool" where
  "never_released env t \<longleftrightarrow> (\<forall>index page. pa_held env index page t \<noteq> Some False) \<and> (\<forall>page. pa_later_held env page t)"

lemma chain_passes_remove:
  assumes "never_released env t"
  shows "row_ids db \<Longrightarrow> only_removed (\<lambda>r. ev_tenant r \<noteq> t) db (fst (snd (chain_passes sha env pages index ts (oc, (db, b)))))"
proof (induction ts arbitrary: index oc db b)
  case (Cons u us)
  obtain ans db' b' where chain: "chain_pages sha env index u pages 0 0 (oc, (db, b)) = (ans, (db', b'))" by (metis prod.collapse)
  have one: "only_removed (\<lambda>r. ev_tenant r \<noteq> t) db db'"
  proof (cases "u = t")
    case True
    then have "\<And>page. pa_held env index page u \<noteq> Some False" using assms by (simp add: never_released_def)
    from held_chain_whole [OF this, of sha pages 0 0 oc "(db, b)"] chain show ?thesis by simp
  next
    case False
    have "only_removed (in_chain u) db db'" using chain_pages_remove [OF Cons.prems, of u sha env index pages 0 0 oc b] chain by simp
    then show ?thesis by (rule only_removed_mono) (use False in \<open>auto simp: in_chain_def\<close>)
  qed
  have ids: "row_ids db'" by (rule only_removed_ids [OF one Cons.prems])
  have "only_removed (\<lambda>r. ev_tenant r \<noteq> t) db (fst (snd (chain_passes sha env pages (index + 1) us (oc', (db', b')))))" for oc'
    by (rule only_removed_trans [OF one Cons.IH [OF ids]])
  then show ?case using one chain by (auto split: option.splits)
qed simp

lemma unchained_pages_remove:
  assumes "\<And>page. pa_later_held env page t"
  shows "row_ids db \<Longrightarrow> only_removed (\<lambda>r. ev_tenant r \<noteq> t) db (snd (unchained_pages env left page after (oc, db)))"
proof (induction left arbitrary: page after oc db)
  case (Suc left)
  obtain ans db' where page: "unchained_page_of env page after db = (ans, db')" by fastforce
  have one: "only_removed (\<lambda>r. ev_tenant r \<noteq> t) db db'"
  proof (cases "pa_policy env")
    case None
    with page show ?thesis by (simp add: unchained_page_of_def)
  next
    case (Some eff)
    with page have "prune_unchained_page max_bound_parameters eff (pa_later_now env page) after audit_prune_page (pa_later_held env page) db = (ans, db')"
      by (simp add: unchained_page_of_def)
    from unchained_page_effect [OF this Suc.prems] assms show ?thesis by (auto simp: only_removed_def)
  qed
  have ids: "row_ids db'" by (rule only_removed_ids [OF one Suc.prems])
  have "only_removed (\<lambda>r. ev_tenant r \<noteq> t) db (snd (unchained_pages env left (page + 1) after' (oc', db')))" for after' oc'
    by (rule only_removed_trans [OF one Suc.IH [OF ids]])
  then show ?case using one page by (auto simp: Let_def split: option.splits)
qed simp

lemma held_pass_keeps:
  assumes "never_released env t" and ids: "row_ids db"
  shows "only_removed (\<lambda>r. ev_tenant r \<noteq> t) db (fst (snd (prune_audit_trail sha collate env (db, b))))"
proof -
  define pages where "pages = or_else audit_prune_default_pages (pa_pages env)"
  obtain ans db' b' where chains: "pass_chains sha collate env pages (db, b) = (ans, (db', b'))" by (metis prod.collapse)
  have one: "only_removed (\<lambda>r. ev_tenant r \<noteq> t) db db'"
    using chain_passes_remove [OF assms, of sha pages 0 "chain_tenants collate db" nothing_done b] chains
    by (auto simp: pass_chains_def split: if_splits)
  have later: "\<And>page. pa_later_held env page t" using assms(1) by (simp add: never_released_def)
  have rest: "only_removed (\<lambda>r. ev_tenant r \<noteq> t) db (snd (unchained_pages env pages 0 0 (oc, db')))" for oc
    by (rule only_removed_trans [OF one unchained_pages_remove [OF later only_removed_ids [OF one ids]]])
  show ?thesis
    using one rest by (cases ans) (simp_all add: prune_audit_trail_def Let_def pages_def [symmetric] chains case_prod_beta)
qed

section \<open>All that is due\<close>

definition all_due :: "effective_retention \<Rightarrow> int \<Rightarrow> string option \<Rightarrow> int \<Rightarrow> int \<Rightarrow> audit_db \<Rightarrow> audit_row list" where
  "all_due eff now t a n db = in_order [r \<leftarrow> chain_rows db t. a < row_seq r \<and> row_seq r < n \<and> expired eff now r]"

lemma due_rows_take:
  "due_rows opts n db = take (po_limit opts) (all_due (po_retention opts) (po_now opts) (po_tenant opts) (po_after opts) n db)"
proof -
  have "[r \<leftarrow> db_rows db. in_chain t r \<and> po_after opts < row_seq r \<and> row_seq r < n \<and> expired (po_retention opts) (po_now opts) r] =
      [r \<leftarrow> chain_rows db t. po_after opts < row_seq r \<and> row_seq r < n \<and> expired (po_retention opts) (po_now opts) r]" for t
    unfolding chain_rows_def filter_filter by (rule filter_cong [OF refl]) blast
  then show ?thesis unfolding due_rows_def all_due_def by simp
qed

lemma all_due_in:
  "r \<in> set (all_due eff now t a n db) \<longleftrightarrow> r \<in> set (chain_rows db t) \<and> a < row_seq r \<and> row_seq r < n \<and> expired eff now r"
  by (simp add: all_due_def)

lemma all_due_sorted:
  assumes sound: "trail_sound sha t R db ts"
  shows "sorted_wrt (\<lambda>r s. row_seq r < row_seq s) (all_due eff now t a n db)"
proof -
  let ?P = "\<lambda>r. a < row_seq r \<and> row_seq r < n \<and> expired eff now r"
  have "distinct (map ar_row (db_rows db))" using sound by (simp add: trail_sound_def row_ids_def)
  then have ids: "distinct (map ar_row (filter ?P (chain_rows db t)))" by (simp add: chain_rows_def distinct_map_filter)
  then have "distinct (all_due eff now t a n db)" by (simp add: all_due_def in_order_def distinct_map)
  then have pairs: "sorted_wrt (\<lambda>r s. row_before r s \<and> r \<noteq> s) (all_due eff now t a n db)"
    using in_order_sorted [OF ids] unfolding all_due_def by (simp add: sorted_wrt_iff_nth_less distinct_conv_nth)
  show ?thesis
  proof (rule sorted_wrt_mono_rel [OF _ pairs])
    fix r s assume rs: "r \<in> set (all_due eff now t a n db)" "s \<in> set (all_due eff now t a n db)" "row_before r s \<and> r \<noteq> s"
    then show "row_seq r < row_seq s"
      using sound_unique [OF sound, of r s] by (auto simp: all_due_in row_before_def)
  qed
qed

lemma all_due_next:
  assumes sound: "trail_sound sha t R db ts" and k: "0 < k" "k \<le> length (all_due eff now t a n db)"
  defines "page \<equiv> take k (all_due eff now t a n db)"
  shows "all_due eff now t (row_seq (last page)) n (without page db) = drop k (all_due eff now t a n db)"
proof -
  let ?all = "all_due eff now t a n db" and ?r = "last page"
  note sorted = all_due_sorted [OF sound, of eff now a n]
  have page: "page \<noteq> []" "page = take k ?all" using k by (auto simp: page_def)
  then have split: "?all = butlast page @ ?r # drop k ?all"
    by (metis append.assoc append_Cons append_Nil append_butlast_last_id append_take_drop_id)
  have r: "a < row_seq ?r" using last_in_set [OF page(1)] page(2) by (metis all_due_in in_set_takeD)
  have gone: "row_seq x \<le> row_seq ?r" if "x \<in> set page" for x
  proof -
    have "x \<in> set (butlast page) \<or> x = ?r" using that page(1) by (metis append_butlast_last_id in_set_conv_decomp rotate1.simps(2) set_ConsD set_rotate1)
    then show ?thesis using sorted split by (metis (no_types, lifting) list.set_intros(1) order.strict_implies_order order_refl sorted_wrt_append)
  qed
  have "filter (\<lambda>x. row_seq ?r < row_seq x) ?all = drop k ?all"
    using filter_sorted_tail [of "\<lambda>x y. row_seq x < row_seq y" "butlast page" ?r "drop k ?all"] sorted split by simp
  moreover have "all_due eff now t (row_seq ?r) n (without page db) = filter (\<lambda>x. row_seq ?r < row_seq x) ?all"
  proof -
    have "[x \<leftarrow> chain_rows (without page db) t. row_seq ?r < row_seq x \<and> row_seq x < n \<and> expired eff now x] =
        [x \<leftarrow> [x \<leftarrow> chain_rows db t. a < row_seq x \<and> row_seq x < n \<and> expired eff now x]. row_seq ?r < row_seq x]"
      unfolding chain_rows_without filter_filter
    proof (rule filter_cong [OF refl])
      fix x
      show "(x \<notin> set page \<and> row_seq ?r < row_seq x \<and> row_seq x < n \<and> expired eff now x) =
          ((a < row_seq x \<and> row_seq x < n \<and> expired eff now x) \<and> row_seq ?r < row_seq x)"
        using gone [of x] r by auto
    qed
    then show ?thesis unfolding all_due_def by (simp only: in_order_filter)
  qed
  ultimately show ?thesis by simp
qed

section \<open>A pass with room\<close>

text \<open>No hold stands, the clock and the policy stay, and every page's deletes go through.\<close>

definition roomy_pass :: "prune_pass \<Rightarrow> effective_retention \<Rightarrow> int \<Rightarrow> nat \<Rightarrow> bool" where
  "roomy_pass env eff now rows \<longleftrightarrow> pa_policy env = Some eff \<and> pa_bound env \<and>
     (\<forall>index page t. pa_held env index page t = Some False \<and> pa_now env index page = now \<and> rows \<le> pa_deletes env index page)"

lemma without_fewer: "length (db_rows (without rs db)) \<le> length (db_rows db)"
  by (simp add: without_def)

lemma roomy_fewer: "roomy_pass env eff now m \<Longrightarrow> n \<le> m \<Longrightarrow> roomy_pass env eff now n"
  unfolding roomy_pass_def using order_trans by blast

lemma chain_page_ok:
  fixes after :: int
  assumes stored: "trail_stored sha t R (db, b)" and reach: "trail_reach sha (db, b)"
    and roomy: "roomy_pass env eff now (length (db_rows db))"
  defines "page \<equiv> take audit_prune_page (all_due eff now t after (int (length R)) db)"
  shows "\<exists>b'. chain_page sha env index k t after (db, b) = (Some \<lparr>pp_pruned = int (length page), pp_refused = 0,
      pp_next = (if length page = audit_prune_page then Some (row_seq (last page)) else None)\<rparr>, (without page db, b')) \<and>
    trail_stored sha t R (without page db, b') \<and> trail_reach sha (without page db, b')"
proof -
  let ?opts = "\<lparr>po_tenant = t, po_retention = eff, po_now = now, po_stamp = pa_stamp env now, po_after = after, po_limit = audit_prune_page\<rparr>"
  have cap: "4 \<le> max_bound_parameters" by (simp add: max_bound_parameters_def)
  have env: "pa_policy env = Some eff" "pa_bound env" "pa_now env index k = now" and budget: "length (db_rows db) \<le> pa_deletes env index k"
    using roomy by (simp_all add: roomy_pass_def)
  have due: "due_rows ?opts (int (length R)) db = page" by (simp add: due_rows_take page_def)
  obtain b' where b': "prune_chain_page sha max_bound_parameters (pa_deletes env index k) ?opts (db, b) = (Some (page_after ?opts page), (without page db, b'))"
    "trail_stored sha t R (without page db, b')"
    using prune_page_ok [of sha t R db b ?opts, OF stored _ cap budget] unfolding due by auto
  have "trail_reach sha (without page db, b')" by (rule trail_reach.Step [OF reach Pruned [OF cap budget b'(1)]])
  moreover have "page \<noteq> []" if "length page = audit_prune_page" using that by (auto simp: audit_prune_page_def)
  then have "page_after ?opts page = \<lparr>pp_pruned = int (length page), pp_refused = 0,
      pp_next = (if length page = audit_prune_page then Some (row_seq (last page)) else None)\<rparr>"
    by (auto simp: page_after_def)
  ultimately show ?thesis using b' by (intro exI [of _ b']) (simp add: chain_page_def env)
qed

lemma chain_pages_ok:
  "trail_stored sha t R (db, b) \<Longrightarrow> trail_reach sha (db, b) \<Longrightarrow> roomy_pass env eff now (length (db_rows db)) \<Longrightarrow>
   length (all_due eff now t after (int (length R)) db) \<le> left * audit_prune_page \<Longrightarrow>
   \<exists>b'. chain_pages sha env index t left page after (oc, (db, b)) =
       (Some (oc\<lparr>oc_pruned := oc_pruned oc + int (length (all_due eff now t after (int (length R)) db))\<rparr>),
        (without (all_due eff now t after (int (length R)) db) db, b')) \<and>
     trail_reach sha (without (all_due eff now t after (int (length R)) db) db, b')"
proof (induction left arbitrary: page after oc db b)
  case 0
  then show ?case by (simp add: without_none)
next
  case (Suc left)
  define all where "all = all_due eff now t after (int (length R)) db"
  let ?page = "take audit_prune_page all"
  obtain b1 where one: "chain_page sha env index page t after (db, b) = (Some \<lparr>pp_pruned = int (length ?page), pp_refused = 0,
      pp_next = (if length ?page = audit_prune_page then Some (row_seq (last ?page)) else None)\<rparr>, (without ?page db, b1))"
    "trail_stored sha t R (without ?page db, b1)" "trail_reach sha (without ?page db, b1)"
    using chain_page_ok [OF Suc.prems(1-3)] unfolding all_def by blast
  have held: "pa_held env index page t = Some False" using Suc.prems(3) by (simp add: roomy_pass_def)
  let ?oc = "oc\<lparr>oc_pruned := oc_pruned oc + int (length ?page)\<rparr>"
  show ?case
  proof (cases "length ?page = audit_prune_page")
    case False
    then have "?page = all" by simp
    then show ?thesis using held one False unfolding all_def [symmetric] by simp
  next
    case True
    have sound: "trail_sound sha t R db (read_tombstones b t)" using Suc.prems(1) by (simp add: trail_stored_def)
    have size: "0 < audit_prune_page" by (simp add: audit_prune_page_def)
    have long: "audit_prune_page \<le> length all" using True by simp
    have rest: "all_due eff now t (row_seq (last ?page)) (int (length R)) (without ?page db) = drop audit_prune_page all"
      using all_due_next [OF sound size, of eff now after "int (length R)"] long unfolding all_def by simp
    have roomy: "roomy_pass env eff now (length (db_rows (without ?page db)))" by (rule roomy_fewer [OF Suc.prems(3) without_fewer])
    have few: "length (all_due eff now t (row_seq (last ?page)) (int (length R)) (without ?page db)) \<le> left * audit_prune_page"
      unfolding rest using Suc.prems(4) by (simp add: all_def)
    have joined: "without (drop audit_prune_page all) (without ?page db) = without all db"
      by (simp only: without_append append_take_drop_id)
    obtain b2 where two: "chain_pages sha env index t left (page + 1) (row_seq (last ?page)) (?oc, (without ?page db, b1)) =
        (Some (?oc\<lparr>oc_pruned := oc_pruned ?oc + int (length (drop audit_prune_page all))\<rparr>), (without all db, b2))"
      "trail_reach sha (without all db, b2)"
      using Suc.IH [OF one(2,3) roomy few, of "page + 1" ?oc] unfolding rest joined by blast
    have sum: "oc_pruned ?oc + int (length (drop audit_prune_page all)) = oc_pruned oc + int (length all)"
      using long by simp
    show ?thesis using held one(1) two True sum unfolding all_def [symmetric] by (intro exI [of _ b2]) (simp add: Let_def)
  qed
qed

section \<open>Every chain\<close>

text \<open>All that is due in one chain, before its head.\<close>

definition chain_due :: "effective_retention \<Rightarrow> int \<Rightarrow> audit_db \<Rightarrow> string option \<Rightarrow> audit_row list" where
  "chain_due eff now db t = all_due eff now t 0 (head_seq (read_chain_head db t)) db"

lemma chain_due_own: "set (chain_due eff now db t) \<subseteq> set (chain_rows db t)"
  by (auto simp: chain_due_def all_due_in)

lemma chains_apart: "t \<noteq> u \<Longrightarrow> set (chain_rows db t) \<inter> set (chain_rows db u) = {}"
  by (auto simp: chain_rows_in in_chain_def)

lemma chain_due_others:
  assumes "t \<noteq> u" shows "chain_due eff now (without (chain_due eff now db t) db) u = chain_due eff now db u"
proof -
  have "chain_rows (without (chain_due eff now db t) db) u = chain_rows db u"
    unfolding chain_rows_without using chain_due_own [of eff now db t] chains_apart [OF assms, of db] by (auto simp: filter_id_conv)
  then show ?thesis by (simp add: chain_due_def all_due_def read_chain_head_def chain_rows_def [symmetric])
qed

lemma chain_passes_ok:
  "trail_reach sha (db, b) \<Longrightarrow> roomy_pass env eff now (length (db_rows db)) \<Longrightarrow> distinct ts \<Longrightarrow>
   \<forall>t\<in>set ts. length (chain_due eff now db t) \<le> pages * audit_prune_page \<Longrightarrow>
   \<exists>b'. chain_passes sha env pages index ts (oc, (db, b)) =
       (Some (oc\<lparr>oc_pruned := oc_pruned oc + int (length (concat (map (chain_due eff now db) ts)))\<rparr>),
        (without (concat (map (chain_due eff now db) ts)) db, b')) \<and>
     trail_reach sha (without (concat (map (chain_due eff now db) ts)) db, b')"
proof (induction ts arbitrary: index oc db b)
  case Nil
  then show ?case by (simp add: without_none)
next
  case (Cons t ts)
  let ?due = "chain_due eff now db t"
  obtain R where R: "trail_stored sha t R (db, b)" using reached_stored [OF Cons.prems(1)] by blast
  have "head_seq (read_chain_head db t) = int (length R)" using sound_head(1) R by (auto simp: trail_stored_def at_link_def)
  then have due: "all_due eff now t 0 (int (length R)) db = ?due" by (simp add: chain_due_def)
  have "length ?due \<le> pages * audit_prune_page" using Cons.prems(4) by simp
  then obtain b1 where one: "chain_pages sha env index t pages 0 0 (oc, (db, b)) =
      (Some (oc\<lparr>oc_pruned := oc_pruned oc + int (length ?due)\<rparr>), (without ?due db, b1))" "trail_reach sha (without ?due db, b1)"
    using chain_pages_ok [OF R Cons.prems(1,2), of 0 pages index 0 oc] unfolding due by blast
  have others: "map (chain_due eff now (without ?due db)) ts = map (chain_due eff now db) ts"
    using Cons.prems(3) by (auto intro: chain_due_others)
  have roomy: "roomy_pass env eff now (length (db_rows (without ?due db)))" by (rule roomy_fewer [OF Cons.prems(2) without_fewer])
  have few: "\<forall>u\<in>set ts. length (chain_due eff now (without ?due db) u) \<le> pages * audit_prune_page"
  proof
    fix u assume u: "u \<in> set ts"
    with Cons.prems(3) have "t \<noteq> u" by auto
    with Cons.prems(4) u show "length (chain_due eff now (without ?due db) u) \<le> pages * audit_prune_page"
      by (simp add: chain_due_others)
  qed
  let ?oc = "oc\<lparr>oc_pruned := oc_pruned oc + int (length ?due)\<rparr>"
  from Cons.IH [OF one(2) roomy _ few, of "index + 1" ?oc] Cons.prems(3)
  obtain b2 where "chain_passes sha env pages (index + 1) ts (?oc, (without ?due db, b1)) =
      (Some (?oc\<lparr>oc_pruned := oc_pruned ?oc + int (length (concat (map (chain_due eff now db) ts)))\<rparr>),
        (without (?due @ concat (map (chain_due eff now db) ts)) db, b2))"
    "trail_reach sha (without (?due @ concat (map (chain_due eff now db) ts)) db, b2)"
    unfolding others without_append by auto
  with one(1) show ?case by (intro exI [of _ b2]) simp
qed

lemma chain_tenants_all: "t \<in> set (chain_tenants collate db) \<longleftrightarrow> chain_rows db t \<noteq> []"
proof -
  have "chain_rows db t \<noteq> [] \<longleftrightarrow> (\<exists>r. r \<in> set (chain_rows db t))" by (cases "chain_rows db t") auto
  also have "\<dots> \<longleftrightarrow> t \<in> set (chain_tenants collate db)"
    unfolding chain_rows_in by (auto simp: chain_tenants_def in_chain_def)
  finally show ?thesis by simp
qed

lemma unchained_pages_kept:
  "trail_reach sha (db, b) \<Longrightarrow> trail_reach sha (snd (unchained_pages env left page after (oc, db)), b) \<and>
     only_removed (\<lambda>r. ar_seq r = None) db (snd (unchained_pages env left page after (oc, db)))"
proof (induction left arbitrary: page after oc db)
  case (Suc left)
  obtain ans db' where page: "unchained_page_of env page after db = (ans, db')" by fastforce
  have one: "trail_reach sha (db', b) \<and> only_removed (\<lambda>r. ar_seq r = None) db db'"
  proof (cases "pa_policy env")
    case None
    with page Suc.prems show ?thesis by (simp add: unchained_page_of_def)
  next
    case (Some eff)
    with page have p: "prune_unchained_page max_bound_parameters eff (pa_later_now env page) after audit_prune_page (pa_later_held env page) db = (ans, db')"
      by (simp add: unchained_page_of_def)
    have ids: "row_ids db" using reached_kept [OF Suc.prems] by (auto simp: trails_kept_def trail_stored_def trail_sound_def)
    have "only_removed (\<lambda>r. ar_seq r = None) db db'" using unchained_page_effect [OF p ids] by (auto simp: only_removed_def)
    with trail_reach.Step [OF Suc.prems Unchained_pruned [OF p]] show ?thesis by simp
  qed
  then have "trail_reach sha (snd (unchained_pages env left (page + 1) after' (oc', db')), b) \<and>
      only_removed (\<lambda>r. ar_seq r = None) db (snd (unchained_pages env left (page + 1) after' (oc', db')))" for after' oc'
    using Suc.IH only_removed_trans by blast
  then show ?case using one page by (auto simp: Let_def split: option.splits)
qed simp

lemma unchained_pages_counts:
  "unchained_pages env left page after (oc, db) = (Some oc', db') \<Longrightarrow>
     oc_pruned oc' = oc_pruned oc \<and> oc_refused oc' = oc_refused oc \<and> oc_held oc' = oc_held oc"
proof (induction left arbitrary: page after oc db)
  case (Suc left)
  obtain ans db1 where page: "unchained_page_of env page after db = (ans, db1)" by fastforce
  with Suc.prems obtain pg where pg: "ans = Some pg" by (cases ans) auto
  show ?case
  proof (cases "up_next pg")
    case None
    with Suc.prems page pg show ?thesis by (auto simp: Let_def)
  next
    case (Some after')
    with Suc.prems page pg
    have "unchained_pages env left (page + 1) after' (oc\<lparr>oc_unchained := oc_unchained oc + up_deleted pg\<rparr>, db1) = (Some oc', db')"
      by (simp add: Let_def)
    from Suc.IH [OF this] show ?thesis by simp
  qed
qed simp

lemma only_unchained_chains:
  assumes "only_removed (\<lambda>r. ar_seq r = None) db db'" shows "chain_rows db' t = chain_rows db t"
proof -
  from assms obtain X where X: "db' = db\<lparr>db_rows := [r \<leftarrow> db_rows db. r \<notin> X]\<rparr>" "\<forall>r\<in>X. ar_seq r = None"
    by (auto simp: only_removed_def removed_def)
  have "(r \<notin> X \<and> in_chain t r) = in_chain t r" for r using X(2) by (auto simp: in_chain_def)
  then show ?thesis by (simp add: X(1) chain_rows_def)
qed

lemma roomy_pass_prunes:
  assumes reach: "trail_reach sha (db, b)" and prunes: "prunes_audit eff" and roomy: "roomy_pass env eff now (length (db_rows db))"
    and few: "\<And>t. length (chain_due eff now db t) \<le> or_else audit_prune_default_pages (pa_pages env) * audit_prune_page"
  obtains db' b' where "snd (prune_audit_trail sha collate env (db, b)) = (db', b')" "trail_reach sha (db', b')"
    "\<And>t. chain_rows db' t = [r \<leftarrow> chain_rows db t. r \<notin> set (chain_due eff now db t)]"
    "\<And>oc. fst (prune_audit_trail sha collate env (db, b)) = Some oc \<Longrightarrow> oc_refused oc = 0 \<and> oc_held oc = 0 \<and>
      oc_pruned oc = int (length (concat (map (chain_due eff now db) (chain_tenants collate db))))"
proof -
  define pages where "pages = or_else audit_prune_default_pages (pa_pages env)"
  define ts where "ts = chain_tenants collate db"
  define gone where "gone = concat (map (chain_due eff now db) ts)"
  have ts: "distinct ts" by (simp add: ts_def chain_tenants_def)
  have few': "\<forall>t\<in>set ts. length (chain_due eff now db t) \<le> pages * audit_prune_page" using few by (simp add: pages_def)
  let ?oc = "nothing_done\<lparr>oc_pruned := oc_pruned nothing_done + int (length gone)\<rparr>"
  obtain b' where chains: "chain_passes sha env pages 0 ts (nothing_done, (db, b)) = (Some ?oc, (without gone db, b'))"
    "trail_reach sha (without gone db, b')"
    using chain_passes_ok [OF reach roomy ts few', of 0 nothing_done] unfolding gone_def [symmetric] by blast
  obtain res db' where later: "unchained_pages env pages 0 0 (?oc, without gone db) = (res, db')" by fastforce
  have kept: "trail_reach sha (db', b')" "chain_rows db' t = chain_rows (without gone db) t" for t
    using unchained_pages_kept [OF chains(2), of env pages 0 0 ?oc] only_unchained_chains later by auto
  have pass: "prune_audit_trail sha collate env (db, b) = (res, (db', b'))"
    using roomy prunes chains(1) later
    by (simp add: prune_audit_trail_def pass_prunes_def roomy_pass_def pass_chains_def Let_def pages_def [symmetric] ts_def [symmetric])
  have own: "r \<in> set gone \<longleftrightarrow> r \<in> set (chain_due eff now db t)" if r: "r \<in> set (chain_rows db t)" for r t
  proof -
    have "t \<in> set ts" unfolding ts_def chain_tenants_all using r by (cases "chain_rows db t") auto
    moreover have "u = t" if "r \<in> set (chain_due eff now db u)" for u
      using that chain_due_own [of eff now db u] r by (auto simp: chain_rows_in in_chain_def)
    ultimately show ?thesis by (auto simp: gone_def)
  qed
  have "chain_rows db' t = [r \<leftarrow> chain_rows db t. r \<notin> set (chain_due eff now db t)]" for t
    unfolding kept(2) chain_rows_without by (rule filter_cong [OF refl]) (simp add: own)
  moreover have "oc_refused oc = 0 \<and> oc_held oc = 0 \<and> oc_pruned oc = int (length gone)" if "res = Some oc" for oc
    using unchained_pages_counts [OF later [unfolded that]] by (simp add: nothing_done_def)
  ultimately show ?thesis using that [of db' b'] pass kept(1) unfolding gone_def ts_def by simp
qed

end
