(* ===== verification/Audit_Trail_Properties.thy ===== *)
theory Audit_Trail_Properties
  imports Audit_Trail_Steps Retention_Properties Audit_Properties
begin

text \<open>
  What the stored trail promises: keys that read back, pages that do not show, a trail that verifies
  after any recording, checkpointing and pruning, and where an interrupted prune breaks it.
\<close>

section \<open>A small table\<close>

definition flat_hash :: "string \<Rightarrow> digest" where
  "flat_hash s = ''h''"

definition record_event :: "string \<Rightarrow> audit_db \<Rightarrow> audit_db" where
  "record_event eid db = snd (append_run flat_hash [(0, clear_step), (0, clear_step)]
     ([start_append (sample_row eid ''auth/signup'') ''s''], db))"

definition three_events :: audit_db where
  "three_events = record_event ''e3'' (record_event ''e2'' (record_event ''e1'' empty_audit))"

lemma record_reach: "trail_reach flat_hash (db, b) \<Longrightarrow> trail_reach flat_hash (record_event eid db, b)"
  unfolding record_event_def
  by (metis (no_types, lifting) Recorded trail_reach.Step prod.collapse)

lemma three_reach: "trail_reach flat_hash (three_events, [])"
  unfolding three_events_def by (intro record_reach trail_reach.Empty)

definition sample_prune :: prune_options where
  "sample_prune = \<lparr>po_tenant = Some ''acme'', po_retention = short_retention, po_now = 8640000000, po_stamp = ''t'',
     po_after = 0, po_limit = 10\<rparr>"

lemma three_head: "head_seq (read_chain_head three_events (Some ''acme'')) = 3"
  by code_simp

lemma three_due: "map row_seq (due_rows sample_prune 3 three_events) = [1, 2]"
  by code_simp

lemma three_runs: "map (map row_seq) (expired_runs short_retention 8640000000 (due_rows sample_prune 3 three_events)) = [[1, 2]]"
  by code_simp

section \<open>Keys and cursors\<close>

text \<open>The number in a checkpoint's or a tombstone's key reads back as it was written, whatever
  its size and the tenant's name, and no listing of one chain's keys meets another chain's or takes a
  tombstone's key for a checkpoint's.\<close>

theorem keys_read_back:
  assumes "0 \<le> n"
  shows "number_of_key (checkpoint_key t n) (checkpoint_prefix t) = Some n \<and>
    number_of_key (tombstone_key t n) (tombstone_prefix t) = Some n \<and>
    (starts_with (checkpoint_key t n) (checkpoint_prefix u) \<longleftrightarrow> t = u) \<and>
    (starts_with (tombstone_key t n) (tombstone_prefix u) \<longleftrightarrow> t = u) \<and>
    \<not> starts_with (checkpoint_key t n) (tombstone_prefix u) \<and>
    number_of_key (tombstone_key t n) (checkpoint_prefix t) = None"
proof -
  have under: "starts_with (checkpoint_key t n) (checkpoint_prefix t)" by (simp add: checkpoint_key_def numbered_key_def)
  have longer: "starts_with s (tombstone_prefix u) \<Longrightarrow> starts_with s (checkpoint_prefix u)" for s u
    by (rule starts_with_trans, assumption, unfold tombstone_prefix_def) (rule starts_with_append)
  show ?thesis
    using number_read_back [OF assms] under longer checkpoint_keys_apart [of t n u] tombstone_keys_apart [of t n u]
      tombstone_key_under [of t n] checkpoint_is_no_tombstone [of t n] tombstone_is_no_checkpoint [of t n]
    unfolding checkpoint_key_def [symmetric] tombstone_key_def [symmetric]
    by (auto simp: checkpoint_key_def tombstone_key_def)
qed

lemma keys_read_back_witness:
  "checkpoint_key (Some ''a/b'') 42 = ''checkpoints/tenant/a%2Fb/000000000000042.json'' \<and>
   number_of_key (checkpoint_key (Some ''a/b'') 42) (checkpoint_prefix (Some ''a/b'')) = Some 42 \<and>
   \<not> starts_with (checkpoint_key (Some ''a/b'') 42) (checkpoint_prefix (Some ''a''))"
  using keys_read_back [of 42 "Some ''a/b''" "Some ''a''"] by (intro conjI) (code_simp, simp, simp)

section \<open>Pages\<close>

text \<open>Over one state of the table, however broken its chain is, the paged walk finds exactly what
  the verifier finds in all of the range's rows taken at once, for any page size.\<close>

theorem paging_is_invisible:
  assumes "row_ids db" and "\<And>k. db_at reads (12 + k) = db" and "0 < page"
  shows "walk_pages sha opts reads page through 0 cursor wk =
    push_all sha opts (map (chained_event_of sha False) (rows_after db (vo_tenant opts) cursor through)) wk"
  by (rule walk_pages_whole [OF assms])

lemma paging_is_invisible_witness:
  "walk_pages flat_hash \<lparr>vo_tenant = Some ''acme'', vo_prior = None, vo_checkpoints = [], vo_tombstones = [], vo_values = False\<rparr>
     (\<lambda>_. (three_events, [])) 1 3 0 (0, None) \<lparr>wk_head = None, wk_checked = 0, wk_pruned = 0\<rparr> =
   push_all flat_hash \<lparr>vo_tenant = Some ''acme'', vo_prior = None, vo_checkpoints = [], vo_tombstones = [], vo_values = False\<rparr>
     (map (chained_event_of flat_hash False) (rows_after three_events (Some ''acme'') (0, None) 3))
     \<lparr>wk_head = None, wk_checked = 0, wk_pruned = 0\<rparr>"
proof -
  have "row_ids three_events" by code_simp
  then show ?thesis
    using paging_is_invisible [of three_events "\<lambda>_. (three_events, [])" 1 flat_hash
      "\<lparr>vo_tenant = Some ''acme'', vo_prior = None, vo_checkpoints = [], vo_tombstones = [], vo_values = False\<rparr>" 3 "(0, None)"]
    by (simp add: db_at_def)
qed

section \<open>A reached trail verifies\<close>

lemma walk_range_break: "walk_range sha bound reads page q = Some v \<Longrightarrow> rv_intact v \<longleftrightarrow> rv_break v = None"
  by (auto simp: walk_range_def Let_def split: if_splits option.splits prod.splits)

definition three_pruned :: "audit_db \<times> audit_bucket" where
  "three_pruned = snd (prune_chain_page flat_hash 4 3 sample_prune (three_events, []))"

lemma three_pruned_page:
  "\<exists>b. prune_chain_page flat_hash 4 3 sample_prune (three_events, []) =
     (Some (page_after sample_prune (due_rows sample_prune 3 three_events)), (without (due_rows sample_prune 3 three_events) three_events, b)) \<and>
   three_pruned = (without (due_rows sample_prune 3 three_events) three_events, b)"
proof -
  have tenant: "po_tenant sample_prune = Some ''acme''" by (simp add: sample_prune_def)
  have "length (db_rows three_events) \<le> 3" by code_simp
  from page_due [where cap = 4 and opts = sample_prune and b = "[]", OF three_reach _ this, unfolded tenant three_head] show ?thesis
    by (auto simp: three_pruned_def)
qed

lemma pruned_reach: "trail_reach flat_hash three_pruned"
proof -
  obtain b where b: "prune_chain_page flat_hash 4 3 sample_prune (three_events, []) =
     (Some (page_after sample_prune (due_rows sample_prune 3 three_events)), (without (due_rows sample_prune 3 three_events) three_events, b))"
    "three_pruned = (without (due_rows sample_prune 3 three_events) three_events, b)" using three_pruned_page by blast
  have "length (db_rows three_events) \<le> 3" by code_simp
  from Pruned [OF _ this b(1)] have "trail_step flat_hash (three_events, []) three_pruned" by (simp add: b(2))
  from trail_reach.Step [OF three_reach this] show ?thesis .
qed

lemma pruned_left: "fst three_pruned = without (due_rows sample_prune 3 three_events) three_events"
proof -
  obtain b where "three_pruned = (without (due_rows sample_prune 3 three_events) three_events, b)"
    using three_pruned_page by blast
  from arg_cong [OF this, of fst] show ?thesis by (unfold fst_conv)
qed

lemma one_left: "map row_seq (db_rows (without (due_rows sample_prune 3 three_events) three_events)) = [3]"
  by code_simp



section \<open>What a page prunes\<close>

text \<open>On any reached state, with as many deletes as rows, a page of one chain removes every event
  past its own window between its cursor and the head, up to its limit, and no other row; it refuses
  none, counts what it removed, and names the next cursor exactly when it filled its limit.\<close>

theorem page_prunes_what_is_due:
  fixes opts :: prune_options
  assumes "trail_reach sha (db, b)" and "4 \<le> cap" and "length (db_rows db) \<le> budget"
  defines "due \<equiv> due_rows opts (head_seq (read_chain_head db (po_tenant opts))) db"
  shows "\<exists>b'. prune_chain_page sha cap budget opts (db, b) =
      (Some \<lparr>pp_pruned = int (length due), pp_refused = 0,
         pp_next = (if length due = po_limit opts \<and> due \<noteq> [] then Some (row_seq (last due)) else None)\<rparr>,
       (db\<lparr>db_rows := [r \<leftarrow> db_rows db. r \<notin> set due]\<rparr>, b')) \<and>
    trail_reach sha (db\<lparr>db_rows := [r \<leftarrow> db_rows db. r \<notin> set due]\<rparr>, b')"
proof -
  obtain b' where page: "prune_chain_page sha cap budget opts (db, b) = (Some (page_after opts due), (without due db, b'))"
    using page_due [OF assms(1-3)] unfolding due_def by blast
  from trail_reach.Step [OF assms(1) Pruned [OF assms(2,3) page]] page show ?thesis
    by (intro exI [of _ b']) (simp add: page_after_def without_def)
qed

lemma page_prunes_what_is_due_witness:
  "\<exists>b'. prune_chain_page flat_hash 4 3 sample_prune (three_events, []) =
     (Some \<lparr>pp_pruned = 2, pp_refused = 0, pp_next = None\<rparr>,
      (three_events\<lparr>db_rows := [r \<leftarrow> db_rows three_events. r \<notin> set (due_rows sample_prune 3 three_events)]\<rparr>, b')) \<and>
     trail_reach flat_hash (three_events\<lparr>db_rows := [r \<leftarrow> db_rows three_events. r \<notin> set (due_rows sample_prune 3 three_events)]\<rparr>, b')"
proof -
  have three: "length (db_rows three_events) \<le> 3" by code_simp
  have tenant: "po_tenant sample_prune = Some ''acme''" by (simp add: sample_prune_def)
  have two: "length (due_rows sample_prune 3 three_events) = 2" using arg_cong [OF three_due, of length] by simp
  have few: "(2 = po_limit sample_prune) = False" by (simp add: sample_prune_def)
  show ?thesis
    using page_prunes_what_is_due [where cap = 4 and opts = sample_prune and b = "[]", OF three_reach _ three, unfolded tenant three_head two few]
    by simp
qed

section \<open>What a page cannot prune\<close>

text \<open>C24: Whatever table and bucket it is handed, however broken, and wherever its statements fail, a
  page under a resolved policy removes only events of its own chain, before the head, each past the
  window of the rule that decides its action, and an event under a floored prefix never within a year.\<close>

theorem prune_respects_windows:
  assumes "row_ids db" and "resolve_retention collate p composed = Inr (po_retention opts)"
    and "prune_chain_page sha cap budget opts (db, b) = (res, (db', b'))"
  shows "\<exists>X. db' = db\<lparr>db_rows := [r \<leftarrow> db_rows db. r \<notin> X]\<rparr> \<and> (\<forall>r\<in>X.
    in_chain (po_tenant opts) r \<and> row_seq r < head_seq (read_chain_head db (po_tenant opts)) \<and>
    (\<exists>d. deciding_days (po_retention opts) (ev_action r) = Some d \<and> ev_occurred_at r < po_now opts - d * ms_per_day \<and>
      (\<forall>f\<in>set (floored_of composed). starts_with (ev_action r) f \<longrightarrow> 365 \<le> d)))"
proof -
  obtain X where X: "removed X db db'" "\<forall>r\<in>X. in_chain (po_tenant opts) r \<and>
      row_seq r < head_seq (read_chain_head db (po_tenant opts)) \<and> expired (po_retention opts) (po_now opts) r"
    using prune_page_effect [OF assms(3,1)] by blast
  have "\<exists>d. deciding_days (po_retention opts) (ev_action r) = Some d \<and> ev_occurred_at r < po_now opts - d * ms_per_day \<and>
      (\<forall>f\<in>set (floored_of composed). starts_with (ev_action r) f \<longrightarrow> 365 \<le> d)" if "r \<in> X" for r
  proof -
    have "expired (po_retention opts) (po_now opts) r" using X(2) that by blast
    then obtain d where d: "deciding_days (po_retention opts) (ev_action r) = Some d" "ev_occurred_at r < po_now opts - d * ms_per_day"
      by (auto simp: expired_def past_window_def window_is_deciding [OF assms(2)] split: option.splits)
    have "365 \<le> d" if "f \<in> set (floored_of composed)" "starts_with (ev_action r) f" for f
      using floored_decided [OF assms(2) that] by (simp add: d(1) audit_retention_floor_days_def)
    with d show ?thesis by blast
  qed
  with X show ?thesis unfolding removed_def by blast
qed

lemma prune_respects_windows_witness:
  "\<exists>X. fst three_pruned = three_events\<lparr>db_rows := [r \<leftarrow> db_rows three_events. r \<notin> X]\<rparr> \<and> (\<forall>r\<in>X.
    in_chain (Some ''acme'') r \<and> row_seq r < 3 \<and>
    (\<exists>d. deciding_days short_retention (ev_action r) = Some d \<and> ev_occurred_at r < 8640000000 - d * ms_per_day \<and>
      (\<forall>f\<in>set (floored_of sample_composition). starts_with (ev_action r) f \<longrightarrow> 365 \<le> d)))"
proof -
  have ids: "row_ids three_events" by code_simp
  obtain b where page: "prune_chain_page flat_hash 4 3 sample_prune (three_events, []) =
      (Some (page_after sample_prune (due_rows sample_prune 3 three_events)), (fst three_pruned, b))"
    using three_pruned_page pruned_left by metis
  have opts: "po_retention sample_prune = short_retention" "po_now sample_prune = 8640000000" "po_tenant sample_prune = Some ''acme''"
    by (simp_all add: sample_prune_def)
  from prune_respects_windows [where opts = sample_prune, OF ids short_resolves [folded opts(1)] page] show ?thesis
    by (simp only: opts three_head)
qed

section \<open>A page interrupted between its deletes\<close>

text \<open>Later pages of one chain, under any options and whatever fails in them.\<close>

inductive pruned_later :: "(string \<Rightarrow> digest) \<Rightarrow> string option \<Rightarrow> audit_db \<times> audit_bucket \<Rightarrow> audit_db \<times> audit_bucket \<Rightarrow> bool" for sha t s where
  Not_yet: "pruned_later sha t s s"
| Another_page: "pruned_later sha t s (db, b) \<Longrightarrow> po_tenant opts = t \<Longrightarrow> 0 \<le> po_after opts \<Longrightarrow>
    prune_chain_page sha cap budget opts (db, b) = (res, s') \<Longrightarrow> pruned_later sha t s s'"

lemma gap_stays:
  assumes "pruned_later sha t s s'"
  shows "gap_before t p (fst s) (read_tombstones (snd s) t) \<Longrightarrow> row_ids (fst s) \<Longrightarrow> keys_distinct (snd s) \<Longrightarrow>
    gap_before t p (fst s') (read_tombstones (snd s') t) \<and> row_ids (fst s') \<and> keys_distinct (snd s')"
  using assms
proof (induction rule: pruned_later.induct)
  case (Another_page db b opts cap budget res s')
  obtain db' b' where s': "s' = (db', b')" by fastforce
  from gap_after_page [where p = p, OF Another_page.hyps(4) [unfolded s'] Another_page.hyps(2,3)] Another_page.IH Another_page.prems
  show ?case by (simp add: s')
qed simp

text \<open>C19: A page whose run takes more than one delete and that is cut off between them leaves the
  chain broken for good: it threw, whatever pages are run again later, under whatever options, none
  repairs it, and every verify of the whole chain from then on reports a break.\<close>

theorem interrupted_prune_wedges:
  fixes opts :: prune_options
  assumes "trail_reach sha (db, b)" and "4 \<le> cap" and "0 < page"
    and "expired_runs (po_retention opts) (po_now opts) (due_rows opts (head_seq (read_chain_head db (po_tenant opts))) db) = rs # rest"
    and "0 < budget" and "budget * run_chunk cap (po_tenant opts) < length rs"
  shows "fst (prune_chain_page sha cap budget opts (db, b)) = None \<and>
    (\<forall>s. pruned_later sha (po_tenant opts) (snd (prune_chain_page sha cap budget opts (db, b))) s \<longrightarrow>
      (\<exists>v. verify_chain_range sha True (\<lambda>_. s) (\<lambda>_. s) page \<lparr>cq_tenant = po_tenant opts, cq_since = None, cq_until = None\<rparr> = Some v \<and>
        \<not> rv_intact v))"
proof -
  obtain R where R: "trail_stored sha (po_tenant opts) R (db, b)" using reached_stored [OF assms(1)] by blast
  then have "head_seq (read_chain_head db (po_tenant opts)) = int (length R)"
    using sound_head(1) by (auto simp: trail_stored_def at_link_def)
  from interrupted_page [OF R refl assms(2) assms(4) [unfolded this] assms(5,6)]
  obtain db' b' p where page: "prune_chain_page sha cap budget opts (db, b) = (None, (db', b'))"
    "gap_before (po_tenant opts) p db' (read_tombstones b' (po_tenant opts))" "row_ids db'" "keys_distinct b'" by blast
  have "\<exists>v. verify_chain_range sha True (\<lambda>_. s) (\<lambda>_. s) page \<lparr>cq_tenant = po_tenant opts, cq_since = None, cq_until = None\<rparr> = Some v \<and>
      \<not> rv_intact v" if "pruned_later sha (po_tenant opts) (db', b') s" for s
  proof -
    obtain db2 b2 where s: "s = (db2, b2)" by fastforce
    from gap_stays [OF that] page(2-4) have "gap_before (po_tenant opts) p db2 (read_tombstones b2 (po_tenant opts))" "row_ids db2"
      by (simp_all add: s)
    from gap_breaks_walk [OF this assms(3)] show ?thesis by (simp add: s)
  qed
  with page(1) show ?thesis by simp
qed

lemma interrupted_prune_wedges_witness:
  "fst (prune_chain_page flat_hash 4 1 sample_prune (three_events, [])) = None \<and>
   (\<exists>v. verify_chain_range flat_hash True (\<lambda>_. snd (prune_chain_page flat_hash 4 1 sample_prune (three_events, [])))
      (\<lambda>_. snd (prune_chain_page flat_hash 4 1 sample_prune (three_events, []))) 2
      \<lparr>cq_tenant = Some ''acme'', cq_since = None, cq_until = None\<rparr> = Some v \<and> \<not> rv_intact v)"
proof -
  have opts: "po_retention sample_prune = short_retention" "po_now sample_prune = 8640000000" "po_tenant sample_prune = Some ''acme''"
    by (simp_all add: sample_prune_def)
  obtain rs where runs: "expired_runs short_retention 8640000000 (due_rows sample_prune 3 three_events) = [rs]" "map row_seq rs = [1, 2]"
    using three_runs by auto
  have two: "1 * run_chunk 4 (Some ''acme'') < length rs" using arg_cong [OF runs(2), of length] by (simp add: run_chunk_def)
  note wedged = interrupted_prune_wedges [where opts = sample_prune and cap = 4 and page = 2 and budget = 1, OF three_reach _ _ _ _ ,
      unfolded opts three_head, OF _ _ runs(1) _ two]
  have none: "fst (prune_chain_page flat_hash 4 1 sample_prune (three_events, [])) = None" using wedged by simp
  from wedged [THEN conjunct2, THEN spec, THEN mp, OF _ _ _ pruned_later.Not_yet] none show ?thesis by simp
qed

section \<open>The unchained rows\<close>

text \<open>A page of the unchained prune removes exactly the rows it doomed when they fit one
  statement's parameters; a page with more doomed rows than that throws and removes none, and so does
  every repetition of it.\<close>

theorem unchained_page_all_or_nothing:
  fixes now :: int and after limit :: nat and held :: "string option \<Rightarrow> bool"
  assumes "row_ids db" and "shortest_window_days eff = Some shortest"
  defines "rows \<equiv> unchained_rows db eff now after limit (now - shortest * ms_per_day)"
  defines "doomed \<equiv> doomed_rows eff now held rows"
  shows "prune_unchained_page cap eff now after limit held db =
    (if cap < length doomed then (None, db)
     else (Some \<lparr>up_deleted = length doomed, up_next = (if length rows = limit \<and> rows \<noteq> [] then Some (ar_row (last rows)) else None)\<rparr>,
       db\<lparr>db_rows := [r \<leftarrow> db_rows db. r \<notin> set doomed]\<rparr>))"
proof -
  have "set rows \<subseteq> set (db_rows db)"
    by (auto simp: rows_def unchained_rows_def Let_def split: if_splits dest!: in_set_takeD)
  then have sub: "set doomed \<subseteq> set (db_rows db)" by (auto simp: doomed_def doomed_rows_def)
  have "[r \<leftarrow> db_rows db. ar_row r \<notin> ar_row ` set doomed] = [r \<leftarrow> db_rows db. r \<notin> set doomed]"
  proof (rule filter_cong [OF refl])
    fix r assume "r \<in> set (db_rows db)"
    with sub assms(1) show "(ar_row r \<notin> ar_row ` set doomed) = (r \<notin> set doomed)"
      by (auto simp: row_ids_def distinct_map dest: inj_onD)
  qed
  then show ?thesis
    using assms(2) by (cases "doomed = []") (simp_all add: prune_unchained_page_def Let_def delete_by_id_def rows_def [symmetric] doomed_def [symmetric])
qed

definition legacy_rows :: audit_db where
  "legacy_rows = \<lparr>db_rows = [(sample_row ''e1'' ''auth/signup'')\<lparr>ar_row := 1\<rparr>, (sample_row ''e2'' ''auth/signup'')\<lparr>ar_row := 2\<rparr>],
     db_next = 3\<rparr>"

lemma legacy_doomed: "doomed_rows short_retention 8640000000 (\<lambda>_. False) (db_rows legacy_rows) = db_rows legacy_rows"
  by code_simp

lemma legacy_read:
  "unchained_rows legacy_rows short_retention 8640000000 0 10 (8640000000 - 14 * ms_per_day) = db_rows legacy_rows"
  by code_simp

lemma unchained_page_all_or_nothing_witness:
  "prune_unchained_page 1 short_retention 8640000000 0 10 (\<lambda>_. False) legacy_rows = (None, legacy_rows) \<and>
   prune_unchained_page 2 short_retention 8640000000 0 10 (\<lambda>_. False) legacy_rows =
     (Some \<lparr>up_deleted = 2, up_next = None\<rparr>, legacy_rows\<lparr>db_rows := []\<rparr>)"
proof -
  have ids: "row_ids legacy_rows" by code_simp
  have shortest: "shortest_window_days short_retention = Some 14" by code_simp
  have len: "length (db_rows legacy_rows) = 2" by code_simp
  show ?thesis
    using unchained_page_all_or_nothing [OF ids shortest, of 1 8640000000 0 10 "\<lambda>_. False"]
      unchained_page_all_or_nothing [OF ids shortest, of 2 8640000000 0 10 "\<lambda>_. False"]
    unfolding legacy_read legacy_doomed len by simp
qed

section \<open>Exports\<close>

text \<open>Any page of an export of a reached trail, the first or one resumed from a row the table
  still holds, verifies on its own with the verifier that is handed to whoever receives it.\<close>

theorem export_page_verifies:
  assumes "trail_reach sha (db, b)" and "cursor_stands db (cq_tenant q) (xo_cursor x)"
  shows "\<exists>v. verify_export sha (export_chain_range sha stamp True (\<lambda>_. (db, b)) q x) = Some v \<and> vf_intact v"
proof -
  obtain R where "trail_stored sha (cq_tenant q) R (db, b)" using reached_stored [OF assms(1)] by blast
  from sound_export [OF this refl assms(2)] show ?thesis .
qed

lemma export_page_verifies_witness:
  "xo_cursor \<lparr>xo_detail = True, xo_cursor = Some (export_cursor 3 3), xo_limit = 1, xo_now = 9\<rparr> = Some ''3:3'' \<and>
   (\<exists>v. verify_export flat_hash (export_chain_range flat_hash (\<lambda>_. ''t'') True (\<lambda>_. three_pruned)
     \<lparr>cq_tenant = Some ''acme'', cq_since = Some 5, cq_until = None\<rparr>
     \<lparr>xo_detail = True, xo_cursor = Some (export_cursor 3 3), xo_limit = 1, xo_now = 9\<rparr>) = Some v \<and> vf_intact v)"
proof -
  obtain db b where s: "three_pruned = (db, b)" by fastforce
  have db: "db = without (due_rows sample_prune 3 three_events) three_events" using pruned_left by (simp add: s)
  have cursor: "export_cursor 3 3 = ''3:3''" by code_simp
  have "map (\<lambda>r. (row_seq r, ar_row r)) (chain_rows (without (due_rows sample_prune 3 three_events) three_events) (Some ''acme'')) = [(3, 3)]"
    "parse_export_cursor (Some ''3:3'') = Some (3, 3)" by code_simp+
  then have "cursor_stands db (Some ''acme'') (Some (export_cursor 3 3))"
    unfolding db cursor cursor_stands_def by force
  then show ?thesis
    using export_page_verifies [OF pruned_reach [unfolded s], of
      "\<lparr>cq_tenant = Some ''acme'', cq_since = Some 5, cq_until = None\<rparr>"
      "\<lparr>xo_detail = True, xo_cursor = Some (export_cursor 3 3), xo_limit = 1, xo_now = 9\<rparr>" "\<lambda>_. ''t''"]
    by (simp add: s cursor)
qed

lemma digits_below: "n < 10 ^ 15 \<Longrightarrow> cursor_digits (decimal n)"
  using decimal_length [of n 15] decimal_is_digits [of n] by (simp add: cursor_digits_def)

lemma colon_no_digit: "\<not> is_digit (CHR '':'')"
  by code_simp

lemma cursor_reads_back:
  assumes "0 \<le> p" "p < 10 ^ 15" "i < 10 ^ 15"
  shows "parse_export_cursor (Some (export_cursor p i)) = Some (p, i)"
proof -
  have spelt: "export_cursor p i = decimal (nat p) @ CHR '':'' # decimal i"
    using assms(1) by (simp add: export_cursor_def json_int_def)
  have digits: "takeWhile is_digit (export_cursor p i) = decimal (nat p)"
    unfolding spelt using decimal_is_digits [of "nat p"] colon_no_digit by (simp add: takeWhile_append list_all_iff)
  have "nat p < 10 ^ 15" using assms(1,2) by (simp add: nat_less_iff)
  with digits_below assms show ?thesis by (simp add: parse_export_cursor_def Let_def digits) (simp add: spelt)
qed

text \<open>What a cursor's two fields of fifteen digits can name.\<close>

definition positions_fit :: "audit_db \<Rightarrow> bool" where
  "positions_fit db \<longleftrightarrow> (\<forall>r\<in>set (db_rows db). 0 \<le> row_seq r \<and> row_seq r < 10 ^ 15 \<and> ar_row r < 10 ^ 15)"

definition export_after :: "resolved_range \<Rightarrow> string option \<Rightarrow> int \<times> nat option" where
  "export_after rng cursor = (case parse_export_cursor cursor of
     Some (p, i) \<Rightarrow> if p \<ge> rr_from rng - 1 then (p, Some i) else (rr_from rng - 1, None)
   | None \<Rightarrow> (rr_from rng - 1, None))"

lemma export_after_from: "rr_from rng - 1 \<le> fst (export_after rng cursor)"
  by (simp add: export_after_def split: option.splits)

definition export_rows :: "audit_db \<Rightarrow> audit_bucket \<Rightarrow> range_query \<Rightarrow> export_request \<Rightarrow> audit_row list" where
  "export_rows db b q x = (let rng = resolve_range (\<lambda>_. (db, b)) q in
     if rr_through rng \<ge> rr_from rng then rows_after db (cq_tenant q) (export_after rng (xo_cursor x)) (rr_through rng) else [])"

lemma page_of_more:
  "take n (take (n + 1) xs) = take n xs" "n < length (take (n + 1) xs) \<longleftrightarrow> n < length xs"
  by (simp_all add: min_def)

lemma export_reads:
  defines "page db b q x \<equiv> take (xo_limit x) (export_rows db b q x)"
  shows "ex_events (export_chain_range sha stamp bound (\<lambda>_. (db, b)) q x) = map (chained_event_of sha (xo_detail x)) (page db b q x)"
    and "ex_next_cursor (export_chain_range sha stamp bound (\<lambda>_. (db, b)) q x) =
      (if xo_limit x < length (export_rows db b q x) \<and> page db b q x \<noteq> []
       then Some (export_cursor (row_seq (last (page db b q x))) (ar_row (last (page db b q x)))) else None)"
    and "ex_complete (export_chain_range sha stamp bound (\<lambda>_. (db, b)) q x) \<longleftrightarrow>
      rr_to_head (resolve_range (\<lambda>_. (db, b)) q) \<and> length (export_rows db b q x) \<le> xo_limit x"
proof -
  have found: "(if rr_through r \<ge> rr_from r then read_chain_rows db (page_query t c m (rr_through r)) else []) =
      take m (if rr_through r \<ge> rr_from r then rows_after db t c (rr_through r) else [])" for r t c m
    by (simp add: page_is_take)
  have last_of: "xs \<noteq> [] \<Longrightarrow> (if xs = [] then n else row_seq (last xs)) = row_seq (last xs)" for n xs by simp
  note unfolds = export_chain_range_def Let_def export_after_def [symmetric] db_at_def fst_conv found page_of_more page_def export_rows_def
  show "ex_events (export_chain_range sha stamp bound (\<lambda>_. (db, b)) q x) = map (chained_event_of sha (xo_detail x)) (page db b q x)"
    unfolding unfolds by simp
  show "ex_next_cursor (export_chain_range sha stamp bound (\<lambda>_. (db, b)) q x) =
      (if xo_limit x < length (export_rows db b q x) \<and> page db b q x \<noteq> []
       then Some (export_cursor (row_seq (last (page db b q x))) (ar_row (last (page db b q x)))) else None)"
    unfolding unfolds by (auto simp only: chain_export.simps last_of if_True if_False split: if_split)
  show "ex_complete (export_chain_range sha stamp bound (\<lambda>_. (db, b)) q x) \<longleftrightarrow>
      rr_to_head (resolve_range (\<lambda>_. (db, b)) q) \<and> length (export_rows db b q x) \<le> xo_limit x"
    unfolding unfolds by (simp only: chain_export.simps not_less)
qed

lemma next_page_rest:
  assumes ids: "row_ids db" and fit: "positions_fit db" and n: "0 < xo_limit x" "xo_limit x < length (export_rows db b q x)"
  defines "r \<equiv> last (take (xo_limit x) (export_rows db b q x))"
  shows "export_rows db b q (x\<lparr>xo_cursor := Some (export_cursor (row_seq r) (ar_row r))\<rparr>) = drop (xo_limit x) (export_rows db b q x)"
proof -
  define rng where "rng = resolve_range (\<lambda>_. (db, b)) q"
  define c where "c = export_after rng (xo_cursor x)"
  have open_range: "rr_from rng \<le> rr_through rng" using n(2) by (auto simp: export_rows_def Let_def rng_def split: if_splits)
  then have rows: "export_rows db b q x = rows_after db (cq_tenant q) c (rr_through rng)"
    by (simp add: export_rows_def Let_def rng_def c_def)
  have "take (xo_limit x) (export_rows db b q x) \<noteq> []" using n by auto
  from last_in_set [OF this] have r: "r \<in> set (rows_after db (cq_tenant q) c (rr_through rng))"
    unfolding r_def rows by (rule in_set_takeD)
  obtain p i where pi: "c = (p, i)" by fastforce
  have "p \<le> row_seq r" and mem: "r \<in> set (db_rows db)" using r by (auto simp: pi rows_after_in split: option.splits)
  moreover have "rr_from rng - 1 \<le> p" using export_after_from [of rng "xo_cursor x"] pi by (simp add: c_def)
  ultimately have from_start: "rr_from rng - 1 \<le> row_seq r" by linarith
  from fit mem have "0 \<le> row_seq r" "row_seq r < 10 ^ 15" "ar_row r < 10 ^ 15" unfolding positions_fit_def by blast+
  from cursor_reads_back [OF this] from_start have "export_after rng (Some (export_cursor (row_seq r) (ar_row r))) = (row_seq r, Some (ar_row r))"
    by (simp add: export_after_def)
  then have "export_rows db b q (x\<lparr>xo_cursor := Some (export_cursor (row_seq r) (ar_row r))\<rparr>) =
      rows_after db (cq_tenant q) (row_seq r, Some (ar_row r)) (rr_through rng)"
    using open_range by (simp add: export_rows_def Let_def rng_def)
  also have "\<dots> = drop (xo_limit x) (export_rows db b q x)"
    using page_then_rest [OF ids n(1), of "cq_tenant q" c "rr_through rng"] n(2) by (simp add: rows r_def)
  finally show ?thesis .
qed

text \<open>C31: Over one state of the table, the page after a page begins where that one ended: an export
  cut into two pages by its own cursor carries exactly the events of one page as long as both, in the
  same order, and ends complete, or at the same next cursor, exactly when the long page does.\<close>

theorem export_pages_join:
  fixes sha :: "string \<Rightarrow> digest" and stamp :: "int \<Rightarrow> string" and bound :: bool and db :: audit_db and b :: audit_bucket
    and q :: range_query and x :: export_request
  assumes "row_ids db" and "positions_fit db" and "0 < m"
  defines "answer \<equiv> export_chain_range sha stamp bound (\<lambda>_. (db, b)) q"
  assumes "ex_next_cursor (answer x) = Some c"
  shows "ex_events (answer x) @ ex_events (answer (x\<lparr>xo_cursor := Some c, xo_limit := m\<rparr>)) =
      ex_events (answer (x\<lparr>xo_limit := xo_limit x + m\<rparr>)) \<and>
    ex_next_cursor (answer (x\<lparr>xo_cursor := Some c, xo_limit := m\<rparr>)) = ex_next_cursor (answer (x\<lparr>xo_limit := xo_limit x + m\<rparr>)) \<and>
    (ex_complete (answer (x\<lparr>xo_cursor := Some c, xo_limit := m\<rparr>)) \<longleftrightarrow> ex_complete (answer (x\<lparr>xo_limit := xo_limit x + m\<rparr>)))"
proof -
  define n where "n = xo_limit x"
  define all where "all = export_rows db b q x"
  let ?r = "last (take n all)"
  have c: "n < length all" "take n all \<noteq> []" "c = export_cursor (row_seq ?r) (ar_row ?r)"
    using assms(5) unfolding answer_def export_reads(2) by (auto simp: n_def all_def split: if_splits)
  then have "0 < n" by auto
  from next_page_rest [OF assms(1,2) this [unfolded n_def] c(1) [unfolded n_def all_def]]
  have rest: "export_rows db b q (x\<lparr>xo_cursor := Some c\<rparr>) = drop n all" unfolding c(3) n_def all_def .
  have same: "export_rows db b q (y\<lparr>xo_limit := k\<rparr>) = export_rows db b q y" for y :: export_request and k
    by (simp add: export_rows_def Let_def)
  have second: "export_rows db b q (x\<lparr>xo_cursor := Some c, xo_limit := m\<rparr>) = drop n all"
    using same [where y = "x\<lparr>xo_cursor := Some c\<rparr>" and k = m] rest by simp
  have longer: "export_rows db b q (x\<lparr>xo_limit := n + m\<rparr>) = all" by (simp add: same all_def)
  have cut: "take (n + m) all = take n all @ take m (drop n all)" by (rule take_add)
  have some: "take m (drop n all) \<noteq> []" using c(1) assms(3) by simp
  then have ends: "last (take (n + m) all) = last (take m (drop n all))" "take (n + m) all \<noteq> []" unfolding cut by simp_all
  have size: "m < length (drop n all) \<longleftrightarrow> n + m < length all" using c(1) by auto
  show ?thesis
    unfolding answer_def export_reads n_def [symmetric] second longer all_def [symmetric]
    using cut ends some size c(1) by (auto simp: n_def [symmetric])
qed

lemma export_pages_join_witness:
  "(let answer = export_chain_range flat_hash (\<lambda>_. ''t'') True (\<lambda>_. (three_events, []))
      \<lparr>cq_tenant = Some ''acme'', cq_since = None, cq_until = None\<rparr> in
    ex_next_cursor (answer \<lparr>xo_detail = False, xo_cursor = None, xo_limit = 2, xo_now = 9\<rparr>) = Some ''2:2'' \<and>
    ex_events (answer \<lparr>xo_detail = False, xo_cursor = None, xo_limit = 2, xo_now = 9\<rparr>) @
      ex_events (answer \<lparr>xo_detail = False, xo_cursor = Some ''2:2'', xo_limit = 5, xo_now = 9\<rparr>) =
      ex_events (answer \<lparr>xo_detail = False, xo_cursor = None, xo_limit = 7, xo_now = 9\<rparr>) \<and>
    ex_complete (answer \<lparr>xo_detail = False, xo_cursor = Some ''2:2'', xo_limit = 5, xo_now = 9\<rparr>))"
proof -
  let ?q = "\<lparr>cq_tenant = Some ''acme'', cq_since = None, cq_until = None\<rparr>"
  let ?x = "\<lparr>xo_detail = False, xo_cursor = None, xo_limit = 2, xo_now = 9\<rparr>"
  have ids: "row_ids three_events" by code_simp
  have "map (\<lambda>r. (row_seq r, ar_row r)) (db_rows three_events) = [(1, 1), (2, 2), (3, 3)]" by code_simp
  then have "\<forall>r\<in>set (db_rows three_events). (row_seq r, ar_row r) \<in> {(1, 1), (2, 2), (3, 3)}"
    by (metis (mono_tags, lifting) empty_set image_eqI list.set_map list.simps(15))
  then have fit: "positions_fit three_events" unfolding positions_fit_def by fastforce
  have one: "ex_next_cursor (export_chain_range flat_hash (\<lambda>_. ''t'') True (\<lambda>_. (three_events, [])) ?q ?x) = Some ''2:2''"
    by code_simp
  have all: "ex_complete (export_chain_range flat_hash (\<lambda>_. ''t'') True (\<lambda>_. (three_events, [])) ?q
      \<lparr>xo_detail = False, xo_cursor = None, xo_limit = 7, xo_now = 9\<rparr>)" by code_simp
  show ?thesis using export_pages_join [OF ids fit _ one, of 5] one all by (simp add: Let_def)
qed

end
