(* ===== verification/Audit_Pass_Properties.thy ===== *)
theory Audit_Pass_Properties
  imports Audit_Pass_Laws Audit_Trail_Properties
begin

text \<open>
  What a pass of the retention prune promises: a trail under a hold keeps every row whatever fails,
  and a pass with room for it removes all that is due and leaves trails that verify.
\<close>

definition sample_pass :: prune_pass where
  "sample_pass = \<lparr>pa_policy = Some short_retention, pa_bound = True, pa_held = (\<lambda>_ _ _. Some False),
     pa_now = (\<lambda>_ _. 8640000000), pa_stamp = (\<lambda>_. ''t''), pa_deletes = (\<lambda>_ _. 3), pa_later_held = (\<lambda>_ _. False),
     pa_later_now = (\<lambda>_. 8640000000), pa_pages = None\<rparr>"

definition held_pass :: prune_pass where
  "held_pass = sample_pass\<lparr>pa_held := (\<lambda>_ _ t. if t = Some ''acme'' then Some True else None),
     pa_later_held := (\<lambda>_ t. t = Some ''acme'')\<rparr>"

text \<open>A pass during which no hold check ever releases a tenant's trail removes no row of that
  tenant, chained or not, whatever the policy, the table and the bucket are and wherever the pass
  fails; and every other row that goes was another tenant's.\<close>

theorem held_trail_is_whole:
  assumes "row_ids db" and "\<forall>index page. pa_held env index page t \<noteq> Some False" and "\<forall>page. pa_later_held env page t"
  shows "\<exists>X. fst (snd (prune_audit_trail sha collate env (db, b))) = db\<lparr>db_rows := [r \<leftarrow> db_rows db. r \<notin> X]\<rparr> \<and>
    (\<forall>r\<in>X. ev_tenant r \<noteq> t)"
proof -
  have "never_released env t" using assms(2,3) by (simp add: never_released_def)
  from held_pass_keeps [OF this assms(1)] show ?thesis by (simp add: only_removed_def removed_def)
qed

lemma held_trail_is_whole_witness:
  "\<exists>X. fst (snd (prune_audit_trail flat_hash (\<lambda>s. length s) held_pass (three_events, []))) =
     three_events\<lparr>db_rows := [r \<leftarrow> db_rows three_events. r \<notin> X]\<rparr> \<and> (\<forall>r\<in>X. ev_tenant r \<noteq> Some ''acme'')"
proof -
  have ids: "row_ids three_events" by code_simp
  show ?thesis by (rule held_trail_is_whole [OF ids]) (simp_all add: held_pass_def)
qed

text \<open>C21: A pass over a reached trail, with no hold, a policy that prunes, and room in its pages for
  what is due, leaves in every chain exactly the events that are its head or not past their window,
  refuses no run, counts what went, and leaves a state in which every chain still verifies, whether
  or not its unchained pages then go through.\<close>

theorem pass_prunes_all_due:
  assumes "trail_reach sha (db, b)" and "prunes_audit eff" and "roomy_pass env eff now (length (db_rows db))"
    and "\<And>t. length (chain_due eff now db t) \<le> or_else audit_prune_default_pages (pa_pages env) * audit_prune_page"
  shows "\<exists>db' b'. snd (prune_audit_trail sha collate env (db, b)) = (db', b') \<and> trail_reach sha (db', b') \<and>
    (\<forall>t. chain_rows db' t = [r \<leftarrow> chain_rows db t. \<not> (row_seq r < head_seq (read_chain_head db t) \<and> expired eff now r)]) \<and>
    (\<forall>oc. fst (prune_audit_trail sha collate env (db, b)) = Some oc \<longrightarrow> oc_refused oc = 0 \<and> oc_held oc = 0 \<and>
      oc_pruned oc = int (length (concat (map (chain_due eff now db) (chain_tenants collate db)))))"
proof -
  from roomy_pass_prunes [OF assms] obtain db' b' where pass: "snd (prune_audit_trail sha collate env (db, b)) = (db', b')"
    "trail_reach sha (db', b')" "\<And>t. chain_rows db' t = [r \<leftarrow> chain_rows db t. r \<notin> set (chain_due eff now db t)]"
    "\<And>oc. fst (prune_audit_trail sha collate env (db, b)) = Some oc \<Longrightarrow> oc_refused oc = 0 \<and> oc_held oc = 0 \<and>
      oc_pruned oc = int (length (concat (map (chain_due eff now db) (chain_tenants collate db))))" by metis
  have "[r \<leftarrow> chain_rows db t. r \<notin> set (chain_due eff now db t)] =
      [r \<leftarrow> chain_rows db t. \<not> (row_seq r < head_seq (read_chain_head db t) \<and> expired eff now r)]" for t
  proof (rule filter_cong [OF refl])
    fix r assume r: "r \<in> set (chain_rows db t)"
    obtain R where "trail_stored sha t R (db, b)" using reached_stored [OF assms(1)] by blast
    then have "1 \<le> row_seq r" using sound_row(1) [OF _ r] by (auto simp: trail_stored_def true_row_def)
    with r show "(r \<notin> set (chain_due eff now db t)) = (\<not> (row_seq r < head_seq (read_chain_head db t) \<and> expired eff now r))"
      by (auto simp: chain_due_def all_due_in)
  qed
  with pass show ?thesis by auto
qed

lemma pass_prunes_all_due_witness:
  "\<exists>db' b'. snd (prune_audit_trail flat_hash (\<lambda>s. length s) sample_pass (three_events, [])) = (db', b') \<and>
     trail_reach flat_hash (db', b') \<and> map row_seq (chain_rows db' (Some ''acme'')) = [3]"
proof -
  have prunes: "prunes_audit short_retention" by code_simp
  have "length (db_rows three_events) = 3" by code_simp
  then have roomy: "roomy_pass sample_pass short_retention 8640000000 (length (db_rows three_events))"
    by (simp add: roomy_pass_def sample_pass_def)
  have few: "length (chain_due short_retention 8640000000 three_events t) \<le> or_else audit_prune_default_pages (pa_pages sample_pass) * audit_prune_page" for t
  proof -
    have "length (chain_due short_retention 8640000000 three_events t) \<le> length (db_rows three_events)"
      unfolding chain_due_def all_due_def chain_rows_def in_order_length filter_filter by (rule length_filter_le)
    also have "\<dots> \<le> or_else audit_prune_default_pages (pa_pages sample_pass) * audit_prune_page"
      using \<open>length (db_rows three_events) = 3\<close> by (simp add: sample_pass_def audit_prune_default_pages_def audit_prune_page_def)
    finally show ?thesis .
  qed
  have "map row_seq [r \<leftarrow> chain_rows three_events (Some ''acme''). \<not> (row_seq r < head_seq (read_chain_head three_events (Some ''acme'')) \<and>
      expired short_retention 8640000000 r)] = [3]" by code_simp
  with pass_prunes_all_due [OF three_reach prunes roomy few, of "\<lambda>s. length s"] show ?thesis by auto
qed

end
