(* ===== verification/Purchases.thy ===== *)
theory Purchases
  imports Pithy_Prelude "HOL-Library.List_Lexorder"
begin

text \<open>
  The purchase projection of \<open>packages/payments\<close> (\<open>projection/writer.ts\<close>), the manual entitlement
  writes (\<open>entitlement/manual.ts\<close>) and the entitlement read (\<open>projection/resolve.ts\<close>). A projection
  reads the purchase, then the keys the subject holds, writes one batch, and reads back: each read
  is of its own state of the tables, so other writers may fall between any two.
\<close>

section \<open>Data\<close>

text \<open>A holder is a kind and an id; one string carries both through a store and back.\<close>

datatype subject_kind = User_subject | Organization_subject

record subject =
  sb_kind :: subject_kind
  sb_id :: string

definition kind_name :: "subject_kind \<Rightarrow> string" where
  "kind_name k = (case k of User_subject \<Rightarrow> ''user'' | Organization_subject \<Rightarrow> ''organization'')"

definition max_subject_id_length :: nat where
  "max_subject_id_length = 180"

definition valid_subject_id :: "string \<Rightarrow> bool" where
  "valid_subject_id i \<longleftrightarrow> 1 \<le> length i \<and> length i \<le> max_subject_id_length"

definition encode_subject_reference :: "subject \<Rightarrow> string" where
  "encode_subject_reference s = kind_name (sb_kind s) @ '':'' @ sb_id s"

definition decode_subject_reference :: "string \<Rightarrow> subject option" where
  "decode_subject_reference r =
     (let at = length (takeWhile (\<lambda>ch. ch \<noteq> CHR '':'') r) in
      if at = length r \<or> at = 0 then None
      else case find (\<lambda>k. kind_name k = take at r) [User_subject, Organization_subject] of
        None \<Rightarrow> None
      | Some k \<Rightarrow> if valid_subject_id (drop (at + 1) r) then Some \<lparr>sb_kind = k, sb_id = drop (at + 1) r\<rparr> else None)"

datatype rail = Apple | Google | Stripe | LemonSqueezy | Paddle

datatype purchase_status =
  Active | In_grace | On_hold | Canceled | Expired | Never_paid | Refunded | Revoked | Paused

datatype purchase_role = Charge | State

datatype store_environment = Production | Sandbox

datatype product_type = Consumable | Non_consumable | Subscription

text \<open>What a provider reports: an event is exactly this, and a purchase row this and its own columns.\<close>

record provider_facts =
  pf_rail :: rail
  pf_transaction :: string
  pf_sku :: string
  pf_subject :: subject
  pf_status :: purchase_status
  pf_role :: purchase_role
  pf_environment :: store_environment
  pf_purchased_at :: millis
  pf_expires_at :: "millis option"
  pf_revoked_at :: "millis option"
  pf_resumes_at :: "millis option"
  pf_original :: "string option"
  pf_amount :: "int option"
  pf_currency :: "string option"
  pf_quantity :: "nat option"
  pf_event_at :: millis
  pf_payload :: string

type_synonym provider_event = provider_facts

record purchase = provider_facts +
  pu_id :: string
  pu_product :: string
  pu_type :: product_type
  pu_created :: millis
  pu_updated :: millis

record entitlement =
  en_id :: string
  en_subject :: subject
  en_key :: string
  en_active :: bool
  en_expires_at :: "millis option"
  en_source :: "string option"
  en_manual :: bool
  en_created :: millis
  en_updated :: millis

text \<open>The tables, rows in the order they were inserted.\<close>

record payments_db =
  pd_purchases :: "purchase list"
  pd_entitlements :: "entitlement list"

definition empty_payments :: payments_db where
  "empty_payments = \<lparr>pd_purchases = [], pd_entitlements = []\<rparr>"

section \<open>The catalog\<close>

record ledger_grant =
  lg_currency :: currency
  lg_amount :: int

record product =
  pr_type :: product_type
  pr_entitlements :: "string list"
  pr_sku :: "rail \<Rightarrow> string option"
  pr_grant :: "ledger_grant option"
  pr_clawback :: bool

text \<open>The products by id in the order of the config object, and the keys it declares.\<close>

record payments_config =
  cf_products :: "(string \<times> product) list"
  cf_declared :: "string list"
  cf_grace :: bool

definition product_for_sku :: "payments_config \<Rightarrow> rail \<Rightarrow> string \<Rightarrow> (string \<times> product) option" where
  "product_for_sku cfg rl sku = find (\<lambda>e. pr_sku (snd e) rl = Some sku) (cf_products cfg)"

definition entitlements_for :: "payments_config \<Rightarrow> string \<Rightarrow> string list" where
  "entitlements_for cfg i = (case map_of (cf_products cfg) i of None \<Rightarrow> [] | Some p \<Rightarrow> pr_entitlements p)"

definition status_grants :: "bool \<Rightarrow> purchase_status \<Rightarrow> bool" where
  "status_grants grace st = (if st = In_grace then grace else st \<in> {Active, In_grace, Canceled})"

definition granting_statuses :: "bool \<Rightarrow> purchase_status list" where
  "granting_statuses grace = filter (status_grants grace) [Active, In_grace, Canceled]"

text \<open>A set of keys in the order JavaScript sorts it.\<close>

definition sorted_keys :: "string list \<Rightarrow> string list" where
  "sorted_keys ks = sort_key (map (of_char :: char \<Rightarrow> nat)) (firsts ks)"

definition affected_keys :: "payments_config \<Rightarrow> product \<Rightarrow> string option \<Rightarrow> string list" where
  "affected_keys cfg p previous = sorted_keys
     (pr_entitlements p @ (case previous of None \<Rightarrow> [] | Some i \<Rightarrow> entitlements_for cfg i))"

definition granted_keys :: "payments_config \<Rightarrow> string list" where
  "granted_keys cfg = concat (map (\<lambda>e. pr_entitlements (snd e)) (cf_products cfg))"

section \<open>Reads\<close>

definition read_purchase :: "payments_db \<Rightarrow> rail \<Rightarrow> string \<Rightarrow> purchase option" where
  "read_purchase db rl tx = find (\<lambda>p. pf_rail p = rl \<and> pf_transaction p = tx) (pd_purchases db)"

definition keys_to_derive :: "payments_db \<Rightarrow> payments_config \<Rightarrow> product \<Rightarrow> string option \<Rightarrow> subject \<Rightarrow> string list" where
  "keys_to_derive db cfg p previous s = sorted_keys (affected_keys cfg p previous @
     filter (\<lambda>k. k \<notin> set (granted_keys cfg))
       (map en_key [e \<leftarrow> pd_entitlements db. en_subject e = s \<and> en_active e \<and> \<not> en_manual e]))"

definition read_entitlements :: "payments_db \<Rightarrow> subject \<Rightarrow> string list \<Rightarrow> entitlement list" where
  "read_entitlements db s ks = sort_key (\<lambda>e. map (of_char :: char \<Rightarrow> nat) (en_key e))
     [e \<leftarrow> pd_entitlements db. en_subject e = s \<and> en_key e \<in> set ks]"

section \<open>The batch\<close>

text \<open>The columns a conflicting upsert sets: all but the owner, the role, the id and the creation.\<close>

definition moved_by :: "purchase \<Rightarrow> purchase \<Rightarrow> purchase" where
  "moved_by row p = row\<lparr>pf_subject := pf_subject p, pf_role := pf_role p, pu_id := pu_id p, pu_created := pu_created p\<rparr>"

definition upsert_purchase :: "purchase \<Rightarrow> payments_db \<Rightarrow> payments_db" where
  "upsert_purchase row db =
     (if read_purchase db (pf_rail row) (pf_transaction row) = None
      then db\<lparr>pd_purchases := pd_purchases db @ [row]\<rparr>
      else db\<lparr>pd_purchases := map (\<lambda>p.
        if pf_rail p = pf_rail row \<and> pf_transaction p = pf_transaction row \<and>
           pf_event_at p < pf_event_at row \<and> pf_subject p = pf_subject row
        then moved_by row p else p) (pd_purchases db)\<rparr>)"

definition entitlement_of :: "payments_db \<Rightarrow> subject \<Rightarrow> string \<Rightarrow> entitlement option" where
  "entitlement_of db s k = find (\<lambda>e. en_subject e = s \<and> en_key e = k) (pd_entitlements db)"

definition ensure_entitlement :: "string \<Rightarrow> subject \<Rightarrow> string \<Rightarrow> millis \<Rightarrow> payments_db \<Rightarrow> payments_db" where
  "ensure_entitlement i s k at db =
     (if entitlement_of db s k = None then db\<lparr>pd_entitlements := pd_entitlements db @
        [\<lparr>en_id = i, en_subject = s, en_key = k, en_active = False, en_expires_at = None, en_source = None,
          en_manual = False, en_created = at, en_updated = at\<rparr>]\<rparr>
      else db)"

text \<open>The purchases granting a key, and the one whose access runs longest: none expires last of all,
  and of equal expiries the newest event's wins.\<close>

definition outlives :: "millis option \<Rightarrow> millis option \<Rightarrow> bool" where
  "outlives a b = (case a of None \<Rightarrow> True | Some x \<Rightarrow> (case b of None \<Rightarrow> False | Some y \<Rightarrow> y \<le> x))"

definition unexpired :: "millis \<Rightarrow> millis option \<Rightarrow> bool" where
  "unexpired at e = optional (\<lambda>x. at < x) e"

definition stands_for :: "payments_config \<Rightarrow> subject \<Rightarrow> string \<Rightarrow> purchase \<Rightarrow> bool" where
  "stands_for cfg s k p \<longleftrightarrow> pf_subject p = s \<and>
     pu_product p \<in> set (map fst [e \<leftarrow> cf_products cfg. k \<in> set (pr_entitlements (snd e))]) \<and>
     pf_status p \<in> set (granting_statuses (cf_grace cfg))"

definition beats :: "purchase \<Rightarrow> purchase \<Rightarrow> bool" where
  "beats p q \<longleftrightarrow> outlives (pf_expires_at p) (pf_expires_at q) \<and>
     (pf_expires_at p = pf_expires_at q \<longrightarrow> pf_event_at q < pf_event_at p)"

definition winner :: "payments_config \<Rightarrow> subject \<Rightarrow> string \<Rightarrow> millis \<Rightarrow> payments_db \<Rightarrow> purchase option" where
  "winner cfg s k at db = foldl (\<lambda>w p. case w of None \<Rightarrow> Some p | Some q \<Rightarrow> if beats p q then Some p else w) None
     [p \<leftarrow> pd_purchases db. stands_for cfg s k p \<and> unexpired at (pf_expires_at p)]"

definition derive_entitlement :: "payments_config \<Rightarrow> subject \<Rightarrow> string \<Rightarrow> millis \<Rightarrow> payments_db \<Rightarrow> payments_db" where
  "derive_entitlement cfg s k at db =
     (let w = winner cfg s k at db in
      db\<lparr>pd_entitlements := map (\<lambda>e.
        if en_subject e = s \<and> en_key e = k \<and> \<not> en_manual e
        then e\<lparr>en_active := w \<noteq> None, en_expires_at := (case w of None \<Rightarrow> None | Some p \<Rightarrow> pf_expires_at p),
               en_source := map_option pu_id w, en_updated := at\<rparr>
        else e) (pd_entitlements db)\<rparr>)"

section \<open>The projection\<close>

datatype payments_error =
  Environment_mismatch | Product_not_found | Receipt_already_owned | Not_recorded | Not_in_catalog

datatype projection_outcome = Created | Updated | Ignored

record projection =
  pj_outcome :: projection_outcome
  pj_purchase :: purchase
  pj_product :: "string \<times> string list"
  pj_entitlements :: "entitlement list"

text \<open>The ids a projection mints, for the purchase and for each key, and its clock.\<close>

record projection_env =
  pe_environment :: store_environment
  pe_now :: millis
  pe_purchase_id :: string
  pe_entitlement_id :: "string \<Rightarrow> string"

definition purchase_row :: "projection_env \<Rightarrow> provider_event \<Rightarrow> string \<times> product \<Rightarrow> purchase option \<Rightarrow> purchase" where
  "purchase_row env ev entry existing = provider_facts.extend ev
     \<lparr>pu_id = (case existing of None \<Rightarrow> pe_purchase_id env | Some p \<Rightarrow> pu_id p), pu_product = fst entry,
      pu_type = pr_type (snd entry), pu_created = (case existing of None \<Rightarrow> pe_now env | Some p \<Rightarrow> pu_created p),
      pu_updated = pe_now env\<rparr>"

definition project_batch ::
  "payments_config \<Rightarrow> projection_env \<Rightarrow> provider_event \<Rightarrow> purchase \<Rightarrow> string list \<Rightarrow> payments_db \<Rightarrow> payments_db" where
  "project_batch cfg env ev row ks db =
     fold (\<lambda>k d. derive_entitlement cfg (pf_subject ev) k (pe_now env)
       (ensure_entitlement (pe_entitlement_id env k) (pf_subject ev) k (pe_now env) d)) ks (upsert_purchase row db)"

text \<open>\<open>r0\<close> is the state the purchase is read in, \<open>r1\<close> the held keys', \<open>db\<close> the batch's, and \<open>later\<close>
  what other writers make of it before the read-back. A refusal or an ignored event writes nothing.\<close>

definition project_purchase ::
  "payments_config \<Rightarrow> projection_env \<Rightarrow> provider_event \<Rightarrow> payments_db \<Rightarrow> payments_db \<Rightarrow> (payments_db \<Rightarrow> payments_db) \<Rightarrow>
     payments_db \<Rightarrow> (payments_error + projection) \<times> payments_db" where
  "project_purchase cfg env ev r0 r1 later db =
     (if pf_environment ev \<noteq> pe_environment env then (Inl Environment_mismatch, db)
      else case product_for_sku cfg (pf_rail ev) (pf_sku ev) of
        None \<Rightarrow> (Inl Product_not_found, db)
      | Some entry \<Rightarrow>
          let existing = read_purchase r0 (pf_rail ev) (pf_transaction ev); s = pf_subject ev;
              previous = map_option pu_product existing;
              ks = keys_to_derive r1 cfg (snd entry) previous s;
              db' = project_batch cfg env ev (purchase_row env ev entry existing) ks db;
              finish = (case read_purchase (later db') (pf_rail ev) (pf_transaction ev) of
                None \<Rightarrow> Inl Not_recorded
              | Some p \<Rightarrow> if pf_subject p \<noteq> s then Inl Receipt_already_owned
                  else Inr \<lparr>pj_outcome = (if pf_event_at p \<noteq> pf_event_at ev then Ignored
                      else if existing = None then Created else Updated),
                    pj_purchase = p, pj_product = (fst entry, pr_entitlements (snd entry)),
                    pj_entitlements = read_entitlements (later db') s ks\<rparr>) in
          case existing of
            None \<Rightarrow> (finish, db')
          | Some p \<Rightarrow>
              if pf_subject p \<noteq> s then (Inl Receipt_already_owned, db)
              else if pf_event_at p \<ge> pf_event_at ev then
                (Inr \<lparr>pj_outcome = Ignored, pj_purchase = p, pj_product = (pu_product p, entitlements_for cfg (pu_product p)),
                   pj_entitlements = read_entitlements r1 s (affected_keys cfg (snd entry) (Some (pu_product p)))\<rparr>, db)
              else (finish, db'))"

section \<open>Manual entitlements\<close>

definition write_entitlement ::
  "string \<Rightarrow> subject \<Rightarrow> string \<Rightarrow> millis option \<Rightarrow> bool \<Rightarrow> millis \<Rightarrow> payments_db \<Rightarrow> payments_db" where
  "write_entitlement i s k expires act now db =
     (let ends = (if act then expires else None) in
      if entitlement_of db s k = None then db\<lparr>pd_entitlements := pd_entitlements db @
        [\<lparr>en_id = i, en_subject = s, en_key = k, en_active = act, en_expires_at = ends, en_source = None,
          en_manual = act, en_created = now, en_updated = now\<rparr>]\<rparr>
      else db\<lparr>pd_entitlements := map (\<lambda>e. if en_subject e = s \<and> en_key e = k
        then e\<lparr>en_active := act, en_expires_at := ends, en_source := None, en_manual := act, en_updated := now\<rparr>
        else e) (pd_entitlements db)\<rparr>)"

definition grant_entitlement ::
  "payments_config \<Rightarrow> string \<Rightarrow> subject \<Rightarrow> string \<Rightarrow> millis option \<Rightarrow> millis \<Rightarrow> payments_db \<Rightarrow> payments_error option \<times> payments_db" where
  "grant_entitlement cfg i s k expires now db =
     (if k \<notin> set (cf_declared cfg) then (Some Not_in_catalog, db)
      else (None, write_entitlement i s k expires True now db))"

definition revoke_entitlement :: "string \<Rightarrow> subject \<Rightarrow> string \<Rightarrow> millis \<Rightarrow> payments_db \<Rightarrow> payments_db" where
  "revoke_entitlement i s k now db = write_entitlement i s k None False now db"

section \<open>The read\<close>

record resolved_entitlement =
  re_key :: string
  re_active :: bool
  re_expires_at :: "millis option"
  re_source :: "string option"

definition resolve_entitlements :: "payments_db \<Rightarrow> subject \<Rightarrow> millis \<Rightarrow> resolved_entitlement list" where
  "resolve_entitlements db s now = map (\<lambda>e. \<lparr>re_key = en_key e,
       re_active = (en_active e \<and> unexpired now (en_expires_at e)),
       re_expires_at = en_expires_at e, re_source = en_source e\<rparr>)
     (sort_key (\<lambda>e. map (of_char :: char \<Rightarrow> nat) (en_key e)) [e \<leftarrow> pd_entitlements db. en_subject e = s])"

end
