(* ===== verification/Purchases_Laws.thy ===== *)
theory Purchases_Laws
  imports Purchases
begin

text \<open>
  The batch of a projection, statement by statement: what it makes of the purchase it writes, of the
  entitlements it derives, and of everything else.
\<close>

section \<open>Purchases\<close>

lemma find_map: "find P (map f xs) = map_option f (find (\<lambda>x. P (f x)) xs)"
  by (induction xs) auto

definition same_transaction :: "provider_facts \<Rightarrow> provider_facts \<Rightarrow> bool" where
  "same_transaction a b \<longleftrightarrow> pf_rail a = pf_rail b \<and> pf_transaction a = pf_transaction b"

lemma moved_by_simps [simp]:
  "pf_rail (moved_by row p) = pf_rail row" "pf_transaction (moved_by row p) = pf_transaction row"
  "pf_subject (moved_by row p) = pf_subject p" "pf_event_at (moved_by row p) = pf_event_at row"
  "pf_role (moved_by row p) = pf_role p" "pu_id (moved_by row p) = pu_id p" "pu_created (moved_by row p) = pu_created p"
  "pu_product (moved_by row p) = pu_product row" "pf_status (moved_by row p) = pf_status row"
  "pf_expires_at (moved_by row p) = pf_expires_at row"
  by (simp_all add: moved_by_def)

text \<open>What the upsert makes of a row already there.\<close>

definition upserted :: "purchase \<Rightarrow> purchase \<Rightarrow> purchase" where
  "upserted row p = (if pf_event_at p < pf_event_at row \<and> pf_subject p = pf_subject row then moved_by row p else p)"

lemma read_upsert:
  "read_purchase (upsert_purchase row db) rl tx =
     (if rl = pf_rail row \<and> tx = pf_transaction row
      then Some (case read_purchase db rl tx of None \<Rightarrow> row | Some p \<Rightarrow> upserted row p)
      else read_purchase db rl tx)"
proof (cases "read_purchase db (pf_rail row) (pf_transaction row)")
  case None
  then show ?thesis by (auto simp: upsert_purchase_def read_purchase_def find_append split: option.splits)
next
  case (Some q)
  define f where "f p = (if pf_rail p = pf_rail row \<and> pf_transaction p = pf_transaction row \<and>
      pf_event_at p < pf_event_at row \<and> pf_subject p = pf_subject row then moved_by row p else p)" for p :: purchase
  have keys: "pf_rail (f p) = pf_rail p" "pf_transaction (f p) = pf_transaction p" for p by (simp_all add: f_def)
  have read: "read_purchase (upsert_purchase row db) rl tx = map_option f (read_purchase db rl tx)"
    using Some by (simp add: upsert_purchase_def read_purchase_def find_map f_def [symmetric] keys)
  have at: "pf_rail p = rl \<and> pf_transaction p = tx" if "read_purchase db rl tx = Some p" for p
    using find_in_set [OF that [unfolded read_purchase_def]] by simp
  show ?thesis
  proof (cases "rl = pf_rail row \<and> tx = pf_transaction row")
    case True
    with Some at [of q] show ?thesis unfolding read by (simp add: f_def upserted_def)
  next
    case False
    then have "map_option f (read_purchase db rl tx) = read_purchase db rl tx"
      using at by (cases "read_purchase db rl tx") (auto simp: f_def)
    then show ?thesis unfolding read using False by (simp only: if_False)
  qed
qed

lemma derive_purchases [simp]: "pd_purchases (derive_entitlement cfg s k at db) = pd_purchases db"
  by (simp add: derive_entitlement_def Let_def)

lemma ensure_purchases [simp]: "pd_purchases (ensure_entitlement i s k at db) = pd_purchases db"
  by (simp add: ensure_entitlement_def)

lemma write_purchases [simp]: "pd_purchases (write_entitlement i s k x act now db) = pd_purchases db"
  by (simp add: write_entitlement_def Let_def)

lemma batch_purchases: "pd_purchases (project_batch cfg env ev row ks db) = pd_purchases (upsert_purchase row db)"
proof -
  have "pd_purchases (fold (\<lambda>k d. derive_entitlement cfg s k at (ensure_entitlement (f k) s k at d)) ks d) = pd_purchases d" for s at f d
    by (induction ks arbitrary: d) simp_all
  then show ?thesis by (simp add: project_batch_def)
qed

lemma read_batch: "read_purchase (project_batch cfg env ev row ks db) = read_purchase (upsert_purchase row db)"
  by (intro ext) (simp add: read_purchase_def batch_purchases)

lemma row_facts [simp]:
  "pf_rail (purchase_row env ev entry x) = pf_rail ev" "pf_transaction (purchase_row env ev entry x) = pf_transaction ev"
  "pf_subject (purchase_row env ev entry x) = pf_subject ev" "pf_event_at (purchase_row env ev entry x) = pf_event_at ev"
  "pu_product (purchase_row env ev entry x) = fst entry" "provider_facts.truncate (purchase_row env ev entry x) = ev"
  "pu_type (purchase_row env ev entry x) = pr_type (snd entry)" "pf_status (purchase_row env ev entry x) = pf_status ev"
  "pf_expires_at (purchase_row env ev entry x) = pf_expires_at ev"
  by (simp_all add: purchase_row_def provider_facts.defs)

text \<open>The ways a projection ends: nothing written, or its batch.\<close>

lemma project_cases:
  assumes "project_purchase cfg env ev r0 r1 later db = (ans, db')"
  obtains "db' = db"
  | entry where "product_for_sku cfg (pf_rail ev) (pf_sku ev) = Some entry" "pf_environment ev = pe_environment env"
    "\<And>p. read_purchase r0 (pf_rail ev) (pf_transaction ev) = Some p \<Longrightarrow> pf_subject p = pf_subject ev \<and> pf_event_at p < pf_event_at ev"
    "db' = project_batch cfg env ev (purchase_row env ev entry (read_purchase r0 (pf_rail ev) (pf_transaction ev)))
      (keys_to_derive r1 cfg (snd entry) (map_option pu_product (read_purchase r0 (pf_rail ev) (pf_transaction ev))) (pf_subject ev)) db"
proof (cases "pf_environment ev = pe_environment env \<and> product_for_sku cfg (pf_rail ev) (pf_sku ev) \<noteq> None \<and>
    (\<forall>p. read_purchase r0 (pf_rail ev) (pf_transaction ev) = Some p \<longrightarrow> pf_subject p = pf_subject ev \<and> pf_event_at p < pf_event_at ev)")
  case True
  then obtain entry where "product_for_sku cfg (pf_rail ev) (pf_sku ev) = Some entry" by blast
  with True assms show ?thesis
    by (intro that(2) [of entry]) (auto simp: project_purchase_def Let_def split: option.splits if_splits)
next
  case False
  then have "db' = db" using assms
    by (fastforce simp: project_purchase_def Let_def split: option.splits if_splits)
  then show ?thesis by (rule that(1))
qed

section \<open>Entitlement rows\<close>

definition refreshed :: "millis \<Rightarrow> purchase option \<Rightarrow> entitlement \<Rightarrow> entitlement" where
  "refreshed at w e = (if en_manual e then e
     else e\<lparr>en_active := w \<noteq> None, en_expires_at := (case w of None \<Rightarrow> None | Some p \<Rightarrow> pf_expires_at p),
       en_source := map_option pu_id w, en_updated := at\<rparr>)"

definition cleared :: "string \<Rightarrow> subject \<Rightarrow> string \<Rightarrow> millis \<Rightarrow> entitlement" where
  "cleared i s k at = \<lparr>en_id = i, en_subject = s, en_key = k, en_active = False, en_expires_at = None, en_source = None,
     en_manual = False, en_created = at, en_updated = at\<rparr>"

lemma refreshed_key [simp]: "en_subject (refreshed at w e) = en_subject e" "en_key (refreshed at w e) = en_key e"
  by (simp_all add: refreshed_def)

lemma cleared_key [simp]: "en_subject (cleared i s k at) = s" "en_key (cleared i s k at) = k" "\<not> en_manual (cleared i s k at)"
  by (simp_all add: cleared_def)

lemma entitlement_of_key: "entitlement_of db s k = Some e \<Longrightarrow> e \<in> set (pd_entitlements db) \<and> en_subject e = s \<and> en_key e = k"
  unfolding entitlement_of_def by (drule find_in_set) simp

lemma entitlement_of_ensure:
  "entitlement_of (ensure_entitlement i s k at db) s' k' =
     (if s' = s \<and> k' = k then Some (or_else (cleared i s k at) (entitlement_of db s k)) else entitlement_of db s' k')"
  by (auto simp: ensure_entitlement_def entitlement_of_def find_append cleared_def or_else_def split: option.splits)

lemma entitlement_of_map:
  assumes "\<And>e. en_subject (f e) = en_subject e" "\<And>e. en_key (f e) = en_key e"
  shows "find (\<lambda>e. en_subject e = s \<and> en_key e = k) (map f es) = map_option f (find (\<lambda>e. en_subject e = s \<and> en_key e = k) es)"
  by (simp add: find_map assms)

lemma derive_rows:
  "pd_entitlements (derive_entitlement cfg s k at db) =
     map (\<lambda>e. if en_subject e = s \<and> en_key e = k then refreshed at (winner cfg s k at db) e else e) (pd_entitlements db)"
  by (auto simp: derive_entitlement_def Let_def refreshed_def)

lemma entitlement_of_derive:
  "entitlement_of (derive_entitlement cfg s k at db) s' k' =
     (if s' = s \<and> k' = k then map_option (refreshed at (winner cfg s k at db)) (entitlement_of db s k) else entitlement_of db s' k')"
proof -
  let ?f = "\<lambda>e. if en_subject e = s \<and> en_key e = k then refreshed at (winner cfg s k at db) e else e"
  have "entitlement_of (derive_entitlement cfg s k at db) s' k' = map_option ?f (entitlement_of db s' k')"
    unfolding entitlement_of_def derive_rows by (rule entitlement_of_map) simp_all
  also have "\<dots> = (if s' = s \<and> k' = k then map_option (refreshed at (winner cfg s k at db)) (entitlement_of db s k) else entitlement_of db s' k')"
    using entitlement_of_key [of db s' k'] by (cases "entitlement_of db s' k'") auto
  finally show ?thesis .
qed

lemma winner_purchases: "pd_purchases db = pd_purchases db' \<Longrightarrow> winner cfg s k at db = winner cfg s k at db'"
  by (simp add: winner_def)

lemma entitlement_of_upsert [simp]: "entitlement_of (upsert_purchase row db) s k = entitlement_of db s k"
  by (simp add: entitlement_of_def upsert_purchase_def)

lemma entitlement_of_batch:
  assumes "distinct ks"
  shows "entitlement_of (project_batch cfg env ev row ks db) s k =
    (if s = pf_subject ev \<and> k \<in> set ks
     then Some (refreshed (pe_now env) (winner cfg s k (pe_now env) (upsert_purchase row db))
       (or_else (cleared (pe_entitlement_id env k) s k (pe_now env)) (entitlement_of db s k)))
     else entitlement_of db s k)"
proof -
  let ?s = "pf_subject ev" and ?at = "pe_now env"
  let ?F = "\<lambda>k d. derive_entitlement cfg ?s k ?at (ensure_entitlement (pe_entitlement_id env k) ?s k ?at d)"
  have "entitlement_of (fold ?F ks d) s k = (if s = ?s \<and> k \<in> set ks
      then Some (refreshed ?at (winner cfg s k ?at d) (or_else (cleared (pe_entitlement_id env k) s k ?at) (entitlement_of d s k)))
      else entitlement_of d s k)" for d
    using assms
  proof (induction ks arbitrary: d)
    case (Cons j js)
    have one: "entitlement_of (?F j d) s k = (if s = ?s \<and> k = j
        then Some (refreshed ?at (winner cfg s k ?at d) (or_else (cleared (pe_entitlement_id env k) s k ?at) (entitlement_of d s k)))
        else entitlement_of d s k)"
      by (auto simp: entitlement_of_derive entitlement_of_ensure winner_purchases [of "ensure_entitlement i s k at d" d for i s k at])
    have win: "winner cfg s k ?at (?F j d) = winner cfg s k ?at d" by (rule winner_purchases) simp
    have "fold ?F (j # js) d = fold ?F js (?F j d)" by simp
    then show ?case unfolding \<open>fold ?F (j # js) d = fold ?F js (?F j d)\<close> using Cons one win by (auto simp: Cons.IH)
  qed simp
  then show ?thesis by (simp add: project_batch_def)
qed

text \<open>A write by hand: one row overwritten, or a new one.\<close>

definition overwritten :: "subject \<Rightarrow> string \<Rightarrow> millis option \<Rightarrow> bool \<Rightarrow> millis \<Rightarrow> entitlement \<Rightarrow> entitlement" where
  "overwritten s k x act now e = (if en_subject e = s \<and> en_key e = k
     then e\<lparr>en_active := act, en_expires_at := if act then x else None, en_source := None, en_manual := act, en_updated := now\<rparr>
     else e)"

lemma overwritten_key [simp]:
  "en_subject (overwritten s k x act now e) = en_subject e" "en_key (overwritten s k x act now e) = en_key e"
  by (simp_all add: overwritten_def)

lemma write_over:
  "entitlement_of db s k = Some e \<Longrightarrow> write_entitlement i s k x act now db =
     db\<lparr>pd_entitlements := map (overwritten s k x act now) (pd_entitlements db)\<rparr>"
  by (simp add: write_entitlement_def Let_def overwritten_def)

lemma entitlement_of_write:
  assumes "\<not> (s' = s \<and> k' = k)"
  shows "entitlement_of (write_entitlement i s k x act now db) s' k' = entitlement_of db s' k'"
proof (cases "entitlement_of db s k")
  case None
  with assms show ?thesis by (auto simp: write_entitlement_def Let_def entitlement_of_def find_append split: option.splits)
next
  case (Some e)
  have "entitlement_of (write_entitlement i s k x act now db) s' k' = map_option (overwritten s k x act now) (entitlement_of db s' k')"
    unfolding write_over [OF Some] unfolding entitlement_of_def by (simp add: entitlement_of_map)
  also have "\<dots> = entitlement_of db s' k'"
    using entitlement_of_key [of db s' k'] assms by (cases "entitlement_of db s' k'") (auto simp: overwritten_def)
  finally show ?thesis .
qed

section \<open>The winner\<close>

lemma outlives_refl [simp]: "outlives a a"
  by (cases a) (simp_all add: outlives_def)

lemma outlives_trans: "outlives a b \<Longrightarrow> outlives b c \<Longrightarrow> outlives a c"
  by (auto simp: outlives_def split: option.splits)

lemma outlives_total: "outlives a b \<or> outlives b a"
  by (auto simp: outlives_def split: option.splits)

lemma outlives_unexpired: "outlives a b \<Longrightarrow> unexpired t b \<Longrightarrow> unexpired t a"
  by (auto simp: outlives_def unexpired_def split: option.splits)

lemma best_of:
  "case foldl (\<lambda>w p. case w of None \<Rightarrow> Some p | Some q \<Rightarrow> if beats p q then Some p else w) None ps of
     None \<Rightarrow> ps = [] | Some w \<Rightarrow> w \<in> set ps \<and> (\<forall>p\<in>set ps. outlives (pf_expires_at w) (pf_expires_at p))"
proof (induction ps rule: rev_induct)
  case (snoc p ps)
  let ?w = "foldl (\<lambda>w p. case w of None \<Rightarrow> Some p | Some q \<Rightarrow> if beats p q then Some p else w) None ps"
  show ?case
  proof (cases ?w)
    case None
    with snoc show ?thesis by simp
  next
    case (Some w)
    with snoc have w: "w \<in> set ps" "\<forall>p\<in>set ps. outlives (pf_expires_at w) (pf_expires_at p)" by simp_all
    have "outlives (pf_expires_at w) (pf_expires_at p)" if "\<not> beats p w"
      using that outlives_total [of "pf_expires_at w" "pf_expires_at p"] by (auto simp: beats_def)
    moreover have "outlives (pf_expires_at p) (pf_expires_at w)" if "beats p w" using that by (simp add: beats_def)
    ultimately show ?thesis using w Some by (auto intro: outlives_trans)
  qed
qed simp

lemma winner_none: "winner cfg s k at db = None \<longleftrightarrow>
    \<not> (\<exists>p\<in>set (pd_purchases db). stands_for cfg s k p \<and> unexpired at (pf_expires_at p))"
  using best_of [of "[p \<leftarrow> pd_purchases db. stands_for cfg s k p \<and> unexpired at (pf_expires_at p)]"]
  unfolding winner_def by (auto split: option.splits simp: filter_empty_conv)

lemma winner_some:
  assumes "winner cfg s k at db = Some w"
  shows "w \<in> set (pd_purchases db)" "stands_for cfg s k w" "unexpired at (pf_expires_at w)"
    and "p \<in> set (pd_purchases db) \<Longrightarrow> stands_for cfg s k p \<Longrightarrow> unexpired at (pf_expires_at p) \<Longrightarrow>
      outlives (pf_expires_at w) (pf_expires_at p)"
  using best_of [of "[p \<leftarrow> pd_purchases db. stands_for cfg s k p \<and> unexpired at (pf_expires_at p)]"] assms
  unfolding winner_def by simp_all

end
