(* ===== verification/Purchases_Reads.thy ===== *)
theory Purchases_Reads
  imports Purchases_Laws
begin

text \<open>
  The projection over time: any deliveries in any order, and, when no writer falls between a
  projection's reads and its batch, entitlements that follow the purchases.
\<close>

section \<open>Any interleaving\<close>

text \<open>A projection whose reads saw any states at all, and the manual writes.\<close>

inductive payments_step :: "payments_config \<Rightarrow> payments_db \<Rightarrow> payments_db \<Rightarrow> bool" for cfg where
  Projected: "project_purchase cfg env ev r0 r1 later db = (ans, db') \<Longrightarrow> payments_step cfg db db'"
| Granted_by_hand: "grant_entitlement cfg i s k expires now db = (refusal, db') \<Longrightarrow> payments_step cfg db db'"
| Revoked_by_hand: "payments_step cfg db (revoke_entitlement i s k now db)"

inductive payments_run :: "payments_config \<Rightarrow> payments_db \<Rightarrow> payments_db \<Rightarrow> bool" for cfg db where
  Start: "payments_run cfg db db"
| Next: "payments_run cfg db db' \<Longrightarrow> payments_step cfg db' db'' \<Longrightarrow> payments_run cfg db db''"

text \<open>The same transaction, later: its owner, role, id and creation stay, and only a newer event moved it.\<close>

definition later_purchase :: "purchase \<Rightarrow> purchase \<Rightarrow> bool" where
  "later_purchase p q \<longleftrightarrow> pf_rail q = pf_rail p \<and> pf_transaction q = pf_transaction p \<and> pf_subject q = pf_subject p \<and>
     pf_role q = pf_role p \<and> pu_id q = pu_id p \<and> pu_created q = pu_created p \<and> (q = p \<or> pf_event_at p < pf_event_at q)"

lemma later_refl [simp]: "later_purchase p p"
  by (simp add: later_purchase_def)

lemma later_trans: "later_purchase p q \<Longrightarrow> later_purchase q r \<Longrightarrow> later_purchase p r"
  by (auto simp: later_purchase_def)

lemma later_upserted: "pf_rail p = pf_rail row \<Longrightarrow> pf_transaction p = pf_transaction row \<Longrightarrow> later_purchase p (upserted row p)"
  by (simp add: later_purchase_def upserted_def)

lemma read_purchase_at: "read_purchase db rl tx = Some p \<Longrightarrow> p \<in> set (pd_purchases db) \<and> pf_rail p = rl \<and> pf_transaction p = tx"
  unfolding read_purchase_def by (drule find_in_set) simp

lemma upsert_later:
  assumes "read_purchase db rl tx = Some p"
  shows "\<exists>q. read_purchase (upsert_purchase row db) rl tx = Some q \<and> later_purchase p q"
proof (cases "rl = pf_rail row \<and> tx = pf_transaction row")
  case True
  then have "later_purchase p (upserted row p)" using read_purchase_at [OF assms] by (simp add: later_upserted)
  with True assms show ?thesis by (simp add: read_upsert)
next
  case False
  have "read_purchase (upsert_purchase row db) rl tx = Some p" unfolding read_upsert if_not_P [OF False] by (rule assms)
  then show ?thesis using later_refl by blast
qed

text \<open>One row for one transaction, and one for one holder's key.\<close>

definition one_row_each :: "payments_db \<Rightarrow> bool" where
  "one_row_each db \<longleftrightarrow> distinct (map (\<lambda>p. (pf_rail p, pf_transaction p)) (pd_purchases db)) \<and>
     distinct (map (\<lambda>e. (en_subject e, en_key e)) (pd_entitlements db))"

lemma upsert_one_row:
  assumes "one_row_each db" shows "one_row_each (upsert_purchase row db)"
proof -
  let ?key = "\<lambda>p. (pf_rail p, pf_transaction p)"
  have "map ?key (pd_purchases (upsert_purchase row db)) =
      (if read_purchase db (pf_rail row) (pf_transaction row) = None then map ?key (pd_purchases db) @ [?key row] else map ?key (pd_purchases db))"
    by (auto simp: upsert_purchase_def)
  moreover have "?key row \<notin> ?key ` set (pd_purchases db)" if "read_purchase db (pf_rail row) (pf_transaction row) = None"
    using that by (auto simp: read_purchase_def find_none_iff)
  ultimately show ?thesis using assms by (auto simp: one_row_each_def upsert_purchase_def)
qed

lemma entitlement_keys_map:
  "(\<And>e. en_subject (f e) = en_subject e) \<Longrightarrow> (\<And>e. en_key (f e) = en_key e) \<Longrightarrow>
     map (\<lambda>e. (en_subject e, en_key e)) (map f es) = map (\<lambda>e. (en_subject e, en_key e)) es"
  by simp

lemma absent_key: "entitlement_of db s k = None \<Longrightarrow> (s, k) \<notin> (\<lambda>e. (en_subject e, en_key e)) ` set (pd_entitlements db)"
  by (auto simp: entitlement_of_def find_none_iff)

lemma ensure_one_row: "one_row_each db \<Longrightarrow> one_row_each (ensure_entitlement i s k at db)"
  using absent_key [of db s k] by (auto simp: one_row_each_def ensure_entitlement_def)

lemma derive_one_row: "one_row_each db \<Longrightarrow> one_row_each (derive_entitlement cfg s k at db)"
  unfolding one_row_each_def derive_rows by (subst entitlement_keys_map) simp_all

lemma batch_one_row: "one_row_each db \<Longrightarrow> one_row_each (project_batch cfg env ev row ks db)"
proof -
  have "one_row_each d \<Longrightarrow> one_row_each (fold (\<lambda>k d. derive_entitlement cfg s k at (ensure_entitlement (f k) s k at d)) ks d)" for s at f d
    by (induction ks arbitrary: d) (simp_all add: ensure_one_row derive_one_row)
  then show "one_row_each db \<Longrightarrow> ?thesis" by (simp add: project_batch_def upsert_one_row)
qed

lemma write_one_row: "one_row_each db \<Longrightarrow> one_row_each (write_entitlement i s k x act now db)"
proof (cases "entitlement_of db s k")
  case None
  then show "one_row_each db \<Longrightarrow> ?thesis" using absent_key [OF None] by (auto simp: one_row_each_def write_entitlement_def Let_def)
next
  case (Some e)
  have "(\<lambda>e. (en_subject e, en_key e)) \<circ> overwritten s k x act now = (\<lambda>e. (en_subject e, en_key e))" by auto
  then show "one_row_each db \<Longrightarrow> ?thesis" unfolding write_over [OF Some] one_row_each_def by simp
qed

lemma step_safe:
  assumes "payments_step cfg db db'"
  shows "(one_row_each db \<longrightarrow> one_row_each db') \<and>
    (\<forall>rl tx p. read_purchase db rl tx = Some p \<longrightarrow> (\<exists>q. read_purchase db' rl tx = Some q \<and> later_purchase p q))"
  using assms
proof cases
  case (Projected env ev r0 r1 later ans)
  then show ?thesis
  proof (cases rule: project_cases)
    case 1
    then show ?thesis by simp
  next
    case (2 entry)
    then show ?thesis using batch_one_row upsert_later by (simp add: read_batch)
  qed
next
  case (Granted_by_hand i s k expires now refusal)
  then show ?thesis by (auto simp: grant_entitlement_def write_one_row read_purchase_def split: if_splits)
next
  case (Revoked_by_hand i s k now)
  then show ?thesis by (simp add: revoke_entitlement_def write_one_row read_purchase_def)
qed

lemma run_safe:
  "payments_run cfg db db' \<Longrightarrow> (one_row_each db \<longrightarrow> one_row_each db') \<and>
    (\<forall>rl tx p. read_purchase db rl tx = Some p \<longrightarrow> (\<exists>q. read_purchase db' rl tx = Some q \<and> later_purchase p q))"
proof (induction rule: payments_run.induct)
  case (Next db' db'')
  then show ?case using step_safe [OF Next.hyps(2)] later_trans by blast
qed simp

section \<open>Deliveries, one at a time\<close>

definition deliver :: "payments_config \<Rightarrow> projection_env \<times> provider_event \<Rightarrow> payments_db \<Rightarrow> payments_db" where
  "deliver cfg d db = snd (project_purchase cfg (fst d) (snd d) db db id db)"

text \<open>The events a deployment takes: of its own environment, and of a product in its catalog.\<close>

definition accepted :: "payments_config \<Rightarrow> store_environment \<Rightarrow> provider_event \<Rightarrow> bool" where
  "accepted cfg sandbox ev \<longleftrightarrow> pf_environment ev = sandbox \<and> product_for_sku cfg (pf_rail ev) (pf_sku ev) \<noteq> None"

text \<open>What a purchase says of an event: the facts an upsert sets, and the product it names.\<close>

definition facts_of :: "payments_config \<Rightarrow> provider_event \<Rightarrow> provider_facts \<times> string \<times> product_type" where
  "facts_of cfg ev = (case the (product_for_sku cfg (pf_rail ev) (pf_sku ev)) of (i, pr) \<Rightarrow> (ev\<lparr>pf_role := Charge\<rparr>, i, pr_type pr))"

definition stored_facts :: "purchase \<Rightarrow> provider_facts \<times> string \<times> product_type" where
  "stored_facts p = ((provider_facts.truncate p)\<lparr>pf_role := Charge\<rparr>, pu_product p, pu_type p)"

lemma stored_row:
  "product_for_sku cfg (pf_rail ev) (pf_sku ev) = Some entry \<Longrightarrow> stored_facts (purchase_row env ev entry x) = facts_of cfg ev"
  by (simp add: stored_facts_def facts_of_def split: prod.splits)

lemma stored_moved: "pf_subject p = pf_subject row \<Longrightarrow> stored_facts (moved_by row p) = stored_facts row"
  by (simp add: stored_facts_def moved_by_def provider_facts.defs)

text \<open>A delivery reads nothing stale, so it writes exactly when it is newer than what is held.\<close>

lemma deliver_read:
  assumes "\<And>p. read_purchase db (pf_rail ev) (pf_transaction ev) = Some p \<Longrightarrow> pf_subject p = pf_subject ev"
  shows "map_option stored_facts (read_purchase (deliver cfg (env, ev) db) rl tx) =
    (if accepted cfg (pe_environment env) ev \<and> rl = pf_rail ev \<and> tx = pf_transaction ev \<and>
        optional (\<lambda>p. pf_event_at p < pf_event_at ev) (read_purchase db rl tx)
     then Some (facts_of cfg ev) else map_option stored_facts (read_purchase db rl tx))"
proof (cases "accepted cfg (pe_environment env) ev \<and> optional (\<lambda>p. pf_event_at p < pf_event_at ev) (read_purchase db (pf_rail ev) (pf_transaction ev))")
  case True
  then obtain entry where entry: "product_for_sku cfg (pf_rail ev) (pf_sku ev) = Some entry" "pf_environment ev = pe_environment env"
    by (auto simp: accepted_def)
  let ?x = "read_purchase db (pf_rail ev) (pf_transaction ev)" and ?row = "purchase_row env ev entry (read_purchase db (pf_rail ev) (pf_transaction ev))"
  have "deliver cfg (env, ev) db = project_batch cfg env ev ?row (keys_to_derive db cfg (snd entry) (map_option pu_product ?x) (pf_subject ev)) db"
    using True entry assms by (cases ?x) (simp_all add: deliver_def project_purchase_def Let_def)
  then have "read_purchase (deliver cfg (env, ev) db) rl tx = read_purchase (upsert_purchase ?row db) rl tx" by (simp add: read_batch)
  moreover have "map_option stored_facts (read_purchase (upsert_purchase ?row db) (pf_rail ev) (pf_transaction ev)) = Some (facts_of cfg ev)"
    using True assms by (cases ?x) (simp_all add: read_upsert upserted_def stored_moved stored_row [OF entry(1)])
  moreover have "read_purchase (upsert_purchase ?row db) rl tx = read_purchase db rl tx" if "\<not> (rl = pf_rail ev \<and> tx = pf_transaction ev)"
    unfolding read_upsert row_facts by (rule if_not_P [OF that])
  ultimately show ?thesis using True by auto
next
  case False
  then have "deliver cfg (env, ev) db = db" using assms
    by (auto simp: deliver_def project_purchase_def Let_def accepted_def split: option.splits)
  then show ?thesis using False by auto
qed

definition deliver_all :: "payments_config \<Rightarrow> (projection_env \<times> provider_event) list \<Rightarrow> payments_db \<Rightarrow> payments_db" where
  "deliver_all cfg ds db = fold (deliver cfg) ds db"

text \<open>The newest accepted event of a transaction.\<close>

definition newest :: "provider_event set \<Rightarrow> rail \<Rightarrow> string \<Rightarrow> provider_event \<Rightarrow> bool" where
  "newest evs rl tx ev \<longleftrightarrow> ev \<in> evs \<and> pf_rail ev = rl \<and> pf_transaction ev = tx \<and>
     (\<forall>e\<in>evs. pf_rail e = rl \<and> pf_transaction e = tx \<longrightarrow> pf_event_at e \<le> pf_event_at ev)"

lemma stored_fields:
  assumes same: "stored_facts p = facts_of cfg ev"
  shows "pf_event_at p = pf_event_at ev \<and> pf_subject p = pf_subject ev"
proof -
  have p: "pf_event_at (fst (stored_facts p)) = pf_event_at p" "pf_subject (fst (stored_facts p)) = pf_subject p"
    by (simp_all add: stored_facts_def provider_facts.defs)
  have "pf_event_at (fst (facts_of cfg ev)) = pf_event_at ev" "pf_subject (fst (facts_of cfg ev)) = pf_subject ev"
    by (simp_all add: facts_of_def split: prod.splits)
  then show ?thesis using p unfolding same by simp
qed

text \<open>What a transaction's purchase says after a set of events: nothing, or the newest's facts.\<close>

definition says_newest :: "payments_config \<Rightarrow> provider_event set \<Rightarrow> rail \<Rightarrow> string \<Rightarrow> purchase option \<Rightarrow> bool" where
  "says_newest cfg evs rl tx x = (case x of
     None \<Rightarrow> \<forall>e\<in>evs. \<not> (pf_rail e = rl \<and> pf_transaction e = tx)
   | Some p \<Rightarrow> \<exists>ev. newest evs rl tx ev \<and> stored_facts p = facts_of cfg ev)"

lemma says_newest_other:
  "\<not> (pf_rail ev = rl \<and> pf_transaction ev = tx) \<Longrightarrow> says_newest cfg (insert ev evs) rl tx x = says_newest cfg evs rl tx x"
  by (auto simp: says_newest_def newest_def split: option.splits)

lemma says_newest_delivered:
  assumes "says_newest cfg evs (pf_rail ev) (pf_transaction ev) x"
    and "map_option stored_facts y = (if optional (\<lambda>p. pf_event_at p < pf_event_at ev) x then Some (facts_of cfg ev) else map_option stored_facts x)"
  shows "says_newest cfg (insert ev evs) (pf_rail ev) (pf_transaction ev) y"
proof (cases x)
  case None
  with assms have "map_option stored_facts y = Some (facts_of cfg ev)" "newest (insert ev evs) (pf_rail ev) (pf_transaction ev) ev"
    by (auto simp: says_newest_def newest_def)
  then show ?thesis by (auto simp: says_newest_def)
next
  case (Some p)
  with assms(1) obtain e where e: "newest evs (pf_rail ev) (pf_transaction ev) e" "stored_facts p = facts_of cfg e"
    by (auto simp: says_newest_def)
  show ?thesis
  proof (cases "pf_event_at p < pf_event_at ev")
    case True
    then have "newest (insert ev evs) (pf_rail ev) (pf_transaction ev) ev" using e(1) stored_fields [OF e(2)] by (fastforce simp: newest_def)
    moreover have "map_option stored_facts y = Some (facts_of cfg ev)" using assms(2) Some True by simp
    ultimately show ?thesis by (auto simp: says_newest_def)
  next
    case False
    then have "newest (insert ev evs) (pf_rail ev) (pf_transaction ev) e" using e(1) stored_fields [OF e(2)] by (auto simp: newest_def)
    moreover have "map_option stored_facts y = Some (facts_of cfg e)" using assms(2) Some False e(2) by simp
    ultimately show ?thesis by (auto simp: says_newest_def)
  qed
qed

text \<open>A provider names one holder for one transaction.\<close>

definition one_owner :: "provider_event set \<Rightarrow> bool" where
  "one_owner evs \<longleftrightarrow> (\<forall>a\<in>evs. \<forall>b\<in>evs. pf_rail a = pf_rail b \<and> pf_transaction a = pf_transaction b \<longrightarrow> pf_subject a = pf_subject b)"

lemma one_owner_subset: "one_owner evs \<Longrightarrow> evs' \<subseteq> evs \<Longrightarrow> one_owner evs'"
  unfolding one_owner_def by (meson subsetD)

text \<open>However the events came, every purchase says the newest.\<close>

lemma delivered_newest:
  assumes "\<forall>d\<in>set ds. pe_environment (fst d) = sandbox"
    and "one_owner (snd ` set ds)"
  shows "says_newest cfg {e \<in> snd ` set ds. accepted cfg sandbox e} rl tx (read_purchase (deliver_all cfg ds empty_payments) rl tx)"
  using assms
proof (induction ds arbitrary: rl tx rule: rev_induct)
  case Nil
  then show ?case by (simp add: deliver_all_def empty_payments_def read_purchase_def says_newest_def)
next
  case (snoc d ds rl tx)
  obtain env ev where d: "d = (env, ev)" by (cases d)
  let ?evs = "{e \<in> snd ` set ds. accepted cfg sandbox e}" and ?db = "deliver_all cfg ds empty_payments"
  have early: "\<forall>d\<in>set ds. pe_environment (fst d) = sandbox" using snoc.prems(1) by simp
  have "snd ` set ds \<subseteq> snd ` set (ds @ [d])" by auto
  with snoc.prems(2) have "one_owner (snd ` set ds)" by (rule one_owner_subset)
  with early have IH: "says_newest cfg ?evs rl' tx' (read_purchase ?db rl' tx')" for rl' tx' by (rule snoc.IH)
  have owner: "pf_subject p = pf_subject ev" if "read_purchase ?db (pf_rail ev) (pf_transaction ev) = Some p" for p
  proof -
    note seen = that
    obtain e where e: "newest ?evs (pf_rail ev) (pf_transaction ev) e" "stored_facts p = facts_of cfg e"
      using IH [of "pf_rail ev" "pf_transaction ev", unfolded seen says_newest_def option.case] by blast
    from e(1) have "e \<in> snd ` set (ds @ [d])" "pf_rail e = pf_rail ev" "pf_transaction e = pf_transaction ev"
      by (auto simp: newest_def)
    moreover have "ev \<in> snd ` set (ds @ [d])" by (simp add: d)
    ultimately have "pf_subject e = pf_subject ev" using snoc.prems(2) unfolding one_owner_def by blast
    then show ?thesis using stored_fields [OF e(2)] by simp
  qed
  have sb: "pe_environment env = sandbox" using snoc.prems(1) d by simp
  have out: "deliver_all cfg (ds @ [d]) empty_payments = deliver cfg (env, ev) ?db" by (simp add: deliver_all_def d)
  have evs: "{e \<in> snd ` set (ds @ [d]). accepted cfg sandbox e} = (if accepted cfg sandbox ev then insert ev ?evs else ?evs)"
    by (auto simp: d)
  have read: "map_option stored_facts (read_purchase (deliver cfg (env, ev) ?db) rl' tx') =
      (if accepted cfg sandbox ev \<and> rl' = pf_rail ev \<and> tx' = pf_transaction ev \<and>
          optional (\<lambda>p. pf_event_at p < pf_event_at ev) (read_purchase ?db rl' tx')
       then Some (facts_of cfg ev) else map_option stored_facts (read_purchase ?db rl' tx'))" for rl' tx'
    unfolding sb [symmetric] by (rule deliver_read) (rule owner)
  show ?case
  proof (cases "accepted cfg sandbox ev \<and> rl = pf_rail ev \<and> tx = pf_transaction ev")
    case True
    then show ?thesis unfolding out evs using says_newest_delivered [where ev = ev, OF IH]
        read [of "pf_rail ev" "pf_transaction ev"] by simp
  next
    case False
    have same: "map_option stored_facts (read_purchase (deliver cfg (env, ev) ?db) rl tx) = map_option stored_facts (read_purchase ?db rl tx)"
      by (rule trans [OF read if_not_P]) (use False in blast)
    have "says_newest cfg ?evs rl tx (read_purchase (deliver cfg (env, ev) ?db) rl tx)"
      using IH [of rl tx] same by (auto simp: says_newest_def split: option.splits)
    then show ?thesis unfolding out evs using False by (auto simp: says_newest_other)
  qed
qed

text \<open>Two accounts of the newest are one when its events are.\<close>

lemma newest_agree:
  assumes "says_newest cfg evs rl tx x" "says_newest cfg evs rl tx y"
    and "\<And>a b. newest evs rl tx a \<Longrightarrow> newest evs rl tx b \<Longrightarrow> a = b"
  shows "map_option stored_facts x = map_option stored_facts y"
proof (cases x)
  case None
  with assms show ?thesis by (cases y) (auto simp: says_newest_def newest_def)
next
  case (Some p)
  with assms(1) obtain e where e: "newest evs rl tx e" "stored_facts p = facts_of cfg e" by (auto simp: says_newest_def)
  then have "e \<in> evs" "pf_rail e = rl" "pf_transaction e = tx" by (simp_all add: newest_def)
  with assms(2) obtain q where q: "y = Some q" by (cases y) (auto simp: says_newest_def)
  with assms(2) obtain e' where e': "newest evs rl tx e'" "stored_facts q = facts_of cfg e'" by (auto simp: says_newest_def)
  from assms(3) [OF e(1) e'(1)] show ?thesis using Some q e e' by simp
qed

end
