(* ===== verification/Purchase_Grants.thy ===== *)
theory Purchase_Grants
  imports Purchases_Reads Ledger_Laws
begin

text \<open>
  Fulfillment of \<open>packages/payments\<close> (\<open>grants/apply.ts\<close>, \<open>grants/clawback.ts\<close>, \<open>grants/ledgerSeam.ts\<close>): what a
  projected purchase credits to the ledger of \<open>packages/ledger\<close>, and what a refund takes back.
\<close>

section \<open>Refs and accounts\<close>

definition grant_ref :: "string \<Rightarrow> currency \<Rightarrow> ref" where
  "grant_ref i c = ''payments:grant:'' @ i @ '':'' @ c"

definition clawback_ref :: "string \<Rightarrow> currency \<Rightarrow> ref" where
  "clawback_ref i c = ''payments:clawback:'' @ i @ '':'' @ c"

definition ledger_grant_for :: "payments_config \<Rightarrow> string \<Rightarrow> ledger_grant option" where
  "ledger_grant_for cfg i = Option.bind (map_of (cf_products cfg) i) pr_grant"

definition unpaid_statuses :: "purchase_status set" where
  "unpaid_statuses = {In_grace, On_hold, Never_paid, Refunded, Revoked}"

definition reversed_statuses :: "purchase_status set" where
  "reversed_statuses = {Refunded, Revoked}"

definition purchase_is_paid :: "purchase \<Rightarrow> bool" where
  "purchase_is_paid p = (if pf_role p = State then False else pf_status p \<notin> unpaid_statuses)"

datatype fulfillment_error = Not_a_user | No_ledger | Ledger_refused ledger_error

definition ledger_account_id :: "subject \<Rightarrow> fulfillment_error + user_id" where
  "ledger_account_id s = (if sb_kind s \<noteq> User_subject then Inl Not_a_user else Inr (sb_id s))"

definition rail_name :: "rail \<Rightarrow> string" where
  "rail_name rl = (case rl of Apple \<Rightarrow> ''apple'' | Google \<Rightarrow> ''google'' | Stripe \<Rightarrow> ''stripe'' |
     LemonSqueezy \<Rightarrow> ''lemonSqueezy'' | Paddle \<Rightarrow> ''paddle'')"

section \<open>Credit and clawback\<close>

record applied_grant =
  ag_currency :: currency
  ag_amount :: int
  ag_ref :: ref

text \<open>Each answers and leaves the ledger's tables; a refusal leaves them as they were.\<close>

definition apply_grants ::
  "payments_config \<Rightarrow> purchase \<Rightarrow> millis \<Rightarrow> ledger_db \<Rightarrow> fulfillment_error + (applied_grant list \<times> ledger_db)" where
  "apply_grants cfg p at bank = (case ledger_grant_for cfg (pu_product p) of
     None \<Rightarrow> Inr ([], bank)
   | Some g \<Rightarrow>
       if \<not> purchase_is_paid p then Inr ([], bank)
       else let r = grant_ref (pu_id p) (lg_currency g) in
         and_then (ledger_account_id (pf_subject p)) (\<lambda>u.
           case ledger_credit bank u (lg_currency g) (JSInt (lg_amount g)) r
                  (Some (''payments '' @ rail_name (pf_rail p) @ '' '' @ pu_product p)) at of
             Inl e \<Rightarrow> Inl (Ledger_refused e)
           | Inr (_, bank') \<Rightarrow> Inr ([\<lparr>ag_currency = lg_currency g, ag_amount = lg_amount g, ag_ref = r\<rparr>], bank')))"

datatype clawback_outcome = Reversed applied_grant | Refused applied_grant ledger_error

definition clawback_due :: "payments_config \<Rightarrow> purchase \<Rightarrow> bool" where
  "clawback_due cfg p \<longleftrightarrow> pf_role p \<noteq> State \<and> map_option pr_clawback (map_of (cf_products cfg) (pu_product p)) = Some True \<and>
     pf_status p \<in> reversed_statuses"

definition clawback_grants ::
  "payments_config \<Rightarrow> purchase \<Rightarrow> millis \<Rightarrow> ledger_db \<Rightarrow> fulfillment_error + (clawback_outcome list \<times> ledger_db)" where
  "clawback_grants cfg p at bank = (case ledger_grant_for cfg (pu_product p) of
     None \<Rightarrow> Inr ([], bank)
   | Some g \<Rightarrow>
       if \<not> clawback_due cfg p then Inr ([], bank)
       else let a = \<lparr>ag_currency = lg_currency g, ag_amount = lg_amount g, ag_ref = clawback_ref (pu_id p) (lg_currency g)\<rparr> in
         and_then (ledger_account_id (pf_subject p)) (\<lambda>u.
           case ledger_debit bank u (lg_currency g) (JSInt (lg_amount g)) (ag_ref a)
                  (Some (''payments refund '' @ rail_name (pf_rail p) @ '' '' @ pu_product p)) at of
             Inr (_, bank') \<Rightarrow> Inr ([Reversed a], bank')
           | Inl e \<Rightarrow> if fst (ledger_code e) = ''ledger/insufficient_funds'' then Inr ([Refused a e], bank)
               else Inl (Ledger_refused e)))"

record fulfillment =
  fu_granted :: "applied_grant list"
  fu_clawed_back :: "clawback_outcome list"

text \<open>The critical events a fulfillment emits: each refused reversal.\<close>

definition alerts :: "clawback_outcome list \<Rightarrow> (applied_grant \<times> ledger_error) list" where
  "alerts os = concat (map (\<lambda>out. case out of Reversed a \<Rightarrow> [] | Refused a e \<Rightarrow> [(a, e)]) os)"

text \<open>The credit, then the reversal: what the credit wrote stays when the reversal is refused.\<close>

definition fulfill_purchase ::
  "payments_config \<Rightarrow> bool \<Rightarrow> purchase \<Rightarrow> millis \<Rightarrow> ledger_db \<Rightarrow>
     (fulfillment_error + (fulfillment \<times> (applied_grant \<times> ledger_error) list)) \<times> ledger_db" where
  "fulfill_purchase cfg composed p at bank =
     (if ledger_grant_for cfg (pu_product p) = None then (Inr (\<lparr>fu_granted = [], fu_clawed_back = []\<rparr>, []), bank)
      else if \<not> composed then (Inl No_ledger, bank)
      else case apply_grants cfg p at bank of
        Inl e \<Rightarrow> (Inl e, bank)
      | Inr (granted, bank1) \<Rightarrow> (case clawback_grants cfg p at bank1 of
          Inl e \<Rightarrow> (Inl e, bank1)
        | Inr (back, bank2) \<Rightarrow> (Inr (\<lparr>fu_granted = granted, fu_clawed_back = back\<rparr>, alerts back), bank2)))"

section \<open>Deliveries\<close>

text \<open>A webhook's delivery, once its event and its owner are known: the projection, then the fulfillment of
  the purchase it answers with.\<close>

definition deliver_and_fulfill ::
  "payments_config \<Rightarrow> projection_env \<times> provider_event \<Rightarrow> payments_db \<times> ledger_db \<Rightarrow> payments_db \<times> ledger_db" where
  "deliver_and_fulfill cfg d w = (case w of (db, bank) \<Rightarrow>
     (case project_purchase cfg (fst d) (snd d) db db id db of
       (Inl e, db') \<Rightarrow> (db', bank)
     | (Inr pj, db') \<Rightarrow> (db', snd (fulfill_purchase cfg True (pj_purchase pj) (pe_now (fst d)) bank))))"

end
