(* ===== verification/Purchase_Grants_Laws.thy ===== *)
theory Purchase_Grants_Laws
  imports Purchase_Grants
begin

text \<open>One fulfillment against the ledger, many of them, and one made again.\<close>

section \<open>Refs\<close>

lemma colon_split:
  assumes "CHR '':'' \<notin> set i" "CHR '':'' \<notin> set j" "i @ '':'' @ c = j @ '':'' @ d"
  shows "i = j"
proof -
  have "takeWhile (\<lambda>ch. ch \<noteq> CHR '':'') (i @ '':'' @ c) = i" using assms(1) by (subst takeWhile_append2) auto
  moreover have "takeWhile (\<lambda>ch. ch \<noteq> CHR '':'') (j @ '':'' @ d) = j" using assms(2) by (subst takeWhile_append2) auto
  ultimately show ?thesis using assms(3) by simp
qed

lemma grant_ref_inj: "CHR '':'' \<notin> set i \<Longrightarrow> CHR '':'' \<notin> set j \<Longrightarrow> grant_ref i c = grant_ref j d \<Longrightarrow> i = j"
  unfolding grant_ref_def using colon_split by blast

section \<open>One credit\<close>

lemma credit_eq:
  assumes "ledger_ok s" "0 < n"
  shows "\<exists>b. ledger_credit s u c (JSInt n) r m at =
    Inr (b, if taken s r then s else moved s (u, c) n 0 at (entry r u c Credit n None m at))"
proof -
  have sound: "0 \<le> balance_of s (u, c) + n \<and> 0 \<le> held_of s (u, c) \<and> held_of s (u, c) \<le> balance_of s (u, c) + n"
    using ledger_ok_account_sound [OF assms(1), of "(u, c)"] assms(2) by (simp add: account_sound_def)
  show ?thesis
  proof (cases "taken s r")
    case True
    then show ?thesis using assms(2) run_replay [OF taken_aborts(1) [OF True]]
      by (simp add: ledger_credit_def writes_credit_def answer_after_def)
  next
    case False
    have "d1_batch s (credit_stmts u c n r m at) = Inr (moved s (u, c) n 0 at (entry r u c Credit n None m at))"
      unfolding credit_stmts_def ensure_insert_adjust_moved using False sound by (simp add: entry_def)
    then show ?thesis using False assms(2) by (simp add: ledger_credit_def writes_credit_def answer_after_def run_def Let_def)
  qed
qed

section \<open>One fulfillment\<close>

text \<open>What a charge is owed: the account and the amount, when it is a user's paid charge of a product that
  credits.\<close>

definition owed :: "payments_config \<Rightarrow> purchase \<Rightarrow> (account_key \<times> int) option" where
  "owed cfg p = (case ledger_grant_for cfg (pu_product p) of
     None \<Rightarrow> None
   | Some g \<Rightarrow> if purchase_is_paid p \<and> sb_kind (pf_subject p) = User_subject
       then Some ((sb_id (pf_subject p), lg_currency g), lg_amount g) else None)"

definition grants_positive :: "payments_config \<Rightarrow> bool" where
  "grants_positive cfg \<longleftrightarrow> (\<forall>e\<in>set (cf_products cfg). optional (\<lambda>g. 0 < lg_amount g) (pr_grant (snd e)))"

lemma grant_positive: "grants_positive cfg \<Longrightarrow> ledger_grant_for cfg i = Some g \<Longrightarrow> 0 < lg_amount g"
  by (auto simp: grants_positive_def ledger_grant_for_def bind_eq_Some_conv dest!: map_of_SomeD bspec)

lemma paid_not_reversed: "clawback_due cfg p \<Longrightarrow> \<not> purchase_is_paid p"
  by (auto simp: clawback_due_def purchase_is_paid_def reversed_statuses_def unpaid_statuses_def)

lemma fulfill_not_owed:
  assumes "owed cfg p = None" "\<not> clawback_due cfg p"
  shows "snd (fulfill_purchase cfg composed p at bank) = bank"
  using assms by (auto simp: fulfill_purchase_def owed_def apply_grants_def clawback_grants_def ledger_account_id_def Let_def
      split: option.splits if_splits)

lemma fulfill_owed:
  assumes "ledger_ok bank" "grants_positive cfg" "owed cfg p = Some ((u, c), n)"
  shows "\<exists>m. snd (fulfill_purchase cfg True p at bank) =
    (if taken bank (grant_ref (pu_id p) c) then bank else moved bank (u, c) n 0 at (entry (grant_ref (pu_id p) c) u c Credit n None m at))"
proof -
  from assms(3) obtain g where g: "ledger_grant_for cfg (pu_product p) = Some g" "lg_currency g = c" "lg_amount g = n"
    and p: "purchase_is_paid p" "sb_kind (pf_subject p) = User_subject" "sb_id (pf_subject p) = u"
    by (auto simp: owed_def split: option.splits if_splits)
  have "\<not> clawback_due cfg p" using paid_not_reversed p(1) by blast
  then have none_back: "clawback_grants cfg p at b = Inr ([], b)" for b using g by (simp add: clawback_grants_def)
  let ?m = "Some (''payments '' @ rail_name (pf_rail p) @ '' '' @ pu_product p)" and ?r = "grant_ref (pu_id p) c"
  obtain b where credit: "ledger_credit bank u c (JSInt n) ?r ?m at =
      Inr (b, if taken bank ?r then bank else moved bank (u, c) n 0 at (entry ?r u c Credit n None ?m at))"
    using credit_eq [OF assms(1), of n u c ?r ?m at] grant_positive [OF assms(2) g(1)] g(3) by blast
  have "apply_grants cfg p at bank = Inr ([\<lparr>ag_currency = c, ag_amount = n, ag_ref = ?r\<rparr>],
      if taken bank ?r then bank else moved bank (u, c) n 0 at (entry ?r u c Credit n None ?m at))"
    using g p credit by (simp add: apply_grants_def ledger_account_id_def Let_def)
  then have "snd (fulfill_purchase cfg True p at bank) =
      (if taken bank ?r then bank else moved bank (u, c) n 0 at (entry ?r u c Credit n None ?m at))"
    using g(1) none_back by (simp add: fulfill_purchase_def)
  then show ?thesis by blast
qed

lemma writes_ok:
  "ledger_ok b \<Longrightarrow> ledger_credit b u c a r m at = Inr (x, b') \<Longrightarrow> ledger_ok b'"
  "ledger_ok b \<Longrightarrow> ledger_debit b u c a r m at = Inr (x, b') \<Longrightarrow> ledger_ok b'"
  using ledger_ops.step_inv [of b "Op_credit u c a r m at" b'] ledger_ops.step_inv [of b "Op_debit u c a r m at" b'] by auto

lemma apply_ok:
  assumes "ledger_ok b" shows "case apply_grants cfg p at b of Inl e \<Rightarrow> True | Inr x \<Rightarrow> ledger_ok (snd x)"
  using assms by (cases "ledger_account_id (pf_subject p)")
    (auto simp: apply_grants_def Let_def writes_ok(1) split: option.split sum.split)

lemma clawback_ok:
  assumes "ledger_ok b" shows "case clawback_grants cfg p at b of Inl e \<Rightarrow> True | Inr x \<Rightarrow> ledger_ok (snd x)"
  using assms by (cases "ledger_account_id (pf_subject p)")
    (auto simp: clawback_grants_def Let_def writes_ok(2) split: option.split sum.split)

lemma fulfill_ok:
  assumes "ledger_ok bank" shows "ledger_ok (snd (fulfill_purchase cfg composed p at bank))"
proof (cases "apply_grants cfg p at bank")
  case (Inr x)
  then have "ledger_ok (snd x)" using apply_ok [OF assms, of cfg p at] by simp
  then show ?thesis using Inr assms clawback_ok [of "snd x" cfg p at]
    by (auto simp: fulfill_purchase_def split: sum.split prod.split)
qed (use assms in \<open>auto simp: fulfill_purchase_def\<close>)

section \<open>Many fulfillments\<close>

definition fulfill_all :: "payments_config \<Rightarrow> (purchase \<times> millis) list \<Rightarrow> ledger_db \<Rightarrow> ledger_db" where
  "fulfill_all cfg ds bank = fold (\<lambda>d b. snd (fulfill_purchase cfg True (fst d) (snd d) b)) ds bank"

definition owed_in :: "payments_config \<Rightarrow> account_key \<Rightarrow> purchase \<Rightarrow> int" where
  "owed_in cfg k p = (case owed cfg p of None \<Rightarrow> 0 | Some x \<Rightarrow> if fst x = k then snd x else 0)"

definition grant_refs :: "payments_config \<Rightarrow> purchase set \<Rightarrow> ref set" where
  "grant_refs cfg ps = {grant_ref (pu_id p) c | p u c n. p \<in> ps \<and> owed cfg p = Some ((u, c), n)}"

text \<open>Purchases by their ids, which are minted without a colon.\<close>

definition proper_ids :: "purchase set \<Rightarrow> bool" where
  "proper_ids ps \<longleftrightarrow> (\<forall>p\<in>ps. CHR '':'' \<notin> set (pu_id p)) \<and> inj_on pu_id ps"

lemma proper_ids_subset: "proper_ids ps \<Longrightarrow> ps' \<subseteq> ps \<Longrightarrow> proper_ids ps'"
  by (auto simp: proper_ids_def intro: inj_on_subset)

lemma own_ref:
  assumes "proper_ids (insert p ps)" "grant_ref (pu_id p) c \<in> grant_refs cfg ps"
  shows "p \<in> ps"
proof -
  from assms(2) obtain q d where q: "q \<in> ps" "grant_ref (pu_id p) c = grant_ref (pu_id q) d" by (auto simp: grant_refs_def)
  then have "pu_id p = pu_id q" using assms(1) grant_ref_inj [of "pu_id p" "pu_id q"] by (auto simp: proper_ids_def)
  with assms(1) q(1) have "p = q" unfolding proper_ids_def inj_on_def by blast
  with q(1) show ?thesis by simp
qed

lemma fulfilled_sum:
  assumes "grants_positive cfg" "proper_ids (fst ` set ds)" "\<forall>p\<in>fst ` set ds. \<not> clawback_due cfg p"
  shows "ledger_ok (fulfill_all cfg ds empty_ledger) \<and>
    txn_ref ` set (entries (fulfill_all cfg ds empty_ledger)) = grant_refs cfg (fst ` set ds) \<and>
    balance_of (fulfill_all cfg ds empty_ledger) k = (\<Sum>p\<in>fst ` set ds. owed_in cfg k p)"
  using assms(2,3)
proof (induction ds rule: rev_induct)
  case Nil
  then show ?case by (simp add: fulfill_all_def grant_refs_def ledger_ok_empty) (simp add: empty_ledger_def balance_of_def)
next
  case (snoc d ds)
  obtain p at where d: "d = (p, at)" by (cases d)
  let ?ps = "fst ` set ds" and ?bank = "fulfill_all cfg ds empty_ledger"
  have ps: "fst ` set (ds @ [d]) = insert p ?ps" by (simp add: d)
  have proper: "proper_ids (insert p ?ps)" using snoc.prems(1) by (simp add: d)
  have out: "fulfill_all cfg (ds @ [d]) empty_ledger = snd (fulfill_purchase cfg True p at ?bank)" by (simp add: fulfill_all_def d)
  have "proper_ids ?ps" using proper_ids_subset [OF proper] by blast
  then have IH: "ledger_ok ?bank" "txn_ref ` set (entries ?bank) = grant_refs cfg ?ps" "balance_of ?bank k = (\<Sum>p\<in>?ps. owed_in cfg k p)"
    using snoc.IH snoc.prems(2) by auto
  have due: "\<not> clawback_due cfg p" using snoc.prems(2) by (simp add: d)
  have ok: "ledger_ok (snd (fulfill_purchase cfg True p at ?bank))" by (rule fulfill_ok [OF IH(1)])
  show ?case
  proof (cases "owed cfg p")
    case None
    then have "grant_refs cfg (insert p ?ps) = grant_refs cfg ?ps" "owed_in cfg k p = 0" by (auto simp: grant_refs_def owed_in_def)
    then show ?thesis unfolding out ps fulfill_not_owed [OF None due] using IH by (simp add: sum.insert_if)
  next
    case (Some x)
    obtain u c n where x: "x = ((u, c), n)" by (metis surj_pair)
    have refs: "grant_refs cfg (insert p ?ps) = insert (grant_ref (pu_id p) c) (grant_refs cfg ?ps)"
      using Some x by (auto simp: grant_refs_def)
    obtain m where m: "snd (fulfill_purchase cfg True p at ?bank) =
        (if taken ?bank (grant_ref (pu_id p) c) then ?bank
         else moved ?bank (u, c) n 0 at (entry (grant_ref (pu_id p) c) u c Credit n None m at))"
      using fulfill_owed [OF IH(1) assms(1) Some [unfolded x]] by blast
    show ?thesis
    proof (cases "p \<in> ?ps")
      case True
      then have "grant_ref (pu_id p) c \<in> grant_refs cfg ?ps" using Some x by (auto simp: grant_refs_def)
      then have "snd (fulfill_purchase cfg True p at ?bank) = ?bank" unfolding m IH(2) by simp
      then show ?thesis unfolding out ps using IH insert_absorb [OF True] by simp
    next
      case False
      then have free: "grant_ref (pu_id p) c \<notin> grant_refs cfg ?ps" using own_ref [OF proper] by blast
      then have new: "snd (fulfill_purchase cfg True p at ?bank) =
          moved ?bank (u, c) n 0 at (entry (grant_ref (pu_id p) c) u c Credit n None m at)" unfolding m IH(2) by simp
      have "owed_in cfg k p = (if (u, c) = k then n else 0)" using Some x by (simp add: owed_in_def)
      then show ?thesis unfolding out ps refs using ok False by (simp add: new IH entry_def)
    qed
  qed
qed

section \<open>Redelivery\<close>

lemma answered_again:
  assumes "ledger_ok s" "ledger_step s op = Inr s1" "\<not> requires_open op" "ledger_ok s2" "extends s1 s2"
  shows "ledger_step s2 (at_time later op) = Inr s2"
  by (rule answered_noop [OF answered_stays [OF assms(4,5) answered_after [OF assms(1,2)]] assms(3)])

lemma apply_again:
  assumes "ledger_ok b" "apply_grants cfg p at b = Inr (gs, b1)" "ledger_ok b2" "extends b1 b2"
  shows "apply_grants cfg p later b2 = Inr (gs, b2)"
proof (cases "ledger_grant_for cfg (pu_product p)")
  case None
  with assms show ?thesis by (simp add: apply_grants_def)
next
  case (Some g)
  show ?thesis
  proof (cases "purchase_is_paid p")
    case False
    with Some assms show ?thesis by (simp add: apply_grants_def)
  next
    case True
    let ?m = "Some (''payments '' @ rail_name (pf_rail p) @ '' '' @ pu_product p)" and ?r = "grant_ref (pu_id p) (lg_currency g)"
    obtain u x where u: "ledger_account_id (pf_subject p) = Inr u"
      and x: "ledger_credit b u (lg_currency g) (JSInt (lg_amount g)) ?r ?m at = Inr (x, b1)"
      and gs: "gs = [\<lparr>ag_currency = lg_currency g, ag_amount = lg_amount g, ag_ref = ?r\<rparr>]"
      using assms(2) Some True
      by (cases "ledger_account_id (pf_subject p)") (auto simp: apply_grants_def Let_def split: sum.splits)
    let ?op = "Op_credit u (lg_currency g) (JSInt (lg_amount g)) ?r ?m at"
    have "ledger_step b ?op = Inr b1" using x by simp
    from answered_again [OF assms(1) this _ assms(3,4), of later]
    obtain y where "ledger_credit b2 u (lg_currency g) (JSInt (lg_amount g)) ?r ?m later = Inr (y, b2)"
      by (auto simp: map_sum_eq_Inr)
    then show ?thesis using Some True u gs by (simp add: apply_grants_def Let_def)
  qed
qed

lemma clawback_again:
  assumes "ledger_ok b" "clawback_grants cfg p at b = Inr (gs, b1)" "alerts gs = []" "ledger_ok b2" "extends b1 b2"
  shows "clawback_grants cfg p later b2 = Inr (gs, b2)"
proof (cases "ledger_grant_for cfg (pu_product p)")
  case None
  with assms show ?thesis by (simp add: clawback_grants_def)
next
  case (Some g)
  show ?thesis
  proof (cases "clawback_due cfg p")
    case False
    with Some assms show ?thesis by (simp add: clawback_grants_def)
  next
    case True
    let ?m = "Some (''payments refund '' @ rail_name (pf_rail p) @ '' '' @ pu_product p)" and ?r = "clawback_ref (pu_id p) (lg_currency g)"
    obtain u x where u: "ledger_account_id (pf_subject p) = Inr u"
      and x: "ledger_debit b u (lg_currency g) (JSInt (lg_amount g)) ?r ?m at = Inr (x, b1)"
      and gs: "gs = [Reversed \<lparr>ag_currency = lg_currency g, ag_amount = lg_amount g, ag_ref = ?r\<rparr>]"
      using assms(2,3) Some True
      by (cases "ledger_account_id (pf_subject p)") (auto simp: clawback_grants_def Let_def alerts_def split: sum.splits if_splits)
    let ?op = "Op_debit u (lg_currency g) (JSInt (lg_amount g)) ?r ?m at"
    have "ledger_step b ?op = Inr b1" using x by simp
    from answered_again [OF assms(1) this _ assms(4,5), of later]
    obtain y where "ledger_debit b2 u (lg_currency g) (JSInt (lg_amount g)) ?r ?m later = Inr (y, b2)"
      by (auto simp: map_sum_eq_Inr)
    then show ?thesis using Some True u gs by (simp add: clawback_grants_def Let_def)
  qed
qed

lemma writes_extend:
  "ledger_ok b \<Longrightarrow> ledger_credit b u c a r m at = Inr (x, b') \<Longrightarrow> extends b b'"
  "ledger_ok b \<Longrightarrow> ledger_debit b u c a r m at = Inr (x, b') \<Longrightarrow> extends b b'"
  using ledger_step_extends [of b "Op_credit u c a r m at" b'] ledger_step_extends [of b "Op_debit u c a r m at" b'] by auto

lemma clawback_extends:
  assumes "ledger_ok b" "clawback_grants cfg p at b = Inr (gs, b1)" shows "extends b b1"
proof -
  have "case clawback_grants cfg p at b of Inl e \<Rightarrow> True | Inr x \<Rightarrow> extends b (snd x)"
    using assms(1) by (cases "ledger_account_id (pf_subject p)")
      (auto simp: clawback_grants_def Let_def writes_extend(2) extends_refl split: option.split sum.split)
  with assms(2) show ?thesis by simp
qed

lemma run_extends:
  assumes "ledger_ok s" shows "ledger_ok (ledger_ops.run s ops) \<and> extends s (ledger_ops.run s ops)"
proof
  show "ledger_ok (ledger_ops.run s ops)" by (rule ledger_ops.run_inv [OF assms])
  show "extends s (ledger_ops.run s ops)"
    by (rule ledger_ops.run_stable [where P = "\<lambda>b. extends s b", OF _ assms extends_refl])
      (use extends_trans ledger_step_extends in blast)
qed

end
