(* ===== verification/Purchases_Follow.thy ===== *)
theory Purchases_Follow
  imports Purchases_Reads
begin

text \<open>
  Entitlements follow purchases: while each projection reads the tables its batch is written to, a
  key no one granted or revoked by hand is active exactly while some purchase stands for it.
\<close>

section \<open>Acts, one at a time\<close>

datatype payments_act =
  Deliver projection_env provider_event
| Grant string subject string "millis option" millis
| Revoke string subject string millis

fun act_on :: "payments_config \<Rightarrow> payments_act \<Rightarrow> payments_db \<Rightarrow> payments_db" where
  "act_on cfg (Deliver env ev) db = deliver cfg (env, ev) db"
| "act_on cfg (Grant i s k expires now) db = snd (grant_entitlement cfg i s k expires now db)"
| "act_on cfg (Revoke i s k now) db = revoke_entitlement i s k now db"

fun act_time :: "payments_act \<Rightarrow> millis" where
  "act_time (Deliver env ev) = pe_now env"
| "act_time (Grant i s k expires now) = now"
| "act_time (Revoke i s k now) = now"

fun by_hand :: "subject \<Rightarrow> string \<Rightarrow> payments_act \<Rightarrow> bool" where
  "by_hand s k (Deliver env ev) = False"
| "by_hand s k (Grant i s' k' expires now) = (s' = s \<and> k' = k)"
| "by_hand s k (Revoke i s' k' now) = (s' = s \<and> k' = k)"

definition acted :: "payments_config \<Rightarrow> payments_act list \<Rightarrow> payments_db" where
  "acted cfg acts = fold (act_on cfg) acts empty_payments"

lemma act_is_step: "payments_step cfg db (act_on cfg a db)"
proof (cases a)
  case (Deliver env ev)
  then show ?thesis by (simp add: deliver_def payments_step.Projected [OF surjective_pairing])
next
  case (Grant i s k expires now)
  then show ?thesis by (simp add: payments_step.Granted_by_hand [OF surjective_pairing])
next
  case (Revoke i s k now)
  then show ?thesis by (simp add: payments_step.Revoked_by_hand)
qed

lemma act_one_row: "one_row_each db \<Longrightarrow> one_row_each (act_on cfg a db)"
  using step_safe [OF act_is_step] by blast

section \<open>Rows by their keys\<close>

lemma purchase_rows:
  assumes "one_row_each db"
  shows "p \<in> set (pd_purchases db) \<longleftrightarrow> read_purchase db (pf_rail p) (pf_transaction p) = Some p"
proof
  assume "p \<in> set (pd_purchases db)"
  then show "read_purchase db (pf_rail p) (pf_transaction p) = Some p"
    using assms find_unique_key [of "\<lambda>p. (pf_rail p, pf_transaction p)" "pd_purchases db" p]
    by (simp add: one_row_each_def read_purchase_def)
qed (use read_purchase_at in blast)

lemma entitlement_rows:
  assumes "one_row_each db"
  shows "e \<in> set (pd_entitlements db) \<longleftrightarrow> entitlement_of db (en_subject e) (en_key e) = Some e"
proof
  assume "e \<in> set (pd_entitlements db)"
  then show "entitlement_of db (en_subject e) (en_key e) = Some e"
    using assms find_unique_key [of "\<lambda>e. (en_subject e, en_key e)" "pd_entitlements db" e]
    by (simp add: one_row_each_def entitlement_of_def)
qed (use entitlement_of_key in blast)

section \<open>What a batch leaves standing\<close>

text \<open>Purchases that stand for a key the batch does not derive are neither made nor unmade.\<close>

lemma not_granted:
  assumes "distinct (map fst (cf_products cfg))" "k \<notin> set (entitlements_for cfg i)"
  shows "i \<notin> set (map fst [e \<leftarrow> cf_products cfg. k \<in> set (pr_entitlements (snd e))])"
  using assms by (force simp: entitlements_for_def)

lemma product_in: "product_for_sku cfg rl sku = Some entry \<Longrightarrow> entry \<in> set (cf_products cfg)"
  unfolding product_for_sku_def by (drule find_in_set) simp

lemma derived_keys:
  "k \<in> set (pr_entitlements p) \<Longrightarrow> k \<in> set (keys_to_derive db cfg p previous s)"
  "k \<in> set (entitlements_for cfg i) \<Longrightarrow> k \<in> set (keys_to_derive db cfg p (Some i) s)"
  by (simp_all add: keys_to_derive_def affected_keys_def sorted_keys_def firsts_set)

lemma keys_distinct: "distinct (keys_to_derive db cfg p previous s)"
  by (simp add: keys_to_derive_def sorted_keys_def firsts_distinct)

lemma standing_elsewhere:
  assumes "distinct (map fst (cf_products cfg))" "one_row_each db"
    "product_for_sku cfg (pf_rail ev) (pf_sku ev) = Some entry"
    "\<And>p. read_purchase db (pf_rail ev) (pf_transaction ev) = Some p \<Longrightarrow> pf_subject p = pf_subject ev \<and> pf_event_at p < pf_event_at ev"
    and other: "\<not> (s = pf_subject ev \<and> k \<in> set (keys_to_derive r cfg (snd entry)
      (map_option pu_product (read_purchase db (pf_rail ev) (pf_transaction ev))) (pf_subject ev)))"
    and row: "row = purchase_row env ev entry (read_purchase db (pf_rail ev) (pf_transaction ev))"
  shows "p \<in> set (pd_purchases (upsert_purchase row db)) \<and> stands_for cfg s k p \<longleftrightarrow> p \<in> set (pd_purchases db) \<and> stands_for cfg s k p"
proof (cases "pf_rail p = pf_rail ev \<and> pf_transaction p = pf_transaction ev")
  case True
  let ?x = "read_purchase db (pf_rail ev) (pf_transaction ev)"
  have entry: "pu_product row = fst entry" "entry \<in> set (cf_products cfg)" using product_in [OF assms(3)] row by simp_all
  then have "entitlements_for cfg (fst entry) = pr_entitlements (snd entry)"
    using assms(1) by (simp add: entitlements_for_def map_of_is_SomeI [of _ "fst entry" "snd entry"])
  then have new: "\<not> stands_for cfg s k q" if "pf_subject q = pf_subject ev" "pu_product q = fst entry" for q
    using other derived_keys(1) [of k "snd entry"] not_granted [OF assms(1), of k "fst entry"] that
    unfolding stands_for_def by metis
  have old: "\<not> stands_for cfg s k q" if "?x = Some q" for q
    using other derived_keys(2) [of k cfg "pu_product q"] not_granted [OF assms(1), of k "pu_product q"] assms(4) [OF that] that
    unfolding stands_for_def by (metis option.map(2))
  have "read_purchase (upsert_purchase row db) (pf_rail p) (pf_transaction p) = Some q \<Longrightarrow> \<not> stands_for cfg s k q" for q
    using True assms(4) new by (cases ?x) (auto simp: read_upsert row upserted_def)
  then show ?thesis
    using old True by (auto simp: purchase_rows [OF assms(2)] purchase_rows [OF upsert_one_row [OF assms(2)]])
next
  case False
  then have "read_purchase (upsert_purchase row db) (pf_rail p) (pf_transaction p) = read_purchase db (pf_rail p) (pf_transaction p)"
    unfolding read_upsert row row_facts by (rule if_not_P)
  then show ?thesis by (simp add: purchase_rows [OF assms(2)] purchase_rows [OF upsert_one_row [OF assms(2)]])
qed

section \<open>The invariant\<close>

text \<open>Of one holder's key at time \<open>n\<close>: its row is not kept by hand; when active it carries the expiry of
  a purchase that stands for it; and it outlives every standing purchase still running.\<close>

definition follows :: "payments_config \<Rightarrow> subject \<Rightarrow> string \<Rightarrow> millis \<Rightarrow> payments_db \<Rightarrow> bool" where
  "follows cfg s k n db \<longleftrightarrow> one_row_each db \<and>
     (\<forall>e. entitlement_of db s k = Some e \<longrightarrow> \<not> en_manual e \<and>
       (en_active e \<longrightarrow> (\<exists>p\<in>set (pd_purchases db). stands_for cfg s k p \<and> pf_expires_at p = en_expires_at e))) \<and>
     (\<forall>p\<in>set (pd_purchases db). stands_for cfg s k p \<and> unexpired n (pf_expires_at p) \<longrightarrow>
       (\<exists>e. entitlement_of db s k = Some e \<and> en_active e \<and> outlives (en_expires_at e) (pf_expires_at p)))"

lemma unexpired_earlier: "unexpired n' x \<Longrightarrow> n \<le> n' \<Longrightarrow> unexpired n x"
  by (cases x) (auto simp: unexpired_def)

lemma follows_later: "follows cfg s k n db \<Longrightarrow> n \<le> n' \<Longrightarrow> follows cfg s k n' db"
  unfolding follows_def using unexpired_earlier by blast

lemma follows_same:
  assumes "follows cfg s k n db" "one_row_each db'" "entitlement_of db' s k = entitlement_of db s k"
    and "\<And>p. p \<in> set (pd_purchases db') \<and> stands_for cfg s k p \<longleftrightarrow> p \<in> set (pd_purchases db) \<and> stands_for cfg s k p"
  shows "follows cfg s k n db'"
  unfolding follows_def assms(3) using assms(1,2) assms(4) unfolding follows_def by meson

lemma follows_elsewhere:
  assumes "follows cfg s k n db" "n \<le> n'" "one_row_each db'" "entitlement_of db' s k = entitlement_of db s k"
    and "pd_purchases db' = pd_purchases db"
  shows "follows cfg s k n' db'"
  by (rule follows_same [OF follows_later [OF assms(1,2)] assms(3,4)]) (simp add: assms(5))

lemma follows_derived:
  assumes "one_row_each db'" "\<not> en_manual e"
    and row: "entitlement_of db' s k = Some (refreshed n (winner cfg s k n db') e)"
  shows "follows cfg s k n db'"
proof (cases "winner cfg s k n db'")
  case None
  with assms show ?thesis by (auto simp: follows_def refreshed_def winner_none)
next
  case (Some w)
  then show ?thesis using assms winner_some [OF Some] by (auto simp: follows_def refreshed_def)
qed

lemma follows_delivered:
  assumes "follows cfg s k n db" "n \<le> pe_now env" "distinct (map fst (cf_products cfg))"
  shows "follows cfg s k (pe_now env) (deliver cfg (env, ev) db)"
proof -
  have one: "one_row_each db" "one_row_each (deliver cfg (env, ev) db)"
    using assms(1) act_one_row [of db cfg "Deliver env ev"] by (simp_all add: follows_def)
  obtain ans where "project_purchase cfg env ev db db id db = (ans, deliver cfg (env, ev) db)"
    by (cases "project_purchase cfg env ev db db id db") (simp add: deliver_def)
  then show ?thesis
  proof (cases rule: project_cases)
    case 1
    then show ?thesis using follows_later [OF assms(1,2)] by simp
  next
    case (2 entry)
    define row where "row = purchase_row env ev entry (read_purchase db (pf_rail ev) (pf_transaction ev))"
    define ks where "ks = keys_to_derive db cfg (snd entry) (map_option pu_product (read_purchase db (pf_rail ev) (pf_transaction ev))) (pf_subject ev)"
    have out: "deliver cfg (env, ev) db = project_batch cfg env ev row ks db" using 2(4) by (simp add: row_def ks_def)
    have "distinct ks" unfolding ks_def by (rule keys_distinct)
    note rows = entitlement_of_batch [OF this, of cfg env ev row db s k, folded out]
    have win: "winner cfg s k n' (deliver cfg (env, ev) db) = winner cfg s k n' (upsert_purchase row db)" for n'
      by (rule winner_purchases) (simp add: out batch_purchases)
    show ?thesis
    proof (cases "s = pf_subject ev \<and> k \<in> set ks")
      case True
      have "\<not> en_manual (or_else (cleared (pe_entitlement_id env k) s k (pe_now env)) (entitlement_of db s k))"
        using assms(1) by (cases "entitlement_of db s k") (simp_all add: follows_def)
      then show ?thesis by (rule follows_derived [OF one(2)]) (unfold rows win, rule if_P [OF True])
    next
      case False
      have "p \<in> set (pd_purchases (deliver cfg (env, ev) db)) \<and> stands_for cfg s k p \<longleftrightarrow> p \<in> set (pd_purchases db) \<and> stands_for cfg s k p" for p
        unfolding out batch_purchases
        by (rule standing_elsewhere [OF assms(3) one(1) 2(1) 2(3) False [unfolded ks_def] row_def])
      then show ?thesis using follows_same [OF follows_later [OF assms(1,2)] one(2)] rows False by simp
    qed
  qed
qed

lemma follows_act:
  assumes "follows cfg s k n db" "n \<le> act_time a" "distinct (map fst (cf_products cfg))" "\<not> by_hand s k a"
  shows "follows cfg s k (act_time a) (act_on cfg a db)"
proof -
  from assms(1) have one: "one_row_each db" by (simp add: follows_def)
  show ?thesis
  proof (cases a)
    case (Deliver env ev)
    then show ?thesis using follows_delivered assms by simp
  next
    case (Grant i s' k' expires now)
    then have "entitlement_of (act_on cfg a db) s k = entitlement_of db s k" "pd_purchases (act_on cfg a db) = pd_purchases db"
      using assms(4) by (auto simp: grant_entitlement_def entitlement_of_write)
    then show ?thesis by (rule follows_elsewhere [OF assms(1,2) act_one_row [OF one]])
  next
    case (Revoke i s' k' now)
    then have "entitlement_of (act_on cfg a db) s k = entitlement_of db s k" "pd_purchases (act_on cfg a db) = pd_purchases db"
      using assms(4) by (auto simp: revoke_entitlement_def entitlement_of_write)
    then show ?thesis by (rule follows_elsewhere [OF assms(1,2) act_one_row [OF one]])
  qed
qed

lemma follows_acted:
  assumes "distinct (map fst (cf_products cfg))" "sorted (map act_time acts)" "list_all (\<lambda>a. \<not> by_hand s k a \<and> act_time a \<le> n) acts"
  shows "follows cfg s k n (acted cfg acts)"
  using assms(2,3)
proof (induction acts arbitrary: n rule: rev_induct)
  case Nil
  then show ?case by (simp add: acted_def empty_payments_def follows_def one_row_each_def entitlement_of_def)
next
  case (snoc a acts)
  then have "follows cfg s k (act_time a) (acted cfg acts)" by (auto simp: sorted_append list_all_iff)
  then have "follows cfg s k (act_time a) (act_on cfg a (acted cfg acts))"
    using follows_act [OF _ order_refl assms(1)] snoc.prems by simp
  then show ?case using follows_later snoc.prems by (fastforce simp: acted_def)
qed

text \<open>What a holder is told of a key: whether its one row is active and has not run out.\<close>

lemma resolved_active:
  assumes "one_row_each db"
  shows "(\<exists>r\<in>set (resolve_entitlements db s t). re_key r = k \<and> re_active r) \<longleftrightarrow>
    (\<exists>e. entitlement_of db s k = Some e \<and> en_active e \<and> unexpired t (en_expires_at e))"
proof -
  have "(\<exists>r\<in>set (resolve_entitlements db s t). re_key r = k \<and> re_active r) \<longleftrightarrow>
      (\<exists>e\<in>set (pd_entitlements db). en_subject e = s \<and> en_key e = k \<and> en_active e \<and> unexpired t (en_expires_at e))"
    by (auto simp: resolve_entitlements_def)
  also have "\<dots> \<longleftrightarrow> (\<exists>e. entitlement_of db s k = Some e \<and> en_active e \<and> unexpired t (en_expires_at e))"
    using entitlement_rows [OF assms] entitlement_of_key by metis
  finally show ?thesis .
qed

lemma follows_resolved:
  assumes "follows cfg s k n db" "n \<le> t"
  shows "(\<exists>r\<in>set (resolve_entitlements db s t). re_key r = k \<and> re_active r) \<longleftrightarrow>
    (\<exists>p\<in>set (pd_purchases db). stands_for cfg s k p \<and> unexpired t (pf_expires_at p))"
proof -
  from assms(1) have "one_row_each db" by (simp add: follows_def)
  note told = resolved_active [OF this]
  show ?thesis unfolding told
  proof
    assume "\<exists>e. entitlement_of db s k = Some e \<and> en_active e \<and> unexpired t (en_expires_at e)"
    then obtain e where e: "entitlement_of db s k = Some e" "en_active e" "unexpired t (en_expires_at e)" by blast
    with assms(1) obtain p where "p \<in> set (pd_purchases db)" "stands_for cfg s k p" "pf_expires_at p = en_expires_at e"
      unfolding follows_def by blast
    with e(3) show "\<exists>p\<in>set (pd_purchases db). stands_for cfg s k p \<and> unexpired t (pf_expires_at p)" by auto
  next
    assume "\<exists>p\<in>set (pd_purchases db). stands_for cfg s k p \<and> unexpired t (pf_expires_at p)"
    then obtain p where p: "p \<in> set (pd_purchases db)" "stands_for cfg s k p" "unexpired t (pf_expires_at p)" by blast
    from p(3) have "unexpired n (pf_expires_at p)" by (rule unexpired_earlier [OF _ assms(2)])
    with assms(1) p(1,2) obtain e where "entitlement_of db s k = Some e" "en_active e" "outlives (en_expires_at e) (pf_expires_at p)"
      unfolding follows_def by blast
    with p(3) show "\<exists>e. entitlement_of db s k = Some e \<and> en_active e \<and> unexpired t (en_expires_at e)"
      using outlives_unexpired by blast
  qed
qed

section \<open>Rows kept by hand\<close>

lemma projection_keeps_manual:
  assumes "entitlement_of db s k = Some e" "en_manual e"
  shows "entitlement_of (snd (project_purchase cfg env ev r0 r1 later db)) s k = Some e"
proof -
  obtain ans db' where out: "project_purchase cfg env ev r0 r1 later db = (ans, db')" by (cases "project_purchase cfg env ev r0 r1 later db")
  then have "entitlement_of db' s k = Some e"
  proof (cases rule: project_cases)
    case 1
    then show ?thesis using assms by simp
  next
    case (2 entry)
    show ?thesis unfolding 2(4) entitlement_of_batch [OF keys_distinct] assms(1) using assms(2)
      by (simp add: refreshed_def or_else_def)
  qed
  then show ?thesis by (simp add: out)
qed

lemma granted_row:
  assumes "grant_entitlement cfg i s k expires now db = (None, db')"
  shows "\<exists>e. entitlement_of db' s k = Some e \<and> en_manual e \<and> en_active e \<and> en_expires_at e = expires"
proof (cases "entitlement_of db s k")
  case None
  with assms show ?thesis
    by (auto simp: grant_entitlement_def write_entitlement_def Let_def entitlement_of_def find_append split: if_splits)
next
  case (Some e)
  have "entitlement_of (write_entitlement i s k expires True now db) s k = map_option (overwritten s k expires True now) (entitlement_of db s k)"
    unfolding write_over [OF Some] unfolding entitlement_of_def by (simp add: entitlement_of_map)
  then show ?thesis using assms Some entitlement_of_key [OF Some]
    by (auto simp: grant_entitlement_def overwritten_def split: if_splits)
qed

end
