(* ===== verification/Purchases_Properties.thy ===== *)
theory Purchases_Properties
  imports Purchases_Follow
begin

text \<open>What the purchase projection promises, and where it does not keep it.\<close>

section \<open>A small store\<close>

definition shop :: payments_config where
  "shop = \<lparr>cf_products =
     [(''basic'', \<lparr>pr_type = Subscription, pr_entitlements = [''reader''], pr_sku = (\<lambda>rl. if rl = LemonSqueezy then Some ''1'' else None),
         pr_grant = None, pr_clawback = False\<rparr>),
      (''plus'', \<lparr>pr_type = Subscription, pr_entitlements = [''editor''], pr_sku = (\<lambda>rl. if rl = LemonSqueezy then Some ''2'' else None),
         pr_grant = None, pr_clawback = False\<rparr>),
      (''pro'', \<lparr>pr_type = Subscription, pr_entitlements = [''admin''], pr_sku = (\<lambda>rl. if rl = LemonSqueezy then Some ''3'' else None),
         pr_grant = None, pr_clawback = False\<rparr>)],
     cf_declared = [''reader'', ''editor'', ''admin''], cf_grace = True\<rparr>"

definition ada :: subject where
  "ada = \<lparr>sb_kind = User_subject, sb_id = ''ada''\<rparr>"

definition plan_event :: "string \<Rightarrow> millis \<Rightarrow> provider_event" where
  "plan_event sku at = \<lparr>pf_rail = LemonSqueezy, pf_transaction = ''sub'', pf_sku = sku, pf_subject = ada, pf_status = Active,
     pf_role = State, pf_environment = Production, pf_purchased_at = 0, pf_expires_at = Some 1000, pf_revoked_at = None,
     pf_resumes_at = None, pf_original = None, pf_amount = None, pf_currency = None, pf_quantity = None,
     pf_event_at = at, pf_payload = ''''\<rparr>"

definition at_time :: "millis \<Rightarrow> projection_env" where
  "at_time t = \<lparr>pe_environment = Production, pe_now = t, pe_purchase_id = ''p'', pe_entitlement_id = id\<rparr>"

definition subscribed :: payments_db where
  "subscribed = deliver shop (at_time 10, plan_event ''1'' 10) empty_payments"

section \<open>Properties\<close>

text \<open>C9: Whatever stale states the projections read and however they and the manual writes interleave,
  there is one row for each transaction and one for each holder's key; and a purchase never changes its
  owner, its role, its id or its creation, and only a newer event of the provider changes it at all.\<close>

theorem purchases_interleaved_safe:
  assumes "payments_run cfg db db'" "one_row_each db" "read_purchase db rl tx = Some p"
  shows "one_row_each db' \<and> (\<exists>q. read_purchase db' rl tx = Some q \<and> later_purchase p q)"
  using run_safe [OF assms(1)] assms(2,3) by blast

theorem purchases_interleaved_safe_witness:
  "\<exists>p. one_row_each (deliver shop (at_time 20, plan_event ''3'' 20) subscribed) \<and>
    (\<exists>q. read_purchase (deliver shop (at_time 20, plan_event ''3'' 20) subscribed) LemonSqueezy ''sub'' = Some q \<and> later_purchase p q)"
proof -
  let ?p = "purchase_row (at_time 10) (plan_event ''1'' 10) (hd (cf_products shop)) None"
  have "payments_run shop subscribed (deliver shop (at_time 20, plan_event ''3'' 20) subscribed)"
    using payments_run.Next [OF payments_run.Start act_is_step [of shop subscribed "Deliver (at_time 20) (plan_event ''3'' 20)"]] by simp
  moreover have "one_row_each subscribed" by code_simp
  moreover have "read_purchase subscribed LemonSqueezy ''sub'' = Some ?p" by code_simp
  ultimately show ?thesis using purchases_interleaved_safe by blast
qed



text \<open>C5: Entitlements follow purchases: when every projection reads the tables it writes to and the clock
  does not go back, a key no one granted or revoked by hand is active at any later time exactly when some
  purchase of the holder's stands for it, in a granting status and not yet expired.\<close>

theorem entitlements_follow_purchases:
  assumes "distinct (map fst (cf_products cfg))" "sorted (map act_time acts)"
    and "list_all (\<lambda>a. \<not> by_hand s k a \<and> act_time a \<le> t) acts"
  shows "(\<exists>r\<in>set (resolve_entitlements (acted cfg acts) s t). re_key r = k \<and> re_active r) \<longleftrightarrow>
    (\<exists>p\<in>set (pd_purchases (acted cfg acts)). stands_for cfg s k p \<and> unexpired t (pf_expires_at p))"
  by (rule follows_resolved [OF follows_acted [OF assms] order_refl])

theorem entitlements_follow_purchases_witness:
  "(\<exists>r\<in>set (resolve_entitlements (acted shop [Deliver (at_time 10) (plan_event ''1'' 10), Deliver (at_time 20) (plan_event ''3'' 20)])
       ada 50). re_key r = ''admin'' \<and> re_active r)"
proof -
  let ?acts = "[Deliver (at_time 10) (plan_event ''1'' 10), Deliver (at_time 20) (plan_event ''3'' 20)]"
  have "distinct (map fst (cf_products shop))" by code_simp
  moreover have "sorted (map act_time ?acts)" by code_simp
  moreover have "list_all (\<lambda>a. \<not> by_hand ada ''admin'' a \<and> act_time a \<le> 50) ?acts" by code_simp
  ultimately have iff: "(\<exists>r\<in>set (resolve_entitlements (acted shop ?acts) ada 50). re_key r = ''admin'' \<and> re_active r) \<longleftrightarrow>
      (\<exists>p\<in>set (pd_purchases (acted shop ?acts)). stands_for shop ada ''admin'' p \<and> unexpired 50 (pf_expires_at p))"
    by (rule entitlements_follow_purchases)
  have "list_ex (\<lambda>p. stands_for shop ada ''admin'' p \<and> unexpired 50 (pf_expires_at p)) (pd_purchases (acted shop ?acts))"
    by code_simp
  then show ?thesis unfolding iff list_ex_iff .
qed


text \<open>A key granted by hand is the team's until it is revoked: no projection of any provider event,
  whatever it reads, changes the row, so the holder keeps the access to the expiry the grant named.\<close>

theorem grant_by_hand_survives:
  assumes "grant_entitlement cfg i s k expires now db = (None, db1)"
    and "rtranclp (\<lambda>a b. \<exists>env ev r0 r1 later. b = snd (project_purchase cfg env ev r0 r1 later a)) db1 db2"
  shows "\<exists>e. entitlement_of db2 s k = Some e \<and> en_manual e \<and> en_active e \<and> en_expires_at e = expires"
  using assms(2)
proof (induction rule: rtranclp_induct)
  case base
  then show ?case using granted_row assms(1) by blast
next
  case (step a b)
  then obtain e where "entitlement_of a s k = Some e" "en_manual e" "en_active e" "en_expires_at e = expires" by blast
  then show ?case using step.hyps(2) projection_keeps_manual by blast
qed

theorem grant_by_hand_survives_witness:
  "\<exists>e. entitlement_of (deliver shop (at_time 20, plan_event ''2'' 20)
      (snd (grant_entitlement shop ''g'' ada ''editor'' (Some 500) 5 subscribed))) ada ''editor'' = Some e \<and>
    en_manual e \<and> en_active e \<and> en_expires_at e = Some 500"
proof (rule grant_by_hand_survives [where cfg = shop and i = "''g''" and now = 5 and db = subscribed])
  let ?db = "snd (grant_entitlement shop ''g'' ada ''editor'' (Some 500) 5 subscribed)"
  show "grant_entitlement shop ''g'' ada ''editor'' (Some 500) 5 subscribed = (None, ?db)"
    by (simp add: grant_entitlement_def shop_def)
  show "rtranclp (\<lambda>a b. \<exists>env ev r0 r1 later. b = snd (project_purchase shop env ev r0 r1 later a)) ?db
      (deliver shop (at_time 20, plan_event ''2'' 20) ?db)"
    unfolding deliver_def fst_conv snd_conv by (rule r_into_rtranclp) blast
qed

end
