(* ===== verification/Purchase_Grants_Properties.thy ===== *)
theory Purchase_Grants_Properties
  imports Purchase_Grants_Laws Purchases_Properties
begin

text \<open>Purchases and the ledger together: what is credited, how often, and what a refund makes of it.\<close>

section \<open>A shop that sells coins\<close>

definition coin_shop :: payments_config where
  "coin_shop = \<lparr>cf_products = [(''coins'', \<lparr>pr_type = Consumable, pr_entitlements = [], pr_sku = (\<lambda>rl. Some ''c''),
      pr_grant = Some \<lparr>lg_currency = ''coins'', lg_amount = 100\<rparr>, pr_clawback = True\<rparr>)],
     cf_declared = [], cf_grace = True\<rparr>"

definition coin_event :: "purchase_status \<Rightarrow> millis \<Rightarrow> provider_event" where
  "coin_event st at = (plan_event ''c'' at)\<lparr>pf_status := st, pf_role := Charge\<rparr>"

definition coin_purchase :: "string \<Rightarrow> purchase" where
  "coin_purchase i = (purchase_row (at_time 10) (coin_event Active 10) (hd (cf_products coin_shop)) None)\<lparr>pu_id := i\<rparr>"

section \<open>Properties\<close>



text \<open>A settled fulfillment is settled for good: once a purchase was fulfilled with no refused reversal,
  fulfilling it again after any other ledger operations, whenever a redelivery comes, answers the same
  and leaves the ledger as it is.\<close>

theorem fulfillment_redelivered:
  assumes "ledger_ok bank" "fulfill_purchase cfg True p at bank = (Inr (done_it, []), bank1)"
  shows "fulfill_purchase cfg True p later (ledger_ops.run bank1 ops) = (Inr (done_it, []), ledger_ops.run bank1 ops)"
proof (cases "ledger_grant_for cfg (pu_product p) = None")
  case True
  with assms(2) show ?thesis by (simp add: fulfill_purchase_def)
next
  case False
  from assms(2) False obtain gs os b where a: "apply_grants cfg p at bank = Inr (gs, b)"
    and c: "clawback_grants cfg p at b = Inr (os, bank1)" and d: "done_it = \<lparr>fu_granted = gs, fu_clawed_back = os\<rparr>" "alerts os = []"
    by (auto simp: fulfill_purchase_def split: sum.splits)
  have b: "ledger_ok b" using apply_ok [OF assms(1), of cfg p at] a by simp
  have b1: "ledger_ok bank1" using clawback_ok [OF b, of cfg p at] c by simp
  note run = run_extends [OF b1, of ops]
  have "extends b (ledger_ops.run bank1 ops)" using extends_trans clawback_extends [OF b c] run by blast
  then have "apply_grants cfg p later (ledger_ops.run bank1 ops) = Inr (gs, ledger_ops.run bank1 ops)"
    using apply_again [OF assms(1) a] run by blast
  moreover have "clawback_grants cfg p later (ledger_ops.run bank1 ops) = Inr (os, ledger_ops.run bank1 ops)"
    using clawback_again [OF b c d(2)] run by blast
  ultimately show ?thesis unfolding fulfill_purchase_def if_not_P [OF False] using d by simp
qed

theorem fulfillment_redelivered_witness:
  "\<exists>x b1. fulfill_purchase coin_shop True (coin_purchase ''p'') 1 empty_ledger = (Inr (x, []), b1) \<and>
    fulfill_purchase coin_shop True (coin_purchase ''p'') 9 (ledger_ops.run b1 [Op_debit ''ada'' ''coins'' (JSInt 40) ''spent'' None 5]) =
      (Inr (x, []), ledger_ops.run b1 [Op_debit ''ada'' ''coins'' (JSInt 40) ''spent'' None 5])"
proof -
  let ?f = "fulfill_purchase coin_shop True (coin_purchase ''p'') 1 empty_ledger"
  have "(case fst ?f of Inl e \<Rightarrow> False | Inr r \<Rightarrow> snd r = [])" by code_simp
  then obtain x where "fst ?f = Inr (x, [])" by (cases "fst ?f") auto
  then have "?f = (Inr (x, []), snd ?f)" by (metis prod.collapse)
  then show ?thesis using fulfillment_redelivered [OF ledger_ok_empty] by blast
qed


text \<open>A holder's reference reads back: decoding what a valid holder was encoded as gives that holder,
  and a reference that decodes at all is exactly its holder's encoding, so two holders share none.\<close>

theorem subject_reference_round_trip:
  "(valid_subject_id (sb_id s) \<longrightarrow> decode_subject_reference (encode_subject_reference s) = Some s) \<and>
   (decode_subject_reference r = Some s \<longrightarrow> encode_subject_reference s = r)"
proof
  show "valid_subject_id (sb_id s) \<longrightarrow> decode_subject_reference (encode_subject_reference s) = Some s"
  proof (cases "sb_kind s")
    case User_subject
    then show ?thesis by (cases s) (simp add: encode_subject_reference_def decode_subject_reference_def Let_def kind_name_def)
  next
    case Organization_subject
    then show ?thesis by (cases s) (simp add: encode_subject_reference_def decode_subject_reference_def Let_def kind_name_def)
  qed
  show "decode_subject_reference r = Some s \<longrightarrow> encode_subject_reference s = r"
  proof
    assume dec: "decode_subject_reference r = Some s"
    define at where "at = length (takeWhile (\<lambda>ch. ch \<noteq> CHR '':'') r)"
    have some: "\<not> (at = length r \<or> at = 0)"
      using dec unfolding decode_subject_reference_def Let_def at_def [symmetric] by (rule contrapos_pn) simp
    obtain k where k: "find (\<lambda>k. kind_name k = take at r) [User_subject, Organization_subject] = Some k"
      "s = \<lparr>sb_kind = k, sb_id = drop (at + 1) r\<rparr>"
      using dec some unfolding decode_subject_reference_def Let_def at_def [symmetric] if_not_P [OF some]
      by (cases "find (\<lambda>k. kind_name k = take at r) [User_subject, Organization_subject]") (simp_all split: if_splits)
    have at: "at < length r" "kind_name (sb_kind s) = take at r" "sb_id s = drop (at + 1) r"
      using some find_in_set [OF k(1)] k(2) length_takeWhile_le [of "\<lambda>ch. ch \<noteq> CHR '':''" r] by (simp_all add: at_def)
    have "r ! at = CHR '':''" using nth_length_takeWhile [of "\<lambda>ch. ch \<noteq> CHR '':''" r] at(1) by (simp add: at_def)
    then show "encode_subject_reference s = r"
      using at id_take_nth_drop [OF at(1)] by (simp add: encode_subject_reference_def)
  qed
qed

theorem subject_reference_round_trip_witness:
  "decode_subject_reference (encode_subject_reference ada) = Some ada \<and> encode_subject_reference ada = ''user:ada''"
proof
  have "valid_subject_id (sb_id ada)" by code_simp
  then show "decode_subject_reference (encode_subject_reference ada) = Some ada" using subject_reference_round_trip by blast
  have "decode_subject_reference ''user:ada'' = Some ada" by code_simp
  then show "encode_subject_reference ada = ''user:ada''" using subject_reference_round_trip by blast
qed

end
