(* ===== verification/Role_Catalog.thy ===== *)
theory Role_Catalog
  imports Pithy_Prelude
begin

text \<open>
  The role catalog of \<open>packages/organization\<close> (\<open>roles/roles.ts\<close>): the powers the kit reserves, the matrix
  an adopter declares, the checks that admit it, and the questions a route asks of it.
\<close>

section \<open>Powers\<close>

definition organization_powers :: "string list" where
  "organization_powers =
     [''organization:read'', ''organization:manage'', ''organization:delete'', ''members:manage'', ''billing:manage'']"

definition capability_powers :: "string list" where
  "capability_powers = [''media:manage'', ''storage:manage'']"

definition kit_powers :: "string list" where
  "kit_powers = organization_powers @ capability_powers"

definition is_kit_power :: "string \<Rightarrow> bool" where
  "is_kit_power p \<longleftrightarrow> p \<in> set kit_powers"

section \<open>The catalog\<close>

text \<open>What is declared: the matrix holds each role once, in the order its keys are listed.\<close>

record role_input =
  ri_powers :: "string list"
  ri_roles :: "(string \<times> string list) list"
  ri_administrative :: string
  ri_nests :: "string list"
  ri_unassignable :: "string list"

record role_catalog =
  rc_powers :: "string list"
  rc_matrix :: "(string \<times> string list) list"
  rc_administrative :: string
  rc_assignable :: "string list"

definition rc_roles :: "role_catalog \<Rightarrow> string list" where
  "rc_roles c = map fst (rc_matrix c)"

text \<open>The powers a role holds, none for a name the matrix does not have.\<close>

definition held :: "(string \<times> string list) list \<Rightarrow> string \<Rightarrow> string list" where
  "held matrix role = or_else [] (map_of matrix role)"

definition role_allows :: "role_catalog \<Rightarrow> string \<Rightarrow> string \<Rightarrow> bool" where
  "role_allows c role p \<longleftrightarrow> p \<in> set (held (rc_matrix c) role)"

definition administers :: "role_catalog \<Rightarrow> string \<Rightarrow> bool" where
  "administers c role \<longleftrightarrow> role_allows c role (rc_administrative c)"

definition administering_roles :: "role_catalog \<Rightarrow> string list" where
  "administering_roles c = filter (administers c) (rc_roles c)"

definition powers_lost :: "role_catalog \<Rightarrow> string \<Rightarrow> string \<Rightarrow> string list" where
  "powers_lost c a b = filter (\<lambda>p. \<not> role_allows c b p) (held (rc_matrix c) a)"

section \<open>Admission\<close>

datatype catalog_fault =
  Reserved_power string
| Duplicate_power string
| No_roles
| Undeclared_power string string
| Undeclared_administrative string
| Unheld_power string
| Unadministered string
| Undeclared_nest string
| Not_nested string string
| Undeclared_exclusion string
| Nothing_assignable

text \<open>The first member a check finds wrong.\<close>

definition refuse_first :: "('a \<Rightarrow> catalog_fault) \<Rightarrow> ('a \<Rightarrow> bool) \<Rightarrow> 'a list \<Rightarrow> catalog_fault + unit" where
  "refuse_first fault bad xs = (case find bad xs of None \<Rightarrow> Inr () | Some x \<Rightarrow> Inl (fault x))"

fun later_duplicates :: "string list \<Rightarrow> string list \<Rightarrow> string list" where
  "later_duplicates seen [] = []"
| "later_duplicates seen (p # ps) = (if p \<in> set seen then p # later_duplicates seen ps else later_duplicates (p # seen) ps)"

fun nest_faults :: "(string \<times> string list) list \<Rightarrow> string list \<Rightarrow> (string \<times> string) list" where
  "nest_faults matrix (weaker # stronger # rest) =
     (if set (held matrix weaker) \<subseteq> set (held matrix stronger) then [] else [(weaker, stronger)]) @
     nest_faults matrix (stronger # rest)"
| "nest_faults matrix _ = []"

definition some_role_holds :: "(string \<times> string list) list \<Rightarrow> string \<Rightarrow> bool" where
  "some_role_holds matrix p \<longleftrightarrow> list_ex (\<lambda>e. p \<in> set (snd e)) matrix"

definition define_roles :: "role_input \<Rightarrow> catalog_fault + role_catalog" where
  "define_roles inp =
     (let powers = kit_powers @ ri_powers inp; roles = map fst (ri_roles inp);
          excluded = firsts (ri_unassignable inp); assignable = filter (\<lambda>r. r \<notin> set excluded) roles in
      and_then (refuse_first Reserved_power is_kit_power (ri_powers inp)) (\<lambda>_.
      and_then (refuse_first Duplicate_power (\<lambda>_. True) (later_duplicates [] (ri_powers inp))) (\<lambda>_.
      and_then (guard No_roles (roles \<noteq> [])) (\<lambda>_.
      and_then (refuse_first (\<lambda>(r, p). Undeclared_power r p) (\<lambda>(r, p). p \<notin> set powers)
        (concat (map (\<lambda>(r, ps). map (Pair r) ps) (ri_roles inp)))) (\<lambda>_.
      and_then (guard (Undeclared_administrative (ri_administrative inp)) (ri_administrative inp \<in> set powers)) (\<lambda>_.
      and_then (refuse_first Unheld_power (\<lambda>p. \<not> some_role_holds (ri_roles inp) p) organization_powers) (\<lambda>_.
      and_then (guard (Unadministered (ri_administrative inp)) (some_role_holds (ri_roles inp) (ri_administrative inp))) (\<lambda>_.
      and_then (refuse_first Undeclared_nest (\<lambda>r. r \<notin> set roles) (ri_nests inp)) (\<lambda>_.
      and_then (refuse_first (\<lambda>(w, s). Not_nested w s) (\<lambda>_. True) (nest_faults (ri_roles inp) (ri_nests inp))) (\<lambda>_.
      and_then (refuse_first Undeclared_exclusion (\<lambda>r. r \<notin> set roles) excluded) (\<lambda>_.
      and_then (guard Nothing_assignable (assignable \<noteq> [])) (\<lambda>_.
        Inr \<lparr>rc_powers = powers, rc_matrix = ri_roles inp, rc_administrative = ri_administrative inp,
             rc_assignable = assignable\<rparr>))))))))))))"

section \<open>Composition\<close>

datatype compose_fault = Power_undeclared string string | Power_unheld string string

text \<open>Each composed capability's powers, declared and held by some role.\<close>

definition require_composed_powers :: "role_catalog \<Rightarrow> (string \<times> string list) list \<Rightarrow> compose_fault + unit" where
  "require_composed_powers c capabilities =
     (case find (\<lambda>(n, p). p \<notin> set (rc_powers c) \<or> \<not> list_ex (\<lambda>r. role_allows c r p) (rc_roles c))
        (concat (map (\<lambda>(n, ps). map (Pair n) ps) capabilities)) of
       None \<Rightarrow> Inr ()
     | Some (n, p) \<Rightarrow> Inl (if p \<notin> set (rc_powers c) then Power_undeclared n p else Power_unheld n p))"

section \<open>Admitted catalogs\<close>

lemma refuse_first_ok [simp]: "refuse_first fault bad xs = Inr u \<longleftrightarrow> (\<forall>x\<in>set xs. \<not> bad x)"
  by (simp add: refuse_first_def find_none_iff split: option.split) (metis find_none_iff not_None_eq)

text \<open>What admission checked: everything \<open>defined\<close> collects.\<close>

definition well_defined :: "role_catalog \<Rightarrow> bool" where
  "well_defined c \<longleftrightarrow> rc_assignable c \<noteq> [] \<and> set (rc_assignable c) \<subseteq> set (rc_roles c) \<and>
     (\<exists>r\<in>set (rc_roles c). administers c r) \<and>
     (\<forall>p\<in>set organization_powers. \<exists>r\<in>set (rc_roles c). role_allows c r p) \<and>
     (\<forall>r p. role_allows c r p \<longrightarrow> p \<in> set (rc_powers c))"

lemma held_iff: "distinct (map fst matrix) \<Longrightarrow> p \<in> set (held matrix r) \<longleftrightarrow> (\<exists>ps. (r, ps) \<in> set matrix \<and> p \<in> set ps)"
proof (cases "map_of matrix r")
  case None
  then have "r \<notin> fst ` set matrix" by (simp add: map_of_eq_None_iff)
  then show ?thesis using None by (force simp: held_def)
next
  case (Some ps)
  assume "distinct (map fst matrix)"
  then have "(r, qs) \<in> set matrix \<longleftrightarrow> qs = ps" for qs using Some by (metis map_of_SomeD map_of_is_SomeI option.inject)
  then show ?thesis using Some by (simp add: held_def)
qed

lemma some_role_iff:
  assumes "distinct (map fst matrix)"
  shows "some_role_holds matrix p \<longleftrightarrow> (\<exists>r\<in>set (map fst matrix). p \<in> set (held matrix r))"
  unfolding some_role_holds_def held_iff [OF assms] list_ex_iff by force

text \<open>Neighbours that nest make the whole order nest.\<close>

lemma nest_faults_nested:
  "nest_faults matrix rs = [] \<Longrightarrow> sorted_wrt (\<lambda>a b. set (held matrix a) \<subseteq> set (held matrix b)) rs"
proof (induction matrix rs rule: nest_faults.induct)
  case (1 matrix weaker stronger rest)
  then have "set (held matrix weaker) \<subseteq> set (held matrix stronger)"
    "sorted_wrt (\<lambda>a b. set (held matrix a) \<subseteq> set (held matrix b)) (stronger # rest)"
    by (simp_all split: if_splits)
  then show ?case by auto
qed simp_all

lemma defined:
  assumes "define_roles inp = Inr c" "distinct (map fst (ri_roles inp))"
  shows "well_defined c" "sorted_wrt (\<lambda>a b. set (held (rc_matrix c) a) \<subseteq> set (held (rc_matrix c) b)) (ri_nests inp)"
    "rc_matrix c = ri_roles inp" "rc_administrative c = ri_administrative inp"
    "set (rc_assignable c) = set (rc_roles c) - set (ri_unassignable inp)"
proof -
  note steps = assms(1) [unfolded define_roles_def Let_def and_then_eq_Inr guard_eq_Inr refuse_first_ok, simplified]
  have c: "c = \<lparr>rc_powers = kit_powers @ ri_powers inp, rc_matrix = ri_roles inp, rc_administrative = ri_administrative inp,
      rc_assignable = filter (\<lambda>r. r \<notin> set (ri_unassignable inp)) (map fst (ri_roles inp))\<rparr>" using steps by simp
  then show "rc_matrix c = ri_roles inp" "rc_administrative c = ri_administrative inp"
    "set (rc_assignable c) = set (rc_roles c) - set (ri_unassignable inp)" by (auto simp: rc_roles_def)
  show "sorted_wrt (\<lambda>a b. set (held (rc_matrix c) a) \<subseteq> set (held (rc_matrix c) b)) (ri_nests inp)"
  proof (rule nest_faults_nested)
    have "\<forall>a b. (a, b) \<notin> set (nest_faults (ri_roles inp) (ri_nests inp))" using steps by blast
    then have "nest_faults (ri_roles inp) (ri_nests inp) = []"
      by (metis list.set_intros(1) neq_Nil_conv surj_pair)
    then show "nest_faults (rc_matrix c) (ri_nests inp) = []" by (simp add: c)
  qed
  have matrix: "rc_matrix c = ri_roles inp" "rc_powers c = kit_powers @ ri_powers inp" by (simp_all add: c)
  have allows: "role_allows c r p \<longleftrightarrow> (\<exists>ps. (r, ps) \<in> set (ri_roles inp) \<and> p \<in> set ps)" for r p
    unfolding role_allows_def matrix by (rule held_iff [OF assms(2)])
  have some: "\<exists>r\<in>set (rc_roles c). role_allows c r p" if "some_role_holds (ri_roles inp) p" for p
    using that some_role_iff [OF assms(2)] by (simp add: role_allows_def rc_roles_def c)
  have declared: "\<forall>r ps p. (r, ps) \<in> set (ri_roles inp) \<and> p \<in> set ps \<longrightarrow> p \<in> set (kit_powers @ ri_powers inp)"
    using steps by fastforce
  show "well_defined c"
    unfolding well_defined_def
  proof (intro conjI)
    show "rc_assignable c \<noteq> []" using steps by (simp add: c)
    show "set (rc_assignable c) \<subseteq> set (rc_roles c)" by (auto simp: c rc_roles_def)
    show "\<exists>r\<in>set (rc_roles c). administers c r" using steps some unfolding administers_def by (simp add: c)
    show "\<forall>p\<in>set organization_powers. \<exists>r\<in>set (rc_roles c). role_allows c r p" using steps some by blast
    show "\<forall>r p. role_allows c r p \<longrightarrow> p \<in> set (rc_powers c)" using declared unfolding allows matrix by blast
  qed
qed

end
