(* ===== verification/Roster.thy ===== *)
theory Roster
  imports Role_Catalog
begin

text \<open>
  The roster of \<open>packages/organization\<close> (\<open>members/members.ts\<close>): a member's and an operator's writes. Each
  operation reads the tables, decides, writes one statement or batch, and may read again to say why
  nothing was written. \<open>r\<close> is the states its reads see, one after another, \<open>db\<close> the state the write meets,
  and \<open>later\<close> what others make of it before the last read.
\<close>

section \<open>Tables\<close>

record membership =
  mb_id :: string
  mb_org :: string
  mb_user :: user_id
  mb_role :: string
  mb_created :: millis

record nomination =
  nm_org :: string
  nm_membership :: string
  nm_by :: user_id
  nm_expires :: millis
  nm_created :: millis

record acting =
  ac_session :: string
  ac_user :: user_id
  ac_org :: string

text \<open>The organizations with their seat limits, and the rows in the order they were inserted.\<close>

record tenancy =
  tn_orgs :: "(string \<times> nat option) list"
  tn_members :: "membership list"
  tn_nominations :: "nomination list"
  tn_acting :: "acting list"

datatype org_error =
  Forbidden | Role_invalid | No_such_member | Last_administrator | Last_owner | Stale_role | Already_owns |
  Nomination_invalid | Roles_invalid | Needs_ownership_scope | Already_member string | Seat_limit nat

type_synonym reads = "nat \<Rightarrow> tenancy"

section \<open>Reads\<close>

definition in_org :: "string \<Rightarrow> string \<Rightarrow> membership \<Rightarrow> bool" where
  "in_org org i m \<longleftrightarrow> mb_id m = i \<and> mb_org m = org"

definition require_membership :: "role_catalog \<Rightarrow> tenancy \<Rightarrow> string \<Rightarrow> string \<Rightarrow> org_error + membership" where
  "require_membership c t org i = (case find (in_org org i) (tn_members t) of
     None \<Rightarrow> Inl No_such_member
   | Some m \<Rightarrow> if mb_role m \<in> set (rc_roles c) then Inr m else Inl No_such_member)"

definition holders :: "tenancy \<Rightarrow> string \<Rightarrow> string \<Rightarrow> membership list" where
  "holders t org role = [m \<leftarrow> tn_members t. mb_org m = org \<and> mb_role m = role]"

definition count_administrators :: "role_catalog \<Rightarrow> tenancy \<Rightarrow> string \<Rightarrow> nat" where
  "count_administrators c t org = length [m \<leftarrow> tn_members t. mb_org m = org \<and> mb_role m \<in> set (administering_roles c)]"

definition count_members :: "tenancy \<Rightarrow> string \<Rightarrow> nat" where
  "count_members t org = length [m \<leftarrow> tn_members t. mb_org m = org]"

definition refuse_if_last_administrator :: "role_catalog \<Rightarrow> tenancy \<Rightarrow> string \<Rightarrow> membership \<Rightarrow> org_error + unit" where
  "refuse_if_last_administrator c t org m =
     (if \<not> administers c (mb_role m) then Inr () else guard Last_administrator (count_administrators c t org > 1))"

text \<open>The floor, as the statement carries it: somebody other than this membership holds one of the roles.\<close>

definition still_held :: "tenancy \<Rightarrow> string \<Rightarrow> string \<Rightarrow> string list \<Rightarrow> bool" where
  "still_held t org i roles \<longleftrightarrow> list_ex (\<lambda>m. mb_org m = org \<and> mb_role m \<in> set roles \<and> mb_id m \<noteq> i) (tn_members t)"

definition current_role :: "tenancy \<Rightarrow> string \<Rightarrow> string \<Rightarrow> string option" where
  "current_role t org i = map_option mb_role (find (in_org org i) (tn_members t))"

section \<open>Writes\<close>

definition set_role :: "(membership \<Rightarrow> bool) \<Rightarrow> string \<Rightarrow> tenancy \<Rightarrow> tenancy" where
  "set_role hit role t = t\<lparr>tn_members := map (\<lambda>m. if hit m then m\<lparr>mb_role := role\<rparr> else m) (tn_members t)\<rparr>"

definition delete_members :: "(membership \<Rightarrow> bool) \<Rightarrow> tenancy \<Rightarrow> tenancy" where
  "delete_members hit t = t\<lparr>tn_members := [m \<leftarrow> tn_members t. \<not> hit m]\<rparr>"

definition delete_acting :: "(acting \<Rightarrow> bool) \<Rightarrow> tenancy \<Rightarrow> tenancy" where
  "delete_acting hit t = t\<lparr>tn_acting := [a \<leftarrow> tn_acting t. \<not> hit a]\<rparr>"

definition delete_nominations :: "(nomination \<Rightarrow> bool) \<Rightarrow> tenancy \<Rightarrow> tenancy" where
  "delete_nominations hit t = t\<lparr>tn_nominations := [n \<leftarrow> tn_nominations t. \<not> hit n]\<rparr>"

definition hits :: "(membership \<Rightarrow> bool) \<Rightarrow> tenancy \<Rightarrow> nat" where
  "hits hit t = length (filter hit (tn_members t))"

section \<open>A member's rules\<close>

record member_actor =
  ma_user :: user_id
  ma_role :: string

definition assert_power :: "role_catalog \<Rightarrow> string \<Rightarrow> string \<Rightarrow> org_error + unit" where
  "assert_power c role p = guard Forbidden (role_allows c role p)"

definition require_may_assign :: "role_catalog \<Rightarrow> string \<Rightarrow> string \<Rightarrow> org_error + unit" where
  "require_may_assign c actor_role assigned =
     guard Forbidden (\<not> administers c assigned \<or> role_allows c actor_role ''members:manage'')"

definition refuse_if_unassignable :: "role_catalog \<Rightarrow> membership \<Rightarrow> org_error + unit" where
  "refuse_if_unassignable c m = guard Forbidden (mb_role m \<in> set (rc_assignable c))"

definition refuse_self_demotion :: "membership \<Rightarrow> member_actor \<Rightarrow> bool \<Rightarrow> org_error + unit" where
  "refuse_self_demotion m actor demoting = guard Forbidden (\<not> demoting \<or> mb_user m \<noteq> ma_user actor)"

definition refuse_unwritten :: "bool \<Rightarrow> org_error" where
  "refuse_unwritten present = (if present then Last_administrator else No_such_member)"

section \<open>A role change\<close>

text \<open>Answered with the membership as it is now and the role it was decided from.\<close>

definition change_decision ::
  "role_catalog \<Rightarrow> string \<Rightarrow> string \<Rightarrow> string \<Rightarrow> member_actor \<Rightarrow> reads \<Rightarrow> org_error + (membership \<times> bool)" where
  "change_decision c org i role actor r =
     and_then (assert_power c (ma_role actor) ''organization:manage'') (\<lambda>_.
     and_then (guard Role_invalid (role \<in> set (rc_assignable c))) (\<lambda>_.
     and_then (require_membership c (r 0) org i) (\<lambda>target.
     and_then (refuse_if_unassignable c target) (\<lambda>_.
     and_then (require_may_assign c (ma_role actor) role) (\<lambda>_.
     let demoting = administers c (mb_role target) \<and> \<not> administers c role in
     and_then (refuse_self_demotion target actor demoting) (\<lambda>_.
     and_then (if demoting then refuse_if_last_administrator c (r 1) org target else Inr ()) (\<lambda>_.
       Inr (target, demoting))))))))"

definition change_role ::
  "role_catalog \<Rightarrow> string \<Rightarrow> string \<Rightarrow> string \<Rightarrow> member_actor \<Rightarrow> reads \<Rightarrow> (tenancy \<Rightarrow> tenancy) \<Rightarrow> tenancy \<Rightarrow>
     (org_error + membership \<times> string) \<times> tenancy" where
  "change_role c org i role actor r later db = (case change_decision c org i role actor r of
     Inl e \<Rightarrow> (Inl e, db)
   | Inr (target, demoting) \<Rightarrow>
       let hit = (\<lambda>m. in_org org (mb_id target) m \<and> (demoting \<longrightarrow> still_held db org (mb_id target) (administering_roles c)));
           db' = set_role hit role db in
       (if hits hit db \<noteq> 1 then Inl (refuse_unwritten (current_role (later db') org (mb_id target) \<noteq> None))
        else Inr (target\<lparr>mb_role := role\<rparr>, mb_role target), db'))"

section \<open>An end of membership\<close>

datatype end_outcome = Removed | Gone | Floored | Stale

definition delete_membership_batch :: "string \<Rightarrow> membership \<Rightarrow> string list list \<Rightarrow> bool \<Rightarrow> tenancy \<Rightarrow> tenancy" where
  "delete_membership_batch org target floors spend_offers_made db =
     (let hit = (\<lambda>m. in_org org (mb_id target) m \<and> mb_role m = mb_role target \<and>
            list_all (still_held db org (mb_id target)) floors);
          db1 = delete_members hit db;
          gone = \<not> list_ex (\<lambda>m. mb_id m = mb_id target) (tn_members db1);
          db2 = delete_acting (\<lambda>a. gone \<and> ac_user a = mb_user target \<and> ac_org a = org) db1;
          db3 = delete_nominations (\<lambda>n. gone \<and> nm_membership n = mb_id target) db2 in
      if spend_offers_made then delete_nominations (\<lambda>n. gone \<and> nm_org n = org \<and> nm_by n = mb_user target) db3 else db3)"

definition delete_membership ::
  "string \<Rightarrow> membership \<Rightarrow> string list list \<Rightarrow> bool \<Rightarrow> (tenancy \<Rightarrow> tenancy) \<Rightarrow> tenancy \<Rightarrow> end_outcome \<times> tenancy" where
  "delete_membership org target floors spend_offers_made later db =
     (let db' = delete_membership_batch org target floors spend_offers_made db;
          hit = (\<lambda>m. in_org org (mb_id target) m \<and> mb_role m = mb_role target \<and>
            list_all (still_held db org (mb_id target)) floors) in
      (if hits hit db > 0 then Removed
       else case current_role (later db') org (mb_id target) of
         None \<Rightarrow> Gone
       | Some role \<Rightarrow> if role = mb_role target then Floored else Stale, db'))"

definition end_membership ::
  "role_catalog \<Rightarrow> string \<Rightarrow> membership \<Rightarrow> bool \<Rightarrow> tenancy \<Rightarrow> (tenancy \<Rightarrow> tenancy) \<Rightarrow> tenancy \<Rightarrow>
     (org_error + membership \<times> bool) \<times> tenancy" where
  "end_membership c org target left r later db =
     (case and_then (refuse_if_unassignable c target) (\<lambda>_.
             if administers c (mb_role target) then refuse_if_last_administrator c r org target else Inr ()) of
       Inl e \<Rightarrow> (Inl e, db)
     | Inr _ \<Rightarrow>
         (case delete_membership org target (if administers c (mb_role target) then [administering_roles c] else []) False later db of
           (Removed, db') \<Rightarrow> (Inr (target, left), db')
         | (Stale, db') \<Rightarrow> (Inl Stale_role, db')
         | (Floored, db') \<Rightarrow> (Inl (refuse_unwritten True), db')
         | (Gone, db') \<Rightarrow> (Inl (refuse_unwritten False), db')))"

definition remove_member ::
  "role_catalog \<Rightarrow> string \<Rightarrow> string \<Rightarrow> member_actor \<Rightarrow> reads \<Rightarrow> (tenancy \<Rightarrow> tenancy) \<Rightarrow> tenancy \<Rightarrow>
     (org_error + membership \<times> bool) \<times> tenancy" where
  "remove_member c org i actor r later db =
     (case and_then (require_membership c (r 0) org i) (\<lambda>target.
             and_then (if mb_user target = ma_user actor then Inr ()
               else assert_power c (ma_role actor) ''organization:manage'') (\<lambda>_. Inr target)) of
       Inl e \<Rightarrow> (Inl e, db)
     | Inr target \<Rightarrow> end_membership c org target (mb_user target = ma_user actor) (r 1) later db)"

definition leave_organization ::
  "role_catalog \<Rightarrow> string \<Rightarrow> member_actor \<Rightarrow> reads \<Rightarrow> (tenancy \<Rightarrow> tenancy) \<Rightarrow> tenancy \<Rightarrow>
     (org_error + membership \<times> bool) \<times> tenancy" where
  "leave_organization c org actor r later db =
     (case find (\<lambda>m. mb_user m = ma_user actor \<and> mb_org m = org) (tn_members (r 0)) of
       None \<Rightarrow> (Inl No_such_member, db)
     | Some row \<Rightarrow> (case require_membership c (r 1) org (mb_id row) of
         Inl e \<Rightarrow> (Inl e, db)
       | Inr target \<Rightarrow> end_membership c org target True (r 2) later db))"

end
