(* ===== verification/Ownership.thy ===== *)
theory Ownership
  imports Roster
begin

text \<open>
  The operator's writes on the roster (\<open>members/members.ts\<close>) and the transfer of ownership
  (\<open>ownership/ownership.ts\<close>) of \<open>packages/organization\<close>, with the reads of each as in \<open>Roster\<close>.
\<close>

section \<open>The operator's roster\<close>

record owner_rule =
  ow_role :: string
  ow_may_confer :: bool

definition refuse_unless_may_confer :: "owner_rule \<Rightarrow> org_error + unit" where
  "refuse_unless_may_confer ow = guard Needs_ownership_scope (ow_may_confer ow)"

definition declared_role :: "role_catalog \<Rightarrow> string \<Rightarrow> org_error + string" where
  "declared_role c role = (if role \<in> set (rc_roles c) then Inr role else Inl Role_invalid)"

definition refuse_if_last_owner :: "tenancy \<Rightarrow> string \<Rightarrow> owner_rule \<Rightarrow> org_error + unit" where
  "refuse_if_last_owner t org ow = guard Last_owner (length (holders t org (ow_role ow)) > 1)"

definition operator_floor_refusal :: "tenancy \<Rightarrow> string \<Rightarrow> membership \<Rightarrow> owner_rule option \<Rightarrow> org_error" where
  "operator_floor_refusal t org target owner = (case owner of
     Some ow \<Rightarrow> if mb_role target = ow_role ow \<and> length (holders t org (ow_role ow)) \<le> 1 then Last_owner else Last_administrator
   | None \<Rightarrow> Last_administrator)"

definition owns :: "owner_rule option \<Rightarrow> string \<Rightarrow> bool" where
  "owns owner role = (case owner of None \<Rightarrow> False | Some ow \<Rightarrow> role = ow_role ow)"

text \<open>An add: refused past the seat limit by the count and by the insert, unless the request overrides it.\<close>

definition refuse_if_already_member :: "tenancy \<Rightarrow> string \<Rightarrow> user_id \<Rightarrow> org_error + unit" where
  "refuse_if_already_member t org u = (case find (\<lambda>m. mb_org m = org \<and> mb_user m = u) (tn_members t) of
     None \<Rightarrow> Inr () | Some m \<Rightarrow> Inl (Already_member (mb_role m)))"

definition insert_member :: "membership \<Rightarrow> tenancy \<Rightarrow> tenancy option" where
  "insert_member m t = (if list_ex (\<lambda>x. mb_id x = mb_id m \<or> mb_org x = mb_org m \<and> mb_user x = mb_user m) (tn_members t)
     then None else Some (t\<lparr>tn_members := tn_members t @ [m]\<rparr>))"

definition add_decision ::
  "role_catalog \<Rightarrow> string \<Rightarrow> user_id \<Rightarrow> string \<Rightarrow> bool \<Rightarrow> owner_rule option \<Rightarrow> reads \<Rightarrow> org_error + nat option" where
  "add_decision c org u role override owner r =
     and_then (declared_role c role) (\<lambda>_.
     and_then (case owner of Some ow \<Rightarrow> if role = ow_role ow then refuse_unless_may_confer ow else Inr () | None \<Rightarrow> Inr ()) (\<lambda>_.
     case map_of (tn_orgs (r 0)) org of
       None \<Rightarrow> Inl No_such_member
     | Some limit \<Rightarrow>
         and_then (refuse_if_already_member (r 1) org u) (\<lambda>_.
         and_then (case limit of None \<Rightarrow> Inr ()
           | Some n \<Rightarrow> guard (Seat_limit n) (count_members (r 2) org < n \<or> override)) (\<lambda>_. Inr limit))))"

text \<open>A limited add goes first through the insert that counts; \<open>between\<close> is what others write before the
  one that does not. An insert on a taken key asks who is there; no one there is the failure itself.\<close>

record added =
  ad_membership :: membership
  ad_seat_limit :: "nat option"
  ad_members_before :: nat
  ad_overrode :: bool

definition add_member ::
  "role_catalog \<Rightarrow> membership \<Rightarrow> bool \<Rightarrow> owner_rule option \<Rightarrow> reads \<Rightarrow> (tenancy \<Rightarrow> tenancy) \<Rightarrow> (tenancy \<Rightarrow> tenancy) \<Rightarrow> tenancy \<Rightarrow>
     (org_error option + added) \<times> tenancy" where
  "add_member c m override owner r between later db =
     (let answer = (\<lambda>limit over. \<lparr>ad_membership = m, ad_seat_limit = limit,
            ad_members_before = count_members (r 2) (mb_org m), ad_overrode = over\<rparr>);
          taken = (\<lambda>t. (Inl (case refuse_if_already_member (later t) (mb_org m) (mb_user m) of Inl e \<Rightarrow> Some e | Inr _ \<Rightarrow> None), t)) in
      case add_decision c (mb_org m) (mb_user m) (mb_role m) override owner r of
        Inl e \<Rightarrow> (Inl (Some e), db)
      | Inr None \<Rightarrow> (case insert_member m db of None \<Rightarrow> taken db | Some db' \<Rightarrow> (Inr (answer None False), db'))
      | Inr (Some limit) \<Rightarrow>
          if count_members db (mb_org m) < limit
          then (case insert_member m db of None \<Rightarrow> taken db | Some db' \<Rightarrow> (Inr (answer (Some limit) False), db'))
          else if \<not> override then (Inl (Some (Seat_limit limit)), db)
          else (case insert_member m (between db) of None \<Rightarrow> taken (between db) | Some db' \<Rightarrow> (Inr (answer (Some limit) True), db')))"

definition operator_change_decision ::
  "role_catalog \<Rightarrow> string \<Rightarrow> string \<Rightarrow> string \<Rightarrow> owner_rule option \<Rightarrow> reads \<Rightarrow> org_error + membership" where
  "operator_change_decision c org i role owner r =
     and_then (declared_role c role) (\<lambda>_.
     and_then (require_membership c (r 0) org i) (\<lambda>target.
     and_then (case owner of None \<Rightarrow> Inr () | Some ow \<Rightarrow>
         and_then (if mb_role target = ow_role ow \<and> role \<noteq> ow_role ow then refuse_if_last_owner (r 1) org ow else Inr ()) (\<lambda>_.
         if role \<noteq> mb_role target \<and> (role = ow_role ow \<or> mb_role target = ow_role ow) then refuse_unless_may_confer ow else Inr ())) (\<lambda>_.
     and_then (if administers c (mb_role target) \<and> \<not> administers c role
         then refuse_if_last_administrator c (r 2) org target else Inr ()) (\<lambda>_.
       Inr target))))"

definition operator_change_hit ::
  "role_catalog \<Rightarrow> string \<Rightarrow> membership \<Rightarrow> string \<Rightarrow> owner_rule option \<Rightarrow> tenancy \<Rightarrow> membership \<Rightarrow> bool" where
  "operator_change_hit c org target role owner db m \<longleftrightarrow>
     in_org org (mb_id target) m \<and> mb_role m = mb_role target \<and>
     (owns owner (mb_role target) \<and> \<not> owns owner role \<longrightarrow> still_held db org (mb_id target) [mb_role target]) \<and>
     (administers c (mb_role target) \<and> \<not> administers c role \<longrightarrow> still_held db org (mb_id target) (administering_roles c))"

definition change_role_as_operator ::
  "role_catalog \<Rightarrow> string \<Rightarrow> string \<Rightarrow> string \<Rightarrow> owner_rule option \<Rightarrow> reads \<Rightarrow> (tenancy \<Rightarrow> tenancy) \<Rightarrow> tenancy \<Rightarrow>
     (org_error + membership \<times> string) \<times> tenancy" where
  "change_role_as_operator c org i role owner r later db = (case operator_change_decision c org i role owner r of
     Inl e \<Rightarrow> (Inl e, db)
   | Inr target \<Rightarrow>
       let hit = operator_change_hit c org target role owner db;
           db1 = set_role hit role db;
           db2 = (if owns owner (mb_role target) \<and> \<not> owns owner role
             then delete_nominations (\<lambda>n. nm_org n = org \<and> nm_by n = mb_user target \<and>
               \<not> list_ex (\<lambda>m. mb_id m = mb_id target \<and> mb_role m = mb_role target) (tn_members db1)) db1
             else db1) in
       (if hits hit db = 1 then Inr (target\<lparr>mb_role := role\<rparr>, mb_role target)
        else Inl (case current_role (later db2) org (mb_id target) of
            None \<Rightarrow> No_such_member
          | Some now \<Rightarrow> if now \<noteq> mb_role target then Stale_role else operator_floor_refusal (later db2) org target owner), db2))"

definition operator_removal ::
  "role_catalog \<Rightarrow> string \<Rightarrow> string \<Rightarrow> owner_rule option \<Rightarrow> reads \<Rightarrow> org_error + membership" where
  "operator_removal c org i owner r =
     and_then (require_membership c (r 0) org i) (\<lambda>target.
     and_then (case owner of None \<Rightarrow> Inr () | Some ow \<Rightarrow>
         if mb_role target = ow_role ow
         then and_then (refuse_if_last_owner (r 1) org ow) (\<lambda>_. refuse_unless_may_confer ow) else Inr ()) (\<lambda>_.
     and_then (if administers c (mb_role target) then refuse_if_last_administrator c (r 2) org target else Inr ()) (\<lambda>_.
       Inr target)))"

definition remove_member_as_operator ::
  "role_catalog \<Rightarrow> string \<Rightarrow> string \<Rightarrow> owner_rule option \<Rightarrow> reads \<Rightarrow> (tenancy \<Rightarrow> tenancy) \<Rightarrow> tenancy \<Rightarrow>
     (org_error + membership) \<times> tenancy" where
  "remove_member_as_operator c org i owner r later db = (case operator_removal c org i owner r of
     Inl e \<Rightarrow> (Inl e, db)
   | Inr target \<Rightarrow>
       (case delete_membership org target
          ((if owns owner (mb_role target) then [[mb_role target]] else []) @
           (if administers c (mb_role target) then [administering_roles c] else []))
          (owns owner (mb_role target)) later db of
         (Removed, db') \<Rightarrow> (Inr target, db')
       | (Gone, db') \<Rightarrow> (Inl (refuse_unwritten False), db')
       | (Stale, db') \<Rightarrow> (Inl Stale_role, db')
       | (Floored, db') \<Rightarrow> (Inl (operator_floor_refusal (later db') org target owner), db')))"

section \<open>The two-party transfer\<close>

record ownership_roles =
  ow_confers :: string
  ow_demotes_to :: string

definition transferable_roles :: "role_catalog \<Rightarrow> ownership_roles \<Rightarrow> bool" where
  "transferable_roles c ro \<longleftrightarrow> ow_confers ro \<in> set (rc_roles c) \<and> ow_demotes_to ro \<in> set (rc_roles c) \<and>
     ow_confers ro \<noteq> ow_demotes_to ro \<and> ow_confers ro \<notin> set (rc_assignable c) \<and> administers c (ow_confers ro)"

definition require_transferable_roles :: "role_catalog \<Rightarrow> ownership_roles \<Rightarrow> org_error + unit" where
  "require_transferable_roles c ro = guard Roles_invalid (transferable_roles c ro)"

text \<open>Who may offer the account: a holder, to any member; or, when no one holds it, one who administers it, to themselves.\<close>

definition nominate_decision ::
  "role_catalog \<Rightarrow> string \<Rightarrow> string \<Rightarrow> user_id \<Rightarrow> millis \<Rightarrow> ownership_roles \<Rightarrow> millis \<Rightarrow> reads \<Rightarrow> org_error + membership" where
  "nominate_decision c org i by_user expires ro now r =
     and_then (require_transferable_roles c ro) (\<lambda>_.
     and_then (guard Nomination_invalid (now < expires)) (\<lambda>_.
     let hs = holders (r 0) org (ow_confers ro) in
     and_then (guard Forbidden (hs = [] \<or> by_user \<in> set (map mb_user hs))) (\<lambda>_.
     case find (in_org org i) (tn_members (r 1)) of
       None \<Rightarrow> Inl Nomination_invalid
     | Some m \<Rightarrow>
         and_then (guard Forbidden (hs \<noteq> [] \<or> mb_user m = by_user)) (\<lambda>_.
         and_then (guard Forbidden (hs \<noteq> [] \<or> mb_role m \<in> set (rc_roles c) \<and> administers c (mb_role m))) (\<lambda>_.
         and_then (guard Nomination_invalid (mb_role m \<noteq> ow_confers ro)) (\<lambda>_. Inr m))))))"

definition put_nomination :: "nomination \<Rightarrow> tenancy \<Rightarrow> tenancy" where
  "put_nomination n t = (if nm_org n \<in> set (map nm_org (tn_nominations t))
     then t\<lparr>tn_nominations := map (\<lambda>x. if nm_org x = nm_org n then n else x) (tn_nominations t)\<rparr>
     else t\<lparr>tn_nominations := tn_nominations t @ [n]\<rparr>)"

definition nominate ::
  "role_catalog \<Rightarrow> string \<Rightarrow> string \<Rightarrow> user_id \<Rightarrow> millis \<Rightarrow> ownership_roles \<Rightarrow> millis \<Rightarrow> reads \<Rightarrow> tenancy \<Rightarrow>
     (org_error + nomination) \<times> tenancy" where
  "nominate c org i by_user expires ro now r db = (case nominate_decision c org i by_user expires ro now r of
     Inl e \<Rightarrow> (Inl e, db)
   | Inr m \<Rightarrow> let n = \<lparr>nm_org = org, nm_membership = mb_id m, nm_by = by_user, nm_expires = expires, nm_created = now\<rparr> in
       (Inr n, put_nomination n db))"

definition standing_nomination :: "tenancy \<Rightarrow> string \<Rightarrow> millis \<Rightarrow> nomination option" where
  "standing_nomination t org now = find (\<lambda>n. nm_org n = org \<and> now < nm_expires n) (tn_nominations t)"

definition withdraw_decision :: "string \<Rightarrow> user_id \<Rightarrow> ownership_roles \<Rightarrow> reads \<Rightarrow> org_error + unit" where
  "withdraw_decision org u ro r =
     (let hs = holders (r 0) org (ow_confers ro) in
      if hs \<noteq> [] then guard Forbidden (u \<in> set (map mb_user hs))
      else (case find (\<lambda>n. nm_org n = org \<and> nm_membership n \<in> set (map mb_id (tn_members (r 1)))) (tn_nominations (r 1)) of
          None \<Rightarrow> Inr ()
        | Some n \<Rightarrow> guard Forbidden (map_option mb_user (find (\<lambda>m. mb_id m = nm_membership n) (tn_members (r 1))) = Some u)))"

definition withdraw_nomination :: "string \<Rightarrow> user_id \<Rightarrow> ownership_roles \<Rightarrow> reads \<Rightarrow> tenancy \<Rightarrow> (org_error + bool) \<times> tenancy" where
  "withdraw_nomination org u ro r db = (case withdraw_decision org u ro r of
     Inl e \<Rightarrow> (Inl e, db)
   | Inr _ \<Rightarrow> (Inr (org \<in> set (map nm_org (tn_nominations db))), delete_nominations (\<lambda>n. nm_org n = org) db))"

text \<open>The transfer: demote whoever holds the role, promote the nominee, spend the offer naming them. One batch,
  of statements that match what they match.\<close>

record transferred =
  tr_new_holder :: string
  tr_previous :: "(string \<times> user_id) list"
  tr_previous_role :: string

definition accept_decision ::
  "role_catalog \<Rightarrow> string \<Rightarrow> user_id \<Rightarrow> millis \<Rightarrow> ownership_roles \<Rightarrow> reads \<Rightarrow> org_error + (membership \<times> membership list)" where
  "accept_decision c org u now ro r =
     and_then (require_transferable_roles c ro) (\<lambda>_.
     case standing_nomination (r 0) org now of
       None \<Rightarrow> Inl Nomination_invalid
     | Some n \<Rightarrow> (case find (in_org org (nm_membership n)) (tn_members (r 1)) of
         None \<Rightarrow> Inl Nomination_invalid
       | Some m \<Rightarrow> if mb_user m \<noteq> u then Inl Nomination_invalid
           else Inr (m, filter (\<lambda>h. mb_id h \<noteq> mb_id m) (holders (r 2) org (ow_confers ro)))))"

definition accept_batch :: "string \<Rightarrow> ownership_roles \<Rightarrow> membership \<Rightarrow> bool \<Rightarrow> tenancy \<Rightarrow> tenancy" where
  "accept_batch org ro nominee demoting db =
     (let db1 = (if demoting then set_role (\<lambda>m. mb_org m = org \<and> mb_role m = ow_confers ro \<and> mb_id m \<noteq> mb_id nominee) (ow_demotes_to ro) db
            else db);
          db2 = set_role (in_org org (mb_id nominee)) (ow_confers ro) db1 in
      delete_nominations (\<lambda>n. nm_org n = org \<and> nm_membership n = mb_id nominee) db2)"

definition accept_nomination ::
  "role_catalog \<Rightarrow> string \<Rightarrow> user_id \<Rightarrow> millis \<Rightarrow> ownership_roles \<Rightarrow> reads \<Rightarrow> tenancy \<Rightarrow> (org_error + transferred) \<times> tenancy" where
  "accept_nomination c org u now ro r db = (case accept_decision c org u now ro r of
     Inl e \<Rightarrow> (Inl e, db)
   | Inr (nominee, previous) \<Rightarrow>
       (if length [n \<leftarrow> tn_nominations db. nm_org n = org \<and> nm_membership n = mb_id nominee] \<noteq> 1 then Inl Nomination_invalid
        else Inr \<lparr>tr_new_holder = mb_id nominee, tr_previous = map (\<lambda>h. (mb_id h, mb_user h)) previous, tr_previous_role = mb_role nominee\<rparr>,
        accept_batch org ro nominee (previous \<noteq> []) db))"

section \<open>The operator's transfer\<close>

datatype previous_owner = Keep | Remove

record forced =
  fo_new_holder :: "string \<times> user_id \<times> string"
  fo_previous :: "(string \<times> user_id) list"
  fo_removed :: bool

definition force_decision :: "role_catalog \<Rightarrow> string \<Rightarrow> string \<Rightarrow> ownership_roles \<Rightarrow> reads \<Rightarrow> org_error + membership" where
  "force_decision c org i ro r =
     and_then (require_transferable_roles c ro) (\<lambda>_.
     case find (in_org org i) (tn_members (r 0)) of
       None \<Rightarrow> Inl No_such_member
     | Some m \<Rightarrow> and_then (guard Already_owns (mb_role m \<noteq> ow_confers ro)) (\<lambda>_. Inr m))"

text \<open>Every statement that takes something away is conditional on the nominee's membership.\<close>

definition force_batch :: "string \<Rightarrow> ownership_roles \<Rightarrow> membership \<Rightarrow> previous_owner \<Rightarrow> tenancy \<Rightarrow> tenancy" where
  "force_batch org ro nominee mode db =
     (let stays = (\<lambda>t. list_ex (in_org org (mb_id nominee)) (tn_members t));
          holds = (\<lambda>m. mb_org m = org \<and> mb_role m = ow_confers ro \<and> mb_id m \<noteq> mb_id nominee);
          db1 = (case mode of
            Keep \<Rightarrow> set_role (\<lambda>m. holds m \<and> stays db) (ow_demotes_to ro) db
          | Remove \<Rightarrow>
              (let d = delete_acting (\<lambda>a. ac_org a = org \<and> ac_user a \<in> set (map mb_user (filter holds (tn_members db))) \<and> stays db) db in
               delete_members (\<lambda>m. holds m \<and> stays d) d));
          db2 = set_role (in_org org (mb_id nominee)) (ow_confers ro) db1 in
      delete_nominations (\<lambda>n. nm_org n = org \<and> stays db2) db2)"

definition force_ownership ::
  "role_catalog \<Rightarrow> string \<Rightarrow> string \<Rightarrow> previous_owner \<Rightarrow> ownership_roles \<Rightarrow> reads \<Rightarrow> tenancy \<Rightarrow> (org_error + forced) \<times> tenancy" where
  "force_ownership c org i mode ro r db = (case force_decision c org i ro r of
     Inl e \<Rightarrow> (Inl e, db)
   | Inr nominee \<Rightarrow>
       (let previous = (if list_ex (in_org org (mb_id nominee)) (tn_members db)
              then filter (\<lambda>m. mb_id m \<noteq> mb_id nominee) (holders db org (ow_confers ro)) else []) in
        (if hits (in_org org (mb_id nominee)) db \<noteq> 1 then Inl No_such_member
         else Inr \<lparr>fo_new_holder = (mb_id nominee, mb_user nominee, mb_role nominee),
           fo_previous = map (\<lambda>h. (mb_id h, mb_user h)) previous, fo_removed = (mode = Remove \<and> previous \<noteq> [])\<rparr>,
         force_batch org ro nominee mode db)))"

end
