(* ===== verification/Ownership_Laws.thy ===== *)
theory Ownership_Laws
  imports Ownership
begin

text \<open>
  An account's floors under every interleaving: that somebody administers it, and that somebody owns
  it, as each is kept or lost by the writes of the roster and of the transfers.
\<close>

section \<open>Somebody with one of the roles\<close>

definition has_role :: "string set \<Rightarrow> string \<Rightarrow> tenancy \<Rightarrow> bool" where
  "has_role roles org t \<longleftrightarrow> (\<exists>m\<in>set (tn_members t). mb_org m = org \<and> mb_role m \<in> roles)"

definition administered :: "role_catalog \<Rightarrow> string \<Rightarrow> tenancy \<Rightarrow> bool" where
  "administered c org t \<longleftrightarrow> has_role (Collect (administers c)) org t"

definition owned :: "ownership_roles \<Rightarrow> string \<Rightarrow> tenancy \<Rightarrow> bool" where
  "owned ro org t \<longleftrightarrow> has_role {ow_confers ro} org t"

lemma administering_set [simp]: "set (administering_roles c) = Collect (administers c)"
proof -
  have "role \<in> fst ` set (rc_matrix c)" if "administers c role" for role
    using that by (cases "map_of (rc_matrix c) role")
      (auto simp: administers_def role_allows_def held_def dest: map_of_SomeD intro: rev_image_eqI)
  then show ?thesis by (auto simp: administering_roles_def rc_roles_def)
qed

lemma writes_members [simp]:
  "tn_members (delete_acting f t) = tn_members t" "tn_members (delete_nominations g t) = tn_members t"
  "tn_members (put_nomination n t) = tn_members t" "tn_members (delete_members h t) = [m \<leftarrow> tn_members t. \<not> h m]"
  "tn_members (set_role h role t) = map (\<lambda>m. if h m then m\<lparr>mb_role := role\<rparr> else m) (tn_members t)"
  by (simp_all add: delete_acting_def delete_nominations_def put_nomination_def delete_members_def set_role_def)

lemma has_role_members: "tn_members t = tn_members t' \<Longrightarrow> has_role rs org t = has_role rs org t'"
  by (simp add: has_role_def)

lemma set_role_keeps:
  assumes "has_role rs org t"
    and "\<And>m. m \<in> set (tn_members t) \<Longrightarrow> hit m \<Longrightarrow> mb_org m = org \<Longrightarrow> mb_role m \<in> rs \<Longrightarrow> role \<notin> rs \<Longrightarrow>
      \<exists>x\<in>set (tn_members t). mb_org x = org \<and> mb_role x \<in> rs \<and> \<not> hit x"
  shows "has_role rs org (set_role hit role t)"
proof -
  from assms(1) obtain m where m: "m \<in> set (tn_members t)" "mb_org m = org" "mb_role m \<in> rs" by (auto simp: has_role_def)
  show ?thesis
  proof (cases "hit m \<and> role \<notin> rs")
    case True
    with assms(2) m obtain x where "x \<in> set (tn_members t)" "mb_org x = org" "mb_role x \<in> rs" "\<not> hit x" by blast
    then show ?thesis by (force simp: has_role_def)
  next
    case False
    then have "mb_role (if hit m then m\<lparr>mb_role := role\<rparr> else m) \<in> rs" using m(3) by simp
    moreover have "mb_org (if hit m then m\<lparr>mb_role := role\<rparr> else m) = org" using m(2) by simp
    ultimately show ?thesis using m(1) unfolding has_role_def writes_members set_map by blast
  qed
qed

lemma delete_keeps:
  assumes "has_role rs org t"
    and "\<And>m. m \<in> set (tn_members t) \<Longrightarrow> hit m \<Longrightarrow> mb_org m = org \<Longrightarrow> mb_role m \<in> rs \<Longrightarrow>
      \<exists>x\<in>set (tn_members t). mb_org x = org \<and> mb_role x \<in> rs \<and> \<not> hit x"
  shows "has_role rs org (delete_members hit t)"
proof -
  from assms(1) obtain m where m: "m \<in> set (tn_members t)" "mb_org m = org" "mb_role m \<in> rs" by (auto simp: has_role_def)
  show ?thesis
  proof (cases "hit m")
    case True
    with assms(2) m show ?thesis by (auto simp: has_role_def)
  next
    case False
    with m show ?thesis by (auto simp: has_role_def)
  qed
qed

text \<open>The floor in a statement, for the membership it spares.\<close>

lemma floor_spares:
  assumes "still_held t org i rs" "set rs \<subseteq> S" "\<And>m. hit m \<Longrightarrow> mb_id m = i"
  shows "\<exists>x\<in>set (tn_members t). mb_org x = org \<and> mb_role x \<in> S \<and> \<not> hit x"
  using assms by (auto simp: still_held_def list_ex_iff)

lemma decided_role: "require_membership c t org i = Inr m \<Longrightarrow> in_org org i m \<and> mb_role m \<in> set (rc_roles c)"
  by (auto simp: require_membership_def dest: find_in_set split: option.splits if_splits)

section \<open>The roster's writes\<close>

text \<open>A floor of \<open>rs\<close> is carried whenever the membership decided on holds one of \<open>rs\<close>.\<close>

lemma delete_membership_keeps:
  assumes "has_role S org db" "mb_role target \<in> S \<Longrightarrow> \<exists>rs\<in>set floors. set rs \<subseteq> S"
  shows "has_role S org (snd (delete_membership org target floors spend later db))"
proof -
  let ?hit = "\<lambda>m. in_org org (mb_id target) m \<and> mb_role m = mb_role target \<and> list_all (still_held db org (mb_id target)) floors"
  have "has_role S org (delete_members ?hit db)"
  proof (rule delete_keeps [OF assms(1)])
    fix m assume m: "?hit m" "mb_role m \<in> S"
    with assms(2) obtain rs where rs: "rs \<in> set floors" "set rs \<subseteq> S" by auto
    with m(1) have "still_held db org (mb_id target) rs" by (simp add: list_all_iff)
    then show "\<exists>x\<in>set (tn_members db). mb_org x = org \<and> mb_role x \<in> S \<and> \<not> ?hit x"
      by (rule floor_spares [OF _ rs(2)]) (simp add: in_org_def)
  qed
  then show ?thesis by (simp add: delete_membership_def delete_membership_batch_def Let_def has_role_def)
qed

lemma end_membership_keeps:
  assumes "has_role S org db" "mb_role target \<in> S \<Longrightarrow> mb_role target \<notin> set (rc_assignable c) \<or>
    administers c (mb_role target) \<and> Collect (administers c) \<subseteq> S"
  shows "has_role S org (snd (end_membership c org target left r later db))"
proof (cases "mb_role target \<in> set (rc_assignable c)")
  case False
  then show ?thesis using assms(1) by (simp add: end_membership_def refuse_if_unassignable_def)
next
  case True
  let ?floors = "if administers c (mb_role target) then [administering_roles c] else []"
  have "has_role S org (snd (delete_membership org target ?floors False later db))"
    by (rule delete_membership_keeps [OF assms(1)]) (use assms(2) True in auto)
  then show ?thesis using assms(1) by (auto simp: end_membership_def split: sum.split prod.split end_outcome.split)
qed

lemma remove_member_keeps:
  assumes "has_role S org db" "\<And>role. role \<in> S \<Longrightarrow> role \<notin> set (rc_assignable c) \<or> administers c role \<and> Collect (administers c) \<subseteq> S"
  shows "has_role S org (snd (remove_member c org i actor r later db))"
    and "has_role S org (snd (leave_organization c org actor r later db))"
  using assms(1) end_membership_keeps [OF assms]
  by (auto simp: remove_member_def leave_organization_def split: sum.split option.split)

lemma operator_change_keeps:
  assumes "has_role S org db"
    and "\<And>a b. a \<in> S \<Longrightarrow> b \<notin> S \<Longrightarrow> (owns owner a \<and> \<not> owns owner b \<and> S = {a}) \<or>
      (administers c a \<and> \<not> administers c b \<and> Collect (administers c) \<subseteq> S)"
  shows "has_role S org (snd (change_role_as_operator c org i role owner r later db))"
proof (cases "operator_change_decision c org i role owner r")
  case (Inl e)
  then show ?thesis using assms(1) by (simp add: change_role_as_operator_def)
next
  case (Inr target)
  let ?hit = "operator_change_hit c org target role owner db"
  have "has_role S org (set_role ?hit role db)"
  proof (rule set_role_keeps [OF assms(1)])
    fix m assume m: "?hit m" "mb_role m \<in> S" "role \<notin> S"
    have same: "mb_role target \<in> S" using m(1,2) by (simp add: operator_change_hit_def)
    obtain rs where rs: "still_held db org (mb_id target) rs" "set rs \<subseteq> S"
      using assms(2) [OF same m(3)]
    proof
      assume "owns owner (mb_role target) \<and> \<not> owns owner role \<and> S = {mb_role target}"
      then show ?thesis using m(1) by (intro that [of "[mb_role target]"]) (simp_all add: operator_change_hit_def)
    next
      assume "administers c (mb_role target) \<and> \<not> administers c role \<and> Collect (administers c) \<subseteq> S"
      then show ?thesis using m(1) by (intro that [of "administering_roles c"]) (simp_all add: operator_change_hit_def)
    qed
    then show "\<exists>x\<in>set (tn_members db). mb_org x = org \<and> mb_role x \<in> S \<and> \<not> ?hit x"
      by (rule floor_spares) (simp add: operator_change_hit_def in_org_def)
  qed
  then show ?thesis using Inr by (simp add: change_role_as_operator_def Let_def has_role_def)
qed

lemma operator_removal_keeps:
  assumes "has_role S org db"
    and "\<And>a. a \<in> S \<Longrightarrow> (owns owner a \<and> S = {a}) \<or> (administers c a \<and> Collect (administers c) \<subseteq> S)"
  shows "has_role S org (snd (remove_member_as_operator c org i owner r later db))"
proof (cases "operator_removal c org i owner r")
  case (Inl e)
  then show ?thesis using assms(1) by (simp add: remove_member_as_operator_def)
next
  case (Inr target)
  let ?floors = "(if owns owner (mb_role target) then [[mb_role target]] else []) @
    (if administers c (mb_role target) then [administering_roles c] else [])"
  have "has_role S org (snd (delete_membership org target ?floors (owns owner (mb_role target)) later db))"
  proof (rule delete_membership_keeps [OF assms(1)])
    assume "mb_role target \<in> S"
    from assms(2) [OF this] show "\<exists>rs\<in>set ?floors. set rs \<subseteq> S"
    proof
      assume "owns owner (mb_role target) \<and> S = {mb_role target}"
      then have "[mb_role target] \<in> set ?floors" "set [mb_role target] \<subseteq> S" by simp_all
      then show ?thesis by blast
    next
      assume "administers c (mb_role target) \<and> Collect (administers c) \<subseteq> S"
      then have "administering_roles c \<in> set ?floors" "set (administering_roles c) \<subseteq> S" by simp_all
      then show ?thesis by blast
    qed
  qed
  then have "has_role S org db'"
    if "delete_membership org target ?floors (owns owner (mb_role target)) later db = (out, db')" for out db'
    using that by simp
  moreover obtain out db' where out: "delete_membership org target ?floors (owns owner (mb_role target)) later db = (out, db')"
    by (cases "delete_membership org target ?floors (owns owner (mb_role target)) later db")
  moreover have "snd (remove_member_as_operator c org i owner r later db) = db'"
    unfolding remove_member_as_operator_def Inr sum.case out prod.case by (cases out) simp_all
  ultimately show ?thesis by simp
qed

lemma insert_keeps: "has_role S org t \<Longrightarrow> insert_member m t = Some t' \<Longrightarrow> has_role S org t'"
  by (auto simp: insert_member_def has_role_def split: if_splits)

lemma add_keeps:
  assumes "has_role S org db" "has_role S org (between db)"
  shows "has_role S org (snd (add_member c m override owner r between later db))"
  using assms insert_keeps by (auto simp: add_member_def Let_def split: sum.split option.split)

section \<open>The transfers' writes\<close>

lemma offer_keeps:
  "has_role S org (snd (nominate c o1 i u expires ro now r db)) = has_role S org db"
  "has_role S org (snd (withdraw_nomination o1 u ro r db)) = has_role S org db"
  by (auto simp: nominate_def withdraw_nomination_def Let_def has_role_def split: sum.split)

text \<open>Promoting a member who is there makes an owner, whoever was demoted or removed.\<close>

lemma promoted:
  assumes "list_ex (in_org org i) (tn_members t)"
  shows "has_role {role} org (set_role (in_org org i) role t)"
proof -
  from assms obtain m where "m \<in> set (tn_members t)" "in_org org i m" by (auto simp: list_ex_iff)
  then have "m\<lparr>mb_role := role\<rparr> \<in> set (tn_members (set_role (in_org org i) role t))" "mb_org m = org"
    by (force simp: in_org_def)+
  then show ?thesis unfolding has_role_def by (intro bexI [of _ "m\<lparr>mb_role := role\<rparr>"]) simp_all
qed

lemma force_keeps:
  assumes "has_role S org db" "transferable_roles c ro \<Longrightarrow> ow_confers ro \<in> S"
  shows "has_role S org (snd (force_ownership c org i mode ro r db))"
proof (cases "force_decision c org i ro r")
  case (Inl e)
  then show ?thesis using assms(1) by (simp add: force_ownership_def)
next
  case (Inr nominee)
  then have roles: "transferable_roles c ro"
    by (auto simp: force_decision_def and_then_eq_Inr require_transferable_roles_def)
  let ?there = "list_ex (in_org org (mb_id nominee)) (tn_members db)"
  have "has_role S org (force_batch org ro nominee mode db)"
  proof (cases ?there)
    case True
    then have "has_role {ow_confers ro} org (force_batch org ro nominee mode db)"
      unfolding force_batch_def Let_def has_role_members [OF writes_members(2)]
      by (intro promoted) (cases mode; auto simp: list_ex_iff in_org_def)
    then show ?thesis using assms(2) [OF roles] by (auto simp: has_role_def)
  next
    case False
    then have "tn_members (force_batch org ro nominee mode db) = tn_members db"
      by (cases mode) (auto simp: force_batch_def Let_def list_ex_iff intro!: map_idI)
    then show ?thesis using assms(1) by (simp add: has_role_def)
  qed
  then show ?thesis using Inr by (simp add: force_ownership_def Let_def)
qed

section \<open>Member writes on the state they read\<close>

definition keyed :: "tenancy \<Rightarrow> bool" where
  "keyed t \<longleftrightarrow> distinct (map mb_id (tn_members t))"

lemma keyed_member:
  assumes "keyed t" "find (in_org org i) (tn_members t) = Some m" "x \<in> set (tn_members t)" "in_org org i x"
  shows "x = m"
proof -
  from find_in_set [OF assms(2)] have m: "m \<in> set (tn_members t)" "mb_id m = i" by (simp_all add: in_org_def)
  from assms(4) have x: "mb_id x = i" by (simp add: in_org_def)
  from assms(1) m x assms(3) show ?thesis unfolding keyed_def distinct_map by (metis inj_onD)
qed

lemma change_fresh_keeps:
  assumes "has_role S org db" "keyed db"
    and "\<And>a b. a \<in> S \<Longrightarrow> b \<notin> S \<Longrightarrow> a \<notin> set (rc_assignable c) \<or> administers c a \<and> \<not> administers c b \<and> Collect (administers c) \<subseteq> S"
  shows "has_role S org (snd (change_role c org i role actor (\<lambda>_. db) later db))"
proof (cases "change_decision c org i role actor (\<lambda>_. db)")
  case (Inl e)
  then show ?thesis using assms(1) by (simp add: change_role_def)
next
  case (Inr x)
  obtain target demoting where x: "x = (target, demoting)" by (cases x)
  from Inr have d: "require_membership c db org i = Inr target" "mb_role target \<in> set (rc_assignable c)"
    "demoting = (administers c (mb_role target) \<and> \<not> administers c role)"
    unfolding x by (auto simp: change_decision_def and_then_eq_Inr Let_def refuse_if_unassignable_def)
  then have found: "find (in_org org i) (tn_members db) = Some target" "mb_id target = i"
    by (auto simp: require_membership_def in_org_def dest: find_in_set split: option.splits if_splits)
  let ?hit = "\<lambda>m. in_org org (mb_id target) m \<and> (demoting \<longrightarrow> still_held db org (mb_id target) (administering_roles c))"
  have "has_role S org (set_role ?hit role db)"
  proof (rule set_role_keeps [OF assms(1)])
    fix m assume m: "m \<in> set (tn_members db)" "?hit m" "mb_role m \<in> S" "role \<notin> S"
    then have "m = target" using keyed_member [OF assms(2) found(1)] found(2) by blast
    with assms(3) [OF m(3,4)] d m(2) have rest: "still_held db org (mb_id target) (administering_roles c)"
      "set (administering_roles c) \<subseteq> S" by auto
    show "\<exists>x\<in>set (tn_members db). mb_org x = org \<and> mb_role x \<in> S \<and> \<not> ?hit x"
      by (rule floor_spares [OF rest]) (simp add: in_org_def)
  qed
  then show ?thesis using Inr x by (simp add: change_role_def Let_def)
qed

lemma accept_fresh_keeps:
  assumes "has_role S org db" "transferable_roles c ro \<Longrightarrow> ow_confers ro \<in> S"
  shows "has_role S org (snd (accept_nomination c org u now ro (\<lambda>_. db) db))"
proof (cases "accept_decision c org u now ro (\<lambda>_. db)")
  case (Inl e)
  then show ?thesis using assms(1) by (simp add: accept_nomination_def)
next
  case (Inr x)
  obtain nominee previous where x: "x = (nominee, previous)" by (cases x)
  from Inr have roles: "transferable_roles c ro" and "\<exists>i. find (in_org org i) (tn_members db) = Some nominee"
    unfolding x by (auto simp: accept_decision_def and_then_eq_Inr require_transferable_roles_def split: option.splits if_splits)
  then have "list_ex (in_org org (mb_id nominee)) (tn_members db)"
    using find_in_set by (fastforce simp: list_ex_iff in_org_def)
  then have "has_role {ow_confers ro} org (accept_batch org ro nominee (previous \<noteq> []) db)"
    unfolding accept_batch_def Let_def has_role_members [OF writes_members(2)]
    by (intro promoted) (auto simp: list_ex_iff in_org_def)
  then show ?thesis using assms(2) [OF roles] Inr x by (auto simp: accept_nomination_def has_role_def)
qed

section \<open>Runs\<close>

text \<open>The operations on one account, and each on the tables: \<open>r\<close>, \<open>between\<close> and \<open>later\<close> as above.\<close>

datatype org_op =
  Change string string member_actor
| Remove_member string member_actor
| Leave member_actor
| Add membership bool
| Operator_change string string
| Operator_remove string
| Offer string user_id millis millis
| Withdraw user_id
| Accept user_id millis
| Force string previous_owner

fun org_apply ::
  "role_catalog \<Rightarrow> ownership_roles \<Rightarrow> owner_rule \<Rightarrow> string \<Rightarrow> org_op \<Rightarrow> reads \<Rightarrow> (tenancy \<Rightarrow> tenancy) \<Rightarrow> (tenancy \<Rightarrow> tenancy) \<Rightarrow>
     tenancy \<Rightarrow> tenancy" where
  "org_apply c ro ow org (Change i role actor) r between later db = snd (change_role c org i role actor r later db)"
| "org_apply c ro ow org (Remove_member i actor) r between later db = snd (remove_member c org i actor r later db)"
| "org_apply c ro ow org (Leave actor) r between later db = snd (leave_organization c org actor r later db)"
| "org_apply c ro ow org (Add m override) r between later db = snd (add_member c m override (Some ow) r between later db)"
| "org_apply c ro ow org (Operator_change i role) r between later db = snd (change_role_as_operator c org i role (Some ow) r later db)"
| "org_apply c ro ow org (Operator_remove i) r between later db = snd (remove_member_as_operator c org i (Some ow) r later db)"
| "org_apply c ro ow org (Offer i u expires now) r between later db = snd (nominate c org i u expires ro now r db)"
| "org_apply c ro ow org (Withdraw u) r between later db = snd (withdraw_nomination org u ro r db)"
| "org_apply c ro ow org (Accept u now) r between later db = snd (accept_nomination c org u now ro r db)"
| "org_apply c ro ow org (Force i mode) r between later db = snd (force_ownership c org i mode ro r db)"

text \<open>A role change by a member and an acceptance write what they decided on what they read, without
  asking again.\<close>

fun rechecks_nothing :: "org_op \<Rightarrow> bool" where
  "rechecks_nothing (Change i role actor) = True"
| "rechecks_nothing (Accept u now) = True"
| "rechecks_nothing op = False"

inductive org_run :: "role_catalog \<Rightarrow> ownership_roles \<Rightarrow> owner_rule \<Rightarrow> string \<Rightarrow> tenancy \<Rightarrow> tenancy \<Rightarrow> bool" for c ro ow org where
  Start: "org_run c ro ow org db db"
| Raced: "org_run c ro ow org db0 db \<Longrightarrow> org_run c ro ow org db (between db) \<Longrightarrow> \<not> rechecks_nothing op \<Longrightarrow>
    org_run c ro ow org db0 (org_apply c ro ow org op r between later db)"
| Alone: "org_run c ro ow org db0 db \<Longrightarrow> org_run c ro ow org db0 (org_apply c ro ow org op (\<lambda>_. db) id later db)"

section \<open>Every run keeps the keys\<close>

lemma keyed_writes [simp]:
  "keyed t \<Longrightarrow> keyed (set_role h role t)" "keyed t \<Longrightarrow> keyed (delete_members g t)"
  "keyed (delete_acting k t) = keyed t" "keyed (delete_nominations j t) = keyed t" "keyed (put_nomination n t) = keyed t"
proof -
  show "keyed t \<Longrightarrow> keyed (set_role h role t)"
    by (simp add: keyed_def comp_def if_distrib cong: if_cong)
  show "keyed t \<Longrightarrow> keyed (delete_members g t)" by (simp add: keyed_def distinct_map_filter)
qed (simp_all add: keyed_def)

lemma keyed_insert: "keyed t \<Longrightarrow> insert_member m t = Some t' \<Longrightarrow> keyed t'"
  by (auto simp: insert_member_def keyed_def list_ex_iff image_iff split: if_splits) metis

lemma keyed_delete: "keyed db \<Longrightarrow> keyed (snd (delete_membership org target floors spend later db))"
  by (simp add: delete_membership_def delete_membership_batch_def Let_def)

lemma keyed_end: "keyed db \<Longrightarrow> keyed (snd (end_membership c org target left r later db))"
  using keyed_delete [of db org target "if administers c (mb_role target) then [administering_roles c] else []" False later]
  by (auto simp: end_membership_def split: sum.split prod.split end_outcome.split)

lemma keyed_operator_remove: "keyed db \<Longrightarrow> keyed (snd (remove_member_as_operator c org i owner r later db))"
proof (cases "operator_removal c org i owner r")
  case (Inr target)
  let ?floors = "(if owns owner (mb_role target) then [[mb_role target]] else []) @
    (if administers c (mb_role target) then [administering_roles c] else [])"
  obtain out db' where out: "delete_membership org target ?floors (owns owner (mb_role target)) later db = (out, db')"
    by (cases "delete_membership org target ?floors (owns owner (mb_role target)) later db")
  moreover have "snd (remove_member_as_operator c org i owner r later db) = db'"
    unfolding remove_member_as_operator_def Inr sum.case out prod.case by (cases out) simp_all
  ultimately show "keyed db \<Longrightarrow> ?thesis" using keyed_delete [of db org target ?floors "owns owner (mb_role target)" later] by simp
qed (simp add: remove_member_as_operator_def)

lemma keyed_apply:
  assumes "keyed db" "keyed (between db)"
  shows "keyed (org_apply c ro ow org op r between later db)"
proof (cases op)
  case (Change i role actor)
  then show ?thesis using assms(1) by (auto simp: change_role_def Let_def split: sum.split prod.split)
next
  case (Remove_member i actor)
  then show ?thesis using assms(1) keyed_end by (auto simp: remove_member_def split: sum.split)
next
  case (Leave actor)
  then show ?thesis using assms(1) keyed_end by (auto simp: leave_organization_def split: sum.split option.split)
next
  case (Add m override)
  then show ?thesis using assms keyed_insert by (auto simp: add_member_def Let_def split: sum.split option.split)
next
  case (Operator_change i role)
  then show ?thesis using assms(1) by (auto simp: change_role_as_operator_def Let_def split: sum.split)
next
  case (Operator_remove i)
  then show ?thesis using assms(1) keyed_operator_remove by simp
next
  case (Offer i u expires now)
  then show ?thesis using assms(1) by (auto simp: nominate_def Let_def split: sum.split)
next
  case (Withdraw u)
  then show ?thesis using assms(1) by (auto simp: withdraw_nomination_def split: sum.split)
next
  case (Accept u now)
  then show ?thesis using assms(1) by (auto simp: accept_nomination_def accept_batch_def Let_def split: sum.split prod.split)
next
  case (Force i mode)
  then show ?thesis using assms(1)
    by (cases mode) (auto simp: force_ownership_def force_batch_def Let_def split: sum.split)
qed

section \<open>Every run keeps the floors\<close>

text \<open>The two sets of roles a floor is kept for: the administering, and the one a transfer confers.\<close>

definition floor_roles :: "role_catalog \<Rightarrow> ownership_roles \<Rightarrow> string set \<Rightarrow> bool" where
  "floor_roles c ro S \<longleftrightarrow> S = Collect (administers c) \<or> S = {ow_confers ro}"

lemma apply_keeps:
  assumes "has_role S org db" "has_role S org (between db)" "floor_roles c ro S" "transferable_roles c ro"
    and "ow_role ow = ow_confers ro" "\<not> rechecks_nothing op"
  shows "has_role S org (org_apply c ro ow org op r between later db)"
proof -
  note roles = assms(3-5) [unfolded floor_roles_def transferable_roles_def]
  have member: "role \<in> S \<Longrightarrow> role \<notin> set (rc_assignable c) \<or> administers c role \<and> Collect (administers c) \<subseteq> S" for role
    using roles by auto
  have operator: "a \<in> S \<Longrightarrow> b \<notin> S \<Longrightarrow> (owns (Some ow) a \<and> \<not> owns (Some ow) b \<and> S = {a}) \<or>
      (administers c a \<and> \<not> administers c b \<and> Collect (administers c) \<subseteq> S)" for a b
    using roles by (auto simp: owns_def)
  have removal: "a \<in> S \<Longrightarrow> (owns (Some ow) a \<and> S = {a}) \<or> (administers c a \<and> Collect (administers c) \<subseteq> S)" for a
    using roles by (auto simp: owns_def)
  have conferred: "ow_confers ro \<in> S" using roles by auto
  show ?thesis
    using assms(1,2,6) remove_member_keeps [OF assms(1) member] add_keeps [where between = between, OF assms(1,2)]
      operator_change_keeps [OF assms(1) operator] operator_removal_keeps [OF assms(1) removal]
      force_keeps [OF assms(1) conferred] offer_keeps
    by (cases op) simp_all
qed

lemma alone_keeps:
  assumes "has_role S org db" "keyed db" "floor_roles c ro S" "transferable_roles c ro" "ow_role ow = ow_confers ro"
  shows "has_role S org (org_apply c ro ow org op (\<lambda>_. db) id later db)"
proof (cases "rechecks_nothing op")
  case False
  show ?thesis by (rule apply_keeps [OF _ _ assms(3-5) False]) (simp_all add: assms(1))
next
  case True
  note roles = assms(3,4) [unfolded floor_roles_def transferable_roles_def]
  have "a \<in> S \<Longrightarrow> b \<notin> S \<Longrightarrow> a \<notin> set (rc_assignable c) \<or> administers c a \<and> \<not> administers c b \<and> Collect (administers c) \<subseteq> S" for a b
    using roles by auto
  moreover have "ow_confers ro \<in> S" using roles by auto
  ultimately show ?thesis using True change_fresh_keeps [OF assms(1,2)] accept_fresh_keeps [OF assms(1)] by (cases op) auto
qed

lemma run_keeps:
  assumes "org_run c ro ow org db db'" "floor_roles c ro S" "transferable_roles c ro" "ow_role ow = ow_confers ro"
  shows "(keyed db \<longrightarrow> keyed db') \<and> (keyed db \<and> has_role S org db \<longrightarrow> has_role S org db')"
  using assms(1)
proof (induction rule: org_run.induct)
  case (Raced db0 db between op r later)
  then show ?case using keyed_apply apply_keeps [OF _ _ assms(2-4) Raced.hyps(3)] by blast
next
  case (Alone db0 db op later)
  then show ?case using keyed_apply [of db id] alone_keeps [OF _ _ assms(2-4)] by simp
qed simp

section \<open>Who comes to own\<close>

fun member_surface :: "org_op \<Rightarrow> bool" where
  "member_surface (Change i role actor) = True"
| "member_surface (Remove_member i actor) = True"
| "member_surface (Leave actor) = True"
| "member_surface (Offer i u expires now) = True"
| "member_surface (Withdraw u) = True"
| "member_surface (Accept u now) = True"
| "member_surface op = False"

lemma delete_membership_members:
  "set (tn_members (snd (delete_membership org target floors spend later db))) \<subseteq> set (tn_members db)"
  by (auto simp: delete_membership_def delete_membership_batch_def Let_def)

lemma end_membership_db:
  "snd (end_membership c org target left r later db) = db \<or>
   snd (end_membership c org target left r later db) =
     snd (delete_membership org target (if administers c (mb_role target) then [administering_roles c] else []) False later db)"
  by (auto simp: end_membership_def split: sum.split prod.split end_outcome.split)

lemma end_membership_members:
  "set (tn_members (snd (end_membership c org target left r later db))) \<subseteq> set (tn_members db)"
proof -
  let ?floors = "if administers c (mb_role target) then [administering_roles c] else []"
  note whole = delete_membership_members [of org target ?floors False later db]
  from end_membership_db [of c org target left r later db] show ?thesis
  proof
    assume out: "snd (end_membership c org target left r later db) = snd (delete_membership org target ?floors False later db)"
    show ?thesis unfolding out by (rule whole)
  qed simp
qed

lemma roster_only_removes:
  "set (tn_members (snd (remove_member c org i actor r later db))) \<subseteq> set (tn_members db)"
  "set (tn_members (snd (leave_organization c org actor r later db))) \<subseteq> set (tn_members db)"
  by (simp_all add: remove_member_def leave_organization_def end_membership_members split: sum.split option.split)

lemma offer_members:
  "tn_members (snd (nominate c org i u expires ro now r db)) = tn_members db"
  "tn_members (snd (withdraw_nomination org u ro r db)) = tn_members db"
  by (auto simp: nominate_def withdraw_nomination_def Let_def split: sum.split)

lemma change_makes_no_owner:
  assumes "transferable_roles c ro" "m \<in> set (tn_members (snd (change_role c org i role actor r later db)))" "mb_role m = ow_confers ro"
  shows "m \<in> set (tn_members db)"
proof (cases "change_decision c org i role actor r")
  case (Inr x)
  then have "role \<in> set (rc_assignable c)" by (auto simp: change_decision_def and_then_eq_Inr)
  then have "role \<noteq> ow_confers ro" using assms(1) by (auto simp: transferable_roles_def)
  then show ?thesis using assms(2,3) Inr by (auto simp: change_role_def Let_def split: prod.splits if_splits)
qed (use assms in \<open>simp add: change_role_def\<close>)

lemma accepted_owner:
  assumes "m \<in> set (tn_members (snd (accept_nomination c org u now ro r db)))" "mb_org m = org" "mb_role m = ow_confers ro"
    "m \<notin> set (tn_members db)" "ow_confers ro \<noteq> ow_demotes_to ro"
  shows "\<exists>n e. n \<in> set (tn_nominations (r 0)) \<and> nm_org n = org \<and> now < nm_expires n \<and> nm_membership n = mb_id m \<and>
    e \<in> set (tn_members (r 1)) \<and> in_org org (mb_id m) e \<and> mb_user e = u"
proof (cases "accept_decision c org u now ro r")
  case (Inl e)
  with assms show ?thesis by (simp add: accept_nomination_def)
next
  case (Inr x)
  obtain e previous where x: "x = (e, previous)" by (cases x)
  from Inr obtain n where n: "standing_nomination (r 0) org now = Some n"
    and e: "find (in_org org (nm_membership n)) (tn_members (r 1)) = Some e" "mb_user e = u"
    unfolding x by (auto simp: accept_decision_def and_then_eq_Inr split: option.splits if_splits)
  have "mb_id m = mb_id e"
  proof (rule ccontr)
    assume other: "mb_id m \<noteq> mb_id e"
    let ?demote = "\<lambda>m. if previous \<noteq> [] \<and> mb_org m = org \<and> mb_role m = ow_confers ro \<and> mb_id m \<noteq> mb_id e
      then m\<lparr>mb_role := ow_demotes_to ro\<rparr> else m"
    let ?promote = "\<lambda>m. if in_org org (mb_id e) m then m\<lparr>mb_role := ow_confers ro\<rparr> else m"
    have "tn_members (snd (accept_nomination c org u now ro r db)) = map ?promote (map ?demote (tn_members db))"
      using Inr x by (simp add: accept_nomination_def accept_batch_def Let_def)
    with assms(1) obtain m0 where m0: "m0 \<in> set (tn_members db)" "m = ?promote (?demote m0)" by auto
    have ids: "mb_id (?promote (?demote m0)) = mb_id m0" "mb_id (?demote m0) = mb_id m0" by simp_all
    then have "m = ?demote m0" using m0(2) other by (auto simp: in_org_def)
    then show False using m0(1) assms(3-5) by (simp split: if_splits)
  qed
  then show ?thesis using find_in_set [OF n [unfolded standing_nomination_def]] find_in_set [OF e(1)] e(2)
    by (auto simp: in_org_def)
qed

lemma accept_members:
  assumes "keyed db" "find (in_org org i) (tn_members db) = Some e"
  shows "tn_members (accept_batch org ro e (filter (\<lambda>h. mb_id h \<noteq> mb_id e) (holders db org (ow_confers ro)) \<noteq> []) db) =
    map (\<lambda>m. if mb_org m \<noteq> org then m else if mb_id m = mb_id e then m\<lparr>mb_role := ow_confers ro\<rparr>
      else if mb_role m = ow_confers ro then m\<lparr>mb_role := ow_demotes_to ro\<rparr> else m) (tn_members db)"
  by (auto simp: accept_batch_def Let_def in_org_def holders_def filter_empty_conv)

lemma filter_own_key: "distinct (map key xs) \<Longrightarrow> x \<in> set xs \<Longrightarrow> filter (\<lambda>y. key y = key x) xs = [x]"
proof (induction xs)
  case (Cons a xs)
  show ?case
  proof (cases "a = x")
    case True
    have "key y \<noteq> key x" if "y \<in> set xs" for y
      using Cons.prems(1) True imageI [OF that, of key] by auto
    then have "filter (\<lambda>y. key y = key x) xs = []" by (auto simp add: filter_empty_conv)
    with True show ?thesis by simp
  next
    case False
    with Cons.prems(2) have x: "x \<in> set xs" by simp
    then have "key a \<noteq> key x" using Cons.prems(1) imageI [OF x, of key] by auto
    with x Cons show ?thesis by simp
  qed
qed simp

lemma one_holder:
  assumes "keyed db" "find (in_org org i) (tn_members db) = Some e" "new_role \<noteq> old_role"
    and "tn_members db' = map (\<lambda>m. if mb_org m \<noteq> org then m else if mb_id m = mb_id e then m\<lparr>mb_role := new_role\<rparr>
      else if mb_role m = new_role then m\<lparr>mb_role := old_role\<rparr> else m) (tn_members db)"
  shows "map mb_id (holders db' org new_role) = [mb_id e]"
proof -
  define f where "f m = (if mb_org m \<noteq> org then m else if mb_id m = mb_id e then m\<lparr>mb_role := new_role\<rparr>
      else if mb_role m = new_role then m\<lparr>mb_role := old_role\<rparr> else m)" for m :: membership
  have e: "e \<in> set (tn_members db)" "mb_org e = org" using find_in_set [OF assms(2)] by (simp_all add: in_org_def)
  have own: "m = e" if "m \<in> set (tn_members db)" "mb_id m = mb_id e" for m
    using assms(1) e(1) that unfolding keyed_def distinct_map by (metis inj_onD)
  have "mb_org (f m) = org \<and> mb_role (f m) = new_role \<longleftrightarrow> mb_org m = org \<and> mb_id m = mb_id e" for m
    using assms(3) by (auto simp: f_def)
  then have "holders db' org new_role = map f [m \<leftarrow> tn_members db. mb_org m = org \<and> mb_id m = mb_id e]"
    unfolding holders_def assms(4) f_def [symmetric] filter_map comp_def by simp
  also have "[m \<leftarrow> tn_members db. mb_org m = org \<and> mb_id m = mb_id e] = [m \<leftarrow> tn_members db. mb_id m = mb_id e]"
    by (rule filter_cong [OF refl]) (use own e in blast)
  also have "\<dots> = [e]" by (rule filter_own_key [OF assms(1) [unfolded keyed_def] e(1)])
  finally show ?thesis by (simp add: f_def)
qed

section \<open>Who takes a seat\<close>

lemma count_writes [simp]:
  "count_members (set_role h role t) org = count_members t org" "count_members (delete_acting k t) org = count_members t org"
  "count_members (delete_nominations j t) org = count_members t org" "count_members (put_nomination n t) org = count_members t org"
  by (simp_all add: count_members_def filter_map comp_def if_distrib cong: if_cong)

lemma count_delete: "count_members (delete_members h t) org \<le> count_members t org"
proof -
  have "length (filter (\<lambda>m. mb_org m = org) (filter (\<lambda>m. \<not> h m) xs)) \<le> length (filter (\<lambda>m. mb_org m = org) xs)" for xs
    by (induction xs) auto
  then show ?thesis by (simp add: count_members_def del: filter_filter)
qed

lemma delete_membership_seats: "count_members (snd (delete_membership org target floors spend later db)) o1 \<le> count_members db o1"
  by (simp add: delete_membership_def delete_membership_batch_def Let_def count_delete)

lemma end_membership_seats: "count_members (snd (end_membership c org target left r later db)) o1 \<le> count_members db o1"
  using end_membership_db [of c org target left r later db] delete_membership_seats by (metis order_refl)

lemma operator_remove_seats: "count_members (snd (remove_member_as_operator c org i owner r later db)) o1 \<le> count_members db o1"
proof (cases "operator_removal c org i owner r")
  case (Inr target)
  let ?floors = "(if owns owner (mb_role target) then [[mb_role target]] else []) @
    (if administers c (mb_role target) then [administering_roles c] else [])"
  obtain out db' where out: "delete_membership org target ?floors (owns owner (mb_role target)) later db = (out, db')"
    by (cases "delete_membership org target ?floors (owns owner (mb_role target)) later db")
  moreover have "snd (remove_member_as_operator c org i owner r later db) = db'"
    unfolding remove_member_as_operator_def Inr sum.case out prod.case by (cases out) simp_all
  ultimately show ?thesis using delete_membership_seats [of org target ?floors "owns owner (mb_role target)" later db o1] by simp
qed (simp add: remove_member_as_operator_def)

lemma only_adds_seat:
  assumes "\<And>m override. op \<noteq> Add m override"
  shows "count_members (org_apply c ro ow org op r between later db) o1 \<le> count_members db o1"
proof (cases op)
  case (Change i role actor)
  then show ?thesis by (auto simp: change_role_def Let_def split: sum.split prod.split)
next
  case (Remove_member i actor)
  then show ?thesis by (auto simp: remove_member_def end_membership_seats split: sum.split)
next
  case (Leave actor)
  then show ?thesis by (auto simp: leave_organization_def end_membership_seats split: sum.split option.split)
next
  case (Operator_change i role)
  then show ?thesis by (auto simp: change_role_as_operator_def Let_def split: sum.split)
next
  case (Operator_remove i)
  then show ?thesis by (simp add: operator_remove_seats)
next
  case (Offer i u expires now)
  then show ?thesis by (simp add: count_members_def offer_members)
next
  case (Withdraw u)
  then show ?thesis by (simp add: count_members_def offer_members)
next
  case (Accept u now)
  then show ?thesis by (auto simp: accept_nomination_def accept_batch_def Let_def split: sum.split prod.split)
next
  case (Force i mode)
  then show ?thesis
    by (cases mode) (auto simp: force_ownership_def force_batch_def Let_def split: sum.split intro: order_trans [OF count_delete])
qed (use assms in simp)

lemma insert_seats:
  "insert_member m t = Some t' \<Longrightarrow> count_members t' org = count_members t org + (if mb_org m = org then 1 else 0)"
  by (auto simp: insert_member_def count_members_def split: if_splits)

lemma add_keeps_seats:
  assumes "map_of (tn_orgs (r 0)) org = Some (Some n)" "count_members db org \<le> n"
  shows "count_members (snd (add_member c m False owner r between later db)) org \<le> n"
proof (cases "add_decision c (mb_org m) (mb_user m) (mb_role m) False owner r")
  case (Inl e)
  with assms(2) show ?thesis by (simp add: add_member_def Let_def)
next
  case (Inr limit)
  then have "map_of (tn_orgs (r 0)) (mb_org m) = Some limit"
    by (auto simp: add_decision_def and_then_eq_Inr split: option.splits)
  then have "mb_org m = org \<Longrightarrow> limit = Some n" using assms(1) by simp
  then show ?thesis using assms(2) Inr
    by (cases limit) (auto simp: add_member_def Let_def insert_seats split: option.split)
qed

end
