(* ===== verification/Ownership_Properties.thy ===== *)
theory Ownership_Properties
  imports Ownership_Laws
begin

text \<open>What an account's roster and its transfer of ownership promise, and two promises a race breaks.\<close>

section \<open>A small account\<close>

definition team_input :: role_input where
  "team_input = \<lparr>ri_powers = [''posts:write''],
     ri_roles = [(''reader'', [''organization:read'']), (''editor'', [''organization:read'', ''posts:write'']),
       (''admin'', [''organization:read'', ''organization:manage'', ''members:manage'']),
       (''owner'', [''organization:read'', ''organization:manage'', ''organization:delete'', ''members:manage'', ''billing:manage''])],
     ri_administrative = ''organization:manage'', ri_nests = [''reader'', ''admin'', ''owner''], ri_unassignable = [''owner'']\<rparr>"

definition team :: role_catalog where
  "team = (case define_roles team_input of Inr c \<Rightarrow> c)"

definition team_roles :: ownership_roles where
  "team_roles = \<lparr>ow_confers = ''owner'', ow_demotes_to = ''editor''\<rparr>"

definition team_owner :: owner_rule where
  "team_owner = \<lparr>ow_role = ''owner'', ow_may_confer = False\<rparr>"

definition member_as :: "string \<Rightarrow> string \<Rightarrow> membership" where
  "member_as u role = \<lparr>mb_id = ''m-'' @ u, mb_org = ''acme'', mb_user = u, mb_role = role, mb_created = 0\<rparr>"

definition account :: "membership list \<Rightarrow> tenancy" where
  "account ms = \<lparr>tn_orgs = [(''acme'', Some 2)], tn_members = ms, tn_nominations = [], tn_acting = []\<rparr>"

text \<open>An account whose owner has offered it to a reader, until the hundredth millisecond.\<close>

definition offered :: tenancy where
  "offered = (account [member_as ''ann'' ''owner'', member_as ''bo'' ''reader''])
     \<lparr>tn_nominations := [\<lparr>nm_org = ''acme'', nm_membership = ''m-bo'', nm_by = ''ann'', nm_expires = 100, nm_created = 1\<rparr>]\<rparr>"

lemma team_defined: "define_roles team_input = Inr team"
proof -
  have "case define_roles team_input of Inl _ \<Rightarrow> False | Inr _ \<Rightarrow> True" by code_simp
  then show ?thesis unfolding team_def by (cases "define_roles team_input") simp_all
qed

lemma team_transferable: "transferable_roles team team_roles"
  by code_simp

text \<open>The floors, as the sample tables decide them.\<close>

lemma floors_code:
  "administered c org t \<longleftrightarrow> list_ex (\<lambda>m. mb_org m = org \<and> administers c (mb_role m)) (tn_members t)"
  "owned ro org t \<longleftrightarrow> list_ex (\<lambda>m. mb_org m = org \<and> mb_role m = ow_confers ro) (tn_members t)"
  by (auto simp: administered_def owned_def has_role_def list_ex_iff)

section \<open>Floors\<close>

text \<open>C1: An account keeps somebody who administers it and, once owned, somebody who owns it: through any
  run of a member's and an operator's writes and of forced transfers, however stale the state each was
  decided on, as long as a member's role changes and acceptances meet the state they read.\<close>

theorem account_keeps_its_floors:
  assumes "org_run c ro ow org db db'" "transferable_roles c ro" "ow_role ow = ow_confers ro" "keyed db"
  shows "(administered c org db \<longrightarrow> administered c org db') \<and> (owned ro org db \<longrightarrow> owned ro org db')"
  using run_keeps [OF assms(1) _ assms(2,3)] assms(4) unfolding administered_def owned_def floor_roles_def by blast

theorem account_keeps_its_floors_witness:
  "administered team ''acme'' (org_apply team team_roles team_owner ''acme'' (Leave \<lparr>ma_user = ''bo'', ma_role = ''admin''\<rparr>)
     (\<lambda>_. account [member_as ''ann'' ''owner'', member_as ''bo'' ''admin'']) id id (account [member_as ''bo'' ''admin'', member_as ''cy'' ''reader'']))"
proof -
  let ?db = "account [member_as ''bo'' ''admin'', member_as ''cy'' ''reader'']"
    and ?r = "\<lambda>_. account [member_as ''ann'' ''owner'', member_as ''bo'' ''admin'']" and ?op = "Leave \<lparr>ma_user = ''bo'', ma_role = ''admin''\<rparr>"
  have "org_run team team_roles team_owner ''acme'' ?db (org_apply team team_roles team_owner ''acme'' ?op (\<lambda>n. ?r n) id id ?db)"
    by (rule org_run.Raced [OF org_run.Start]) (simp_all add: org_run.Start)
  moreover have "keyed ?db" by (simp add: keyed_def account_def member_as_def)
  moreover have "administered team ''acme'' ?db" unfolding floors_code by code_simp
  moreover have "ow_role team_owner = ow_confers team_roles" by (simp add: team_owner_def team_roles_def)
  ultimately show ?thesis using account_keeps_its_floors [OF _ team_transferable] by blast
qed



section \<open>Consent\<close>



text \<open>C8: An accepted transfer leaves one owner: when an acceptance meets the state it read and is answered, the
  nominee is the account's only owner, everyone who held the role has the one they fall back to, nobody
  else changed, and the offer is spent.\<close>

theorem acceptance_leaves_one_owner:
  assumes "keyed db" "accept_nomination c org u now ro (\<lambda>_. db) db = (Inr tr, db')"
  shows "map mb_id (holders db' org (ow_confers ro)) = [tr_new_holder tr] \<and>
    tn_members db' = map (\<lambda>m. if mb_org m \<noteq> org then m else if mb_id m = tr_new_holder tr then m\<lparr>mb_role := ow_confers ro\<rparr>
      else if mb_role m = ow_confers ro then m\<lparr>mb_role := ow_demotes_to ro\<rparr> else m) (tn_members db) \<and>
    tr_new_holder tr \<notin> nm_membership ` {n \<in> set (tn_nominations db'). nm_org n = org}"
proof (cases "accept_decision c org u now ro (\<lambda>_. db)")
  case (Inl e)
  with assms(2) show ?thesis by (simp add: accept_nomination_def)
next
  case (Inr x)
  obtain e previous where x: "x = (e, previous)" by (cases x)
  from Inr obtain i where e: "find (in_org org i) (tn_members db) = Some e"
    and p: "previous = filter (\<lambda>h. mb_id h \<noteq> mb_id e) (holders db org (ow_confers ro))" and roles: "ow_confers ro \<noteq> ow_demotes_to ro"
    unfolding x by (auto simp: accept_decision_def and_then_eq_Inr require_transferable_roles_def transferable_roles_def
        split: option.splits if_splits)
  have tr: "tr_new_holder tr = mb_id e" and db': "db' = accept_batch org ro e (previous \<noteq> []) db"
    using assms(2) Inr x by (auto simp: accept_nomination_def split: if_splits)
  note members = accept_members [OF assms(1) e, of ro, folded p, folded db']
  have "tr_new_holder tr \<notin> nm_membership ` {n \<in> set (tn_nominations db'). nm_org n = org}"
    unfolding db' tr by (auto simp: accept_batch_def Let_def delete_nominations_def)
  moreover have "map mb_id (holders db' org (ow_confers ro)) = [mb_id e]"
    by (rule one_holder [OF assms(1) e roles members])
  ultimately show ?thesis using members tr by simp
qed

theorem acceptance_leaves_one_owner_witness:
  "\<exists>tr db'. accept_nomination team ''acme'' ''bo'' 5 team_roles (\<lambda>_. offered) offered = (Inr tr, db') \<and>
     map mb_id (holders db' ''acme'' ''owner'') = [''m-bo'']"
proof -
  obtain out db' where out: "accept_nomination team ''acme'' ''bo'' 5 team_roles (\<lambda>_. offered) offered = (out, db')"
    by (cases "accept_nomination team ''acme'' ''bo'' 5 team_roles (\<lambda>_. offered) offered")
  moreover have "case fst (accept_nomination team ''acme'' ''bo'' 5 team_roles (\<lambda>_. offered) offered) of
      Inl e \<Rightarrow> False | Inr tr \<Rightarrow> tr_new_holder tr = ''m-bo''" by code_simp
  ultimately obtain tr where tr: "out = Inr tr" "tr_new_holder tr = ''m-bo''" by (cases out) simp_all
  moreover have "keyed offered" by (simp add: keyed_def offered_def account_def member_as_def)
  ultimately show ?thesis using out acceptance_leaves_one_owner [OF _ out [unfolded tr(1)]] by (simp add: team_roles_def)
qed

section \<open>Seats\<close>



section \<open>Roles\<close>



end
