(* ===== verification/Spec2Isabelle.thy ===== *)
theory Spec2Isabelle
  imports Ledger_Properties Table_Properties Session_Properties Wedged_Table Game_Properties Match_Queue_Properties Audit_Properties
    Retention_Properties Audit_Pass_Properties Purchase_Grants_Properties
    Ownership_Properties
begin

text \<open>
  A verification library for Pithy, a kit of packages (\<open>packages/*\<close>, TypeScript) from which an adopter
  composes a Cloudflare Worker: HTTP routes over packages that keep their state in D1 (SQLite), in
  Durable Objects and in R2. What is modelled is the state and the operations underneath the routes:
  where balances move, where games are played for them, where players are paired, where what
  happened is recorded and pruned, where purchases become entitlements, and where an account decides
  who runs and who owns it.

  \<^bold>\<open>How the parts interact.\<close> A session Durable Object (\<open>multiplayer\<close>) runs a game model; a wagering table's
  transitions name effects that the session settles through the ledger (\<open>ledger\<close>) before it keeps the
  game's new state. The open queue (\<open>matchmaking\<close>) pairs waiting players and mints the sessions they
  play in. Purchases that the stores' webhooks report (\<open>payments\<close>) are projected into rows and
  entitlements, and credit the same ledger. Privileged writes are recorded as events of a hash chain
  (\<open>core\<close>, \<open>audit\<close>), which a scheduled pass prunes by the retention policy (\<open>core\<close>) and a verifier walks.
  The roster (\<open>organization\<close>) decides who holds which role of an account.

  \<^bold>\<open>Ledger.\<close> \<open>Ledger\<close> is \<open>packages/ledger/src/ledger.ts\<close> with its tables and errors: accounts, an append-only
  entry log, holds, each operation as the reads it makes, the batch it prepares and the answer it
  gives (\<open>openLedger\<close>, \<open>openLedgerWrites\<close>). \<open>Ledger_Invariant\<close> proves that every batch an operation can
  send keeps the tables, whatever committed after its reads; \<open>Ledger_Interleaving\<close> makes a system of
  prepared and sent batches of concurrent Workers; \<open>Ledger_Laws\<close> gives each operation's branches and
  what redelivery does; \<open>Ledger_Properties\<close> states the outcome.

  \<^bold>\<open>Games.\<close> \<open>Effects\<close> (\<open>game/effects.ts\<close>) settles a list of effects; its locale \<open>stake_book\<close> is what a player
  of stakes may rely on, interpreted on the ledger. \<open>Game_Model\<close> is \<open>game/model.ts\<close> and the registry,
  \<open>Random_Source\<close> is \<open>game/random.ts\<close>, the commit-and-reveal stream. \<open>Wagering_Table\<close>, \<open>Turn_Based\<close> and
  \<open>Simultaneous\<close> are the patterns of \<open>game/patterns\<close>, \<open>Craps\<close> and \<open>Connect_N\<close> games of \<open>game/games\<close>, with
  \<open>Battle\<close> inside \<open>Simultaneous\<close>; the locales \<open>turn_rules\<close> and \<open>hidden_state\<close> hold what a pattern promises
  whatever the game. \<open>Table_Play\<close> plays a table over the ledger and \<open>Table_Properties\<close> shows that every
  stake on the felt is in escrow. \<open>Session\<close> is \<open>session/durableObject.ts\<close>: storage, session and result
  rows, alarms, every handler, with each D1 call allowed to fail. \<open>Session_Invariant\<close> and
  \<open>Session_Properties\<close> hold for every run and failure; \<open>Session_Table\<close> shows that the session refines the
  table while the ledger answers; \<open>Wedged_Table\<close> shows what one failed effect leaves for good.
  \<open>Game_Properties\<close> holds what the games themselves promise.

  \<^bold>\<open>Matchmaking.\<close> \<open>Matchmaking\<close> is the pairing rule (\<open>queue/matching.ts\<close>), \<open>Match_Queue\<close> the coordinator
  (\<open>queue/durableObject.ts\<close>), \<open>Match_Queue_Invariant\<close> and \<open>Match_Queue_Properties\<close> what it keeps and promises,
  mint failures included.

  \<^bold>\<open>Audit trail.\<close> \<open>Canonical_Json\<close> and \<open>Audit_Chain\<close> are \<open>core/src/audit/chain.ts\<close>: one text per event, the
  commitment, the walk that verifies. \<open>Audit_Chain_Laws\<close> says what an accepted walk is evidence of.
  \<open>Audit_Store\<close> (\<open>chain/rows.ts\<close>, \<open>chain/append.ts\<close>) and \<open>Audit_Append\<close> are concurrent appends one statement at
  a time. \<open>Audit_Bucket\<close> (\<open>chain/checkpoint.ts\<close>, \<open>chain/tombstone.ts\<close>) with its laws is the R2 bucket,
  \<open>Audit_Verify\<close> is \<open>chain/verify.ts\<close>, \<open>Audit_Prune\<close> one page of \<open>chain/prune.ts\<close>, \<open>Audit_Pass\<close> the whole pass of
  \<open>workflows/prune.ts\<close>. \<open>Audit_Trail\<close> defines what table and bucket together vouch for;
  \<open>Audit_Prune_Laws\<close>, \<open>Audit_Prune_Safety\<close> and \<open>Audit_Trail_Steps\<close> show that recording, checkpointing and
  pruning in any order keep it, and \<open>Audit_Pass_Laws\<close> follows a pass page by page. The promises are in
  \<open>Audit_Properties\<close>, \<open>Audit_Trail_Properties\<close> and \<open>Audit_Pass_Properties\<close>. \<open>Retention\<close> and
  \<open>Retention_Properties\<close> are \<open>core/src/retention/policy.ts\<close>, which the prune reads.

  \<^bold>\<open>Payments.\<close> \<open>Purchases\<close> is \<open>projection/writer.ts\<close>, \<open>projection/resolve.ts\<close>, \<open>entitlement/manual.ts\<close> and the data
  they read and write. \<open>Purchases_Laws\<close> takes the batch statement by statement, \<open>Purchases_Reads\<close> runs
  deliveries over time, \<open>Purchases_Follow\<close> relates entitlements to the purchases behind them, and
  \<open>Purchases_Properties\<close> states the outcome. \<open>Purchase_Grants\<close> (\<open>grants/apply.ts\<close>, \<open>grants/clawback.ts\<close>) credits
  the modelled ledger, with \<open>Purchase_Grants_Laws\<close> and \<open>Purchase_Grants_Properties\<close>.

  \<^bold>\<open>Organization.\<close> \<open>Role_Catalog\<close> is \<open>roles/roles.ts\<close>, \<open>Roster\<close> the member's half of \<open>members/members.ts\<close>,
  \<open>Ownership\<close> its operator's half and \<open>ownership/ownership.ts\<close>. Each operation takes the states its reads
  see and the state its write meets as separate arguments. \<open>Ownership_Laws\<close> shows which writes keep a
  floor of an account under every interleaving; \<open>Ownership_Properties\<close> states that, and the two races
  that break one.

  \<^bold>\<open>Shared.\<close> \<open>Pithy_Prelude\<close> holds JavaScript numbers as far as the code tests them, error-or-value results,
  tables as lists of rows, and the locale \<open>invariant_system\<close>, by which a property kept by every step
  holds in every run; ledger, sessions and queue interpret it.

  \<^bold>\<open>How code became definitions.\<close> A class or a row is a record, a union a datatype, a thrown error the left
  of a sum or a datatype of its own, a handler a function from the state to an answer and the next
  state. A D1 batch is one transaction, as D1 documents; a violated UNIQUE or CHECK constraint that
  the code relies on aborts it, and a statement that matches no row does not. Where several writers
  can interleave, an operation is split into what it read and the state its write meets, and a
  theorem either quantifies over every such state or says which reads must be current. Failures of
  D1, KV and the ledger's transport are arguments of the definitions, so a theorem that does not
  constrain them holds whichever calls fail. Code that the repository only calls is a parameter:
  SHA-256, \<open>crypto.getRandomValues\<close>, the collation of \<open>localeCompare\<close>, the providers' payloads.

  \<^bold>\<open>Numbers and bounds.\<close> Amounts, counters and times are unbounded integers. Where the code asks
  whether a number is an integer the model asks too; the loss of precision of a double past 2 to the
  53rd is not modelled. Match skills and search bands are exact
  rationals, and move powers in Battle integers, which are doubles in the source. The random stream's
  \<open>next() * n\<close> is exact for the \<open>n\<close> up to 2 to the 21st that the theorems ask for. JSON text and URI encoding
  cover characters of up to eight bits. Loops that stop because their input shrinks are structural or
  have a measure. The two that walk a chain until it ends, over pages of rows and across the tombstones
  of pruned ones, are partial functions that are None where the loop does not return, and
  \<open>verification_returns\<close> proves that a verification does. The prune's pass counts its pages down from the
  limit its source gives, and the theorem that it removes all that is due says what room is enough. The limit of D1 on bound parameters
  is modelled in the deletes of the prune, which are cut by it.

  \<^bold>\<open>Simplifications.\<close> One clock reading serves a list of effects. An operation retried by \<open>withD1Retry\<close> or
  as a durable step is one call. A Durable Object's mutations are serialized, so each is one step.
  An R2 listing of several pages is read as one, and an object as the value it parses to. A verify
  reads its rows in several statements, each over its own state. Ties in an \<open>ORDER BY\<close> are in table order.
  The formats of fields (hex hashes, ISO dates, identifiers) and the texts of errors, refusals and
  breaks are not modelled; which error is raised, and with which data the code reads again, is.
  The check constraints of the payments tables are not modelled, and a run of roster operations is
  over one account, whose operations name it.

  \<^bold>\<open>Not modelled.\<close> HTTP routes, request parsing and authorization middleware of every package, clients,
  migrations, seeds and purges of personal data; the other ways to a match (rooms, invites, friends,
  presence) and leaderboards and ratings, whose arithmetic is in doubles; the shipping and querying
  of audit events; the stores' own interfaces, checkout and metering in payments; invitations, the
  life cycle of accounts and the session's choice of account in organization; sign-in, which rests
  on cryptography and third parties; storage, media, mail, consent, support and secrets, which mostly
  call services; the command line, provisioning, build tooling and user interface, which are file
  system, processes, network and rendering.
\<close>

end
